(* ===== verification/Prelude.thy ===== *)
theory Prelude
  imports Main "HOL-Library.Word" "HOL-Library.Multiset"
begin

text \<open>
  Shared material of the development: names for the machine integer types of the source
  (\<open>include/common/dstore_datatype.h\<close>), the status codes the storage engine returns, and
  generic lemmas on bits, lists and counting that several components use.
\<close>

unbundle bit_operations_syntax

type_synonym uint8 = "8 word"
type_synonym uint16 = "16 word"
type_synonym uint32 = "32 word"
type_synonym uint64 = "64 word"

text \<open>\<open>RetStatus\<close>: every fallible operation of the engine returns one of these.\<close>

datatype RetStatus = DSTORE_SUCC | DSTORE_FAIL

named_theorems bit_facts \<open>reading single bits of masks\<close>
named_theorems queue_facts \<open>what queue and list operations do to contents\<close>

subsection \<open>Bits and masks\<close>

lemma word_and_nonzero_iff [bit_facts]:
  "(v AND w) \<noteq> 0 \<longleftrightarrow> (\<exists>n. bit v n \<and> bit w n)"
  for v w :: "'a::len word"
  by (auto simp: bit_eq_iff [of "v AND w" 0] bit_simps dest: bit_imp_le_length)

lemma and_single_bit_iff [bit_facts]:
  "(w AND push_bit n 1) \<noteq> 0 \<longleftrightarrow> bit w n"
  for w :: "'a::len word"
  unfolding word_and_nonzero_iff by (auto simp: bit_simps dest: bit_imp_le_length)

lemma single_bit_and_iff [bit_facts]:
  "(push_bit n 1 AND w) \<noteq> 0 \<longleftrightarrow> bit w n"
  for w :: "'a::len word"
  unfolding word_and_nonzero_iff by (auto simp: bit_simps dest: bit_imp_le_length)

lemma bit_or_single [bit_facts]:
  "bit (w OR push_bit n 1) m \<longleftrightarrow> bit w m \<or> (m = n \<and> n < LENGTH('a))"
  for w :: "'a::len word"
  by (auto simp: bit_simps)

lemma bit_and_not_single [bit_facts]:
  "bit (w AND NOT (push_bit n 1)) m \<longleftrightarrow> bit w m \<and> m \<noteq> n"
  for w :: "'a::len word"
  by (auto simp: bit_simps dest: bit_imp_le_length)

subsection \<open>Lists\<close>

lemma filter_remove1_other [queue_facts]:
  "\<not> P x \<Longrightarrow> filter P (remove1 x xs) = filter P xs"
  by (induction xs) auto

lemma length_filter_remove1 [queue_facts]:
  "x \<in> set xs \<Longrightarrow> P x \<Longrightarrow> Suc (length (filter P (remove1 x xs))) = length (filter P xs)"
  by (induction xs) auto

text \<open>The last element of a list, or nothing when the list is empty.\<close>

definition last_opt :: "'a list \<Rightarrow> 'a option" where
  "last_opt xs = (if xs = [] then None else Some (last xs))"

lemma last_opt_simps [simp]:
  "last_opt [] = None"
  "last_opt (xs @ [x]) = Some x"
  by (simp_all add: last_opt_def)

lemma last_opt_append: "last_opt (xs @ ys) = (if ys = [] then last_opt xs else last_opt ys)"
  by (simp add: last_opt_def)

lemma last_opt_SomeD: "last_opt xs = Some x \<Longrightarrow> xs \<noteq> [] \<and> x = last xs \<and> x \<in> set xs"
  by (auto simp: last_opt_def split: if_splits)

lemma of_nat_word_eq_0_iff:
  "n < 2 ^ LENGTH('a) \<Longrightarrow> (of_nat n :: 'a::len word) = 0 \<longleftrightarrow> n = 0"
  by (auto simp: word_of_nat_eq_0_iff dest: nat_dvd_not_less)

lemma unat_of_nat_small: "n < 2 ^ LENGTH('a) \<Longrightarrow> unat (of_nat n :: 'a::len word) = n"
  by (simp add: unsigned_of_nat take_bit_nat_eq_self)

end
