(* ===== verification/Lock_Mode.thy ===== *)
theory Lock_Mode
  imports Prelude
begin

text \<open>
  Lock modes, lock masks and the conflict table of the lock manager
  (\<open>interface/lock/dstore_lock_struct.h\<close>, \<open>include/lock/dstore_lock_datatype.h\<close>,
  \<open>src/lock/dstore_lock_entry.cpp\<close>). A lock mask is a 32-bit word with one bit per mode;
  the conflict table maps each mode to the mask of the modes it conflicts with.
\<close>

subsection \<open>Modes and masks\<close>

datatype LockMode =
    DSTORE_NO_LOCK
  | DSTORE_ACCESS_SHARE_LOCK
  | DSTORE_ROW_SHARE_LOCK
  | DSTORE_ROW_EXCLUSIVE_LOCK
  | DSTORE_SHARE_UPDATE_EXCLUSIVE_LOCK
  | DSTORE_SHARE_LOCK
  | DSTORE_SHARE_ROW_EXCLUSIVE_LOCK
  | DSTORE_EXCLUSIVE_LOCK
  | DSTORE_ACCESS_EXCLUSIVE_LOCK
  | DSTORE_LOCK_MODE_MAX

text \<open>The value of the enumerator, as \<open>static_cast<int>(mode)\<close> gives it.\<close>

fun lock_mode_code :: "LockMode \<Rightarrow> nat" where
  "lock_mode_code DSTORE_NO_LOCK = 0"
| "lock_mode_code DSTORE_ACCESS_SHARE_LOCK = 1"
| "lock_mode_code DSTORE_ROW_SHARE_LOCK = 2"
| "lock_mode_code DSTORE_ROW_EXCLUSIVE_LOCK = 3"
| "lock_mode_code DSTORE_SHARE_UPDATE_EXCLUSIVE_LOCK = 4"
| "lock_mode_code DSTORE_SHARE_LOCK = 5"
| "lock_mode_code DSTORE_SHARE_ROW_EXCLUSIVE_LOCK = 6"
| "lock_mode_code DSTORE_EXCLUSIVE_LOCK = 7"
| "lock_mode_code DSTORE_ACCESS_EXCLUSIVE_LOCK = 8"
| "lock_mode_code DSTORE_LOCK_MODE_MAX = 9"

text \<open>The modes a loop from \<open>DSTORE_ACCESS_SHARE_LOCK\<close> below \<open>DSTORE_LOCK_MODE_MAX\<close> visits.\<close>

definition requestable_modes :: "LockMode list" where
  "requestable_modes =
     [DSTORE_ACCESS_SHARE_LOCK, DSTORE_ROW_SHARE_LOCK, DSTORE_ROW_EXCLUSIVE_LOCK,
      DSTORE_SHARE_UPDATE_EXCLUSIVE_LOCK, DSTORE_SHARE_LOCK, DSTORE_SHARE_ROW_EXCLUSIVE_LOCK,
      DSTORE_EXCLUSIVE_LOCK, DSTORE_ACCESS_EXCLUSIVE_LOCK]"

type_synonym LockMask = uint32

definition GetLockMask :: "LockMode \<Rightarrow> LockMask" where
  "GetLockMask mode = push_bit (lock_mode_code mode) 1"

text \<open>
  The order of the enumerators, which \<open>LockRequest::Compare\<close> uses.
\<close>

instantiation LockMode :: linorder
begin

definition less_eq_LockMode :: "LockMode \<Rightarrow> LockMode \<Rightarrow> bool" where
  "less_eq_LockMode a b \<longleftrightarrow> lock_mode_code a \<le> lock_mode_code b"

definition less_LockMode :: "LockMode \<Rightarrow> LockMode \<Rightarrow> bool" where
  "less_LockMode a b \<longleftrightarrow> lock_mode_code a < lock_mode_code b"

instance
proof
  fix a b :: LockMode
  assume "a \<le> b" and "b \<le> a"
  then have "lock_mode_code a = lock_mode_code b"
    by (simp add: less_eq_LockMode_def)
  then show "a = b" by (cases a; cases b) simp_all
qed (auto simp: less_eq_LockMode_def less_LockMode_def)

end

lemma lock_mode_code_inject [simp]: "lock_mode_code a = lock_mode_code b \<longleftrightarrow> a = b"
  by (cases a; cases b) simp_all

instance LockMode :: finite
  by standard (rule finite_subset [of _ "set (DSTORE_NO_LOCK # DSTORE_LOCK_MODE_MAX # requestable_modes)"], auto simp: requestable_modes_def, metis LockMode.exhaust)

lemma lock_mode_code_less_32 [simp]: "lock_mode_code m < 32"
  by (cases m) simp_all

subsection \<open>The conflict table\<close>

definition lockConflictMap :: "LockMask list" where
  "lockConflictMap =
     [0,
      GetLockMask DSTORE_ACCESS_EXCLUSIVE_LOCK,
      GetLockMask DSTORE_EXCLUSIVE_LOCK OR GetLockMask DSTORE_ACCESS_EXCLUSIVE_LOCK,
      GetLockMask DSTORE_SHARE_LOCK OR GetLockMask DSTORE_SHARE_ROW_EXCLUSIVE_LOCK OR
        GetLockMask DSTORE_EXCLUSIVE_LOCK OR GetLockMask DSTORE_ACCESS_EXCLUSIVE_LOCK,
      GetLockMask DSTORE_SHARE_UPDATE_EXCLUSIVE_LOCK OR GetLockMask DSTORE_SHARE_LOCK OR
        GetLockMask DSTORE_SHARE_ROW_EXCLUSIVE_LOCK OR GetLockMask DSTORE_EXCLUSIVE_LOCK OR
        GetLockMask DSTORE_ACCESS_EXCLUSIVE_LOCK,
      GetLockMask DSTORE_ROW_EXCLUSIVE_LOCK OR GetLockMask DSTORE_SHARE_UPDATE_EXCLUSIVE_LOCK OR
        GetLockMask DSTORE_SHARE_ROW_EXCLUSIVE_LOCK OR GetLockMask DSTORE_EXCLUSIVE_LOCK OR
        GetLockMask DSTORE_ACCESS_EXCLUSIVE_LOCK,
      GetLockMask DSTORE_ROW_EXCLUSIVE_LOCK OR GetLockMask DSTORE_SHARE_UPDATE_EXCLUSIVE_LOCK OR
        GetLockMask DSTORE_SHARE_LOCK OR GetLockMask DSTORE_SHARE_ROW_EXCLUSIVE_LOCK OR
        GetLockMask DSTORE_EXCLUSIVE_LOCK OR GetLockMask DSTORE_ACCESS_EXCLUSIVE_LOCK,
      GetLockMask DSTORE_ROW_SHARE_LOCK OR GetLockMask DSTORE_ROW_EXCLUSIVE_LOCK OR
        GetLockMask DSTORE_SHARE_UPDATE_EXCLUSIVE_LOCK OR GetLockMask DSTORE_SHARE_LOCK OR
        GetLockMask DSTORE_SHARE_ROW_EXCLUSIVE_LOCK OR GetLockMask DSTORE_EXCLUSIVE_LOCK OR
        GetLockMask DSTORE_ACCESS_EXCLUSIVE_LOCK,
      GetLockMask DSTORE_ACCESS_SHARE_LOCK OR GetLockMask DSTORE_ROW_SHARE_LOCK OR
        GetLockMask DSTORE_ROW_EXCLUSIVE_LOCK OR GetLockMask DSTORE_SHARE_UPDATE_EXCLUSIVE_LOCK OR
        GetLockMask DSTORE_SHARE_LOCK OR GetLockMask DSTORE_SHARE_ROW_EXCLUSIVE_LOCK OR
        GetLockMask DSTORE_EXCLUSIVE_LOCK OR GetLockMask DSTORE_ACCESS_EXCLUSIVE_LOCK]"

text \<open>
  The array has one entry per mode below \<open>DSTORE_LOCK_MODE_MAX\<close>; reading it at
  \<open>DSTORE_LOCK_MODE_MAX\<close> is out of range in the source and unspecified here.
\<close>

definition GetConflictMask :: "LockMode \<Rightarrow> LockMask" where
  "GetConflictMask mode = lockConflictMap ! lock_mode_code mode"

definition HasConflictWithMode :: "LockMode \<Rightarrow> LockMode \<Rightarrow> bool" where
  "HasConflictWithMode requestedMode mode \<longleftrightarrow>
     (GetConflictMask requestedMode AND GetLockMask mode) \<noteq> 0"

definition HasConflictWithMask :: "LockMode \<Rightarrow> LockMask \<Rightarrow> bool" where
  "HasConflictWithMask requestedMode lmask \<longleftrightarrow> (GetConflictMask requestedMode AND lmask) \<noteq> 0"

text \<open>The overload of \<open>HasConflictWithMask\<close> on two masks: the loop over the modes.\<close>

fun mask_conflict_loop :: "LockMode list \<Rightarrow> LockMask \<Rightarrow> LockMask \<Rightarrow> bool" where
  "mask_conflict_loop [] requestedMask lmask = False"
| "mask_conflict_loop (i # is) requestedMask lmask =
     (if (requestedMask AND GetLockMask i) = 0 then mask_conflict_loop is requestedMask lmask
      else if HasConflictWithMask i lmask then True
      else mask_conflict_loop is requestedMask lmask)"

definition HasConflictMaskWithMask :: "LockMask \<Rightarrow> LockMask \<Rightarrow> bool" where
  "HasConflictMaskWithMask requestedMask lmask =
     mask_conflict_loop requestable_modes requestedMask lmask"

subsection \<open>Facts about masks\<close>

lemma GetLockMask_values [simp]:
  "GetLockMask DSTORE_NO_LOCK = 1"
  "GetLockMask DSTORE_ACCESS_SHARE_LOCK = 2"
  "GetLockMask DSTORE_ROW_SHARE_LOCK = 4"
  "GetLockMask DSTORE_ROW_EXCLUSIVE_LOCK = 8"
  "GetLockMask DSTORE_SHARE_UPDATE_EXCLUSIVE_LOCK = 16"
  "GetLockMask DSTORE_SHARE_LOCK = 32"
  "GetLockMask DSTORE_SHARE_ROW_EXCLUSIVE_LOCK = 64"
  "GetLockMask DSTORE_EXCLUSIVE_LOCK = 128"
  "GetLockMask DSTORE_ACCESS_EXCLUSIVE_LOCK = 256"
  "GetLockMask DSTORE_LOCK_MODE_MAX = 512"
  by (simp_all add: GetLockMask_def)

lemma GetConflictMask_values [simp]:
  "GetConflictMask DSTORE_NO_LOCK = 0"
  "GetConflictMask DSTORE_ACCESS_SHARE_LOCK = 256"
  "GetConflictMask DSTORE_ROW_SHARE_LOCK = 384"
  "GetConflictMask DSTORE_ROW_EXCLUSIVE_LOCK = 480"
  "GetConflictMask DSTORE_SHARE_UPDATE_EXCLUSIVE_LOCK = 496"
  "GetConflictMask DSTORE_SHARE_LOCK = 472"
  "GetConflictMask DSTORE_SHARE_ROW_EXCLUSIVE_LOCK = 504"
  "GetConflictMask DSTORE_EXCLUSIVE_LOCK = 508"
  "GetConflictMask DSTORE_ACCESS_EXCLUSIVE_LOCK = 510"
  by (simp_all add: GetConflictMask_def lockConflictMap_def)

lemma bit_GetLockMask [bit_facts]: "bit (GetLockMask a) n \<longleftrightarrow> n = lock_mode_code a"
  using lock_mode_code_less_32 [of a] by (auto simp: GetLockMask_def bit_simps)

lemma and_GetLockMask_iff [bit_facts]: "(w AND GetLockMask m) = 0 \<longleftrightarrow> \<not> bit w (lock_mode_code m)"
  using and_single_bit_iff [of w "lock_mode_code m"] by (auto simp only: GetLockMask_def)

lemma bit_or_GetLockMask [bit_facts]:
  "bit (w OR GetLockMask m) (lock_mode_code m') \<longleftrightarrow> bit w (lock_mode_code m') \<or> m' = m"
  by (auto simp: bit_or_iff bit_GetLockMask)

lemma bit_clear_GetLockMask [bit_facts]:
  "bit (w AND NOT (GetLockMask m)) (lock_mode_code m') \<longleftrightarrow> bit w (lock_mode_code m') \<and> m' \<noteq> m"
  by (simp only: GetLockMask_def bit_and_not_single lock_mode_code_inject)

text \<open>
  Every bit of a conflict mask is the bit of a requestable mode, so a mask conflict is a
  conflict with one of the modes in the mask.
\<close>

lemma conflict_mask_bits:
  assumes "m \<noteq> DSTORE_LOCK_MODE_MAX" and "bit (GetConflictMask m) n"
  shows "\<exists>m' \<in> set requestable_modes. n = lock_mode_code m'"
proof -
  have "bit (GetConflictMask m AND 510) n"
    using assms by (cases m) auto
  then have "bit (510 :: uint32) n" by (simp add: bit_and_iff)
  moreover have "(510 :: uint32) = fold (\<lambda>i w. w OR GetLockMask i) requestable_modes 0"
    by (simp add: requestable_modes_def)
  ultimately show ?thesis
    by (auto simp: requestable_modes_def bit_or_iff bit_GetLockMask simp del: GetLockMask_values)
qed

lemma HasConflictWithMask_iff:
  assumes "a \<noteq> DSTORE_LOCK_MODE_MAX"
  shows "HasConflictWithMask a lmask \<longleftrightarrow>
    (\<exists>m. HasConflictWithMode a m \<and> bit lmask (lock_mode_code m))"
proof
  assume "HasConflictWithMask a lmask"
  then obtain n where n: "bit (GetConflictMask a) n" "bit lmask n"
    by (auto simp: HasConflictWithMask_def word_and_nonzero_iff)
  then obtain m where "n = lock_mode_code m" using conflict_mask_bits assms by blast
  with n show "\<exists>m. HasConflictWithMode a m \<and> bit lmask (lock_mode_code m)"
    by (auto simp: HasConflictWithMode_def and_GetLockMask_iff)
next
  assume "\<exists>m. HasConflictWithMode a m \<and> bit lmask (lock_mode_code m)"
  then show "HasConflictWithMask a lmask"
    by (auto simp: HasConflictWithMode_def HasConflictWithMask_def and_GetLockMask_iff
        word_and_nonzero_iff)
qed

lemma mask_conflict_loop_iff:
  "mask_conflict_loop is req lmask \<longleftrightarrow>
     (\<exists>i \<in> set is. bit req (lock_mode_code i) \<and> HasConflictWithMask i lmask)"
  by (induction "is") (auto simp: and_GetLockMask_iff)

lemma HasConflictWithMode_commute:
  "a \<noteq> DSTORE_LOCK_MODE_MAX \<Longrightarrow> b \<noteq> DSTORE_LOCK_MODE_MAX \<Longrightarrow>
   HasConflictWithMode a b = HasConflictWithMode b a"
  by (cases a; cases b) (simp_all add: HasConflictWithMode_def)

lemma HasConflictWithMode_requestable:
  assumes "HasConflictWithMode a b" and "a \<noteq> DSTORE_LOCK_MODE_MAX"
  shows "b \<in> set requestable_modes"
  using conflict_mask_bits [OF assms(2), of "lock_mode_code b"] assms(1)
  by (auto simp: HasConflictWithMode_def and_GetLockMask_iff)

lemma requestable_not_max: "m \<in> set requestable_modes \<Longrightarrow> m \<noteq> DSTORE_LOCK_MODE_MAX"
  by (auto simp: requestable_modes_def)

lemma HasConflictMaskWithMask_pairs:
  "HasConflictMaskWithMask requestedMask lmask \<longleftrightarrow>
     (\<exists>a \<in> set requestable_modes. \<exists>b \<in> set requestable_modes.
        bit requestedMask (lock_mode_code a) \<and> bit lmask (lock_mode_code b) \<and> HasConflictWithMode a b)"
  unfolding HasConflictMaskWithMask_def mask_conflict_loop_iff
  using HasConflictWithMask_iff requestable_not_max HasConflictWithMode_requestable by metis

subsection \<open>Properties\<close>

text \<open>
  Conflict between two sets of modes is symmetric: it makes no difference whether the
  granted modes are checked against the requested ones or the other way round. In particular
  the conflict table of \<open>GetConflictMask\<close>, written out row by row, is symmetric.
\<close>

lemma HasConflictMaskWithMask_commute:
  "HasConflictMaskWithMask requestedMask lmask = HasConflictMaskWithMask lmask requestedMask"
  unfolding HasConflictMaskWithMask_pairs
  using HasConflictWithMode_commute requestable_not_max by metis

end
