(* ===== verification/Lock_Tag.thy ===== *)
theory Lock_Tag
  imports Prelude
begin

text \<open>
  Lock tags (\<open>LockTag\<close> of \<open>include/lock/dstore_lock_datatype.h\<close>): the key of a lockable
  object in the lock tables. There is one setter per kind of object; \<open>HashCompareFunc\<close> is
  the comparison the hash tables use, which looks only at the fields a kind of tag uses.
\<close>

subsection \<open>Tags\<close>

datatype LockTagType =
    LOCKTAG_TABLE
  | LOCKTAG_TABLE_EXTEND
  | LOCKTAG_TBS_EXTEND
  | LOCKTAG_TRANSACTION
  | LOCKTAG_CSN
  | LOCKTAG_ZONE
  | LOCKTAG_CONTROL_FILE
  | LOCKTAG_CONTROL_FILE_WAL_STREAM_ASSIGN
  | LOCKTAG_PARTITION
  | LOCKTAG_DEADLOCK_DETECT
  | LOCKTAG_PDB
  | LOCKTAG_LOGICAL_REPLICATION
  | LOCKTAG_PDB_REPLICA
  | LOCKTAG_OBJECT
  | LOCKTAG_ADVISORY
  | LOCKTAG_PACKAGE
  | LOCKTAG_PROCEDURE
  | LOCKTAG_CLEANPD
  | LOCKTAG_TABLESPACE
  | LOCKTAG_BACKUP_RESTORE
  | LOCKTAG_MAX_NUM

datatype LockMethodId = DEFAULT_LOCKMETHOD | USER_LOCKMETHOD | NODELEVEL_LOCKMETHOD | MAX_LOCKMETHOD

datatype LockRecoveryMode = RELEASE_AFTER_LOCK_RECOVERY | RELEASE_AFTER_SYSTEM_RECOVERY

record LockTag =
  field1 :: uint32
  field2 :: uint32
  field3 :: uint32
  field4 :: uint32
  field5 :: uint32
  lockTagType :: LockTagType
  lockMethodId :: LockMethodId
  recoveryMode :: LockRecoveryMode

text \<open>A tag with its hash code, as the lock tables take it, and the kinds of lock manager.\<close>

record LockTagCache =
  lockTag :: LockTag
  hashCode :: uint32

datatype LockMgrType = LOCK_MGR | TABLE_LOCK_MGR | XACT_LOCK_MGR | LOCK_MGR_TYPE_MAX

definition LockTag_default :: LockTag where
  "LockTag_default =
     \<lparr>field1 = 0, field2 = 0, field3 = 0, field4 = 0, field5 = 0,
      lockTagType = LOCKTAG_MAX_NUM, lockMethodId = DEFAULT_LOCKMETHOD,
      recoveryMode = RELEASE_AFTER_LOCK_RECOVERY\<rparr>"

definition SetFields :: "uint32 \<Rightarrow> uint32 \<Rightarrow> uint32 \<Rightarrow> uint32 \<Rightarrow> uint32 \<Rightarrow> LockTag \<Rightarrow> LockTag" where
  "SetFields f1 f2 f3 f4 f5 tag =
     tag\<lparr>field1 := f1, field2 := f2, field3 := f3, field4 := f4, field5 := f5\<rparr>"

text \<open>The enumerator values of the tag types, which index the two tables below.\<close>

fun lock_tag_type_code :: "LockTagType \<Rightarrow> nat" where
  "lock_tag_type_code LOCKTAG_TABLE = 0"
| "lock_tag_type_code LOCKTAG_TABLE_EXTEND = 1"
| "lock_tag_type_code LOCKTAG_TBS_EXTEND = 2"
| "lock_tag_type_code LOCKTAG_TRANSACTION = 3"
| "lock_tag_type_code LOCKTAG_CSN = 4"
| "lock_tag_type_code LOCKTAG_ZONE = 5"
| "lock_tag_type_code LOCKTAG_CONTROL_FILE = 6"
| "lock_tag_type_code LOCKTAG_CONTROL_FILE_WAL_STREAM_ASSIGN = 7"
| "lock_tag_type_code LOCKTAG_PARTITION = 8"
| "lock_tag_type_code LOCKTAG_DEADLOCK_DETECT = 9"
| "lock_tag_type_code LOCKTAG_PDB = 10"
| "lock_tag_type_code LOCKTAG_LOGICAL_REPLICATION = 11"
| "lock_tag_type_code LOCKTAG_PDB_REPLICA = 12"
| "lock_tag_type_code LOCKTAG_OBJECT = 13"
| "lock_tag_type_code LOCKTAG_ADVISORY = 14"
| "lock_tag_type_code LOCKTAG_PACKAGE = 15"
| "lock_tag_type_code LOCKTAG_PROCEDURE = 16"
| "lock_tag_type_code LOCKTAG_CLEANPD = 17"
| "lock_tag_type_code LOCKTAG_TABLESPACE = 18"
| "lock_tag_type_code LOCKTAG_BACKUP_RESTORE = 19"
| "lock_tag_type_code LOCKTAG_MAX_NUM = 20"

definition LOCK_METHOD_MAP :: "LockMethodId list" where
  "LOCK_METHOD_MAP =
     [DEFAULT_LOCKMETHOD,
      DEFAULT_LOCKMETHOD,
      DEFAULT_LOCKMETHOD,
      DEFAULT_LOCKMETHOD,
      NODELEVEL_LOCKMETHOD,
      NODELEVEL_LOCKMETHOD,
      DEFAULT_LOCKMETHOD,
      DEFAULT_LOCKMETHOD,
      DEFAULT_LOCKMETHOD,
      NODELEVEL_LOCKMETHOD,
      DEFAULT_LOCKMETHOD,
      DEFAULT_LOCKMETHOD,
      DEFAULT_LOCKMETHOD,
      DEFAULT_LOCKMETHOD,
      USER_LOCKMETHOD,
      DEFAULT_LOCKMETHOD,
      DEFAULT_LOCKMETHOD,
      DEFAULT_LOCKMETHOD,
      DEFAULT_LOCKMETHOD,
      DEFAULT_LOCKMETHOD]"

definition LOCK_RECOVERY_MAP :: "LockRecoveryMode list" where
  "LOCK_RECOVERY_MAP =
     [RELEASE_AFTER_SYSTEM_RECOVERY,
      RELEASE_AFTER_LOCK_RECOVERY,
      RELEASE_AFTER_LOCK_RECOVERY,
      RELEASE_AFTER_LOCK_RECOVERY,
      RELEASE_AFTER_LOCK_RECOVERY,
      RELEASE_AFTER_LOCK_RECOVERY,
      RELEASE_AFTER_LOCK_RECOVERY,
      RELEASE_AFTER_LOCK_RECOVERY,
      RELEASE_AFTER_LOCK_RECOVERY,
      RELEASE_AFTER_LOCK_RECOVERY,
      RELEASE_AFTER_LOCK_RECOVERY,
      RELEASE_AFTER_LOCK_RECOVERY,
      RELEASE_AFTER_LOCK_RECOVERY,
      RELEASE_AFTER_LOCK_RECOVERY,
      RELEASE_AFTER_SYSTEM_RECOVERY,
      RELEASE_AFTER_SYSTEM_RECOVERY,
      RELEASE_AFTER_SYSTEM_RECOVERY,
      RELEASE_AFTER_LOCK_RECOVERY,
      RELEASE_AFTER_LOCK_RECOVERY,
      RELEASE_AFTER_LOCK_RECOVERY]"

definition SetLockMethodId :: "LockTag \<Rightarrow> LockTag" where
  "SetLockMethodId tag =
     tag\<lparr>lockMethodId := LOCK_METHOD_MAP ! lock_tag_type_code (lockTagType tag)\<rparr>"

definition SetRecoveryMode :: "LockTag \<Rightarrow> LockTag" where
  "SetRecoveryMode tag =
     tag\<lparr>recoveryMode := LOCK_RECOVERY_MAP ! lock_tag_type_code (lockTagType tag)\<rparr>"

definition FillInData :: "uint32 \<Rightarrow> uint32 \<Rightarrow> uint32 \<Rightarrow> uint32 \<Rightarrow> uint32 \<Rightarrow> LockTag \<Rightarrow> LockTag" where
  "FillInData f1 f2 f3 f4 f5 tag = SetFields f1 f2 f3 f4 f5 (SetRecoveryMode (SetLockMethodId tag))"

definition SetInvalid :: "LockTag \<Rightarrow> LockTag" where
  "SetInvalid tag = tag\<lparr>lockTagType := LOCKTAG_MAX_NUM\<rparr>"

definition IsInvalid :: "LockTag \<Rightarrow> bool" where
  "IsInvalid tag \<longleftrightarrow> lockTagType tag = LOCKTAG_MAX_NUM"

subsection \<open>Splitting 64-bit identifiers\<close>

definition GetLow32Bits :: "uint64 \<Rightarrow> uint32" where
  "GetLow32Bits value = ucast (value AND 0xFFFFFFFF)"

definition GetHigh32Bits :: "uint64 \<Rightarrow> uint32" where
  "GetHigh32Bits value = ucast (drop_bit 32 value)"

definition Construct64Bits :: "uint32 \<Rightarrow> uint32 \<Rightarrow> uint64" where
  "Construct64Bits lower32Bits higher32Bits = push_bit 32 (ucast higher32Bits) OR ucast lower32Bits"

subsection \<open>One setter per kind of object\<close>

record PageId =
  m_fileId :: uint16
  m_blockId :: uint32

text \<open>\<open>DatabaseRelationId\<close>, \<open>LOGICAL_META_LOCK_ID\<close> and \<open>LOGICAL_SLOT_LOCK_ID\<close>.\<close>

definition DatabaseRelationId :: uint32 where "DatabaseRelationId = 1262"
definition LOGICAL_META_LOCK_ID :: uint32 where "LOGICAL_META_LOCK_ID = 1"
definition LOGICAL_SLOT_LOCK_ID :: uint32 where "LOGICAL_SLOT_LOCK_ID = 2"

definition SetTransactionLockTag :: "uint32 \<Rightarrow> uint64 \<Rightarrow> LockTag \<Rightarrow> LockTag" where
  "SetTransactionLockTag pdbId xid tag = FillInData pdbId (GetLow32Bits xid) (GetHigh32Bits xid) 0 0 (tag\<lparr>lockTagType := LOCKTAG_TRANSACTION\<rparr>)"

definition SetUndoZoneLockTag :: "uint32 \<Rightarrow> 32 word \<Rightarrow> LockTag \<Rightarrow> LockTag" where
  "SetUndoZoneLockTag pdbId zoneId tag = FillInData pdbId zoneId 0 0 0 (tag\<lparr>lockTagType := LOCKTAG_ZONE\<rparr>)"

definition SetCSNLockTag :: "LockTag \<Rightarrow> LockTag" where
  "SetCSNLockTag tag = FillInData 0 0 0 0 0 (tag\<lparr>lockTagType := LOCKTAG_CSN\<rparr>)"

definition SetTableExtensionLockTag :: "uint32 \<Rightarrow> PageId \<Rightarrow> LockTag \<Rightarrow> LockTag" where
  "SetTableExtensionLockTag pdbId segmentId tag = FillInData pdbId (ucast (m_fileId segmentId)) (m_blockId segmentId) 0 0 (tag\<lparr>lockTagType := LOCKTAG_TABLE_EXTEND\<rparr>)"

definition SetTableLockTag :: "uint32 \<Rightarrow> uint32 \<Rightarrow> LockTag \<Rightarrow> LockTag" where
  "SetTableLockTag pdbId relId tag = FillInData pdbId relId 0 0 0 (tag\<lparr>lockTagType := LOCKTAG_TABLE\<rparr>)"

definition SetTablespaceLockTag :: "uint32 \<Rightarrow> uint32 \<Rightarrow> LockTag \<Rightarrow> LockTag" where
  "SetTablespaceLockTag pdbId tablespaceId tag = FillInData pdbId tablespaceId 0 0 0 (tag\<lparr>lockTagType := LOCKTAG_TABLESPACE\<rparr>)"

definition SetBackupRestoreLockTag :: "uint32 \<Rightarrow> LockTag \<Rightarrow> LockTag" where
  "SetBackupRestoreLockTag pdbId tag = FillInData pdbId 0 0 0 0 (tag\<lparr>lockTagType := LOCKTAG_BACKUP_RESTORE\<rparr>)"

definition SetPdbLockTag :: "uint32 \<Rightarrow> LockTag \<Rightarrow> LockTag" where
  "SetPdbLockTag pdbId tag = FillInData 0 DatabaseRelationId pdbId 0 0 (tag\<lparr>lockTagType := LOCKTAG_PDB\<rparr>)"

definition SetPartitionLockTag :: "uint32 \<Rightarrow> uint32 \<Rightarrow> uint32 \<Rightarrow> LockTag \<Rightarrow> LockTag" where
  "SetPartitionLockTag pdbId relId partId tag = FillInData pdbId relId partId 0 0 (tag\<lparr>lockTagType := LOCKTAG_PARTITION\<rparr>)"

definition SetTbsExtensionLockTag :: "uint32 \<Rightarrow> PageId \<Rightarrow> LockTag \<Rightarrow> LockTag" where
  "SetTbsExtensionLockTag pdbId bitmapMetaPageId tag = FillInData pdbId (ucast (m_fileId bitmapMetaPageId)) (m_blockId bitmapMetaPageId) 0 0 (tag\<lparr>lockTagType := LOCKTAG_TBS_EXTEND\<rparr>)"

definition SetControlFileLockTag :: "uint32 \<Rightarrow> uint32 \<Rightarrow> LockTag \<Rightarrow> LockTag" where
  "SetControlFileLockTag pdbId groupType tag = FillInData pdbId groupType 0 0 0 (tag\<lparr>lockTagType := LOCKTAG_CONTROL_FILE\<rparr>)"

definition SetControlFileWalStreamAssignLockType :: "uint32 \<Rightarrow> LockTag \<Rightarrow> LockTag" where
  "SetControlFileWalStreamAssignLockType pdbId tag = FillInData pdbId 0 0 0 0 (tag\<lparr>lockTagType := LOCKTAG_CONTROL_FILE_WAL_STREAM_ASSIGN\<rparr>)"

definition SetDeadlockDetectorLockTag :: "LockTag \<Rightarrow> LockTag" where
  "SetDeadlockDetectorLockTag tag = FillInData 0 0 0 0 0 (tag\<lparr>lockTagType := LOCKTAG_DEADLOCK_DETECT\<rparr>)"

definition SetDecodeDictLockTag :: "uint32 \<Rightarrow> LockTag \<Rightarrow> LockTag" where
  "SetDecodeDictLockTag pdbId tag = FillInData pdbId LOGICAL_META_LOCK_ID 0 0 0 (tag\<lparr>lockTagType := LOCKTAG_LOGICAL_REPLICATION\<rparr>)"

definition SetLogicalSlotLockTag :: "uint32 \<Rightarrow> LockTag \<Rightarrow> LockTag" where
  "SetLogicalSlotLockTag pdbId tag = FillInData pdbId LOGICAL_SLOT_LOCK_ID 0 0 0 (tag\<lparr>lockTagType := LOCKTAG_LOGICAL_REPLICATION\<rparr>)"

definition SetPdbReplicaLockTag :: "uint32 \<Rightarrow> LockTag \<Rightarrow> LockTag" where
  "SetPdbReplicaLockTag pdbId tag = FillInData pdbId 0 0 0 0 (tag\<lparr>lockTagType := LOCKTAG_PDB_REPLICA\<rparr>)"

definition SetObjectLockTag :: "uint32 \<Rightarrow> uint32 \<Rightarrow> uint32 \<Rightarrow> uint32 \<Rightarrow> uint32 \<Rightarrow> LockTag \<Rightarrow> LockTag" where
  "SetObjectLockTag dbId classId objId objSubId1 objSubId2 tag = FillInData dbId classId objId objSubId1 objSubId2 (tag\<lparr>lockTagType := LOCKTAG_OBJECT\<rparr>)"

definition SetAdvisoryLockTag :: "uint32 \<Rightarrow> uint32 \<Rightarrow> uint32 \<Rightarrow> uint32 \<Rightarrow> LockTag \<Rightarrow> LockTag" where
  "SetAdvisoryLockTag pdbId key1 key2 type tag = FillInData pdbId key1 key2 type 0 (tag\<lparr>lockTagType := LOCKTAG_ADVISORY\<rparr>)"

definition SetPackageLockTag :: "uint32 \<Rightarrow> uint32 \<Rightarrow> LockTag \<Rightarrow> LockTag" where
  "SetPackageLockTag pdbId pkgId tag = FillInData pdbId pkgId 0 0 0 (tag\<lparr>lockTagType := LOCKTAG_PACKAGE\<rparr>)"

definition SetProcedureLockTag :: "uint32 \<Rightarrow> uint32 \<Rightarrow> LockTag \<Rightarrow> LockTag" where
  "SetProcedureLockTag pdbId procId tag = FillInData pdbId procId 0 0 0 (tag\<lparr>lockTagType := LOCKTAG_PROCEDURE\<rparr>)"

definition SetCleanPdLockTag :: "LockTag \<Rightarrow> LockTag" where
  "SetCleanPdLockTag tag = FillInData 0 0 0 0 0 (tag\<lparr>lockTagType := LOCKTAG_CLEANPD\<rparr>)"

subsection \<open>Comparison in the hash tables\<close>

text \<open>
  \<open>memcmp\<close> on byte sequences of the same length, and the bytes of an array of
  \<open>uint32\<close> fields on the little-endian targets of the build.
\<close>

fun memcmp :: "uint8 list \<Rightarrow> uint8 list \<Rightarrow> int" where
  "memcmp (x # xs) (y # ys) = (if x = y then memcmp xs ys else if x < y then -1 else 1)"
| "memcmp _ _ = 0"

definition bytes_of_uint32 :: "uint32 \<Rightarrow> uint8 list" where
  "bytes_of_uint32 w = map (\<lambda>i. ucast (drop_bit (8 * i) w)) [0, 1, 2, 3]"

definition tag_fields :: "LockTag \<Rightarrow> uint32 list" where
  "tag_fields tag = [field1 tag, field2 tag, field3 tag, field4 tag, field5 tag]"

definition memcmp_fields :: "nat \<Rightarrow> LockTag \<Rightarrow> LockTag \<Rightarrow> int" where
  "memcmp_fields n tag1 tag2 =
     memcmp (concat (map bytes_of_uint32 (take n (tag_fields tag1))))
       (concat (map bytes_of_uint32 (take n (tag_fields tag2))))"

definition HashCompareFunc :: "LockTag \<Rightarrow> LockTag \<Rightarrow> int" where
  "HashCompareFunc tag1 tag2 =
     (if lockTagType tag1 \<noteq> lockTagType tag2
      then (if lock_tag_type_code (lockTagType tag1) > lock_tag_type_code (lockTagType tag2) then 1 else -1)
      else case lockTagType tag1 of
        LOCKTAG_CSN \<Rightarrow> 0
      | LOCKTAG_DEADLOCK_DETECT \<Rightarrow> 0
      | LOCKTAG_CLEANPD \<Rightarrow> 0
      | LOCKTAG_PDB_REPLICA \<Rightarrow> memcmp_fields 1 tag1 tag2
      | LOCKTAG_CONTROL_FILE_WAL_STREAM_ASSIGN \<Rightarrow> memcmp_fields 1 tag1 tag2
      | LOCKTAG_TABLE \<Rightarrow> memcmp_fields 2 tag1 tag2
      | LOCKTAG_TABLESPACE \<Rightarrow> memcmp_fields 2 tag1 tag2
      | LOCKTAG_BACKUP_RESTORE \<Rightarrow> memcmp_fields 2 tag1 tag2
      | LOCKTAG_ZONE \<Rightarrow> memcmp_fields 2 tag1 tag2
      | LOCKTAG_LOGICAL_REPLICATION \<Rightarrow> memcmp_fields 2 tag1 tag2
      | LOCKTAG_PACKAGE \<Rightarrow> memcmp_fields 2 tag1 tag2
      | LOCKTAG_CONTROL_FILE \<Rightarrow> memcmp_fields 2 tag1 tag2
      | LOCKTAG_PROCEDURE \<Rightarrow> memcmp_fields 2 tag1 tag2
      | LOCKTAG_TRANSACTION \<Rightarrow> memcmp_fields 3 tag1 tag2
      | LOCKTAG_TABLE_EXTEND \<Rightarrow> memcmp_fields 3 tag1 tag2
      | LOCKTAG_PARTITION \<Rightarrow> memcmp_fields 3 tag1 tag2
      | LOCKTAG_TBS_EXTEND \<Rightarrow> memcmp_fields 3 tag1 tag2
      | LOCKTAG_ADVISORY \<Rightarrow> memcmp_fields 4 tag1 tag2
      | LOCKTAG_PDB \<Rightarrow> memcmp_fields 5 tag1 tag2
      | LOCKTAG_OBJECT \<Rightarrow> memcmp_fields 5 tag1 tag2
      | LOCKTAG_MAX_NUM \<Rightarrow> -1)"

subsection \<open>Descriptions\<close>

text \<open>The decimal digits \<open>%u\<close> and \<open>%lu\<close> print.\<close>

fun decimal :: "nat \<Rightarrow> string" where
  "decimal n =
     (if n < 10 then [char_of (48 + n)] else decimal (n div 10) @ [char_of (48 + n mod 10)])"

declare decimal.simps [simp del]

definition udec :: "'a::len word \<Rightarrow> string" where
  "udec w = decimal (unat w)"

definition ADVISORY_INT8 :: uint32 where "ADVISORY_INT8 = 1"
definition TABLESPACE_ID_COUNT :: uint32 where "TABLESPACE_ID_COUNT = 1025"
definition MAX_TABLESPACE_ID :: uint32 where "MAX_TABLESPACE_ID = 1024"
definition LOCK_TAG_TABLESPACE_MGR_ID :: uint32 where "LOCK_TAG_TABLESPACE_MGR_ID = 0xFFFF"

text \<open>The bit fields of an \<open>Xid\<close>: 20 bits of zone and 44 bits of slot.\<close>

definition xid_zoneId :: "uint64 \<Rightarrow> uint64" where
  "xid_zoneId placeHolder = take_bit 20 placeHolder"

definition xid_logicSlotId :: "uint64 \<Rightarrow> uint64" where
  "xid_logicSlotId placeHolder = drop_bit 20 placeHolder"

text \<open>
  The text \<open>DescribeLockTag\<close> appends to its buffer; that the buffer can run out of memory is
  left to the caller.
\<close>

definition DescribeLockTag :: "LockTag \<Rightarrow> string" where
  "DescribeLockTag tag =
     (let f1 = udec (field1 tag); f2 = udec (field2 tag); f3 = udec (field3 tag);
          f4 = udec (field4 tag); f5 = udec (field5 tag) in
      case lockTagType tag of
        LOCKTAG_TABLE \<Rightarrow> ''Table lock: pdb id '' @ f1 @ '', rel id '' @ f2
      | LOCKTAG_PARTITION \<Rightarrow>
          ''Partition lock: pdb id '' @ f1 @ '', rel id '' @ f2 @ '', part id '' @ f3
      | LOCKTAG_TABLE_EXTEND \<Rightarrow>
          ''Table extend lock: pdb id '' @ f1 @ '', file id '' @ f2 @ '', block id '' @ f3
      | LOCKTAG_TBS_EXTEND \<Rightarrow>
          ''Table space extend lock: pdb id '' @ f1 @ '', file id '' @ f2 @ '', block id '' @ f3
      | LOCKTAG_TRANSACTION \<Rightarrow>
          (let xid = Construct64Bits (field2 tag) (field3 tag) in
           ''Transaction lock: pdb id '' @ f1 @ '', zone id '' @ udec (xid_zoneId xid) @
           '', slot id '' @ udec (xid_logicSlotId xid) @ '', (xid: '' @ udec xid @ '')'')
      | LOCKTAG_CSN \<Rightarrow> ''Csn owner lock''
      | LOCKTAG_ZONE \<Rightarrow> ''Undo zone lock: pdb id '' @ f1 @ '', zone id '' @ f2
      | LOCKTAG_CONTROL_FILE \<Rightarrow> ''Control file lock: pdb id '' @ f1
      | LOCKTAG_CONTROL_FILE_WAL_STREAM_ASSIGN \<Rightarrow> ''Wal stream assign lock: pdb id '' @ f1
      | LOCKTAG_DEADLOCK_DETECT \<Rightarrow> ''Deadlock detect lock''
      | LOCKTAG_PDB \<Rightarrow> ''Pdb lock: pdb id '' @ f1
      | LOCKTAG_LOGICAL_REPLICATION \<Rightarrow> ''Logical replication lock: pdb id '' @ f1
      | LOCKTAG_PDB_REPLICA \<Rightarrow> ''Pdb replica lock: pdb id '' @ f1
      | LOCKTAG_OBJECT \<Rightarrow>
          ''Object lock: pdb id '' @ f1 @ '', class id '' @ f2 @ '', object id '' @ f3 @
          '', sub object id1 '' @ f4 @ '', sub object id2 '' @ f5
      | LOCKTAG_ADVISORY \<Rightarrow>
          (if field4 tag = ADVISORY_INT8
           then ''Advisory int8 lock: pdb id '' @ f1 @ '', low 32 bits '' @ f2 @ '', high 32 bits '' @ f3
           else ''Advisory int4 lock: pdb id '' @ f1 @ '', first key '' @ f2 @ '', second key '' @ f3)
      | LOCKTAG_PACKAGE \<Rightarrow> ''Package lock: pdb id '' @ f1 @ '', pkg id '' @ f2
      | LOCKTAG_PROCEDURE \<Rightarrow> ''Procedure lock: pdb id '' @ f1 @ '', procedure id '' @ f2
      | LOCKTAG_CLEANPD \<Rightarrow> ''Clean po lock''
      | LOCKTAG_TABLESPACE \<Rightarrow>
          (if field2 tag = LOCK_TAG_TABLESPACE_MGR_ID
           then ''Tablespace manager lock: pdbId '' @ f1
           else if field2 tag \<ge> TABLESPACE_ID_COUNT \<and>
                   field2 tag \<le> MAX_TABLESPACE_ID + TABLESPACE_ID_COUNT
           then ''Tablespace lock for drop: pdbId '' @ f1 @ '', tablespaceId '' @
                udec (field2 tag - TABLESPACE_ID_COUNT)
           else ''Tablespace lock: pdbId '' @ f1 @ '', tablespaceId '' @ f2)
      | LOCKTAG_BACKUP_RESTORE \<Rightarrow> ''BackupRestore lock: pdbId '' @ f1 @ ''.''
      | LOCKTAG_MAX_NUM \<Rightarrow>
          ''Unrecognized locktag type '' @ decimal (lock_tag_type_code (lockTagType tag)) @
          '', field('' @ f1 @ ''/'' @ f2 @ ''/'' @ f3 @ ''/'' @ f4 @ ''/'' @ f5 @ '')'')"

fun GetTypeName :: "LockTagType \<Rightarrow> string" where
  "GetTypeName LOCKTAG_TABLE = ''LOCKTAG_TABLE''"
| "GetTypeName LOCKTAG_PARTITION = ''LOCKTAG_PARTITION''"
| "GetTypeName LOCKTAG_TABLE_EXTEND = ''LOCKTAG_TABLE_EXTEND''"
| "GetTypeName LOCKTAG_TBS_EXTEND = ''LOCKTAG_TBS_EXTEND''"
| "GetTypeName LOCKTAG_TRANSACTION = ''LOCKTAG_TRANSACTION''"
| "GetTypeName LOCKTAG_CSN = ''LOCKTAG_CSN''"
| "GetTypeName LOCKTAG_ZONE = ''LOCKTAG_ZONE''"
| "GetTypeName LOCKTAG_CONTROL_FILE = ''LOCKTAG_CONTROL_FILE''"
| "GetTypeName LOCKTAG_CONTROL_FILE_WAL_STREAM_ASSIGN = ''LOCKTAG_CONTROL_FILE_WAL_STREAM_ASSIGN''"
| "GetTypeName LOCKTAG_DEADLOCK_DETECT = ''LOCKTAG_DEADLOCK_DETECT''"
| "GetTypeName LOCKTAG_PDB = ''LOCKTAG_PDB''"
| "GetTypeName LOCKTAG_LOGICAL_REPLICATION = ''LOCKTAG_LOGICAL_REPLICATION''"
| "GetTypeName LOCKTAG_PDB_REPLICA = ''LOCKTAG_PDB_REPLICA''"
| "GetTypeName LOCKTAG_OBJECT = ''LOCKTAG_OBJECT''"
| "GetTypeName LOCKTAG_MAX_NUM = ''LOCKTAG_MAX_NUM''"
| "GetTypeName LOCKTAG_ADVISORY = ''LOCKTAG_ADVISORY''"
| "GetTypeName LOCKTAG_PACKAGE = ''LOCKTAG_PACKAGE''"
| "GetTypeName LOCKTAG_PROCEDURE = ''LOCKTAG_PROCEDURE''"
| "GetTypeName LOCKTAG_CLEANPD = ''LOCKTAG_CLEANPD''"
| "GetTypeName LOCKTAG_TABLESPACE = ''LOCKTAG_TABLESPACE''"
| "GetTypeName LOCKTAG_BACKUP_RESTORE = ''LOCKTAG_BACKUP_RESTORE''"

subsection \<open>What a tag stands for\<close>

text \<open>
  The specification of the setters: the lockable objects themselves. \<open>tag_of\<close> is the tag
  that the setter of each kind of object fills in.
\<close>

datatype lock_object =
    Transaction_Obj uint32 uint64
  | Undo_Zone_Obj uint32 "32 word"
  | Csn_Obj
  | Table_Extension_Obj uint32 PageId
  | Table_Obj uint32 uint32
  | Tablespace_Obj uint32 uint32
  | Backup_Restore_Obj uint32
  | Pdb_Obj uint32
  | Partition_Obj uint32 uint32 uint32
  | Tbs_Extension_Obj uint32 PageId
  | Control_File_Obj uint32 uint32
  | Wal_Stream_Assign_Obj uint32
  | Deadlock_Detector_Obj
  | Decode_Dict_Obj uint32
  | Logical_Slot_Obj uint32
  | Pdb_Replica_Obj uint32
  | Object_Obj uint32 uint32 uint32 uint32 uint32
  | Advisory_Obj uint32 uint32 uint32 uint32
  | Package_Obj uint32 uint32
  | Procedure_Obj uint32 uint32
  | Clean_Pd_Obj

fun tag_of :: "lock_object \<Rightarrow> LockTag" where
  "tag_of (Transaction_Obj pdbId xid) = SetTransactionLockTag pdbId xid LockTag_default"
| "tag_of (Undo_Zone_Obj pdbId zoneId) = SetUndoZoneLockTag pdbId zoneId LockTag_default"
| "tag_of Csn_Obj = SetCSNLockTag LockTag_default"
| "tag_of (Table_Extension_Obj pdbId segmentId) = SetTableExtensionLockTag pdbId segmentId LockTag_default"
| "tag_of (Table_Obj pdbId relId) = SetTableLockTag pdbId relId LockTag_default"
| "tag_of (Tablespace_Obj pdbId tablespaceId) = SetTablespaceLockTag pdbId tablespaceId LockTag_default"
| "tag_of (Backup_Restore_Obj pdbId) = SetBackupRestoreLockTag pdbId LockTag_default"
| "tag_of (Pdb_Obj pdbId) = SetPdbLockTag pdbId LockTag_default"
| "tag_of (Partition_Obj pdbId relId partId) = SetPartitionLockTag pdbId relId partId LockTag_default"
| "tag_of (Tbs_Extension_Obj pdbId bitmapMetaPageId) = SetTbsExtensionLockTag pdbId bitmapMetaPageId LockTag_default"
| "tag_of (Control_File_Obj pdbId groupType) = SetControlFileLockTag pdbId groupType LockTag_default"
| "tag_of (Wal_Stream_Assign_Obj pdbId) = SetControlFileWalStreamAssignLockType pdbId LockTag_default"
| "tag_of Deadlock_Detector_Obj = SetDeadlockDetectorLockTag LockTag_default"
| "tag_of (Decode_Dict_Obj pdbId) = SetDecodeDictLockTag pdbId LockTag_default"
| "tag_of (Logical_Slot_Obj pdbId) = SetLogicalSlotLockTag pdbId LockTag_default"
| "tag_of (Pdb_Replica_Obj pdbId) = SetPdbReplicaLockTag pdbId LockTag_default"
| "tag_of (Object_Obj dbId classId objId objSubId1 objSubId2) = SetObjectLockTag dbId classId objId objSubId1 objSubId2 LockTag_default"
| "tag_of (Advisory_Obj pdbId key1 key2 type) = SetAdvisoryLockTag pdbId key1 key2 type LockTag_default"
| "tag_of (Package_Obj pdbId pkgId) = SetPackageLockTag pdbId pkgId LockTag_default"
| "tag_of (Procedure_Obj pdbId procId) = SetProcedureLockTag pdbId procId LockTag_default"
| "tag_of Clean_Pd_Obj = SetCleanPdLockTag LockTag_default"

lemmas tag_setter_defs =
  SetTransactionLockTag_def
  SetUndoZoneLockTag_def
  SetCSNLockTag_def
  SetTableExtensionLockTag_def
  SetTableLockTag_def
  SetTablespaceLockTag_def
  SetBackupRestoreLockTag_def
  SetPdbLockTag_def
  SetPartitionLockTag_def
  SetTbsExtensionLockTag_def
  SetControlFileLockTag_def
  SetControlFileWalStreamAssignLockType_def
  SetDeadlockDetectorLockTag_def
  SetDecodeDictLockTag_def
  SetLogicalSlotLockTag_def
  SetPdbReplicaLockTag_def
  SetObjectLockTag_def
  SetAdvisoryLockTag_def
  SetPackageLockTag_def
  SetProcedureLockTag_def
  SetCleanPdLockTag_def
  FillInData_def SetFields_def SetRecoveryMode_def SetLockMethodId_def LockTag_default_def
  LOCK_METHOD_MAP_def LOCK_RECOVERY_MAP_def

subsection \<open>Lemmas\<close>

lemma memcmp_zero_iff: "length xs = length ys \<Longrightarrow> memcmp xs ys = 0 \<longleftrightarrow> xs = ys"
  by (induction xs ys rule: list_induct2) auto

lemma bit_ucast_drop_uint8:
  "bit (ucast (drop_bit k (w :: uint32)) :: uint8) i \<longleftrightarrow> i < 8 \<and> bit w (k + i)"
  by (auto simp: bit_simps dest: bit_imp_le_length)

lemma bytes_of_uint32_eq_iff: "bytes_of_uint32 v = bytes_of_uint32 w \<longleftrightarrow> v = w"
proof
  assume eq: "bytes_of_uint32 v = bytes_of_uint32 w"
  have byte: "ucast (drop_bit (8 * k) v) = (ucast (drop_bit (8 * k) w) :: uint8)" if "k < 4" for k
    using that eq by (auto simp: bytes_of_uint32_def less_Suc_eq numeral_eq_Suc)
  show "v = w"
  proof (rule bit_word_eqI)
    fix n
    assume n: "n < LENGTH(32)"
    have "n div 8 < 4" and n': "8 * (n div 8) + n mod 8 = n" using n by auto
    then have "bit (ucast (drop_bit (8 * (n div 8)) v) :: uint8) (n mod 8) =
        bit (ucast (drop_bit (8 * (n div 8)) w) :: uint8) (n mod 8)"
      using byte by simp
    then show "bit v n = bit w n" by (simp add: bit_ucast_drop_uint8 n')
  qed
qed simp

lemma length_bytes_of_uint32 [simp]: "length (bytes_of_uint32 w) = 4"
  by (simp add: bytes_of_uint32_def)

lemma concat_bytes_eq_iff:
  "length vs = length ws \<Longrightarrow>
   concat (map bytes_of_uint32 vs) = concat (map bytes_of_uint32 ws) \<longleftrightarrow> vs = ws"
  by (induction vs ws rule: list_induct2) (simp_all add: bytes_of_uint32_eq_iff)

lemma memcmp_fields_zero_iff:
  "memcmp_fields n tag1 tag2 = 0 \<longleftrightarrow> take n (tag_fields tag1) = take n (tag_fields tag2)"
proof -
  have "length (concat (map bytes_of_uint32 ws)) = 4 * length ws" for ws
    by (induction ws) simp_all
  then have len: "length (concat (map bytes_of_uint32 (take n (tag_fields t)))) = 4 * min 5 n" for t
    by (simp add: tag_fields_def del: length_concat)
  then have "length (concat (map bytes_of_uint32 (take n (tag_fields tag1)))) =
      length (concat (map bytes_of_uint32 (take n (tag_fields tag2))))"
    by (simp only:)
  moreover have "length (take n (tag_fields tag1)) = length (take n (tag_fields tag2))"
    by (simp add: tag_fields_def)
  ultimately show ?thesis
    unfolding memcmp_fields_def by (simp only: memcmp_zero_iff concat_bytes_eq_iff)
qed

lemma low_mask: "(0xFFFFFFFF :: uint64) = mask 32"
  by (simp add: mask_eq_exp_minus_1)

lemma Construct64Bits_parts: "Construct64Bits (GetLow32Bits v) (GetHigh32Bits v) = v"
  by (rule bit_word_eqI)
    (auto simp: Construct64Bits_def GetLow32Bits_def GetHigh32Bits_def low_mask bit_simps)

lemma ucast_uint16_eq_iff [simp]: "(ucast (a :: uint16) :: uint32) = ucast b \<longleftrightarrow> a = b"
proof -
  have "ucast (ucast w :: uint32) = w" for w :: uint16
    by (rule bit_word_eqI) (simp add: bit_simps)
  then show ?thesis by metis
qed

lemma xid_parts_eq_iff:
  "GetLow32Bits v = GetLow32Bits w \<and> GetHigh32Bits v = GetHigh32Bits w \<longleftrightarrow> v = w"
  using Construct64Bits_parts by metis

lemma PageId_eq_iff: "p = q \<longleftrightarrow> m_fileId p = m_fileId q \<and> m_blockId p = m_blockId q"
  for p q :: PageId
  by (cases p; cases q) simp

lemmas tag_compare_simps =
  HashCompareFunc_def memcmp_fields_zero_iff tag_fields_def numeral_eq_Suc xid_parts_eq_iff
  LOGICAL_META_LOCK_ID_def LOGICAL_SLOT_LOCK_ID_def PageId_eq_iff

subsection \<open>Properties\<close>

text \<open>
  C26. The lock tables find the entry of a lock by \<open>HashCompareFunc\<close>, which compares only
  as many fields as the kind of tag uses. For the tags that the setters build, it answers 0
  exactly when the two tags stand for the same lockable object: no two objects share a lock,
  and one object never has two.
\<close>

theorem HashCompareFunc_tag_of: "HashCompareFunc (tag_of a) (tag_of b) = 0 \<longleftrightarrow> a = b"
  by (cases a; cases b; simp add: tag_setter_defs tag_compare_simps)

text \<open>
  The description of a database lock prints \<open>field1\<close>, which \<open>SetPdbLockTag\<close> always sets to
  0, instead of \<open>field3\<close>, which holds the database.
\<close>

lemma DescribeLockTag_pdb: "DescribeLockTag (SetPdbLockTag pdbId tag) = ''Pdb lock: pdb id 0''"
  by (simp add: DescribeLockTag_def tag_setter_defs udec_def decimal.simps [of 0] char_of_def bit_0)

end
