(* ===== verification/Lock_Request.thy ===== *)
theory Lock_Request
  imports Lock_Mode Lock_Tag
begin

text \<open>
  Lock requests (\<open>LockRequestInterface\<close> and \<open>LockRequest\<close> of
  \<open>include/lock/dstore_lock_entry.h\<close>): who asks for a lock, in which mode and how it wants to
  be queued. \<open>LockRequest\<close> is the only implementation of the interface in the repository, so
  the virtual functions are modelled by its overrides. The order that
  \<open>LockRequest::Compare\<close> defines is the interface the granted queue relies on; it is the
  locale \<open>request_order\<close>.
\<close>

subsection \<open>Requests\<close>

datatype LockEnqueueMethod =
    HOLD_OR_WAIT
  | HOLD_BUT_DONT_WAIT
  | DONT_HOLD_ONLY_WAIT
  | FORCE_HOLD
  | INVALID_METHOD

record LockRequest =
  m_lockMode :: LockMode
  m_enqueueMethod :: LockEnqueueMethod
  threadId :: uint64
  threadCoreIdx :: uint32

abbreviation GetLockMode :: "LockRequest \<Rightarrow> LockMode" where
  "GetLockMode \<equiv> m_lockMode"

definition IsOnlyWait :: "LockRequest \<Rightarrow> bool" where
  "IsOnlyWait r \<longleftrightarrow> m_enqueueMethod r = DONT_HOLD_ONLY_WAIT"

definition IsForceHold :: "LockRequest \<Rightarrow> bool" where
  "IsForceHold r \<longleftrightarrow> m_enqueueMethod r = FORCE_HOLD"

definition IsDontWait :: "LockRequest \<Rightarrow> bool" where
  "IsDontWait r \<longleftrightarrow> m_enqueueMethod r = HOLD_BUT_DONT_WAIT"

definition IsSameRequester :: "LockRequest \<Rightarrow> LockRequest \<Rightarrow> bool" where
  "IsSameRequester r req \<longleftrightarrow> threadId r = threadId req"

definition IsValid :: "LockRequest \<Rightarrow> LockRecoveryMode \<Rightarrow> bool" where
  "IsValid r mode = True"

definition GetSeed :: "LockRequest \<Rightarrow> uint32" where
  "GetSeed r = threadCoreIdx r"

definition Compare :: "LockRequest \<Rightarrow> LockRequest \<Rightarrow> int" where
  "Compare this requester =
     (if m_lockMode this \<noteq> m_lockMode requester
      then (if m_lockMode this > m_lockMode requester then 1 else -1)
      else if threadCoreIdx this \<noteq> threadCoreIdx requester
      then (if threadCoreIdx this > threadCoreIdx requester then 1 else -1)
      else 0)"

text \<open>What a failed acquisition reports about the request that blocks it.\<close>

record LockErrorInfo =
  lockHolder :: uint32
  isHolder :: bool
  info_nodeId :: uint32
  processTimelineId :: uint64
  nodeTimelineId :: uint64
  info_threadId :: uint64
  info_lockMode :: LockMode

definition LockErrorInfo_Initialize :: LockErrorInfo where
  "LockErrorInfo_Initialize =
     \<lparr>lockHolder = - 1, isHolder = False, info_nodeId = - 1, processTimelineId = 0,
      nodeTimelineId = 0, info_threadId = 0, info_lockMode = DSTORE_NO_LOCK\<rparr>"

definition RecordErrInfo :: "LockRequest \<Rightarrow> LockErrorInfo \<Rightarrow> LockErrorInfo" where
  "RecordErrInfo r info = info\<lparr>info_threadId := threadId r, info_lockMode := m_lockMode r\<rparr>"

subsection \<open>The order on requests\<close>

locale request_order =
  fixes compare :: "'r \<Rightarrow> 'r \<Rightarrow> int"
  assumes compare_sym: "compare a b < 0 \<longleftrightarrow> compare b a > 0"
    and compare_trans: "compare a b < 0 \<Longrightarrow> compare b c < 0 \<Longrightarrow> compare a c < 0"
    and compare_zero: "compare a b = 0 \<Longrightarrow> compare a c = compare b c"
begin

lemma compare_zero_sym: "compare a b = 0 \<longleftrightarrow> compare b a = 0"
  using compare_sym [of a b] compare_sym [of b a] by linarith

lemma compare_refl [simp]: "compare a a = 0"
  using compare_sym [of a a] by linarith

lemma compare_zero_right: "compare a b = 0 \<Longrightarrow> compare c a < 0 \<longleftrightarrow> compare c b < 0"
  using compare_sym compare_zero by metis

lemma compare_trans_pos: "compare a b > 0 \<Longrightarrow> compare b c > 0 \<Longrightarrow> compare a c > 0"
  using compare_sym compare_trans by metis

end

interpretation request: request_order Compare
  by unfold_locales (auto simp: Compare_def split: if_splits)

lemma Compare_zero_iff:
  "Compare a b = 0 \<longleftrightarrow> m_lockMode a = m_lockMode b \<and> threadCoreIdx a = threadCoreIdx b"
  by (simp add: Compare_def)

end
