(* ===== verification/Lock_SkipList.thy ===== *)
theory Lock_SkipList
  imports Lock_Request
begin

text \<open>
  The granted queue of a lock is a skip list of requests, \<open>LockRequestSkipList\<close>
  (\<open>src/lock/dstore_lock_entry.cpp\<close>, \<open>include/lock/dstore_lock_entry.h\<close>). Each level is an
  intrusive doubly linked list, modelled by the list of the requests linked at that level; a
  pointer to a request in a level is the request itself. The operations take the comparison
  of the request class as their first argument, as the source calls the virtual
  \<open>Compare\<close>.
\<close>

definition MAX_SKIPLIST_LEVEL :: nat where
  "MAX_SKIPLIST_LEVEL = 8"

record 'r skiplist =
  m_indexHeads :: "'r list list"
  m_currHighestLevel :: nat

definition LockRequestSkipList :: "'r skiplist" where
  "LockRequestSkipList =
     \<lparr>m_indexHeads = replicate MAX_SKIPLIST_LEVEL [], m_currHighestLevel = 0\<rparr>"

subsection \<open>Search\<close>

text \<open>
  What repeated \<open>GetNextLockRequestAtLevel\<close> calls visit after a request of a level: the
  whole level when there is no current request, the requests behind it otherwise.
\<close>

definition requests_after :: "'r list \<Rightarrow> 'r option \<Rightarrow> 'r list" where
  "requests_after xs request =
     (case request of None \<Rightarrow> xs | Some r \<Rightarrow> tl (dropWhile (\<lambda>x. x \<noteq> r) xs))"

text \<open>
  The inner loop of the search on one level: the request that compares equal, if it is met,
  and the last request passed.
\<close>

fun walk_level :: "('r \<Rightarrow> 'r \<Rightarrow> int) \<Rightarrow> 'r \<Rightarrow> 'r option \<Rightarrow> 'r list \<Rightarrow> 'r option \<times> 'r option" where
  "walk_level compare target current [] = (None, current)"
| "walk_level compare target current (nxt # rest) =
     (let result = compare target nxt in
      if result = 0 then (Some nxt, current)
      else if result > 0 then walk_level compare target (Some nxt) rest
      else (None, current))"

text \<open>The outer loop, from the given level down to level 0.\<close>

fun search_levels :: "('r \<Rightarrow> 'r \<Rightarrow> int) \<Rightarrow> 'r list list \<Rightarrow> 'r \<Rightarrow> nat \<Rightarrow> 'r option
    \<Rightarrow> 'r option list \<Rightarrow> 'r option \<times> nat \<times> 'r option list" where
  "search_levels compare heads target 0 current stack =
     (case walk_level compare target current (requests_after (heads ! 0) current) of
        (Some r, _) \<Rightarrow> (Some r, 0, stack)
      | (None, current') \<Rightarrow> (None, 0, stack[0 := current']))"
| "search_levels compare heads target (Suc level) current stack =
     (case walk_level compare target current (requests_after (heads ! Suc level) current) of
        (Some r, _) \<Rightarrow> (Some r, Suc level, stack)
      | (None, current') \<Rightarrow>
          search_levels compare heads target level current' (stack[Suc level := current']))"

text \<open>
  The result is the request found, its level, and the path: for every level passed, the
  request after which the target belongs. The path array starts uninitialised in the source;
  \<open>search_path\<close> below shows that every entry the insertion reads has been written.
\<close>

definition SearchLockRequestPosition ::
    "('r \<Rightarrow> 'r \<Rightarrow> int) \<Rightarrow> 'r skiplist \<Rightarrow> 'r \<Rightarrow> 'r option \<times> nat \<times> 'r option list" where
  "SearchLockRequestPosition compare sl target =
     search_levels compare (m_indexHeads sl) target (m_currHighestLevel sl) None
       (replicate MAX_SKIPLIST_LEVEL None)"

definition SearchLockRequest :: "('r \<Rightarrow> 'r \<Rightarrow> int) \<Rightarrow> 'r skiplist \<Rightarrow> 'r \<Rightarrow> 'r option" where
  "SearchLockRequest compare sl request = fst (SearchLockRequestPosition compare sl request)"

subsection \<open>Insertion\<close>

function insert_level_loop :: "nat \<Rightarrow> uint32 \<Rightarrow> nat \<Rightarrow> nat" where
  "insert_level_loop highest rand level =
     (if level \<le> highest \<and> level < MAX_SKIPLIST_LEVEL - 1 \<and> rand mod 2 = 1
      then insert_level_loop highest (rand div 2) (Suc level)
      else level)"
  by pat_completeness auto
termination
  by (relation "measure (\<lambda>(h, r, l). MAX_SKIPLIST_LEVEL - l)") auto

declare insert_level_loop.simps [simp del]

definition GetInsertLevel :: "'r skiplist \<Rightarrow> uint32 \<Rightarrow> nat" where
  "GetInsertLevel sl seed = insert_level_loop (m_currHighestLevel sl) seed 0"

fun insert_after :: "'r \<Rightarrow> 'r \<Rightarrow> 'r list \<Rightarrow> 'r list" where
  "insert_after left r [] = []"
| "insert_after left r (x # xs) = (if x = left then x # r # xs else x # insert_after left r xs)"

text \<open>Linking the request below its top level, from the given level down to 0.\<close>

definition link_at_level :: "'r option list \<Rightarrow> 'r \<Rightarrow> nat \<Rightarrow> 'r list list \<Rightarrow> 'r list list" where
  "link_at_level stack request level heads =
     heads[level := (case stack ! level of
                       None \<Rightarrow> request # heads ! level
                     | Some left \<Rightarrow> insert_after left request (heads ! level))]"

fun link_levels :: "'r option list \<Rightarrow> 'r \<Rightarrow> nat \<Rightarrow> 'r list list \<Rightarrow> 'r list list" where
  "link_levels stack request 0 heads = link_at_level stack request 0 heads"
| "link_levels stack request (Suc level) heads =
     link_levels stack request level (link_at_level stack request (Suc level) heads)"

definition InsertLockRequest ::
    "('r \<Rightarrow> 'r \<Rightarrow> int) \<Rightarrow> ('r \<Rightarrow> uint32) \<Rightarrow> 'r skiplist \<Rightarrow> 'r \<Rightarrow> RetStatus \<times> 'r skiplist" where
  "InsertLockRequest compare seed sl request =
     (case SearchLockRequestPosition compare sl request of
        (Some _, _, _) \<Rightarrow> (DSTORE_FAIL, sl)
      | (None, _, requestStack) \<Rightarrow>
          let newLevel = GetInsertLevel sl (seed request) in
          if newLevel > m_currHighestLevel sl
          then (DSTORE_SUCC,
            \<lparr>m_indexHeads = link_levels requestStack request (newLevel - 1)
               ((m_indexHeads sl)[newLevel := request # m_indexHeads sl ! newLevel]),
             m_currHighestLevel = newLevel\<rparr>)
          else (DSTORE_SUCC,
            sl\<lparr>m_indexHeads := link_levels requestStack request newLevel (m_indexHeads sl)\<rparr>))"

subsection \<open>Removal\<close>

fun unlink_levels :: "'r \<Rightarrow> nat \<Rightarrow> 'r list list \<Rightarrow> 'r list list" where
  "unlink_levels r 0 heads = heads[0 := remove1 r (heads ! 0)]"
| "unlink_levels r (Suc level) heads =
     unlink_levels r level (heads[Suc level := remove1 r (heads ! Suc level)])"

fun lower_top_level :: "'r list list \<Rightarrow> nat \<Rightarrow> nat" where
  "lower_top_level heads 0 = 0"
| "lower_top_level heads (Suc n) = (if heads ! Suc n = [] then lower_top_level heads n else Suc n)"

definition RemoveLockRequest ::
    "('r \<Rightarrow> 'r \<Rightarrow> int) \<Rightarrow> 'r skiplist \<Rightarrow> 'r \<Rightarrow> 'r option \<times> 'r skiplist" where
  "RemoveLockRequest compare sl request =
     (case SearchLockRequestPosition compare sl request of
        (None, _, _) \<Rightarrow> (None, sl)
      | (Some found, targetRequestLevel, _) \<Rightarrow>
          let heads = unlink_levels found targetRequestLevel (m_indexHeads sl) in
          (Some found,
           \<lparr>m_indexHeads = heads,
            m_currHighestLevel =
              (if targetRequestLevel = m_currHighestLevel sl
               then lower_top_level heads (m_currHighestLevel sl)
               else m_currHighestLevel sl)\<rparr>))"

subsection \<open>Iteration\<close>

text \<open>
  A \<open>ListIterator\<close> on a level returns its requests in order; it fetches the next request
  before it returns the current one, so the caller may unlink the current one.
\<close>

definition iterate_level :: "'r skiplist \<Rightarrow> nat \<Rightarrow> 'r list" where
  "iterate_level sl level = m_indexHeads sl ! level"

definition GetLevelRequestCnt :: "'r skiplist \<Rightarrow> nat \<Rightarrow> uint32" where
  "GetLevelRequestCnt sl level = fold (\<lambda>_ cnt. cnt + 1) (iterate_level sl level) 0"

definition IsSkipListEmpty :: "'r skiplist \<Rightarrow> bool" where
  "IsSkipListEmpty sl \<longleftrightarrow> m_currHighestLevel sl = 0 \<and> m_indexHeads sl ! 0 = []"

subsection \<open>Well-formed skip lists\<close>

text \<open>
  Every level is strictly increasing, every level is contained in the one below it, the
  levels above the highest one are empty, and the highest level is in use unless it is 0.
\<close>

definition skiplist_inv :: "('r \<Rightarrow> 'r \<Rightarrow> int) \<Rightarrow> 'r skiplist \<Rightarrow> bool" where
  "skiplist_inv compare sl \<longleftrightarrow>
     length (m_indexHeads sl) = MAX_SKIPLIST_LEVEL \<and>
     m_currHighestLevel sl < MAX_SKIPLIST_LEVEL \<and>
     (\<forall>i < MAX_SKIPLIST_LEVEL. sorted_wrt (\<lambda>a b. compare a b < 0) (m_indexHeads sl ! i)) \<and>
     (\<forall>i. Suc i < MAX_SKIPLIST_LEVEL \<longrightarrow>
        set (m_indexHeads sl ! Suc i) \<subseteq> set (m_indexHeads sl ! i)) \<and>
     (\<forall>i < MAX_SKIPLIST_LEVEL. m_currHighestLevel sl < i \<longrightarrow> m_indexHeads sl ! i = []) \<and>
     (0 < m_currHighestLevel sl \<longrightarrow> m_indexHeads sl ! m_currHighestLevel sl \<noteq> [])"

text \<open>The abstraction: the requests in order, which are all linked at level 0.\<close>

abbreviation contents :: "'r skiplist \<Rightarrow> 'r list" where
  "contents sl \<equiv> m_indexHeads sl ! 0"

subsection \<open>Search walks to the position of the target\<close>

context request_order
begin

abbreviation below :: "'r \<Rightarrow> 'r list \<Rightarrow> 'r list" where
  "below t xs \<equiv> takeWhile (\<lambda>x. compare t x > 0) xs"

abbreviation increasing :: "'r list \<Rightarrow> bool" where
  "increasing xs \<equiv> sorted_wrt (\<lambda>a b. compare a b < 0) xs"

lemma increasing_distinct: "increasing xs \<Longrightarrow> distinct xs"
  by (induction xs) auto

lemma increasing_unique:
  "increasing xs \<Longrightarrow> x \<in> set xs \<Longrightarrow> y \<in> set xs \<Longrightarrow> compare x y = 0 \<Longrightarrow> x = y"
  by (induction xs) (fastforce dest: compare_sym [THEN iffD1])+

lemma above_stays_above:
  assumes "increasing (x # xs)" and "compare t x < 0" and "y \<in> set (x # xs)"
  shows "compare t y < 0"
  using assms by (auto intro: compare_trans)

lemma walk_level_spec:
  assumes "increasing (pre @ rest)" and "\<forall>x \<in> set pre. compare t x > 0"
  shows "walk_level compare t (last_opt pre) rest =
    (find (\<lambda>x. compare t x = 0) (pre @ rest), last_opt (below t (pre @ rest)))"
  using assms
proof (induction rest arbitrary: pre)
  case Nil
  then have "find (\<lambda>x. compare t x = 0) pre = None"
    by (auto simp: find_None_iff)
  with Nil show ?case by (simp add: takeWhile_eq_all_conv [THEN iffD2])
next
  case (Cons y ys)
  have no_pre: "find (\<lambda>x. compare t x = 0) pre = None"
    using Cons.prems(2) by (auto simp: find_None_iff)
  consider (eq) "compare t y = 0" | (gt) "compare t y > 0" | (lt) "compare t y < 0"
    by linarith
  then show ?case
  proof cases
    case eq
    have "find (\<lambda>x. compare t x = 0) (pre @ y # ys) = Some y"
      using no_pre eq by (induction pre) (auto split: if_splits)
    with eq Cons.prems(2) show ?thesis by (simp add: takeWhile_append2)
  next
    case gt
    have "walk_level compare t (last_opt (pre @ [y])) ys =
      (find (\<lambda>x. compare t x = 0) ((pre @ [y]) @ ys), last_opt (below t ((pre @ [y]) @ ys)))"
      by (rule Cons.IH) (use Cons.prems gt in auto)
    with gt show ?thesis by simp
  next
    case lt
    have "find (\<lambda>x. compare t x = 0) (pre @ y # ys) = None"
      using Cons.prems lt by (auto simp: find_None_iff sorted_wrt_append dest: compare_trans)
    moreover have "below t (pre @ y # ys) = pre"
      using Cons.prems(2) lt by (simp add: takeWhile_append2)
    ultimately show ?thesis using lt by simp
  qed
qed

text \<open>
  A position the walk can be at when it enters a level: nothing passed yet, or a request of
  that level below the target.
\<close>

definition entry_point :: "'r \<Rightarrow> 'r option \<Rightarrow> 'r list \<Rightarrow> bool" where
  "entry_point t current xs \<longleftrightarrow>
     (case current of None \<Rightarrow> True | Some c \<Rightarrow> c \<in> set xs \<and> compare t c > 0)"

lemma requests_after_split:
  assumes "increasing xs" and "entry_point t current xs"
  obtains pre where "xs = pre @ requests_after xs current" and "current = last_opt pre"
    and "\<forall>x \<in> set pre. compare t x > 0"
proof (cases current)
  case None
  then show thesis using that [of "[]"] by (simp add: requests_after_def)
next
  case (Some c)
  then have c: "c \<in> set xs" "compare t c > 0" using assms(2) by (auto simp: entry_point_def)
  then obtain ys zs where xs: "xs = ys @ c # zs" and "c \<notin> set ys"
    by (meson split_list_first)
  then have "dropWhile (\<lambda>x. x \<noteq> c) xs = c # zs" by (simp add: dropWhile_append)
  then have "requests_after xs current = zs" using Some by (simp add: requests_after_def)
  moreover have "compare t x > 0" if "x \<in> set ys" for x
  proof -
    have "compare x c < 0" using assms(1) xs that by (auto simp: sorted_wrt_append)
    then show ?thesis using c(2) compare_sym compare_trans_pos by blast
  qed
  ultimately show thesis using that [of "ys @ [c]"] xs Some c by auto
qed

lemma walk_from_entry:
  assumes "increasing xs" and "entry_point t current xs"
  shows "walk_level compare t current (requests_after xs current) =
    (find (\<lambda>x. compare t x = 0) xs, last_opt (below t xs))"
  using assms by (metis requests_after_split walk_level_spec)

lemma entry_point_below: "set xs \<subseteq> set ys \<Longrightarrow> entry_point t (last_opt (below t xs)) ys"
  by (auto simp: entry_point_def split: option.splits dest!: last_opt_SomeD dest: set_takeWhileD)

lemma search_levels_spec:
  assumes "\<forall>i \<le> n. increasing (heads ! i)"
    and "\<forall>i < n. set (heads ! Suc i) \<subseteq> set (heads ! i)"
    and "entry_point t current (heads ! n)" and "n < length stack"
    and "search_levels compare heads t n current stack = (res, lvl, stack')"
  shows "(\<forall>r. res = Some r \<longrightarrow> lvl \<le> n \<and> r \<in> set (heads ! lvl) \<and> compare t r = 0 \<and>
            (\<forall>i. lvl < i \<and> i \<le> n \<longrightarrow> (\<forall>x \<in> set (heads ! i). compare t x \<noteq> 0))) \<and>
         (res = None \<longrightarrow> (\<forall>i \<le> n. \<forall>x \<in> set (heads ! i). compare t x \<noteq> 0) \<and>
            (\<forall>i \<le> n. stack' ! i = last_opt (below t (heads ! i))) \<and>
            (\<forall>i. n < i \<longrightarrow> stack' ! i = stack ! i))"
  using assms
proof (induction n arbitrary: current stack)
  case 0
  then have "walk_level compare t current (requests_after (heads ! 0) current) =
      (find (\<lambda>x. compare t x = 0) (heads ! 0), last_opt (below t (heads ! 0)))"
    by (simp add: walk_from_entry)
  with 0 show ?case
    by (auto simp: find_None_iff find_Some_iff split: option.splits)
next
  case (Suc n)
  let ?xs = "heads ! Suc n" and ?cur = "last_opt (below t (heads ! Suc n))"
  have walk: "walk_level compare t current (requests_after ?xs current) =
      (find (\<lambda>x. compare t x = 0) ?xs, ?cur)"
    using Suc.prems by (simp add: walk_from_entry)
  show ?case
  proof (cases "find (\<lambda>x. compare t x = 0) ?xs")
    case (Some r)
    with walk Suc.prems(5) show ?thesis by (auto simp: find_Some_iff)
  next
    case None
    then have none: "\<forall>x \<in> set ?xs. compare t x \<noteq> 0" by (auto simp: find_None_iff)
    have rec: "search_levels compare heads t n ?cur (stack[Suc n := ?cur]) = (res, lvl, stack')"
      using Suc.prems(5) walk None by simp
    have "entry_point t ?cur (heads ! n)" using Suc.prems(2) by (simp add: entry_point_below)
    note IH = Suc.IH [OF _ _ this _ rec]
    show ?thesis
      using IH Suc.prems none
      by (auto simp: le_Suc_eq nth_list_update split: if_splits)
  qed
qed

lemma skiplist_invD:
  assumes "skiplist_inv compare sl"
  shows "length (m_indexHeads sl) = MAX_SKIPLIST_LEVEL"
    and "m_currHighestLevel sl < MAX_SKIPLIST_LEVEL"
    and "i < MAX_SKIPLIST_LEVEL \<Longrightarrow> increasing (m_indexHeads sl ! i)"
    and "Suc i < MAX_SKIPLIST_LEVEL \<Longrightarrow> set (m_indexHeads sl ! Suc i) \<subseteq> set (m_indexHeads sl ! i)"
    and "i < MAX_SKIPLIST_LEVEL \<Longrightarrow> m_currHighestLevel sl < i \<Longrightarrow> m_indexHeads sl ! i = []"
    and "0 < m_currHighestLevel sl \<Longrightarrow> m_indexHeads sl ! m_currHighestLevel sl \<noteq> []"
  using assms unfolding skiplist_inv_def by blast+

lemma level_subset_contents:
  assumes "skiplist_inv compare sl" and "i < MAX_SKIPLIST_LEVEL"
  shows "set (m_indexHeads sl ! i) \<subseteq> set (contents sl)"
  using assms(2)
proof (induction i)
  case (Suc i)
  then show ?case using skiplist_invD(4) [OF assms(1), of i] by auto
qed simp

lemma search_position_spec:
  assumes inv: "skiplist_inv compare sl"
    and pos: "SearchLockRequestPosition compare sl t = (res, lvl, stack)"
  shows search_found: "res = Some r \<Longrightarrow> r \<in> set (contents sl) \<and> compare t r = 0 \<and>
      lvl \<le> m_currHighestLevel sl \<and> r \<in> set (m_indexHeads sl ! lvl) \<and>
      (\<forall>i. lvl < i \<and> i < MAX_SKIPLIST_LEVEL \<longrightarrow> (\<forall>x \<in> set (m_indexHeads sl ! i). compare t x \<noteq> 0))"
    and search_missing: "res = None \<Longrightarrow> (\<forall>x \<in> set (contents sl). compare t x \<noteq> 0)"
    and search_path: "res = None \<Longrightarrow> i \<le> m_currHighestLevel sl \<Longrightarrow>
      stack ! i = last_opt (below t (m_indexHeads sl ! i))"
proof -
  let ?hi = "m_currHighestLevel sl"
  have hi: "?hi < MAX_SKIPLIST_LEVEL" using inv by (rule skiplist_invD)
  have spec: "(\<forall>r. res = Some r \<longrightarrow> lvl \<le> ?hi \<and> r \<in> set (m_indexHeads sl ! lvl) \<and> compare t r = 0 \<and>
            (\<forall>i. lvl < i \<and> i \<le> ?hi \<longrightarrow> (\<forall>x \<in> set (m_indexHeads sl ! i). compare t x \<noteq> 0))) \<and>
         (res = None \<longrightarrow> (\<forall>i \<le> ?hi. \<forall>x \<in> set (m_indexHeads sl ! i). compare t x \<noteq> 0) \<and>
            (\<forall>i \<le> ?hi. stack ! i = last_opt (below t (m_indexHeads sl ! i))) \<and>
            (\<forall>i. ?hi < i \<longrightarrow> stack ! i = replicate MAX_SKIPLIST_LEVEL None ! i))"
    by (rule search_levels_spec [where current = None])
      (use inv pos hi in \<open>auto simp: SearchLockRequestPosition_def entry_point_def skiplist_inv_def\<close>)
  show "res = None \<Longrightarrow> (\<forall>x \<in> set (contents sl). compare t x \<noteq> 0)"
    using spec by blast
  show "res = None \<Longrightarrow> i \<le> ?hi \<Longrightarrow> stack ! i = last_opt (below t (m_indexHeads sl ! i))"
    using spec by blast
  assume "res = Some r"
  with spec have r: "lvl \<le> ?hi" "r \<in> set (m_indexHeads sl ! lvl)" "compare t r = 0"
    and above: "\<forall>i. lvl < i \<and> i \<le> ?hi \<longrightarrow> (\<forall>x \<in> set (m_indexHeads sl ! i). compare t x \<noteq> 0)"
    by auto
  have "\<forall>x \<in> set (m_indexHeads sl ! i). compare t x \<noteq> 0"
    if "lvl < i" "i < MAX_SKIPLIST_LEVEL" for i
    using that above skiplist_invD(5) [OF inv, of i] by (cases "i \<le> ?hi") auto
  with r hi level_subset_contents [OF inv, of lvl]
  show "r \<in> set (contents sl) \<and> compare t r = 0 \<and> lvl \<le> ?hi \<and> r \<in> set (m_indexHeads sl ! lvl) \<and>
      (\<forall>i. lvl < i \<and> i < MAX_SKIPLIST_LEVEL \<longrightarrow> (\<forall>x \<in> set (m_indexHeads sl ! i). compare t x \<noteq> 0))"
    by auto
qed

lemma SearchLockRequest_iff:
  assumes "skiplist_inv compare sl"
  shows "SearchLockRequest compare sl t = Some r \<longleftrightarrow> r \<in> set (contents sl) \<and> compare t r = 0"
proof -
  obtain res lvl stack where pos: "SearchLockRequestPosition compare sl t = (res, lvl, stack)"
    by (cases "SearchLockRequestPosition compare sl t") auto
  have inc: "increasing (contents sl)"
    using skiplist_invD(3) [OF assms, of 0] by (simp add: MAX_SKIPLIST_LEVEL_def)
  show ?thesis
  proof (cases res)
    case None
    with search_missing [OF assms pos] pos show ?thesis by (auto simp: SearchLockRequest_def)
  next
    case (Some r')
    with search_found [OF assms pos Some] pos inc show ?thesis
      by (auto simp: SearchLockRequest_def
          dest: increasing_unique compare_zero [THEN trans [OF sym]]
          intro: increasing_unique)
  qed
qed

text \<open>Insertion puts the request between the smaller and the greater ones of each level.\<close>

definition ins_pos :: "'r \<Rightarrow> 'r list \<Rightarrow> 'r list" where
  "ins_pos r xs = below r xs @ r # dropWhile (\<lambda>x. compare r x > 0) xs"

lemma set_ins_pos [simp]: "set (ins_pos r xs) = insert r (set xs)"
proof -
  have "set (below r xs) \<union> set (dropWhile (\<lambda>x. compare r x > 0) xs) = set xs"
    by (metis set_append takeWhile_dropWhile_id)
  then show ?thesis by (auto simp: ins_pos_def)
qed

lemma ins_pos_Nil [simp]: "ins_pos r [] = [r]"
  by (simp add: ins_pos_def)

lemma increasing_ins_pos:
  assumes "increasing xs" and "\<forall>x \<in> set xs. compare r x \<noteq> 0"
  shows "increasing (ins_pos r xs)"
  using assms
proof (induction xs)
  case (Cons x xs)
  show ?case
  proof (cases "compare r x > 0")
    case True
    then have "ins_pos r (x # xs) = x # ins_pos r xs" by (simp add: ins_pos_def)
    with Cons True show ?thesis by (auto simp: compare_sym)
  next
    case False
    then have "compare r x < 0" using Cons.prems(2) by force
    with Cons.prems False show ?thesis by (auto simp: ins_pos_def dest: compare_trans)
  qed
qed simp

lemma insert_after_last_below:
  assumes "distinct xs" and "last_opt (below r xs) = Some left"
  shows "insert_after left r xs = ins_pos r xs"
  using assms
proof (induction xs)
  case (Cons x xs)
  then have x: "compare r x > 0" by (auto split: if_splits)
  then have ins: "ins_pos r (x # xs) = x # ins_pos r xs" by (simp add: ins_pos_def)
  show ?case
  proof (cases "below r xs = []")
    case True
    then have "dropWhile (\<lambda>x. compare r x > 0) xs = xs"
      by (metis append_Nil takeWhile_dropWhile_id)
    with True ins Cons.prems x show ?thesis by (auto simp: last_opt_def ins_pos_def)
  next
    case False
    with Cons.prems x have left: "last_opt (below r xs) = Some left" by (simp add: last_opt_def)
    then have "left \<in> set xs" by (auto dest!: last_opt_SomeD dest: set_takeWhileD)
    with Cons left ins show ?thesis by auto
  qed
qed simp

lemma last_opt_below_None: "last_opt (below r xs) = None \<Longrightarrow> ins_pos r xs = r # xs"
  by (cases xs) (auto simp: last_opt_def ins_pos_def split: if_splits)

lemma link_at_level_ins_pos:
  assumes "distinct (heads ! level)" and "stack ! level = last_opt (below r (heads ! level))"
  shows "link_at_level stack r level heads = heads[level := ins_pos r (heads ! level)]"
  using assms
  by (auto simp: link_at_level_def insert_after_last_below last_opt_below_None split: option.splits)

lemma link_levels_nth:
  assumes "n < length heads"
    and "\<forall>i \<le> n. distinct (heads ! i) \<and> stack ! i = last_opt (below r (heads ! i))"
  shows "length (link_levels stack r n heads) = length heads \<and>
    (\<forall>i < length heads. link_levels stack r n heads ! i =
       (if i \<le> n then ins_pos r (heads ! i) else heads ! i))"
  using assms
proof (induction n arbitrary: heads)
  case 0
  then show ?case by (auto simp: link_at_level_ins_pos nth_list_update)
next
  case (Suc n)
  let ?heads = "heads[Suc n := ins_pos r (heads ! Suc n)]"
  have "link_levels stack r (Suc n) heads = link_levels stack r n ?heads"
    using Suc.prems by (simp add: link_at_level_ins_pos)
  then show ?case
    using Suc.IH [of ?heads] Suc.prems by (auto simp: nth_list_update le_Suc_eq)
qed

lemma insert_level_loop_bounds:
  assumes "level \<le> Suc hi" and "level < MAX_SKIPLIST_LEVEL"
  shows "insert_level_loop hi rand level \<le> Suc hi \<and> insert_level_loop hi rand level < MAX_SKIPLIST_LEVEL"
  using assms
proof (induction hi rand level rule: insert_level_loop.induct)
  case (1 hi rand level)
  then show ?case by (subst insert_level_loop.simps) (auto simp: insert_level_loop.simps [of hi rand level])
qed

lemma GetInsertLevel_bounds:
  "GetInsertLevel sl seed \<le> Suc (m_currHighestLevel sl)" (is ?le)
  "GetInsertLevel sl seed < MAX_SKIPLIST_LEVEL" (is ?lt)
  using insert_level_loop_bounds [of 0 "m_currHighestLevel sl" seed]
  by (auto simp: GetInsertLevel_def MAX_SKIPLIST_LEVEL_def)

lemma insert_levels:
  assumes inv: "skiplist_inv compare sl"
    and ins: "InsertLockRequest compare seed sl r = (DSTORE_SUCC, sl')"
  shows "\<exists>n < MAX_SKIPLIST_LEVEL. n \<le> Suc (m_currHighestLevel sl) \<and>
    m_currHighestLevel sl' = max n (m_currHighestLevel sl) \<and>
    length (m_indexHeads sl') = MAX_SKIPLIST_LEVEL \<and>
    (\<forall>i < MAX_SKIPLIST_LEVEL. m_indexHeads sl' ! i =
       (if i \<le> n then ins_pos r (m_indexHeads sl ! i) else m_indexHeads sl ! i)) \<and>
    (\<forall>x \<in> set (contents sl). compare r x \<noteq> 0)"
proof -
  let ?hi = "m_currHighestLevel sl" and ?heads = "m_indexHeads sl"
  obtain res lvl stack where pos: "SearchLockRequestPosition compare sl r = (res, lvl, stack)"
    by (cases "SearchLockRequestPosition compare sl r") auto
  have res: "res = None" using ins pos by (auto simp: InsertLockRequest_def split: option.splits)
  define n where "n = GetInsertLevel sl (seed r)"
  have n: "n \<le> Suc ?hi" "n < MAX_SKIPLIST_LEVEL" unfolding n_def by (rule GetInsertLevel_bounds)+
  have len: "length ?heads = MAX_SKIPLIST_LEVEL" using inv by (rule skiplist_invD)
  have hi: "?hi < MAX_SKIPLIST_LEVEL" using inv by (rule skiplist_invD)
  have path: "stack ! i = last_opt (below r (?heads ! i))" if "i \<le> ?hi" for i
    using search_path [OF inv pos res that] .
  have dist: "distinct (?heads ! i)" if "i < MAX_SKIPLIST_LEVEL" for i
    using skiplist_invD(3) [OF inv that] increasing_distinct by blast
  have levels: "m_currHighestLevel sl' = max n ?hi \<and> length (m_indexHeads sl') = MAX_SKIPLIST_LEVEL \<and>
    (\<forall>i < MAX_SKIPLIST_LEVEL. m_indexHeads sl' ! i = (if i \<le> n then ins_pos r (?heads ! i) else ?heads ! i))"
  proof (cases "?hi < n")
    case True
    then have top: "n = Suc ?hi" using n by simp
    then have empty: "?heads ! n = []" using skiplist_invD(5) [OF inv n(2)] by simp
    let ?h = "?heads[n := [r]]"
    have sl': "sl' = \<lparr>m_indexHeads = link_levels stack r ?hi ?h, m_currHighestLevel = n\<rparr>"
      using ins pos res True empty top by (auto simp: InsertLockRequest_def Let_def n_def [symmetric])
    have "length (link_levels stack r ?hi ?h) = length ?h \<and>
      (\<forall>i < length ?h. link_levels stack r ?hi ?h ! i = (if i \<le> ?hi then ins_pos r (?h ! i) else ?h ! i))"
      by (rule link_levels_nth) (use len hi dist path top in \<open>auto simp: nth_list_update\<close>)
    with sl' top len empty n show ?thesis by (auto simp: nth_list_update le_Suc_eq)
  next
    case False
    have sl': "sl' = sl\<lparr>m_indexHeads := link_levels stack r n ?heads\<rparr>"
      using ins pos res False by (auto simp: InsertLockRequest_def Let_def n_def [symmetric])
    have "length (link_levels stack r n ?heads) = length ?heads \<and>
      (\<forall>i < length ?heads. link_levels stack r n ?heads ! i = (if i \<le> n then ins_pos r (?heads ! i) else ?heads ! i))"
      by (rule link_levels_nth) (use len hi dist path False n in auto)
    with sl' len False show ?thesis by auto
  qed
  with n search_missing [OF inv pos res] show ?thesis by blast
qed

lemma insert_inv:
  assumes inv: "skiplist_inv compare sl"
    and ins: "InsertLockRequest compare seed sl r = (DSTORE_SUCC, sl')"
  shows "skiplist_inv compare sl'"
proof -
  from insert_levels [OF assms] obtain n where
    n: "n < MAX_SKIPLIST_LEVEL" "n \<le> Suc (m_currHighestLevel sl)"
    and hi: "m_currHighestLevel sl' = max n (m_currHighestLevel sl)"
    and len: "length (m_indexHeads sl') = MAX_SKIPLIST_LEVEL"
    and nth: "\<And>i. i < MAX_SKIPLIST_LEVEL \<Longrightarrow> m_indexHeads sl' ! i =
       (if i \<le> n then ins_pos r (m_indexHeads sl ! i) else m_indexHeads sl ! i)"
    and new: "\<forall>x \<in> set (contents sl). compare r x \<noteq> 0"
    by blast
  have inc: "increasing (m_indexHeads sl' ! i)" if "i < MAX_SKIPLIST_LEVEL" for i
    using that nth [OF that] skiplist_invD(3) [OF inv that] level_subset_contents [OF inv that] new
    by (auto intro!: increasing_ins_pos)
  have nest: "set (m_indexHeads sl' ! Suc i) \<subseteq> set (m_indexHeads sl' ! i)"
    if "Suc i < MAX_SKIPLIST_LEVEL" for i
    using that nth skiplist_invD(4) [OF inv that] by auto
  have top: "m_indexHeads sl' ! i = []" if "i < MAX_SKIPLIST_LEVEL" "max n (m_currHighestLevel sl) < i" for i
    using that nth skiplist_invD(5) [OF inv that(1)] by auto
  have used: "m_indexHeads sl' ! max n (m_currHighestLevel sl) \<noteq> []"
    if "0 < max n (m_currHighestLevel sl)"
  proof (cases "n < m_currHighestLevel sl")
    case True
    with that nth n show ?thesis using skiplist_invD(2,6) [OF inv] by auto
  next
    case False
    then show ?thesis using nth [OF n(1)] by (simp add: max_def ins_pos_def)
  qed
  show ?thesis
    unfolding skiplist_inv_def using len hi inc nest top used n skiplist_invD(2) [OF inv] by auto
qed

lemma insert_contents:
  assumes inv: "skiplist_inv compare sl"
    and ins: "InsertLockRequest compare seed sl r = (DSTORE_SUCC, sl')"
  shows "contents sl' = ins_pos r (contents sl)"
  using insert_levels [OF assms] by (auto simp: MAX_SKIPLIST_LEVEL_def)

lemma insert_status:
  assumes inv: "skiplist_inv compare sl"
  shows "fst (InsertLockRequest compare seed sl r) = DSTORE_FAIL \<longleftrightarrow>
      (\<exists>x \<in> set (contents sl). compare r x = 0)"
proof -
  obtain res lvl stack where pos: "SearchLockRequestPosition compare sl r = (res, lvl, stack)"
    by (cases "SearchLockRequestPosition compare sl r") auto
  then show ?thesis
    using search_found [OF inv pos] search_missing [OF inv pos]
    by (cases res) (auto simp: InsertLockRequest_def Let_def)
qed

lemma insert_fail_unchanged:
  "InsertLockRequest compare seed sl r = (DSTORE_FAIL, sl') \<Longrightarrow> sl' = sl"
  by (auto simp: InsertLockRequest_def Let_def split: prod.splits option.splits if_splits)

subsection \<open>Removal keeps the other requests\<close>

lemma unlink_levels_nth:
  assumes "n < length heads"
  shows "length (unlink_levels r n heads) = length heads \<and>
    (\<forall>i < length heads. unlink_levels r n heads ! i = (if i \<le> n then remove1 r (heads ! i) else heads ! i))"
  using assms
proof (induction n arbitrary: heads)
  case 0
  then show ?case by (auto simp: nth_list_update)
next
  case (Suc n)
  then show ?case
    using Suc.IH [of "heads[Suc n := remove1 r (heads ! Suc n)]"]
    by (auto simp: nth_list_update le_Suc_eq)
qed

lemma lower_top_level_spec:
  "lower_top_level heads n \<le> n \<and> (\<forall>i. lower_top_level heads n < i \<and> i \<le> n \<longrightarrow> heads ! i = []) \<and>
   (0 < lower_top_level heads n \<longrightarrow> heads ! lower_top_level heads n \<noteq> [])"
  by (induction n) (auto simp: le_Suc_eq)

lemma increasing_remove1: "increasing xs \<Longrightarrow> increasing (remove1 r xs)"
  by (induction xs) (auto dest: in_set_remove1 [THEN iffD1] notin_set_remove1 set_remove1_subset [THEN subsetD])

lemma remove_levels:
  assumes inv: "skiplist_inv compare sl"
    and rem: "RemoveLockRequest compare sl t = (Some r, sl')"
  shows "r \<in> set (contents sl) \<and> compare t r = 0 \<and>
    length (m_indexHeads sl') = MAX_SKIPLIST_LEVEL \<and>
    (\<forall>i < MAX_SKIPLIST_LEVEL. m_indexHeads sl' ! i = remove1 r (m_indexHeads sl ! i)) \<and>
    m_currHighestLevel sl' \<le> m_currHighestLevel sl \<and>
    (\<forall>i < MAX_SKIPLIST_LEVEL. m_currHighestLevel sl' < i \<longrightarrow> m_indexHeads sl' ! i = []) \<and>
    (0 < m_currHighestLevel sl' \<longrightarrow> m_indexHeads sl' ! m_currHighestLevel sl' \<noteq> [])"
proof -
  let ?heads = "m_indexHeads sl" and ?hi = "m_currHighestLevel sl"
  obtain res lvl stack where pos: "SearchLockRequestPosition compare sl t = (res, lvl, stack)"
    by (cases "SearchLockRequestPosition compare sl t") auto
  with rem have res: "res = Some r"
    by (auto simp: RemoveLockRequest_def Let_def split: option.splits)
  define heads where "heads = unlink_levels r lvl ?heads"
  have sl': "sl' = \<lparr>m_indexHeads = heads, m_currHighestLevel =
      (if lvl = ?hi then lower_top_level heads ?hi else ?hi)\<rparr>"
    using rem pos res by (auto simp: RemoveLockRequest_def Let_def heads_def)
  have found: "r \<in> set (contents sl)" "compare t r = 0" "lvl \<le> ?hi" "r \<in> set (?heads ! lvl)"
    and above: "\<And>i. lvl < i \<Longrightarrow> i < MAX_SKIPLIST_LEVEL \<Longrightarrow> r \<notin> set (?heads ! i)"
    using search_found [OF inv pos res] by auto
  have len: "length ?heads = MAX_SKIPLIST_LEVEL" using inv by (rule skiplist_invD)
  have hi: "?hi < MAX_SKIPLIST_LEVEL" using inv by (rule skiplist_invD)
  have nth: "heads ! i = remove1 r (?heads ! i)" if "i < MAX_SKIPLIST_LEVEL" for i
    using unlink_levels_nth [of lvl ?heads r] found hi len that above [of i]
    by (auto simp: heads_def remove1_idem)
  have lenh: "length heads = MAX_SKIPLIST_LEVEL"
    using unlink_levels_nth [of lvl ?heads r] found hi len by (simp add: heads_def)
  have empty: "heads ! i = []" if "i < MAX_SKIPLIST_LEVEL" "?hi < i" for i
    using nth that skiplist_invD(5) [OF inv that(1)] by simp
  show ?thesis
  proof (cases "lvl = ?hi")
    case True
    have low: "lower_top_level heads ?hi \<le> ?hi"
      "0 < lower_top_level heads ?hi \<longrightarrow> heads ! lower_top_level heads ?hi \<noteq> []"
      using lower_top_level_spec [of heads ?hi] by auto
    have "heads ! i = []" if "i < MAX_SKIPLIST_LEVEL" "lower_top_level heads ?hi < i" for i
      using lower_top_level_spec [of heads ?hi] empty that by (cases "i \<le> ?hi") auto
    with True low found nth lenh show ?thesis unfolding sl' by simp
  next
    case False
    then have "r \<notin> set (?heads ! ?hi)" using above [of ?hi] found hi by simp
    then have "0 < ?hi \<longrightarrow> heads ! ?hi \<noteq> []"
      using nth [OF hi] skiplist_invD(6) [OF inv] by (simp add: remove1_idem)
    with False found nth lenh empty show ?thesis unfolding sl' by auto
  qed
qed

lemma remove_inv:
  assumes inv: "skiplist_inv compare sl"
    and rem: "RemoveLockRequest compare sl t = (Some r, sl')"
  shows "skiplist_inv compare sl'"
proof -
  note spec = remove_levels [OF assms]
  have nth: "m_indexHeads sl' ! i = remove1 r (m_indexHeads sl ! i)" if "i < MAX_SKIPLIST_LEVEL" for i
    using spec that by blast
  have inc: "increasing (m_indexHeads sl' ! i)" if "i < MAX_SKIPLIST_LEVEL" for i
    using nth [OF that] skiplist_invD(3) [OF inv that] by (simp add: increasing_remove1)
  have nest: "set (m_indexHeads sl' ! Suc i) \<subseteq> set (m_indexHeads sl' ! i)"
    if "Suc i < MAX_SKIPLIST_LEVEL" for i
    using that nth [of i] nth [of "Suc i"] skiplist_invD(3,4) [OF inv, of i]
      skiplist_invD(3) [OF inv, of "Suc i"]
    by (auto simp: set_remove1_eq [OF increasing_distinct])
  show ?thesis
    unfolding skiplist_inv_def using spec inc nest skiplist_invD(2) [OF inv] by auto
qed

lemma remove_none:
  assumes "skiplist_inv compare sl" and "RemoveLockRequest compare sl t = (None, sl')"
  shows "sl' = sl \<and> (\<forall>x \<in> set (contents sl). compare t x \<noteq> 0)"
proof -
  obtain res lvl stack where pos: "SearchLockRequestPosition compare sl t = (res, lvl, stack)"
    by (cases "SearchLockRequestPosition compare sl t") auto
  then show ?thesis
    using assms search_missing [OF assms(1) pos]
    by (auto simp: RemoveLockRequest_def Let_def split: option.splits)
qed

lemma inv_LockRequestSkipList: "skiplist_inv compare LockRequestSkipList"
  by (simp add: skiplist_inv_def LockRequestSkipList_def MAX_SKIPLIST_LEVEL_def)

lemma inv_contents_increasing: "skiplist_inv compare sl \<Longrightarrow> increasing (contents sl)"
  using skiplist_invD(3) [of sl 0] by (simp add: MAX_SKIPLIST_LEVEL_def)

lemma mset_ins_pos: "mset (ins_pos r xs) = add_mset r (mset xs)"
proof -
  have "mset (below r xs) + mset (dropWhile (\<lambda>x. compare r x > 0) xs) = mset xs"
    by (metis mset_append takeWhile_dropWhile_id)
  then show ?thesis by (simp add: ins_pos_def)
qed

end

subsection \<open>The interface of the granted queue\<close>

text \<open>
  What a lock entry relies on: an ordered collection of requests with unique keys, in which
  a request is looked up, inserted and removed by comparison. The laws are stated over the
  ordered contents; the client lemmas below follow from them alone.
\<close>

locale granted_queue = request_order compare
  for compare :: "'r \<Rightarrow> 'r \<Rightarrow> int" +
  fixes empty :: 'q
    and insert :: "'q \<Rightarrow> 'r \<Rightarrow> RetStatus \<times> 'q"
    and remove :: "'q \<Rightarrow> 'r \<Rightarrow> 'r option \<times> 'q"
    and search :: "'q \<Rightarrow> 'r \<Rightarrow> 'r option"
    and items :: "'q \<Rightarrow> 'r list"
    and inv :: "'q \<Rightarrow> bool"
  assumes inv_empty: "inv empty" and items_empty: "items empty = []"
    and items_unique: "inv q \<Longrightarrow> x \<in> set (items q) \<Longrightarrow> y \<in> set (items q) \<Longrightarrow> compare x y = 0 \<Longrightarrow> x = y"
    and items_distinct: "inv q \<Longrightarrow> distinct (items q)"
    and search_iff: "inv q \<Longrightarrow> search q t = Some r \<longleftrightarrow> r \<in> set (items q) \<and> compare t r = 0"
    and insert_fail: "inv q \<Longrightarrow> fst (insert q r) = DSTORE_FAIL \<longleftrightarrow> (\<exists>x \<in> set (items q). compare r x = 0)"
    and insert_fail_same: "insert q r = (DSTORE_FAIL, q') \<Longrightarrow> q' = q"
    and insert_inv: "inv q \<Longrightarrow> insert q r = (DSTORE_SUCC, q') \<Longrightarrow> inv q'"
    and insert_items: "inv q \<Longrightarrow> insert q r = (DSTORE_SUCC, q') \<Longrightarrow>
      mset (items q') = add_mset r (mset (items q))"
    and remove_none: "inv q \<Longrightarrow> remove q t = (None, q') \<Longrightarrow>
      q' = q \<and> (\<forall>x \<in> set (items q). compare t x \<noteq> 0)"
    and remove_inv: "inv q \<Longrightarrow> remove q t = (Some r, q') \<Longrightarrow> inv q'"
    and remove_items: "inv q \<Longrightarrow> remove q t = (Some r, q') \<Longrightarrow>
      r \<in> set (items q) \<and> compare t r = 0 \<and> items q' = remove1 r (items q)"
begin

lemma insert_set: "inv q \<Longrightarrow> insert q r = (DSTORE_SUCC, q') \<Longrightarrow> set (items q') = Set.insert r (set (items q))"
  by (metis insert_items set_mset_add_mset_insert set_mset_mset)

lemma insert_length: "inv q \<Longrightarrow> insert q r = (DSTORE_SUCC, q') \<Longrightarrow> length (items q') = Suc (length (items q))"
  by (metis insert_items size_add_mset size_mset)

lemma insert_count:
  assumes "inv q" and "insert q r = (DSTORE_SUCC, q')"
  shows "length (filter P (items q')) = length (filter P (items q)) + (if P r then 1 else 0)"
proof -
  have "mset (filter P (items q')) = filter_mset P (add_mset r (mset (items q)))"
    using insert_items [OF assms] by simp
  then have "size (mset (filter P (items q'))) = size (filter_mset P (add_mset r (mset (items q))))"
    by simp
  then show ?thesis by (simp flip: mset_filter)
qed

lemma remove_found:
  assumes "inv q" and "x \<in> set (items q)" and "compare t x = 0"
  shows "\<exists>q'. remove q t = (Some x, q')"
proof (cases "remove q t")
  case (Pair res q')
  show ?thesis
  proof (cases res)
    case None
    then show ?thesis using remove_none [of q t q'] assms Pair by auto
  next
    case (Some r)
    then have "r \<in> set (items q)" "compare t r = 0" using remove_items [of q t r q'] assms Pair by auto
    then have "r = x"
      using items_unique [OF assms(1)] assms(2,3) compare_zero compare_zero_sym by metis
    with Some Pair show ?thesis by simp
  qed
qed

lemma search_after_insert:
  assumes "inv q" and "insert q r = (DSTORE_SUCC, q')"
  shows "search q' r = Some r"
  using assms search_iff insert_inv insert_set by auto

lemma remove_after_insert:
  assumes "inv q" and "insert q r = (DSTORE_SUCC, q')"
  shows "\<exists>q''. remove q' r = (Some r, q'') \<and> inv q'' \<and> mset (items q'') = mset (items q)"
proof -
  have q': "inv q'" "r \<in> set (items q')" using assms insert_inv insert_set by auto
  then obtain q'' where rem: "remove q' r = (Some r, q'')" using remove_found by fastforce
  then have "mset (items q'') = mset (items q') - {#r#}"
    using remove_items [OF q'(1) rem] by (simp add: mset_remove1)
  with rem remove_inv [OF q'(1) rem] insert_items [OF assms] show ?thesis by simp
qed

end

interpretation granted: granted_queue Compare LockRequestSkipList "InsertLockRequest Compare GetSeed"
  "RemoveLockRequest Compare" "SearchLockRequest Compare" contents "skiplist_inv Compare"
proof unfold_locales
  show "contents LockRequestSkipList = []"
    by (simp add: LockRequestSkipList_def MAX_SKIPLIST_LEVEL_def)
  fix q :: "LockRequest skiplist" and r q'
  assume "skiplist_inv Compare q" and "InsertLockRequest Compare GetSeed q r = (DSTORE_SUCC, q')"
  then show "mset (contents q') = add_mset r (mset (contents q))"
    by (simp add: request.insert_contents request.mset_ins_pos)
next
  fix q :: "LockRequest skiplist" and t r q'
  assume "skiplist_inv Compare q" and "RemoveLockRequest Compare q t = (Some r, q')"
  then show "r \<in> set (contents q) \<and> Compare t r = 0 \<and> contents q' = remove1 r (contents q)"
    using request.remove_levels by (fastforce simp: MAX_SKIPLIST_LEVEL_def)
qed (auto intro: request.inv_LockRequestSkipList request.insert_inv request.remove_inv
    simp: request.SearchLockRequest_iff request.insert_status
    dest: request.inv_contents_increasing request.increasing_distinct request.increasing_unique
      request.insert_fail_unchanged request.remove_none)

subsection \<open>Properties\<close>

lemma request_find:
  assumes "skiplist_inv Compare sl"
  shows "(\<exists>x \<in> set (contents sl). Compare t x = 0 \<and> find (\<lambda>x. Compare t x = 0) (contents sl) = Some x) \<or>
    ((\<forall>x \<in> set (contents sl). Compare t x \<noteq> 0) \<and> find (\<lambda>x. Compare t x = 0) (contents sl) = None)"
  by (cases "find (\<lambda>x. Compare t x = 0) (contents sl)")
    (auto simp: find_None_iff find_Some_iff)

text \<open>
  C23. Insertion into the skip list of granted requests. The list stays well formed. A request
  that compares equal to one in the list is refused and the list is left as it was; any other
  request is linked between the smaller and the greater ones, and nothing else moves.
\<close>

theorem InsertLockRequest_correct:
  assumes "skiplist_inv Compare sl" and "InsertLockRequest Compare GetSeed sl r = (ret, sl')"
  shows "skiplist_inv Compare sl' \<and>
    (if \<exists>x \<in> set (contents sl). Compare r x = 0 then ret = DSTORE_FAIL \<and> sl' = sl
     else ret = DSTORE_SUCC \<and>
       contents sl' = takeWhile (\<lambda>x. Compare r x > 0) (contents sl) @ r #
         dropWhile (\<lambda>x. Compare r x > 0) (contents sl))"
  using assms granted.insert_fail [OF assms(1), of r] granted.insert_fail_same [of sl r sl']
    granted.insert_inv [OF assms(1), of r sl'] request.insert_contents [OF assms(1), of GetSeed r sl']
  by (cases ret) (auto simp: request.ins_pos_def)

text \<open>
  C32. Removal from the skip list of granted requests finds the request exactly when the list
  holds one that compares equal, takes it off every level, and leaves the others in place and
  the list well formed. A search returns the same request.
\<close>

theorem RemoveLockRequest_correct:
  assumes "skiplist_inv Compare sl" and "RemoveLockRequest Compare sl t = (res, sl')"
  shows "skiplist_inv Compare sl' \<and> res = find (\<lambda>x. Compare t x = 0) (contents sl) \<and>
    SearchLockRequest Compare sl t = res \<and>
    contents sl' = (case res of None \<Rightarrow> contents sl | Some r \<Rightarrow> remove1 r (contents sl))"
proof (cases res)
  case None
  then have "sl' = sl" and "\<forall>x \<in> set (contents sl). Compare t x \<noteq> 0"
    using granted.remove_none [OF assms(1)] assms(2) by auto
  then show ?thesis
    using assms(1) None granted.search_iff [OF assms(1), of t] request_find [OF assms(1), of t]
    by (cases "SearchLockRequest Compare sl t") auto
next
  case (Some r)
  then have r: "r \<in> set (contents sl)" "Compare t r = 0" "contents sl' = remove1 r (contents sl)"
    using granted.remove_items [OF assms(1)] assms(2) by auto
  moreover have "find (\<lambda>x. Compare t x = 0) (contents sl) = Some r"
    using request_find [OF assms(1), of t] r granted.items_unique [OF assms(1)]
      request.compare_zero request.compare_zero_sym by metis
  moreover have "SearchLockRequest Compare sl t = Some r"
    using r granted.search_iff [OF assms(1)] by blast
  moreover have "skiplist_inv Compare sl'"
    using granted.remove_inv [OF assms(1)] assms(2) Some by blast
  ultimately show ?thesis using Some by simp
qed

text \<open>A list of three requests on two levels, and what the operations do to it.\<close>

definition sample_request :: "LockMode \<Rightarrow> uint32 \<Rightarrow> LockRequest" where
  "sample_request mode core =
     \<lparr>m_lockMode = mode, m_enqueueMethod = HOLD_OR_WAIT, threadId = ucast core + 100, threadCoreIdx = core\<rparr>"

definition sample_list :: "LockRequest skiplist" where
  "sample_list = fold (\<lambda>r sl. snd (InsertLockRequest Compare GetSeed sl r))
     [sample_request DSTORE_SHARE_LOCK 4, sample_request DSTORE_ROW_SHARE_LOCK 3,
      sample_request DSTORE_SHARE_LOCK 1] LockRequestSkipList"

lemma inv_fold_insert:
  "skiplist_inv Compare sl \<Longrightarrow>
   skiplist_inv Compare (fold (\<lambda>r sl. snd (InsertLockRequest Compare GetSeed sl r)) rs sl)"
proof (induction rs arbitrary: sl)
  case (Cons r rs)
  have "skiplist_inv Compare (snd (InsertLockRequest Compare GetSeed sl r))"
    using Cons.prems granted.insert_inv [of sl r] granted.insert_fail_same [of sl r]
    by (cases "InsertLockRequest Compare GetSeed sl r"; cases "fst (InsertLockRequest Compare GetSeed sl r)") auto
  then show ?case by (simp add: Cons.IH)
qed simp

lemma inv_sample_list: "skiplist_inv Compare sample_list"
  unfolding sample_list_def by (rule inv_fold_insert) (rule request.inv_LockRequestSkipList)

lemma contents_sample_list:
  "contents sample_list =
     [sample_request DSTORE_ROW_SHARE_LOCK 3, sample_request DSTORE_SHARE_LOCK 1,
      sample_request DSTORE_SHARE_LOCK 4]"
  by code_simp

theorem InsertLockRequest_correct_witness:
  "skiplist_inv Compare sample_list \<and>
   contents (snd (InsertLockRequest Compare GetSeed sample_list (sample_request DSTORE_SHARE_LOCK 2))) =
     [sample_request DSTORE_ROW_SHARE_LOCK 3, sample_request DSTORE_SHARE_LOCK 1,
      sample_request DSTORE_SHARE_LOCK 2, sample_request DSTORE_SHARE_LOCK 4]"
  using inv_sample_list InsertLockRequest_correct
      [OF inv_sample_list prod.collapse [symmetric], of "sample_request DSTORE_SHARE_LOCK 2"]
  unfolding contents_sample_list
  by (simp add: sample_request_def Compare_def less_LockMode_def)

theorem RemoveLockRequest_correct_witness:
  "skiplist_inv Compare sample_list \<and>
   contents (snd (RemoveLockRequest Compare sample_list (sample_request DSTORE_SHARE_LOCK 1))) =
     [sample_request DSTORE_ROW_SHARE_LOCK 3, sample_request DSTORE_SHARE_LOCK 4]"
  using inv_sample_list RemoveLockRequest_correct
      [OF inv_sample_list prod.collapse [symmetric], of "sample_request DSTORE_SHARE_LOCK 1"]
  unfolding contents_sample_list
  by (simp add: sample_request_def Compare_def)

end
