(* ===== verification/Lock_Entry.thy ===== *)
theory Lock_Entry
  imports Lock_SkipList
begin

text \<open>
  One lockable object (\<open>LockEntry\<close>, \<open>EarlyDeadLockPreventor\<close> and \<open>LockRequestFreeList\<close> of
  \<open>src/lock/dstore_lock_entry.cpp\<close>): the queue of granted requests, the queue of waiting
  requests, and the masks and counters that summarise them. Every operation of the source is a
  function on the entry and the free list.

  The conventions: a request pointer is the request it points to; a \<open>LockErrorInfo\<close> pointer
  is an option, because callers may pass \<open>nullptr\<close>; \<open>DSTORE_FAIL\<close> with an error code set
  by \<open>storage_set_error\<close> is \<open>Inl\<close> of that code and \<open>DSTORE_SUCC\<close> is \<open>Inr ()\<close>. The
  argument \<open>dup_ok\<close> of an operation that copies a request says whether the copy could be
  allocated. The calls of \<open>WakeUp\<close> are returned as the list of requests woken, in order. What the
  operations assert is stated beside them, in \<open>Lock_Asserts\<close>.
\<close>

subsection \<open>The free list\<close>

datatype LockErrorCode =
    LOCK_ERROR_OUT_OF_MEMORY
  | LOCK_INFO_NOT_AVAIL
  | LOCK_INFO_WAITING
  | LOCK_ERROR_DEADLOCK
  | LOCK_ERROR_WAIT_TIMEOUT
  | LOCK_ERROR_WAIT_CANCELED
  | LOCK_ERROR_NOT_SUPPORTED
  | LOCK_ERROR_SCAN_PASSED
  | XACTLOCK_ERROR_TRANSFER_LOCK_NOT_HELD

record LockRequestFreeList =
  m_freeList :: "LockRequest list"
  m_freeListLength :: uint32
  m_maxLength :: uint32

definition LockRequestFreeList_new :: "uint32 \<Rightarrow> LockRequestFreeList" where
  "LockRequestFreeList_new maxLength = \<lparr>m_freeList = [], m_freeListLength = 0, m_maxLength = maxLength\<rparr>"

definition PopACopyOf ::
    "bool \<Rightarrow> LockRequestFreeList \<Rightarrow> LockRequest \<Rightarrow> LockRequest option \<times> LockRequestFreeList" where
  "PopACopyOf dup_ok fl request =
     (let copy = (if dup_ok then Some request else None) in
      case m_freeList fl of
        [] \<Rightarrow> (copy, fl)
      | _ # rest \<Rightarrow> (copy, fl\<lparr>m_freeList := rest, m_freeListLength := m_freeListLength fl - 1\<rparr>))"

definition Push :: "LockRequestFreeList \<Rightarrow> LockRequest \<Rightarrow> LockRequestFreeList" where
  "Push fl request =
     (if m_freeListLength fl \<ge> m_maxLength fl then fl
      else fl\<lparr>m_freeList := m_freeList fl @ [request], m_freeListLength := m_freeListLength fl + 1\<rparr>)"

subsection \<open>The entry\<close>

record LockEntryCore =
  m_lockTag :: LockTag
  m_grantMask :: LockMask
  m_waitMask :: LockMask
  m_grantedTotal :: uint32
  m_waitingTotal :: uint32
  m_grantedCnt :: "LockMode \<Rightarrow> uint32"
  m_waitingCnt :: "LockMode \<Rightarrow> uint32"

definition LockEntryCore_new :: LockEntryCore where
  "LockEntryCore_new =
     \<lparr>m_lockTag = LockTag_default, m_grantMask = 0, m_waitMask = 0, m_grantedTotal = 0,
      m_waitingTotal = 0, m_grantedCnt = (\<lambda>_. 0), m_waitingCnt = (\<lambda>_. 0)\<rparr>"

record LockEntry =
  lockEntryCore :: LockEntryCore
  grantedQueue :: "LockRequest skiplist"
  waitingQueue :: "LockRequest list"

definition Initialize :: "LockTag \<Rightarrow> LockEntry" where
  "Initialize tag =
     \<lparr>lockEntryCore = LockEntryCore_new\<lparr>m_lockTag := tag\<rparr>,
      grantedQueue = LockRequestSkipList, waitingQueue = []\<rparr>"

definition IsNoHolderAndNoWaiter :: "LockEntry \<Rightarrow> bool" where
  "IsNoHolderAndNoWaiter e \<longleftrightarrow>
     m_grantedTotal (lockEntryCore e) = 0 \<and> m_waitingTotal (lockEntryCore e) = 0"

text \<open>The requests the iterator over level 0 of the granted queue visits.\<close>

abbreviation holders :: "LockEntry \<Rightarrow> LockRequest list" where
  "holders e \<equiv> contents (grantedQueue e)"

subsection \<open>The granted queue\<close>

definition AddToHolderQueue ::
    "LockEntry \<Rightarrow> LockRequestFreeList \<Rightarrow> LockRequest \<Rightarrow> LockEntry \<times> LockRequestFreeList" where
  "AddToHolderQueue e fl requester =
     (if IsOnlyWait requester then (e, Push fl requester)
      else case InsertLockRequest Compare GetSeed (grantedQueue e) requester of
        (DSTORE_FAIL, _) \<Rightarrow> (e, Push fl requester)
      | (DSTORE_SUCC, queue) \<Rightarrow>
          let core = lockEntryCore e; mode = GetLockMode requester in
          (e\<lparr>grantedQueue := queue,
             lockEntryCore := core
               \<lparr>m_grantMask := m_grantMask core OR GetLockMask mode,
                m_grantedCnt := (m_grantedCnt core)(mode := m_grantedCnt core mode + 1),
                m_grantedTotal := m_grantedTotal core + 1\<rparr>\<rparr>, fl))"

definition RemoveFromHolderQueue ::
    "LockEntry \<Rightarrow> LockRequestFreeList \<Rightarrow> LockRequest \<Rightarrow> RetStatus \<times> LockEntry \<times> LockRequestFreeList" where
  "RemoveFromHolderQueue e fl requester =
     (case RemoveLockRequest Compare (grantedQueue e) requester of
        (None, _) \<Rightarrow> (DSTORE_FAIL, e, fl)
      | (Some found, queue) \<Rightarrow>
          let core = lockEntryCore e; mode = GetLockMode requester;
              cnt = (m_grantedCnt core)(mode := m_grantedCnt core mode - 1) in
          (DSTORE_SUCC,
           e\<lparr>grantedQueue := queue,
             lockEntryCore := core
               \<lparr>m_grantedTotal := m_grantedTotal core - 1, m_grantedCnt := cnt,
                m_grantMask := (if cnt mode = 0 then m_grantMask core AND NOT (GetLockMask mode)
                                else m_grantMask core)\<rparr>\<rparr>,
           Push fl found))"

text \<open>
  The loop of \<open>HasConflictWithAnyHolder\<close>. The iterator fetches the next request before the
  body runs, and the body removes only the current one, so it visits the requests that were in
  the queue at the start. The source panics when an invalid holder cannot be removed; as it has
  just been found in the queue this does not happen, and the status is not used here.
\<close>

fun holder_conflict_loop ::
    "LockRequest \<Rightarrow> LockRequest list \<Rightarrow> LockEntry \<Rightarrow> LockRequestFreeList \<Rightarrow> LockErrorInfo option
     \<Rightarrow> bool \<times> LockEntry \<times> LockRequestFreeList \<times> LockErrorInfo option" where
  "holder_conflict_loop requester [] e fl info = (False, e, fl, info)"
| "holder_conflict_loop requester (holder # rest) e fl info =
     (if \<not> IsSameRequester holder requester \<and>
         HasConflictWithMode (GetLockMode requester) (GetLockMode holder)
      then if \<not> IsValid holder (recoveryMode (m_lockTag (lockEntryCore e)))
        then case RemoveFromHolderQueue e fl holder of
          (_, e', fl') \<Rightarrow> holder_conflict_loop requester rest e' fl' info
        else (True, e, fl, map_option (\<lambda>i. (RecordErrInfo holder i)\<lparr>isHolder := True\<rparr>) info)
      else holder_conflict_loop requester rest e fl info)"

definition HasConflictWithAnyHolder ::
    "LockEntry \<Rightarrow> LockRequest \<Rightarrow> LockRequestFreeList \<Rightarrow> LockErrorInfo option
     \<Rightarrow> bool \<times> LockEntry \<times> LockRequestFreeList \<times> LockErrorInfo option" where
  "HasConflictWithAnyHolder e requester fl info =
     (if (GetConflictMask (GetLockMode requester) AND m_grantMask (lockEntryCore e)) = 0
      then (False, e, fl, info)
      else holder_conflict_loop requester (iterate_level (grantedQueue e) 0) e fl info)"

subsection \<open>Preventing early deadlocks\<close>

datatype PreventorResult =
    NO_DEADLOCK
  | PREVENT_BY_GRANT_LOCK
  | PREVENT_BY_CUT_IN_LINE
  | CANT_PREVENT_DEADLOCK

text \<open>The cut-in-line position is the number of waiters in front of it.\<close>

record EarlyDeadLockPreventor =
  m_cutInLinePosition :: "nat option"
  m_result :: PreventorResult
  m_myOwnedLocks :: LockMask
  m_othersOwnedLocks :: LockMask

definition EarlyDeadLockPreventor_new :: EarlyDeadLockPreventor where
  "EarlyDeadLockPreventor_new =
     \<lparr>m_cutInLinePosition = None, m_result = NO_DEADLOCK, m_myOwnedLocks = 0, m_othersOwnedLocks = 0\<rparr>"

definition PrepareOwnedLock ::
    "LockRequest skiplist \<Rightarrow> LockRequest \<Rightarrow> EarlyDeadLockPreventor \<Rightarrow> EarlyDeadLockPreventor" where
  "PrepareOwnedLock queue requester preventor =
     fold (\<lambda>holder p.
         if IsSameRequester holder requester
         then p\<lparr>m_myOwnedLocks := m_myOwnedLocks p OR GetLockMask (GetLockMode holder)\<rparr>
         else p\<lparr>m_othersOwnedLocks := m_othersOwnedLocks p OR GetLockMask (GetLockMode holder)\<rparr>)
       (iterate_level queue 0) preventor"

text \<open>
  The first loop of \<open>CheckForDeadLock\<close>: the modes awaited in front of the first waiter that
  conflicts with the owned locks, and that waiter with its position.
\<close>

fun first_blocking_waiter ::
    "LockMask \<Rightarrow> LockRequest list \<Rightarrow> LockMask \<Rightarrow> nat \<Rightarrow> LockMask \<times> (LockRequest \<times> nat) option" where
  "first_blocking_waiter owned [] ahead position = (ahead, None)"
| "first_blocking_waiter owned (waiter # rest) ahead position =
     (if HasConflictWithMask (GetLockMode waiter) owned then (ahead, Some (waiter, position))
      else first_blocking_waiter owned rest (ahead OR GetLockMask (GetLockMode waiter)) (Suc position))"

definition CheckForDeadLock ::
    "LockRequest skiplist \<Rightarrow> LockRequest list \<Rightarrow> LockRequest \<Rightarrow> EarlyDeadLockPreventor
     \<Rightarrow> EarlyDeadLockPreventor" where
  "CheckForDeadLock queue waiting requester p =
     (case first_blocking_waiter (m_myOwnedLocks p) waiting 0 0 of
        (aheadWaitingLocks, None) \<Rightarrow> p
      | (aheadWaitingLocks, Some (firstBlockingWaiter, position)) \<Rightarrow>
          if \<not> HasConflictWithMask (GetLockMode requester) (m_othersOwnedLocks p) \<and>
             \<not> HasConflictWithMask (GetLockMode requester) aheadWaitingLocks
          then p\<lparr>m_result := PREVENT_BY_GRANT_LOCK\<rparr>
          else
            let waiterOwnedLocks =
              fold (\<lambda>holder locks. if IsSameRequester holder firstBlockingWaiter
                  then locks OR GetLockMask (GetLockMode holder) else locks)
                (iterate_level queue 0) 0 in
            if HasConflictWithMask (GetLockMode requester) waiterOwnedLocks
            then p\<lparr>m_result := CANT_PREVENT_DEADLOCK\<rparr>
            else p\<lparr>m_result := PREVENT_BY_CUT_IN_LINE, m_cutInLinePosition := Some position\<rparr>)"

definition Preventor_Start ::
    "LockRequest skiplist \<Rightarrow> LockRequest list \<Rightarrow> LockRequest \<Rightarrow> EarlyDeadLockPreventor
     \<Rightarrow> EarlyDeadLockPreventor" where
  "Preventor_Start queue waiting requester preventor =
     (let p = PrepareOwnedLock queue requester preventor in
      if m_myOwnedLocks p = 0 then p else CheckForDeadLock queue waiting requester p)"

subsection \<open>The waiting queue\<close>

definition RecordBlockThread :: "LockRequest option \<Rightarrow> LockErrorInfo option \<Rightarrow> LockErrorInfo option" where
  "RecordBlockThread node info =
     (case node of None \<Rightarrow> info
      | Some preRequest \<Rightarrow> map_option (\<lambda>i. (RecordErrInfo preRequest i)\<lparr>isHolder := False\<rparr>) info)"

definition add_waiter :: "LockEntry \<Rightarrow> LockRequest \<Rightarrow> nat \<Rightarrow> LockEntry" where
  "add_waiter e requester position =
     (let core = lockEntryCore e; mode = GetLockMode requester in
      e\<lparr>waitingQueue := take position (waitingQueue e) @ requester # drop position (waitingQueue e),
        lockEntryCore := core
          \<lparr>m_waitMask := m_waitMask core OR GetLockMask mode,
           m_waitingCnt := (m_waitingCnt core)(mode := m_waitingCnt core mode + 1),
           m_waitingTotal := m_waitingTotal core + 1\<rparr>\<rparr>)"

definition TryAddToWaiterQueue ::
    "LockEntry \<Rightarrow> LockRequest \<Rightarrow> LockRequestFreeList \<Rightarrow> LockErrorInfo option
     \<Rightarrow> (LockErrorCode + unit) \<times> LockEntry \<times> LockRequestFreeList \<times> LockErrorInfo option" where
  "TryAddToWaiterQueue e requester fl info =
     (if \<exists>waiter \<in> set (waitingQueue e).
           IsSameRequester waiter requester \<and> GetLockMode waiter = GetLockMode requester
      then (Inl LOCK_INFO_WAITING, e, Push fl requester, info)
      else
        let p = Preventor_Start (grantedQueue e) (waitingQueue e) requester EarlyDeadLockPreventor_new in
        case m_result p of
          CANT_PREVENT_DEADLOCK \<Rightarrow> (Inl LOCK_ERROR_DEADLOCK, e, Push fl requester, info)
        | PREVENT_BY_GRANT_LOCK \<Rightarrow>
            (case AddToHolderQueue e fl requester of (e', fl') \<Rightarrow> (Inr (), e', fl', info))
        | PREVENT_BY_CUT_IN_LINE \<Rightarrow>
            let position = the (m_cutInLinePosition p) in
            (Inl LOCK_INFO_WAITING, add_waiter e requester position, fl,
             RecordBlockThread
               (if 0 < position then Some (waitingQueue e ! (position - 1)) else None) info)
        | NO_DEADLOCK \<Rightarrow>
            (Inl LOCK_INFO_WAITING, add_waiter e requester (length (waitingQueue e)), fl,
             RecordBlockThread (last_opt (waitingQueue e)) info))"

definition RemoveFromWaiterQueue :: "LockEntry \<Rightarrow> LockRequest \<Rightarrow> LockEntry" where
  "RemoveFromWaiterQueue e requester =
     (let core = lockEntryCore e; mode = GetLockMode requester;
          cnt = (m_waitingCnt core)(mode := m_waitingCnt core mode - 1) in
      e\<lparr>waitingQueue := remove1 requester (waitingQueue e),
        lockEntryCore := core
          \<lparr>m_waitingTotal := m_waitingTotal core - 1, m_waitingCnt := cnt,
           m_waitMask := (if cnt mode = 0 then m_waitMask core AND NOT (GetLockMask mode)
                          else m_waitMask core)\<rparr>\<rparr>)"

text \<open>
  The loop of \<open>AdvanceWaitingQueue\<close> over the waiters; the last argument collects the requests
  woken so far.
\<close>

fun advance_loop ::
    "LockRequest list \<Rightarrow> LockEntry \<Rightarrow> LockRequestFreeList \<Rightarrow> LockErrorInfo option \<Rightarrow> LockRequest list
     \<Rightarrow> LockEntry \<times> LockRequestFreeList \<times> LockRequest list" where
  "advance_loop [] e fl info woken = (e, fl, woken)"
| "advance_loop (waiter # rest) e fl info woken =
     (if \<not> IsValid waiter (recoveryMode (m_lockTag (lockEntryCore e)))
      then advance_loop rest (RemoveFromWaiterQueue e waiter) (Push fl waiter) info woken
      else case HasConflictWithAnyHolder e waiter fl info of
        (True, e', fl', info') \<Rightarrow> (e', fl', woken)
      | (False, e', fl', info') \<Rightarrow>
          (case AddToHolderQueue (RemoveFromWaiterQueue e' waiter) fl' waiter of
             (e'', fl'') \<Rightarrow> advance_loop rest e'' fl'' info' (woken @ [waiter])))"

definition AdvanceWaitingQueue ::
    "LockEntry \<Rightarrow> LockRequestFreeList \<Rightarrow> LockEntry \<times> LockRequestFreeList \<times> LockRequest list" where
  "AdvanceWaitingQueue e fl = advance_loop (waitingQueue e) e fl (Some LockErrorInfo_Initialize) []"

subsection \<open>Operations of the entry\<close>

definition EnqueueLockRequest ::
    "bool \<Rightarrow> LockEntry \<Rightarrow> LockRequest \<Rightarrow> LockRequestFreeList \<Rightarrow> LockErrorInfo option
     \<Rightarrow> (LockErrorCode + unit) \<times> LockEntry \<times> LockRequestFreeList \<times> LockErrorInfo option" where
  "EnqueueLockRequest dup_ok e request fl info =
     (case PopACopyOf dup_ok fl request of
        (None, fl1) \<Rightarrow> (Inl LOCK_ERROR_OUT_OF_MEMORY, e, fl1, info)
      | (Some requester, fl1) \<Rightarrow>
          (case HasConflictWithAnyHolder e requester fl1 info of
             (conflict, e2, fl2, info2) \<Rightarrow>
               if \<not> conflict \<and>
                  \<not> HasConflictWithMask (GetLockMode requester) (m_waitMask (lockEntryCore e2)) \<or>
                  IsForceHold requester
               then (case AddToHolderQueue e2 fl2 requester of (e3, fl3) \<Rightarrow> (Inr (), e3, fl3, info2))
               else if IsDontWait requester
               then (Inl LOCK_INFO_NOT_AVAIL, e2, Push fl2 requester, info2)
               else TryAddToWaiterQueue e2 requester fl2 info2))"

definition DequeueLockRequest ::
    "LockEntry \<Rightarrow> LockRequest \<Rightarrow> LockRequestFreeList
     \<Rightarrow> bool \<times> LockEntry \<times> LockRequestFreeList \<times> LockRequest list" where
  "DequeueLockRequest e requester fl =
     (case RemoveFromHolderQueue e fl requester of
        (DSTORE_SUCC, e', fl') \<Rightarrow> (True, AdvanceWaitingQueue e' fl')
      | (DSTORE_FAIL, e', fl') \<Rightarrow>
          (case find (\<lambda>waiter. IsSameRequester waiter requester \<and>
                  GetLockMode waiter = GetLockMode requester) (waitingQueue e') of
             Some waiter \<Rightarrow>
               (True, AdvanceWaitingQueue (RemoveFromWaiterQueue e' waiter) (Push fl' waiter))
           | None \<Rightarrow> (False, e', fl', [])))"

definition IsHeldByRequester :: "LockEntry \<Rightarrow> LockRequest \<Rightarrow> bool" where
  "IsHeldByRequester e requester \<longleftrightarrow> SearchLockRequest Compare (grantedQueue e) requester \<noteq> None"

definition remove_holders :: "LockEntry \<Rightarrow> LockRequestFreeList \<Rightarrow> LockEntry \<times> LockRequestFreeList" where
  "remove_holders e fl =
     fold (\<lambda>holder (e, fl). snd (RemoveFromHolderQueue e fl holder))
       (iterate_level (grantedQueue e) 0) (e, fl)"

text \<open>The waiters are taken off one by one; the counters of the core are reset at the end.\<close>

definition RemoveAllRequests :: "LockEntry \<Rightarrow> LockRequestFreeList \<Rightarrow> LockEntry \<times> LockRequestFreeList" where
  "RemoveAllRequests e fl =
     (case remove_holders e fl of
        (e', fl') \<Rightarrow>
          (e'\<lparr>waitingQueue := [], lockEntryCore := LockEntryCore_new\<rparr>,
           fold (\<lambda>waiter fl. Push fl waiter) (waitingQueue e') fl'))"

end
