(* ===== verification/Lock_Entry_Inv.thy ===== *)
theory Lock_Entry_Inv
  imports Lock_Entry
begin

text \<open>
  Correctness of the lock entry: its masks and counters summarise its queues, conflicting locks
  are never held by two requesters, no waiter is left behind, and the position the deadlock
  preventor finds in the waiting queue is safe. The states an entry can reach are the inductive
  predicate \<open>reachable_entry\<close>.
\<close>

subsection \<open>Masks and counters summarise a queue\<close>

definition summary_ok ::
    "LockRequest list \<Rightarrow> LockMask \<Rightarrow> uint32 \<Rightarrow> (LockMode \<Rightarrow> uint32) \<Rightarrow> bool" where
  "summary_ok rs lmask tot cnt \<longleftrightarrow>
     (\<forall>n. bit lmask n \<longleftrightarrow> (\<exists>r \<in> set rs. n = lock_mode_code (m_lockMode r))) \<and>
     tot = of_nat (length rs) \<and>
     (\<forall>m. cnt m = of_nat (length (filter (\<lambda>r. m_lockMode r = m) rs)))"

lemma summary_empty [simp]: "summary_ok [] 0 0 (\<lambda>_. 0)"
  by (simp add: summary_ok_def)

lemma summary_add:
  assumes "summary_ok rs lmask tot cnt" and "mset rs' = add_mset r (mset rs)"
  shows "summary_ok rs' (lmask OR GetLockMask (m_lockMode r)) (tot + 1)
    (cnt(m_lockMode r := cnt (m_lockMode r) + 1))"
proof -
  have set: "set rs' = insert r (set rs)" and len: "length rs' = Suc (length rs)"
    using assms(2) by (metis set_mset_add_mset_insert set_mset_mset, metis size_add_mset size_mset)
  have "mset (filter P rs') = filter_mset P (add_mset r (mset rs))" for P
    using assms(2) by simp
  then have "size (mset (filter P rs')) = size (filter_mset P (add_mset r (mset rs)))" for P
    by simp
  then have cnt: "length (filter P rs') = length (filter P rs) + (if P r then 1 else 0)" for P
    by (simp flip: mset_filter)
  show ?thesis
    using assms(1) unfolding summary_ok_def
    by (auto simp: set len cnt bit_or_iff bit_GetLockMask)
qed

lemma summary_remove:
  assumes sum: "summary_ok rs lmask tot cnt" and r: "r \<in> set rs" and mode: "m_lockMode r = m"
    and len: "length rs < 2 ^ 32"
  shows "summary_ok (remove1 r rs)
    (if cnt m - 1 = 0 then lmask AND NOT (GetLockMask m) else lmask) (tot - 1)
    (cnt(m := cnt m - 1))"
proof -
  let ?P = "\<lambda>x. m_lockMode x = m"
  have "Suc (length (filter ?P (remove1 r rs))) = length (filter ?P rs)"
    using r mode by (intro length_filter_remove1) auto
  then have "cnt m = of_nat (Suc (length (filter ?P (remove1 r rs))))"
    using sum unfolding summary_ok_def by metis
  then have cnt: "cnt m - 1 = of_nat (length (filter ?P (remove1 r rs)))" by simp
  have "length (filter ?P (remove1 r rs)) < 2 ^ LENGTH(32)"
    using len length_filter_le [of ?P "remove1 r rs"] r by (simp add: length_remove1)
  then have zero: "cnt m - 1 = 0 \<longleftrightarrow> filter ?P (remove1 r rs) = []"
    unfolding cnt by (subst of_nat_word_eq_0_iff) auto
  have bits: "bit (if cnt m - 1 = 0 then lmask AND NOT (GetLockMask m) else lmask) n \<longleftrightarrow>
      (\<exists>x \<in> set (remove1 r rs). n = lock_mode_code (m_lockMode x))" for n
  proof -
    have "bit lmask n \<longleftrightarrow> n = lock_mode_code m \<or> (\<exists>x \<in> set (remove1 r rs). n = lock_mode_code (m_lockMode x))"
      using sum r mode unfolding summary_ok_def
      by (metis (no_types, lifting) in_set_remove1 notin_set_remove1)
    then show ?thesis
      unfolding zero
      by (auto simp: bit_and_iff bit_not_iff bit_GetLockMask filter_empty_conv dest: bit_imp_le_length)
  qed
  have "length rs = Suc (length (remove1 r rs))"
    using r length_pos_if_in_set [of r rs] by (simp add: length_remove1)
  then have "tot - 1 = of_nat (length (remove1 r rs))"
    using sum unfolding summary_ok_def by simp
  moreover have "(cnt(m := cnt m - 1)) m' = of_nat (length (filter (\<lambda>x. m_lockMode x = m') (remove1 r rs)))" for m'
    using cnt sum mode filter_remove1_other [of "\<lambda>x. m_lockMode x = m'" r rs]
    unfolding summary_ok_def by (cases "m' = m") auto
  ultimately show ?thesis unfolding summary_ok_def using bits by blast
qed

lemma summary_conflict:
  assumes "summary_ok rs lmask tot cnt" and "m \<noteq> DSTORE_LOCK_MODE_MAX"
  shows "HasConflictWithMask m lmask \<longleftrightarrow> (\<exists>r \<in> set rs. HasConflictWithMode m (m_lockMode r))"
  using assms(1) unfolding HasConflictWithMask_iff [OF assms(2)] summary_ok_def by auto

lemma summary_total_0:
  "summary_ok rs lmask tot cnt \<Longrightarrow> length rs < 2 ^ 32 \<Longrightarrow> tot = 0 \<longleftrightarrow> rs = []"
  unfolding summary_ok_def by (simp add: of_nat_word_eq_0_iff)

subsection \<open>The invariant of an entry\<close>

text \<open>
  The granted queue is a well-formed skip list, both queues agree with their masks and
  counters, no request has the bound \<open>DSTORE_LOCK_MODE_MAX\<close> as its mode, no requester waits
  twice for the same mode, and the number of requests fits the 32-bit counters.
\<close>

definition same_wait :: "LockRequest \<Rightarrow> LockRequest \<Rightarrow> bool" where
  "same_wait a b \<longleftrightarrow> IsSameRequester a b \<and> m_lockMode a = m_lockMode b"

definition entry_inv :: "LockEntry \<Rightarrow> bool" where
  "entry_inv e \<longleftrightarrow>
     skiplist_inv Compare (grantedQueue e) \<and>
     summary_ok (holders e) (m_grantMask (lockEntryCore e)) (m_grantedTotal (lockEntryCore e))
       (m_grantedCnt (lockEntryCore e)) \<and>
     summary_ok (waitingQueue e) (m_waitMask (lockEntryCore e)) (m_waitingTotal (lockEntryCore e))
       (m_waitingCnt (lockEntryCore e)) \<and>
     (\<forall>r \<in> set (holders e) \<union> set (waitingQueue e). m_lockMode r \<noteq> DSTORE_LOCK_MODE_MAX) \<and>
     sorted_wrt (\<lambda>a b. \<not> same_wait a b) (waitingQueue e) \<and>
     length (holders e) + length (waitingQueue e) < 2 ^ 32"

text \<open>
  \<open>blocks h r\<close>: the holder \<open>h\<close> keeps the request \<open>r\<close> from being granted.
\<close>

definition blocks :: "LockRequest \<Rightarrow> LockRequest \<Rightarrow> bool" where
  "blocks h r \<longleftrightarrow> \<not> IsSameRequester h r \<and> HasConflictWithMode (m_lockMode r) (m_lockMode h)"

text \<open>Conflicting locks are held by one requester only, unless one of them was forced.\<close>

definition exclusive :: "LockEntry \<Rightarrow> bool" where
  "exclusive e \<longleftrightarrow>
     (\<forall>a \<in> set (holders e). \<forall>b \<in> set (holders e).
        HasConflictWithMode (m_lockMode a) (m_lockMode b) \<longrightarrow>
        IsSameRequester a b \<or> IsForceHold a \<or> IsForceHold b)"

text \<open>The first waiter, if there is one, waits for a reason.\<close>

definition head_blocked :: "LockEntry \<Rightarrow> bool" where
  "head_blocked e \<longleftrightarrow>
     (case waitingQueue e of [] \<Rightarrow> True | w # _ \<Rightarrow> \<exists>h \<in> set (holders e). blocks h w)"

lemma same_wait_sym: "same_wait a b = same_wait b a"
  by (auto simp: same_wait_def IsSameRequester_def)

lemma blocks_sym:
  assumes "m_lockMode a \<noteq> DSTORE_LOCK_MODE_MAX" and "m_lockMode b \<noteq> DSTORE_LOCK_MODE_MAX"
  shows "blocks a b = blocks b a"
  using HasConflictWithMode_commute [OF assms] by (auto simp: blocks_def IsSameRequester_def)

lemma holder_conflict_loop_eq:
  "holder_conflict_loop r hs e fl info =
     (\<exists>h \<in> set hs. blocks h r, e, fl,
      case find (\<lambda>h. blocks h r) hs of None \<Rightarrow> info
      | Some h \<Rightarrow> map_option (\<lambda>i. (RecordErrInfo h i)\<lparr>isHolder := True\<rparr>) info)"
  by (induction hs) (auto simp: blocks_def IsValid_def)

lemma entry_invD:
  assumes "entry_inv e"
  shows "skiplist_inv Compare (grantedQueue e)"
    and "summary_ok (holders e) (m_grantMask (lockEntryCore e)) (m_grantedTotal (lockEntryCore e))
       (m_grantedCnt (lockEntryCore e))"
    and "summary_ok (waitingQueue e) (m_waitMask (lockEntryCore e)) (m_waitingTotal (lockEntryCore e))
       (m_waitingCnt (lockEntryCore e))"
    and "r \<in> set (holders e) \<or> r \<in> set (waitingQueue e) \<Longrightarrow> m_lockMode r \<noteq> DSTORE_LOCK_MODE_MAX"
    and "sorted_wrt (\<lambda>a b. \<not> same_wait a b) (waitingQueue e)"
    and "length (holders e) + length (waitingQueue e) < 2 ^ 32"
  using assms unfolding entry_inv_def by auto

lemma HasConflictWithAnyHolder_eq:
  assumes inv: "entry_inv e" and mode: "m_lockMode r \<noteq> DSTORE_LOCK_MODE_MAX"
  shows "HasConflictWithAnyHolder e r fl info =
     (\<exists>h \<in> set (holders e). blocks h r, e, fl,
      case find (\<lambda>h. blocks h r) (holders e) of None \<Rightarrow> info
      | Some h \<Rightarrow> map_option (\<lambda>i. (RecordErrInfo h i)\<lparr>isHolder := True\<rparr>) info)"
proof (cases "(GetConflictMask (m_lockMode r) AND m_grantMask (lockEntryCore e)) = 0")
  case True
  then have "\<not> HasConflictWithMask (m_lockMode r) (m_grantMask (lockEntryCore e))"
    by (simp add: HasConflictWithMask_def)
  then have "\<forall>h \<in> set (holders e). \<not> blocks h r"
    using summary_conflict [OF entry_invD(2) [OF inv] mode] by (auto simp: blocks_def)
  moreover from this have "find (\<lambda>h. blocks h r) (holders e) = None"
    by (simp add: find_None_iff)
  ultimately show ?thesis using True by (simp add: HasConflictWithAnyHolder_def)
next
  case False
  then show ?thesis
    by (simp add: HasConflictWithAnyHolder_def holder_conflict_loop_eq iterate_level_def)
qed

lemma AddToHolderQueue_spec:
  assumes inv: "entry_inv e" and mode: "m_lockMode r \<noteq> DSTORE_LOCK_MODE_MAX"
    and room: "length (holders e) + length (waitingQueue e) < 2 ^ 32 - 1"
    and add: "AddToHolderQueue e fl r = (e', fl')"
  shows "entry_inv e' \<and> waitingQueue e' = waitingQueue e \<and>
    set (holders e) \<subseteq> set (holders e') \<and> set (holders e') \<subseteq> insert r (set (holders e)) \<and>
    length (holders e') \<le> Suc (length (holders e)) \<and>
    (\<not> IsOnlyWait r \<longrightarrow> (\<exists>h \<in> set (holders e'). Compare r h = 0))"
proof (cases "IsOnlyWait r")
  case True
  then show ?thesis using add inv by (auto simp: AddToHolderQueue_def)
next
  case False
  obtain ret q where ins: "InsertLockRequest Compare GetSeed (grantedQueue e) r = (ret, q)"
    by fastforce
  show ?thesis
  proof (cases ret)
    case DSTORE_FAIL
    then show ?thesis
      using add inv False ins granted.insert_fail [OF entry_invD(1) [OF inv], of r]
      by (auto simp: AddToHolderQueue_def)
  next
    case DSTORE_SUCC
    note ins = ins [unfolded DSTORE_SUCC]
    note sl = entry_invD(1) [OF inv]
    have set: "set (contents q) = insert r (set (holders e))"
      and len: "length (contents q) = Suc (length (holders e))"
      and q: "skiplist_inv Compare q" "mset (contents q) = add_mset r (mset (holders e))"
      using granted.insert_set [OF sl ins] granted.insert_length [OF sl ins]
        granted.insert_inv [OF sl ins] granted.insert_items [OF sl ins] by auto
    show ?thesis
      using add inv False ins mode room set len q summary_add [OF entry_invD(2) [OF inv] q(2)]
      by (auto simp: AddToHolderQueue_def entry_inv_def Let_def)
  qed
qed

lemma entry_inv_granted:
  assumes "entry_inv e" and "skiplist_inv Compare q" and "set (contents q) \<subseteq> set (holders e)"
    and "length (contents q) \<le> length (holders e)" and "summary_ok (contents q) gm gt gc"
  shows "entry_inv (e\<lparr>grantedQueue := q, lockEntryCore := (lockEntryCore e)
    \<lparr>m_grantedTotal := gt, m_grantedCnt := gc, m_grantMask := gm\<rparr>\<rparr>)"
  using assms unfolding entry_inv_def by auto

lemma entry_inv_waiting:
  assumes "entry_inv e" and "set ws \<subseteq> set (waitingQueue e)"
    and "length ws \<le> length (waitingQueue e)" and "summary_ok ws wm wt wc"
    and "sorted_wrt (\<lambda>a b. \<not> same_wait a b) ws"
  shows "entry_inv (e\<lparr>waitingQueue := ws, lockEntryCore := (lockEntryCore e)
    \<lparr>m_waitingTotal := wt, m_waitingCnt := wc, m_waitMask := wm\<rparr>\<rparr>)"
  using assms unfolding entry_inv_def by auto

lemma RemoveFromHolderQueue_spec:
  assumes inv: "entry_inv e" and rem: "RemoveFromHolderQueue e fl t = (ret, e', fl')"
  shows "entry_inv e' \<and> waitingQueue e' = waitingQueue e \<and>
    (case ret of
       DSTORE_FAIL \<Rightarrow> e' = e \<and> fl' = fl \<and> (\<forall>h \<in> set (holders e). Compare t h \<noteq> 0)
     | DSTORE_SUCC \<Rightarrow> \<exists>h \<in> set (holders e). Compare t h = 0 \<and> holders e' = remove1 h (holders e) \<and>
         fl' = Push fl h)"
proof -
  note sl = entry_invD(1) [OF inv]
  obtain res q where r: "RemoveLockRequest Compare (grantedQueue e) t = (res, q)" by fastforce
  show ?thesis
  proof (cases res)
    case None
    then show ?thesis using rem inv r granted.remove_none [OF sl] by (auto simp: RemoveFromHolderQueue_def)
  next
    case (Some h)
    then have q: "skiplist_inv Compare q" "h \<in> set (holders e)" "Compare t h = 0"
        "contents q = remove1 h (holders e)"
      using r granted.remove_inv [OF sl] granted.remove_items [OF sl] by auto
    have mode: "m_lockMode h = m_lockMode t" using q(3) by (simp add: Compare_zero_iff)
    have len: "length (holders e) < 2 ^ 32" using entry_invD(6) [OF inv] by simp
    have sum: "summary_ok (contents q)
        (if m_grantedCnt (lockEntryCore e) (m_lockMode t) - 1 = 0
         then m_grantMask (lockEntryCore e) AND NOT (GetLockMask (m_lockMode t))
         else m_grantMask (lockEntryCore e)) (m_grantedTotal (lockEntryCore e) - 1)
        ((m_grantedCnt (lockEntryCore e))
          (m_lockMode t := m_grantedCnt (lockEntryCore e) (m_lockMode t) - 1))"
      unfolding q(4) by (rule summary_remove [OF entry_invD(2) [OF inv] q(2) mode len])
    have "set (contents q) \<subseteq> set (holders e)" "length (contents q) \<le> length (holders e)"
      using set_remove1_subset [of h "holders e"] by (simp_all add: q(4) length_remove1)
    from entry_inv_granted [OF inv q(1) this sum] have "entry_inv e'"
      using rem r Some by (auto simp: RemoveFromHolderQueue_def Let_def)
    then show ?thesis
      using rem r q Some by (auto simp: RemoveFromHolderQueue_def Let_def)
  qed
qed

lemma sorted_wrt_remove1: "sorted_wrt P xs \<Longrightarrow> sorted_wrt P (remove1 x xs)"
  by (induction xs) (auto dest: notin_set_remove1)

lemma RemoveFromWaiterQueue_spec:
  assumes inv: "entry_inv e" and w: "w \<in> set (waitingQueue e)"
  shows "entry_inv (RemoveFromWaiterQueue e w) \<and>
    grantedQueue (RemoveFromWaiterQueue e w) = grantedQueue e \<and>
    waitingQueue (RemoveFromWaiterQueue e w) = remove1 w (waitingQueue e) \<and>
    Suc (length (holders e) + length (waitingQueue (RemoveFromWaiterQueue e w))) < 2 ^ 32"
proof -
  have len: "length (waitingQueue e) < 2 ^ 32" using entry_invD(6) [OF inv] by simp
  have "length (waitingQueue e) > 0" and "length (remove1 w (waitingQueue e)) = length (waitingQueue e) - 1"
    using w by (auto simp: length_remove1)
  then have "Suc (length (holders e) + length (remove1 w (waitingQueue e))) < 2 ^ 32"
    using entry_invD(6) [OF inv] by linarith
  moreover have "entry_inv (RemoveFromWaiterQueue e w)"
    unfolding RemoveFromWaiterQueue_def Let_def
    using entry_inv_waiting [OF inv set_remove1_subset _ summary_remove [OF entry_invD(3) [OF inv] w refl len]
        sorted_wrt_remove1 [OF entry_invD(5) [OF inv]]]
    by (simp add: length_remove1)
  ultimately show ?thesis by (simp add: RemoveFromWaiterQueue_def Let_def)
qed

lemma exclusive_insert:
  assumes inv: "entry_inv e" and ex: "exclusive e" and mode: "m_lockMode r \<noteq> DSTORE_LOCK_MODE_MAX"
    and sub: "set (holders e') \<subseteq> insert r (set (holders e))"
    and free: "(\<forall>h \<in> set (holders e). \<not> blocks h r) \<or> IsForceHold r"
  shows "exclusive e'"
proof -
  have "IsSameRequester a b \<or> IsForceHold a \<or> IsForceHold b"
    if "a \<in> insert r (set (holders e))" "b \<in> insert r (set (holders e))"
      "HasConflictWithMode (m_lockMode a) (m_lockMode b)" for a b
    using that ex free mode entry_invD(4) [OF inv] HasConflictWithMode_commute
    unfolding exclusive_def blocks_def IsSameRequester_def by (metis insertE)
  then show ?thesis using sub unfolding exclusive_def by blast
qed

lemma exclusive_subset: "exclusive e \<Longrightarrow> set (holders e') \<subseteq> set (holders e) \<Longrightarrow> exclusive e'"
  unfolding exclusive_def by blast

text \<open>Advancing the waiting queue grants a prefix of it and stops at a blocked waiter.\<close>

lemma advance_loop_spec:
  assumes "entry_inv e" and "exclusive e" and "waitingQueue e = ws"
    and "advance_loop ws e fl info woken = (e', fl', woken')"
  shows "entry_inv e' \<and> exclusive e' \<and> head_blocked e' \<and> set (holders e) \<subseteq> set (holders e') \<and>
    (\<exists>ps. woken' = woken @ ps \<and> ws = ps @ waitingQueue e' \<and>
       set (holders e') \<subseteq> set (holders e) \<union> set ps \<and>
       (\<forall>p \<in> set ps. \<not> IsOnlyWait p \<longrightarrow> (\<exists>h \<in> set (holders e'). Compare p h = 0)))"
  using assms
proof (induction ws arbitrary: e fl info woken)
  case Nil
  then show ?case by (auto simp: head_blocked_def)
next
  case (Cons w ws)
  have mode: "m_lockMode w \<noteq> DSTORE_LOCK_MODE_MAX" using Cons.prems entry_invD(4) by auto
  show ?case
  proof (cases "\<exists>h \<in> set (holders e). blocks h w")
    case True
    then show ?thesis using Cons.prems mode
      by (auto simp: IsValid_def HasConflictWithAnyHolder_eq head_blocked_def)
  next
    case False
    define e1 where "e1 = RemoveFromWaiterQueue e w"
    obtain e2 fl2 where add: "AddToHolderQueue e1 fl w = (e2, fl2)" by fastforce
    have e1: "entry_inv e1" "holders e1 = holders e" "waitingQueue e1 = ws"
        "length (holders e1) + length (waitingQueue e1) < 2 ^ 32 - 1"
      using RemoveFromWaiterQueue_spec [OF Cons.prems(1), of w] Cons.prems(3) by (auto simp: e1_def)
    note spec = AddToHolderQueue_spec [OF e1(1) mode e1(4) add]
    have "exclusive e1" using Cons.prems(2) e1(2) by (simp add: exclusive_def)
    then have ex: "exclusive e2"
      using exclusive_insert [OF e1(1) _ mode, of e2] False spec e1(2) by auto
    obtain info' where loop: "advance_loop ws e2 fl2 info' (woken @ [w]) = (e', fl', woken')"
      using Cons.prems(4) False mode add
      by (auto simp: IsValid_def HasConflictWithAnyHolder_eq [OF Cons.prems(1) mode] e1_def
          split: prod.splits)
    have inv2: "entry_inv e2" and ws2: "waitingQueue e2 = ws" using spec e1 by auto
    obtain ps where ps: "woken' = (woken @ [w]) @ ps" "ws = ps @ waitingQueue e'"
        "set (holders e') \<subseteq> set (holders e2) \<union> set ps"
        "\<forall>p \<in> set ps. \<not> IsOnlyWait p \<longrightarrow> (\<exists>h \<in> set (holders e'). Compare p h = 0)"
      using Cons.IH [OF inv2 ex ws2 loop] by blast
    have "entry_inv e'" "exclusive e'" "head_blocked e'" "set (holders e2) \<subseteq> set (holders e')"
      using Cons.IH [OF inv2 ex ws2 loop] by blast+
    moreover have "set (holders e) \<subseteq> set (holders e2)" "set (holders e2) \<subseteq> insert w (set (holders e))"
        "\<not> IsOnlyWait w \<longrightarrow> (\<exists>h \<in> set (holders e2). Compare w h = 0)"
      using spec e1(2) by auto
    ultimately show ?thesis
      using ps by (intro conjI exI [of _ "w # ps"]) auto
  qed
qed

subsection \<open>What the deadlock preventor decides\<close>

definition modes_mask :: "LockMask \<Rightarrow> LockRequest set \<Rightarrow> bool" where
  "modes_mask lmask rs \<longleftrightarrow> (\<forall>n. bit lmask n \<longleftrightarrow> (\<exists>r \<in> rs. n = lock_mode_code (m_lockMode r)))"

lemma modes_mask_empty [simp]: "modes_mask 0 {}"
  by (simp add: modes_mask_def)

lemma modes_mask_insert: "modes_mask k S \<Longrightarrow> modes_mask (k OR GetLockMask (m_lockMode r)) (insert r S)"
  by (auto simp: modes_mask_def bit_or_iff bit_GetLockMask)

lemma modes_mask_conflict:
  assumes "modes_mask lmask S" and "m \<noteq> DSTORE_LOCK_MODE_MAX"
  shows "HasConflictWithMask m lmask \<longleftrightarrow> (\<exists>r \<in> S. HasConflictWithMode m (m_lockMode r))"
  using assms(1) unfolding HasConflictWithMask_iff [OF assms(2)] modes_mask_def by auto

lemma fold_modes_mask:
  assumes "modes_mask k S"
  shows "modes_mask (fold (\<lambda>h k. if P h then k OR GetLockMask (m_lockMode h) else k) hs k)
    (S \<union> {h \<in> set hs. P h})"
  using assms
proof (induction hs arbitrary: k S)
  case (Cons h hs)
  show ?case
  proof (cases "P h")
    case True
    then have "S \<union> {x \<in> set (h # hs). P x} = insert h S \<union> {x \<in> set hs. P x}" by auto
    then show ?thesis using Cons.IH [OF modes_mask_insert [OF Cons.prems]] True by simp
  next
    case False
    then have "S \<union> {x \<in> set (h # hs). P x} = S \<union> {x \<in> set hs. P x}" by auto
    then show ?thesis using Cons.IH [OF Cons.prems] False by simp
  qed
qed simp

lemma PrepareOwnedLock_split:
  "PrepareOwnedLock q r p =
     p\<lparr>m_myOwnedLocks := fold (\<lambda>h k. if IsSameRequester h r then k OR GetLockMask (m_lockMode h) else k)
         (contents q) (m_myOwnedLocks p),
       m_othersOwnedLocks := fold (\<lambda>h k. if \<not> IsSameRequester h r then k OR GetLockMask (m_lockMode h) else k)
         (contents q) (m_othersOwnedLocks p)\<rparr>"
proof -
  have "fold (\<lambda>holder p.
         if IsSameRequester holder r
         then p\<lparr>m_myOwnedLocks := m_myOwnedLocks p OR GetLockMask (m_lockMode holder)\<rparr>
         else p\<lparr>m_othersOwnedLocks := m_othersOwnedLocks p OR GetLockMask (m_lockMode holder)\<rparr>) hs p =
     p\<lparr>m_myOwnedLocks := fold (\<lambda>h k. if IsSameRequester h r then k OR GetLockMask (m_lockMode h) else k)
         hs (m_myOwnedLocks p),
       m_othersOwnedLocks := fold (\<lambda>h k. if \<not> IsSameRequester h r then k OR GetLockMask (m_lockMode h) else k)
         hs (m_othersOwnedLocks p)\<rparr>" for hs
    by (induction hs arbitrary: p) simp_all
  then show ?thesis by (simp add: PrepareOwnedLock_def iterate_level_def)
qed

lemma first_blocking_waiter_spec:
  assumes "modes_mask ahead A" and "first_blocking_waiter owned ws ahead n = (ahead', res)"
  shows "case res of
      None \<Rightarrow> \<forall>w \<in> set ws. \<not> HasConflictWithMask (m_lockMode w) owned
    | Some (w, k) \<Rightarrow> \<exists>xs ys. ws = xs @ w # ys \<and> k = n + length xs \<and>
        HasConflictWithMask (m_lockMode w) owned \<and>
        (\<forall>x \<in> set xs. \<not> HasConflictWithMask (m_lockMode x) owned) \<and> modes_mask ahead' (A \<union> set xs)"
  using assms
proof (induction ws arbitrary: ahead A n)
  case (Cons v ws)
  show ?case
  proof (cases "HasConflictWithMask (m_lockMode v) owned")
    case True
    then show ?thesis using Cons.prems by (auto intro!: exI [of _ "[]"])
  next
    case False
    then have "first_blocking_waiter owned ws (ahead OR GetLockMask (m_lockMode v)) (Suc n) = (ahead', res)"
      using Cons.prems by simp
    note IH = Cons.IH [OF modes_mask_insert [OF Cons.prems(1)] this]
    show ?thesis
    proof (cases res)
      case (Some wk)
      obtain w k where wk: "wk = (w, k)" by fastforce
      from IH obtain xs ys where "ws = xs @ w # ys" "k = Suc n + length xs"
          "HasConflictWithMask (m_lockMode w) owned"
          "\<forall>x \<in> set xs. \<not> HasConflictWithMask (m_lockMode x) owned"
          "modes_mask ahead' (insert v A \<union> set xs)"
        by (auto simp: Some wk)
      then show ?thesis using False by (simp add: Some wk) (rule exI [of _ "v # xs"], auto)
    qed (use IH False in auto)
  qed
qed auto

text \<open>
  The contract of the preventor for a request \<open>r\<close>: \<open>owns_against q r w\<close> says that \<open>r\<close>'s
  requester already holds a lock the waiter \<open>w\<close> is waiting for.
\<close>

definition owns_against :: "LockRequest skiplist \<Rightarrow> LockRequest \<Rightarrow> LockRequest \<Rightarrow> bool" where
  "owns_against q r w \<longleftrightarrow>
     (\<exists>h \<in> set (contents q). IsSameRequester h r \<and> HasConflictWithMode (m_lockMode w) (m_lockMode h))"

definition verdict_ok ::
    "LockRequest skiplist \<Rightarrow> LockRequest list \<Rightarrow> LockRequest \<Rightarrow> EarlyDeadLockPreventor \<Rightarrow> bool" where
  "verdict_ok q ws r p =
     (case m_result p of
        NO_DEADLOCK \<Rightarrow> \<forall>w \<in> set ws. \<not> owns_against q r w
      | PREVENT_BY_GRANT_LOCK \<Rightarrow> (\<forall>h \<in> set (contents q). \<not> blocks h r) \<and>
          (\<exists>xs w ys. ws = xs @ w # ys \<and> owns_against q r w \<and>
             (\<forall>x \<in> set xs. \<not> HasConflictWithMode (m_lockMode r) (m_lockMode x)))
      | PREVENT_BY_CUT_IN_LINE \<Rightarrow>
          (\<exists>xs w ys. ws = xs @ w # ys \<and> m_cutInLinePosition p = Some (length xs) \<and>
             owns_against q r w \<and> (\<forall>x \<in> set xs. \<not> owns_against q r x) \<and>
             \<not> owns_against q w r \<and> ((\<exists>h \<in> set (contents q). blocks h r) \<or> xs \<noteq> []))
      | CANT_PREVENT_DEADLOCK \<Rightarrow>
          (\<exists>w \<in> set ws. owns_against q r w \<and>
             (\<exists>h \<in> set (contents q). IsSameRequester h w \<and> HasConflictWithMode (m_lockMode r) (m_lockMode h))))"

lemma CheckForDeadLock_found:
  assumes mode: "m_lockMode r \<noteq> DSTORE_LOCK_MODE_MAX"
    and others: "HasConflictWithMask (m_lockMode r) (m_othersOwnedLocks p) \<longleftrightarrow> (\<exists>h \<in> set (contents q). blocks h r)"
    and fbw: "first_blocking_waiter (m_myOwnedLocks p) ws 0 0 = (ahead, Some (w, length xs))"
    and ws: "ws = xs @ w # ys" "owns_against q r w" "\<forall>x \<in> set xs. \<not> owns_against q r x"
    and ahead: "modes_mask ahead (set xs)"
  shows "verdict_ok q ws r (CheckForDeadLock q ws r p)"
proof -
  let ?wmask = "fold (\<lambda>h k. if IsSameRequester h w then k OR GetLockMask (m_lockMode h) else k) (contents q) 0"
  have wmask: "modes_mask ?wmask {h \<in> set (contents q). IsSameRequester h w}"
    using fold_modes_mask [OF modes_mask_empty] by simp
  have w: "w \<in> set ws" using ws(1) by simp
  note defs = CheckForDeadLock_def fbw iterate_level_def Let_def others modes_mask_conflict [OF ahead mode]
    modes_mask_conflict [OF wmask mode] verdict_ok_def
  consider (grant) "\<not> ((\<exists>h \<in> set (contents q). blocks h r) \<or> (\<exists>x \<in> set xs. HasConflictWithMode (m_lockMode r) (m_lockMode x)))"
    | (cant) "(\<exists>h \<in> set (contents q). blocks h r) \<or> (\<exists>x \<in> set xs. HasConflictWithMode (m_lockMode r) (m_lockMode x))"
        "HasConflictWithMask (m_lockMode r) ?wmask"
    | (cut) "(\<exists>h \<in> set (contents q). blocks h r) \<or> (\<exists>x \<in> set xs. HasConflictWithMode (m_lockMode r) (m_lockMode x))"
        "\<not> HasConflictWithMask (m_lockMode r) ?wmask"
    by blast
  then show ?thesis
  proof cases
    case grant
    then have "\<exists>xs w ys. ws = xs @ w # ys \<and> owns_against q r w \<and>
        (\<forall>x \<in> set xs. \<not> HasConflictWithMode (m_lockMode r) (m_lockMode x))"
      using ws by blast
    then show ?thesis using grant by (auto simp: defs)
  next
    case cant
    then have "\<exists>h \<in> set (contents q). IsSameRequester h w \<and> HasConflictWithMode (m_lockMode r) (m_lockMode h)"
      using modes_mask_conflict [OF wmask mode] by auto
    then show ?thesis using w ws(2) cant by (auto simp: defs)
  next
    case cut
    then have "(\<exists>h \<in> set (contents q). blocks h r) \<or> xs \<noteq> []" "\<not> owns_against q w r"
      using modes_mask_conflict [OF wmask mode] by (auto simp: owns_against_def)
    then have "\<exists>xs' w' ys'. ws = xs' @ w' # ys' \<and> length xs = length xs' \<and> owns_against q r w' \<and>
        (\<forall>x \<in> set xs'. \<not> owns_against q r x) \<and> \<not> owns_against q w' r \<and>
        ((\<exists>h \<in> set (contents q). blocks h r) \<or> xs' \<noteq> [])"
      using ws by blast
    then show ?thesis using cut by (auto simp: defs)
  qed
qed

lemma Start_verdict:
  assumes modes: "\<And>x. x \<in> set ws \<Longrightarrow> m_lockMode x \<noteq> DSTORE_LOCK_MODE_MAX"
    and mode: "m_lockMode r \<noteq> DSTORE_LOCK_MODE_MAX"
  shows "verdict_ok q ws r (Preventor_Start q ws r EarlyDeadLockPreventor_new)"
proof -
  let ?p = "PrepareOwnedLock q r EarlyDeadLockPreventor_new"
  have mine: "modes_mask (m_myOwnedLocks ?p) {h \<in> set (contents q). IsSameRequester h r}"
    and others: "modes_mask (m_othersOwnedLocks ?p) {h \<in> set (contents q). \<not> IsSameRequester h r}"
    and new: "m_result ?p = NO_DEADLOCK"
    using fold_modes_mask [OF modes_mask_empty]
    by (simp_all add: PrepareOwnedLock_split EarlyDeadLockPreventor_new_def)
  have owned: "HasConflictWithMask (m_lockMode w) (m_myOwnedLocks ?p) \<longleftrightarrow> owns_against q r w" if "w \<in> set ws" for w
    unfolding modes_mask_conflict [OF mine modes [OF that]] owns_against_def by auto
  have block: "HasConflictWithMask (m_lockMode r) (m_othersOwnedLocks ?p) \<longleftrightarrow> (\<exists>h \<in> set (contents q). blocks h r)"
    unfolding modes_mask_conflict [OF others mode] by (auto simp: blocks_def)
  obtain ahead res where fbw: "first_blocking_waiter (m_myOwnedLocks ?p) ws 0 0 = (ahead, res)"
    by fastforce
  note fspec = first_blocking_waiter_spec [OF modes_mask_empty fbw]
  consider (zero) "m_myOwnedLocks ?p = 0" | (none) "m_myOwnedLocks ?p \<noteq> 0" "res = None"
    | (some) w k where "m_myOwnedLocks ?p \<noteq> 0" "res = Some (w, k)"
    by (cases res) auto
  then show ?thesis
  proof cases
    case zero
    then have "\<forall>w \<in> set ws. \<not> owns_against q r w" using owned by (auto simp: HasConflictWithMask_def)
    then show ?thesis using zero new by (simp add: Preventor_Start_def Let_def verdict_ok_def)
  next
    case none
    then have "\<forall>w \<in> set ws. \<not> owns_against q r w" using fspec owned by auto
    then show ?thesis using none new fbw by (simp add: Preventor_Start_def Let_def verdict_ok_def CheckForDeadLock_def)
  next
    case some
    then obtain xs ys where ws: "ws = xs @ w # ys" "k = length xs" "modes_mask ahead (set xs)"
        "HasConflictWithMask (m_lockMode w) (m_myOwnedLocks ?p)"
        "\<forall>x \<in> set xs. \<not> HasConflictWithMask (m_lockMode x) (m_myOwnedLocks ?p)"
      using fspec by auto
    then have "owns_against q r w" "\<forall>x \<in> set xs. \<not> owns_against q r x" using owned by auto
    then show ?thesis
      using CheckForDeadLock_found [OF mode block _ ws(1) _ _ ws(3)] fbw some ws(2)
      by (simp add: Preventor_Start_def Let_def)
  qed
qed

subsection \<open>Every operation keeps an entry good\<close>

definition entry_good :: "LockEntry \<Rightarrow> bool" where
  "entry_good e \<longleftrightarrow> entry_inv e \<and> exclusive e \<and> head_blocked e"

abbreviation room :: "LockEntry \<Rightarrow> bool" where
  "room e \<equiv> length (holders e) + length (waitingQueue e) < 2 ^ 32 - 1"

lemma sorted_wrt_insert_at:
  assumes "sorted_wrt P xs" and "\<forall>x \<in> set xs. P x r \<and> P r x"
  shows "sorted_wrt P (take n xs @ r # drop n xs)"
proof -
  have "sorted_wrt P (take n xs @ drop n xs)" using assms(1) by simp
  then show ?thesis
    using assms(2) by (simp only: sorted_wrt_append) (auto dest: in_set_takeD in_set_dropD)
qed

lemma entry_inv_add_waiter:
  assumes inv: "entry_inv e" and mode: "m_lockMode r \<noteq> DSTORE_LOCK_MODE_MAX" and room: "room e"
    and new: "\<forall>w \<in> set (waitingQueue e). \<not> same_wait w r"
  shows "entry_inv (add_waiter e r n)"
proof -
  let ?ws = "take n (waitingQueue e) @ r # drop n (waitingQueue e)"
  have "mset (take n (waitingQueue e)) + mset (drop n (waitingQueue e)) = mset (waitingQueue e)"
    by (metis append_take_drop_id mset_append)
  then have perm: "mset ?ws = add_mset r (mset (waitingQueue e))" by simp
  have set: "set ?ws = insert r (set (waitingQueue e))"
    using perm by (metis set_mset_add_mset_insert set_mset_mset)
  have len: "length ?ws = Suc (length (waitingQueue e))"
    using perm by (metis size_add_mset size_mset)
  have sorted: "sorted_wrt (\<lambda>a b. \<not> same_wait a b) ?ws"
    using new same_wait_sym by (intro sorted_wrt_insert_at entry_invD(5) [OF inv]) auto
  have modes: "\<forall>x \<in> set (holders e) \<union> set ?ws. m_lockMode x \<noteq> DSTORE_LOCK_MODE_MAX"
    using entry_invD(4) [OF inv] mode unfolding set by auto
  have "length (holders e) + length ?ws < 2 ^ 32" using room len by simp
  then show ?thesis
    using summary_add [OF entry_invD(3) [OF inv] perm] entry_invD(1,2) [OF inv] modes sorted
    unfolding entry_inv_def add_waiter_def Let_def by simp
qed

lemma add_waiter_queues [simp]:
  "grantedQueue (add_waiter e r n) = grantedQueue e"
  "waitingQueue (add_waiter e r n) = take n (waitingQueue e) @ r # drop n (waitingQueue e)"
  by (simp_all add: add_waiter_def Let_def)

lemma head_blocked_add_waiter:
  assumes "head_blocked e" and "n = 0 \<or> waitingQueue e = [] \<Longrightarrow> \<exists>h \<in> set (holders e). blocks h r"
  shows "head_blocked (add_waiter e r n)"
  using assms by (cases n; cases "waitingQueue e") (auto simp: head_blocked_def)

lemma entry_good_grant:
  assumes good: "entry_good e" and mode: "m_lockMode r \<noteq> DSTORE_LOCK_MODE_MAX" and "room e"
    and free: "(\<forall>h \<in> set (holders e). \<not> blocks h r) \<or> IsForceHold r"
    and add: "AddToHolderQueue e fl r = (e', fl')"
  shows "entry_good e'"
proof -
  have inv: "entry_inv e" "exclusive e" "head_blocked e" using good by (auto simp: entry_good_def)
  note spec = AddToHolderQueue_spec [OF inv(1) mode \<open>room e\<close> add]
  then have "exclusive e'" using exclusive_insert [OF inv(1,2) mode _ free] by blast
  moreover have "head_blocked e'"
    using spec inv(3) unfolding head_blocked_def by (cases "waitingQueue e") auto
  ultimately show ?thesis using spec by (simp add: entry_good_def)
qed

lemma TryAddToWaiterQueue_good:
  assumes good: "entry_good e" and mode: "m_lockMode r \<noteq> DSTORE_LOCK_MODE_MAX" and room: "room e"
    and reason: "waitingQueue e = [] \<Longrightarrow> \<exists>h \<in> set (holders e). blocks h r"
    and tried: "TryAddToWaiterQueue e r fl info = (res, e', fl', info')"
  shows "entry_good e'"
proof (cases "\<exists>w \<in> set (waitingQueue e). same_wait w r")
  case True
  then show ?thesis using tried good by (auto simp: TryAddToWaiterQueue_def same_wait_def)
next
  case False
  have inv: "entry_inv e" "exclusive e" "head_blocked e" using good by (auto simp: entry_good_def)
  define p where "p = Preventor_Start (grantedQueue e) (waitingQueue e) r EarlyDeadLockPreventor_new"
  have verdict: "verdict_ok (grantedQueue e) (waitingQueue e) r p"
    unfolding p_def using entry_invD(4) [OF inv(1)] mode by (intro Start_verdict) auto
  have wait: "entry_good (add_waiter e r n)"
    if "n = 0 \<or> waitingQueue e = [] \<Longrightarrow> \<exists>h \<in> set (holders e). blocks h r" for n
    using entry_inv_add_waiter [OF inv(1) mode room] False head_blocked_add_waiter [OF inv(3) that]
      exclusive_subset [OF inv(2), of "add_waiter e r n"] by (auto simp: entry_good_def)
  have new: "\<not> (\<exists>w \<in> set (waitingQueue e). IsSameRequester w r \<and> m_lockMode w = m_lockMode r)"
    using False by (auto simp: same_wait_def)
  note tried = tried [unfolded TryAddToWaiterQueue_def if_not_P [OF new] Let_def p_def [symmetric]]
  show ?thesis
  proof (cases "m_result p")
    case NO_DEADLOCK
    then show ?thesis using tried wait [of "length (waitingQueue e)"] reason by auto
  next
    case PREVENT_BY_GRANT_LOCK
    then have "\<forall>h \<in> set (holders e). \<not> blocks h r" using verdict by (simp add: verdict_ok_def)
    then show ?thesis
      using PREVENT_BY_GRANT_LOCK tried entry_good_grant [OF good mode room] by (auto split: prod.splits)
  next
    case PREVENT_BY_CUT_IN_LINE
    then obtain n where n: "m_cutInLinePosition p = Some n" "n = 0 \<Longrightarrow> \<exists>h \<in> set (holders e). blocks h r"
      using verdict unfolding verdict_ok_def by auto
    then show ?thesis using PREVENT_BY_CUT_IN_LINE tried wait [of n] reason by auto
  next
    case CANT_PREVENT_DEADLOCK
    then show ?thesis using tried good by simp
  qed
qed

lemma EnqueueLockRequest_cases:
  assumes inv: "entry_inv e" and mode: "m_lockMode r \<noteq> DSTORE_LOCK_MODE_MAX"
    and enq: "EnqueueLockRequest dup_ok e r fl info = (res, e', fl', info')"
  obtains (oom) "\<not> dup_ok" "res = Inl LOCK_ERROR_OUT_OF_MEMORY" "e' = e"
  | (grant) fl2 where "dup_ok" "res = Inr ()" "AddToHolderQueue e fl2 r = (e', fl')"
      "(\<forall>h \<in> set (holders e). \<not> blocks h r) \<and>
       (\<forall>w \<in> set (waitingQueue e). \<not> HasConflictWithMode (m_lockMode r) (m_lockMode w)) \<or> IsForceHold r"
  | (not_avail) "dup_ok" "IsDontWait r" "res = Inl LOCK_INFO_NOT_AVAIL" "e' = e"
  | (wait) fl2 info2 where "dup_ok" "TryAddToWaiterQueue e r fl2 info2 = (res, e', fl', info')"
      "\<not> IsDontWait r" "\<not> IsForceHold r"
      "(\<exists>h \<in> set (holders e). blocks h r) \<or>
       (\<exists>w \<in> set (waitingQueue e). HasConflictWithMode (m_lockMode r) (m_lockMode w))"
proof -
  have waits: "HasConflictWithMask (m_lockMode r) (m_waitMask (lockEntryCore e)) \<longleftrightarrow>
      (\<exists>w \<in> set (waitingQueue e). HasConflictWithMode (m_lockMode r) (m_lockMode w))"
    by (rule summary_conflict [OF entry_invD(3) [OF inv] mode])
  obtain copy fl1 where pop: "PopACopyOf dup_ok fl r = (copy, fl1)" by fastforce
  then have copy: "copy = (if dup_ok then Some r else None)"
    by (auto simp: PopACopyOf_def Let_def split: list.splits)
  note enq = enq [unfolded EnqueueLockRequest_def pop copy]
  show thesis
  proof (cases dup_ok)
    case True
    then show ?thesis
      using enq that(2-) HasConflictWithAnyHolder_eq [OF inv mode] waits
      by (auto split: if_splits prod.splits)
  qed (use enq that(1) in simp)
qed

lemma EnqueueLockRequest_good:
  assumes good: "entry_good e" and mode: "m_lockMode r \<noteq> DSTORE_LOCK_MODE_MAX" and room: "room e"
    and enq: "EnqueueLockRequest dup_ok e r fl info = (res, e', fl', info')"
  shows "entry_good e'"
proof -
  have inv: "entry_inv e" using good by (simp add: entry_good_def)
  show ?thesis
    using inv mode enq
  proof (cases rule: EnqueueLockRequest_cases)
    case grant
    then show ?thesis using entry_good_grant [OF good mode room] by blast
  next
    case wait
    then show ?thesis using TryAddToWaiterQueue_good [OF good mode room _ wait(2)] by fastforce
  qed (use good in auto)
qed

lemma AdvanceWaitingQueue_good:
  assumes "entry_inv e" and "exclusive e" and "AdvanceWaitingQueue e fl = (e', fl', woken)"
  shows "entry_good e' \<and> set (holders e) \<subseteq> set (holders e') \<and>
    waitingQueue e = woken @ waitingQueue e' \<and> set (holders e') \<subseteq> set (holders e) \<union> set woken \<and>
    (\<forall>p \<in> set woken. \<not> IsOnlyWait p \<longrightarrow> (\<exists>h \<in> set (holders e'). Compare p h = 0))"
  using advance_loop_spec [OF assms(1,2) refl assms(3) [unfolded AdvanceWaitingQueue_def]]
  by (auto simp: entry_good_def)

lemma DequeueLockRequest_cases:
  assumes inv: "entry_inv e" and ex: "exclusive e"
    and deq: "DequeueLockRequest e t fl = (ok, e', fl', woken)"
  obtains (held) e1 fl1 h where "ok" "AdvanceWaitingQueue e1 fl1 = (e', fl', woken)" "entry_inv e1" "exclusive e1"
      "h \<in> set (holders e)" "Compare t h = 0" "holders e1 = remove1 h (holders e)"
      "waitingQueue e1 = waitingQueue e"
  | (waiting) e1 fl1 w where "ok" "AdvanceWaitingQueue e1 fl1 = (e', fl', woken)" "entry_inv e1" "exclusive e1"
      "\<forall>h \<in> set (holders e). Compare t h \<noteq> 0"
      "w \<in> set (waitingQueue e)" "same_wait w t" "waitingQueue e1 = remove1 w (waitingQueue e)"
      "holders e1 = holders e"
  | (missing) "\<not> ok" "e' = e" "woken = []" "\<forall>h \<in> set (holders e). Compare t h \<noteq> 0"
      "\<forall>w \<in> set (waitingQueue e). \<not> same_wait w t"
proof -
  obtain ret e1 fl1 where rem: "RemoveFromHolderQueue e fl t = (ret, e1, fl1)"
    by (cases "RemoveFromHolderQueue e fl t") auto
  note spec = RemoveFromHolderQueue_spec [OF inv rem]
  show thesis
  proof (cases ret)
    case DSTORE_SUCC
    then obtain h where h: "h \<in> set (holders e)" "Compare t h = 0" "holders e1 = remove1 h (holders e)"
      using spec by auto
    have "exclusive e1" using exclusive_subset [OF ex] h(3) set_remove1_subset by metis
    then show ?thesis
      using deq rem DSTORE_SUCC spec h by (auto simp: DequeueLockRequest_def intro: held)
  next
    case DSTORE_FAIL
    then have e1: "e1 = e" "fl1 = fl" "\<forall>h \<in> set (holders e). Compare t h \<noteq> 0" using spec by auto
    let ?same = "\<lambda>w. IsSameRequester w t \<and> m_lockMode w = m_lockMode t"
    show ?thesis
    proof (cases "find ?same (waitingQueue e)")
      case None
      then have "\<forall>w \<in> set (waitingQueue e). \<not> same_wait w t"
        by (auto simp: find_None_iff same_wait_def)
      moreover have "(ok, e', fl', woken) = (False, e, fl, [])"
        using deq rem DSTORE_FAIL e1(1,2) None by (simp add: DequeueLockRequest_def)
      ultimately show ?thesis using missing e1(3) by simp
    next
      case (Some w)
      then have w: "w \<in> set (waitingQueue e)" "same_wait w t"
        by (auto simp: find_Some_iff same_wait_def)
      note rspec = RemoveFromWaiterQueue_spec [OF inv w(1)]
      have "exclusive (RemoveFromWaiterQueue e w)" using ex rspec by (simp add: exclusive_def)
      then show ?thesis
        using deq rem DSTORE_FAIL e1 Some w rspec waiting [of "RemoveFromWaiterQueue e w" "Push fl w" w]
        by (auto simp: DequeueLockRequest_def)
    qed
  qed
qed

lemma DequeueLockRequest_good:
  assumes good: "entry_good e" and deq: "DequeueLockRequest e t fl = (ok, e', fl', woken)"
  shows "entry_good e'"
proof -
  have "entry_inv e" "exclusive e" using good by (auto simp: entry_good_def)
  then show ?thesis
    using deq
  proof (cases rule: DequeueLockRequest_cases)
    case held
    then show ?thesis using AdvanceWaitingQueue_good by blast
  next
    case waiting
    then show ?thesis using AdvanceWaitingQueue_good by blast
  qed (use good in auto)
qed

lemma RemoveFromHolderQueue_head:
  assumes inv: "entry_inv e" and hs: "holders e = h # hs"
  shows "\<exists>e'. RemoveFromHolderQueue e fl h = (DSTORE_SUCC, e', Push fl h) \<and> entry_inv e' \<and>
    holders e' = hs \<and> waitingQueue e' = waitingQueue e"
proof -
  obtain ret e' fl' where rem: "RemoveFromHolderQueue e fl h = (ret, e', fl')"
    by (cases "RemoveFromHolderQueue e fl h") auto
  note spec = RemoveFromHolderQueue_spec [OF inv rem]
  have "x = h" if "x \<in> set (holders e)" "Compare h x = 0" for x
    using granted.items_unique [OF entry_invD(1) [OF inv]] that hs by auto
  then show ?thesis using rem spec hs by (cases ret) auto
qed

lemma remove_holders_spec:
  assumes "entry_inv e" and "holders e = hs"
  shows "\<exists>e'. fold (\<lambda>holder (e, fl). snd (RemoveFromHolderQueue e fl holder)) hs (e, fl) =
    (e', fold (\<lambda>h fl. Push fl h) hs fl) \<and> entry_inv e' \<and> holders e' = [] \<and> waitingQueue e' = waitingQueue e"
  using assms
proof (induction hs arbitrary: e fl)
  case (Cons h hs)
  obtain e1 where "RemoveFromHolderQueue e fl h = (DSTORE_SUCC, e1, Push fl h)" "entry_inv e1"
      "holders e1 = hs" "waitingQueue e1 = waitingQueue e"
    using RemoveFromHolderQueue_head [OF Cons.prems, of fl] by blast
  then show ?case using Cons.IH [of e1 "Push fl h"] by simp
qed auto

lemma entry_good_empty:
  assumes "skiplist_inv Compare q" and "contents q = []"
  shows "entry_good \<lparr>lockEntryCore = LockEntryCore_new\<lparr>m_lockTag := tag\<rparr>, grantedQueue = q, waitingQueue = []\<rparr>"
  using assms by (simp add: entry_good_def entry_inv_def exclusive_def head_blocked_def LockEntryCore_new_def)

lemma Initialize_good: "entry_good (Initialize tag)"
  unfolding Initialize_def
  using entry_good_empty request.inv_LockRequestSkipList granted.items_empty by blast

lemma LockEntryCore_new_tag [simp]: "LockEntryCore_new\<lparr>m_lockTag := LockTag_default\<rparr> = LockEntryCore_new"
  by (simp add: LockEntryCore_new_def)

lemma RemoveAllRequests_spec:
  assumes "entry_inv e"
  shows "\<exists>q. RemoveAllRequests e fl =
      (\<lparr>lockEntryCore = LockEntryCore_new, grantedQueue = q, waitingQueue = []\<rparr>,
       fold (\<lambda>r fl. Push fl r) (holders e @ waitingQueue e) fl) \<and>
    skiplist_inv Compare q \<and> contents q = []"
proof -
  obtain e1 where e1: "remove_holders e fl = (e1, fold (\<lambda>h fl. Push fl h) (holders e) fl)"
      "entry_inv e1" "holders e1 = []" "waitingQueue e1 = waitingQueue e"
    using remove_holders_spec [OF assms refl, of fl] unfolding remove_holders_def iterate_level_def by auto
  have "RemoveAllRequests e fl =
      (\<lparr>lockEntryCore = LockEntryCore_new, grantedQueue = grantedQueue e1, waitingQueue = []\<rparr>,
       fold (\<lambda>r fl. Push fl r) (holders e @ waitingQueue e) fl)"
    unfolding RemoveAllRequests_def e1(1) prod.case e1(4) by (cases e1) simp
  then show ?thesis using e1(3) entry_invD(1) [OF e1(2)] by blast
qed

subsection \<open>Reachable entries\<close>

text \<open>
  The states an entry goes through. The free list is shared by the entries of a partition, so
  each step finds it in an arbitrary state. A request is only enqueued while the number of
  requests of the entry is below the range of its 32-bit counters.
\<close>

inductive reachable_entry :: "LockEntry \<Rightarrow> bool" where
  initialize: "reachable_entry (Initialize tag)"
| enqueue: "reachable_entry e \<Longrightarrow> m_lockMode r \<noteq> DSTORE_LOCK_MODE_MAX \<Longrightarrow> room e \<Longrightarrow>
    EnqueueLockRequest dup_ok e r fl info = (res, e', fl', info') \<Longrightarrow> reachable_entry e'"
| dequeue: "reachable_entry e \<Longrightarrow> DequeueLockRequest e r fl = (ok, e', fl', woken) \<Longrightarrow> reachable_entry e'"
| advance: "reachable_entry e \<Longrightarrow> AdvanceWaitingQueue e fl = (e', fl', woken) \<Longrightarrow> reachable_entry e'"
| remove_all: "reachable_entry e \<Longrightarrow> RemoveAllRequests e fl = (e', fl') \<Longrightarrow> reachable_entry e'"

lemma reachable_entry_good: "reachable_entry e \<Longrightarrow> entry_good e"
proof (induction rule: reachable_entry.induct)
  case (initialize tag)
  show ?case by (rule Initialize_good)
next
  case (enqueue e r dup_ok fl info res e' fl' info')
  show ?case by (rule EnqueueLockRequest_good [OF enqueue.IH enqueue.hyps(2-4)])
next
  case (dequeue e r fl ok e' fl' woken)
  show ?case by (rule DequeueLockRequest_good [OF dequeue.IH dequeue.hyps(2)])
next
  case (advance e fl e' fl' woken)
  then show ?case using AdvanceWaitingQueue_good unfolding entry_good_def by blast
next
  case (remove_all e fl e' fl')
  then obtain q where "e' = \<lparr>lockEntryCore = LockEntryCore_new, grantedQueue = q, waitingQueue = []\<rparr>"
      "skiplist_inv Compare q" "contents q = []"
    using RemoveAllRequests_spec [of e fl] by (auto simp only: entry_good_def prod.inject)
  then show ?case using entry_good_empty [of q LockTag_default] by simp
qed

lemma reachable_entryD:
  assumes "reachable_entry e"
  shows "entry_inv e" and "exclusive e" and "head_blocked e"
  using reachable_entry_good [OF assms] by (auto simp: entry_good_def)

lemma IsHeldByRequester_iff:
  assumes "entry_inv e"
  shows "IsHeldByRequester e r \<longleftrightarrow> (\<exists>h \<in> set (holders e). Compare r h = 0)"
  using granted.search_iff [OF entry_invD(1) [OF assms], of r]
  by (cases "SearchLockRequest Compare (grantedQueue e) r") (auto simp: IsHeldByRequester_def)

lemma TryAddToWaiterQueue_waits:
  assumes inv: "entry_inv e" and mode: "m_lockMode r \<noteq> DSTORE_LOCK_MODE_MAX"
    and new: "\<not> (\<exists>w \<in> set (waitingQueue e). same_wait w r)"
    and tried: "TryAddToWaiterQueue e r fl info = (res, e', fl', info')"
  shows "res = Inl LOCK_INFO_WAITING \<Longrightarrow> grantedQueue e' = grantedQueue e \<and>
      (\<exists>xs ys. waitingQueue e = xs @ ys \<and> waitingQueue e' = xs @ r # ys \<and>
         (\<forall>x \<in> set xs. \<not> owns_against (grantedQueue e) r x))"
    and "res = Inl LOCK_ERROR_DEADLOCK \<Longrightarrow> e' = e \<and>
      (\<exists>w \<in> set (waitingQueue e). owns_against (grantedQueue e) r w \<and>
         (\<exists>h \<in> set (holders e). IsSameRequester h w \<and> HasConflictWithMode (m_lockMode r) (m_lockMode h)))"
proof -
  define p where "p = Preventor_Start (grantedQueue e) (waitingQueue e) r EarlyDeadLockPreventor_new"
  have verdict: "verdict_ok (grantedQueue e) (waitingQueue e) r p"
    unfolding p_def using entry_invD(4) [OF inv] mode by (intro Start_verdict) auto
  have "\<not> (\<exists>w \<in> set (waitingQueue e). IsSameRequester w r \<and> m_lockMode w = m_lockMode r)"
    using new by (auto simp: same_wait_def)
  note tried = tried [unfolded TryAddToWaiterQueue_def if_not_P [OF this] Let_def p_def [symmetric]]
  show "grantedQueue e' = grantedQueue e \<and>
      (\<exists>xs ys. waitingQueue e = xs @ ys \<and> waitingQueue e' = xs @ r # ys \<and>
         (\<forall>x \<in> set xs. \<not> owns_against (grantedQueue e) r x))" if "res = Inl LOCK_INFO_WAITING"
  proof (cases "m_result p")
    case NO_DEADLOCK
    then show ?thesis using tried verdict
      by (intro conjI exI [of _ "waitingQueue e"] exI [of _ "[]"]) (auto simp: verdict_ok_def)
  next
    case PREVENT_BY_CUT_IN_LINE
    then obtain xs w ys where "waitingQueue e = xs @ w # ys" "m_cutInLinePosition p = Some (length xs)"
        "\<forall>x \<in> set xs. \<not> owns_against (grantedQueue e) r x"
      using verdict by (auto simp: verdict_ok_def)
    then show ?thesis using tried PREVENT_BY_CUT_IN_LINE
      by (intro conjI exI [of _ xs] exI [of _ "w # ys"]) auto
  qed (use tried that in \<open>auto split: prod.splits\<close>)
  show "e' = e \<and> (\<exists>w \<in> set (waitingQueue e). owns_against (grantedQueue e) r w \<and>
         (\<exists>h \<in> set (holders e). IsSameRequester h w \<and> HasConflictWithMode (m_lockMode r) (m_lockMode h)))"
    if "res = Inl LOCK_ERROR_DEADLOCK"
    using that tried verdict by (cases "m_result p") (auto simp: verdict_ok_def split: prod.splits)
qed

lemma TryAddToWaiterQueue_again:
  assumes "\<exists>w \<in> set (waitingQueue e). same_wait w r"
  shows "TryAddToWaiterQueue e r fl info = (Inl LOCK_INFO_WAITING, e, Push fl r, info)"
  using assms by (simp add: TryAddToWaiterQueue_def same_wait_def)

text \<open>How many requests an entry holds after an enqueue.\<close>

lemma EnqueueLockRequest_size:
  assumes "reachable_entry e" and "m_lockMode r \<noteq> DSTORE_LOCK_MODE_MAX" and "room e"
    and enq: "EnqueueLockRequest dup_ok e r fl info = (res, e', fl', info')"
  shows "length (holders e') + length (waitingQueue e') \<le> Suc (length (holders e) + length (waitingQueue e))"
proof -
  have inv: "entry_inv e" using reachable_entryD assms(1) by blast
  show ?thesis
    using inv assms(2) enq
  proof (cases rule: EnqueueLockRequest_cases)
    case (grant fl2)
    then show ?thesis using AddToHolderQueue_spec [OF inv assms(2,3) grant(3)] by simp
  next
    case (wait fl2 info2)
    then show ?thesis
      using AddToHolderQueue_spec [OF inv assms(2,3)]
      by (auto simp: TryAddToWaiterQueue_def Let_def split: if_splits PreventorResult.splits prod.splits)
  qed auto
qed

subsection \<open>Sample entries\<close>

definition enqueue_all :: "LockRequest list \<Rightarrow> LockEntry \<Rightarrow> LockEntry" where
  "enqueue_all rs e =
     fold (\<lambda>r e. fst (snd (EnqueueLockRequest True e r (LockRequestFreeList_new 0) None))) rs e"

lemma enqueue_all_reachable:
  assumes "reachable_entry e" and "\<forall>r \<in> set rs. m_lockMode r \<noteq> DSTORE_LOCK_MODE_MAX"
    and "length (holders e) + length (waitingQueue e) + length rs < 2 ^ 32"
  shows "reachable_entry (enqueue_all rs e)"
  using assms unfolding enqueue_all_def
proof (induction rs arbitrary: e)
  case (Cons r rs)
  obtain res e' fl' info' where
      enq: "EnqueueLockRequest True e r (LockRequestFreeList_new 0) None = (res, e', fl', info')"
    by (metis prod_cases4)
  have mode: "m_lockMode r \<noteq> DSTORE_LOCK_MODE_MAX" and room: "room e" using Cons.prems by auto
  have "reachable_entry e'" using enqueue [OF Cons.prems(1) mode room enq] .
  moreover have "length (holders e') + length (waitingQueue e') + length rs < 2 ^ 32"
    using EnqueueLockRequest_size [OF Cons.prems(1) mode room enq] Cons.prems(3) by simp
  ultimately show ?case using Cons.IH [of e'] Cons.prems(2) enq by simp
qed simp

text \<open>
  Threads 1 and 2 hold a row share lock each; a third request waits for an exclusive lock.
\<close>

definition sample_entry :: "uint32 \<Rightarrow> LockEntry" where
  "sample_entry core = enqueue_all
     [sample_request DSTORE_ROW_SHARE_LOCK 1, sample_request DSTORE_ROW_SHARE_LOCK 2,
      sample_request DSTORE_EXCLUSIVE_LOCK core] (Initialize LockTag_default)"

lemma sample_entry_reachable: "reachable_entry (sample_entry core)"
  unfolding sample_entry_def
  by (rule enqueue_all_reachable [OF initialize])
    (simp_all add: sample_request_def Initialize_def granted.items_empty)

lemma sample_entry_queues:
  "holders (sample_entry 3) = [sample_request DSTORE_ROW_SHARE_LOCK 1, sample_request DSTORE_ROW_SHARE_LOCK 2]"
  "waitingQueue (sample_entry 3) = [sample_request DSTORE_EXCLUSIVE_LOCK 3]"
  by code_simp+

lemma sample_entry_queues_1:
  "holders (sample_entry 1) = [sample_request DSTORE_ROW_SHARE_LOCK 1, sample_request DSTORE_ROW_SHARE_LOCK 2]"
  "waitingQueue (sample_entry 1) = [sample_request DSTORE_EXCLUSIVE_LOCK 1]"
  by code_simp+

definition sample_entry_own :: LockEntry where
  "sample_entry_own = enqueue_all
     [sample_request DSTORE_SHARE_LOCK 1, sample_request DSTORE_ROW_EXCLUSIVE_LOCK 1]
     (Initialize LockTag_default)"

lemma sample_entry_own_reachable: "reachable_entry sample_entry_own"
  unfolding sample_entry_own_def
  by (rule enqueue_all_reachable [OF initialize])
    (simp_all add: sample_request_def Initialize_def granted.items_empty)

lemma sample_entry_own_holders:
  "holders sample_entry_own = [sample_request DSTORE_ROW_EXCLUSIVE_LOCK 1, sample_request DSTORE_SHARE_LOCK 1]"
  by code_simp

text \<open>Two holders of the same mode, and a waiting request of the first of them.\<close>

definition sample_entry_self :: LockEntry where
  "sample_entry_self = enqueue_all
     [sample_request DSTORE_ROW_EXCLUSIVE_LOCK 1, sample_request DSTORE_ROW_EXCLUSIVE_LOCK 2,
      sample_request DSTORE_SHARE_LOCK 1] (Initialize LockTag_default)"

lemma sample_entry_self_reachable: "reachable_entry sample_entry_self"
  unfolding sample_entry_self_def
  by (rule enqueue_all_reachable [OF initialize])
    (simp_all add: sample_request_def Initialize_def granted.items_empty)

lemma sample_entry_self_queues:
  "holders sample_entry_self =
     [sample_request DSTORE_ROW_EXCLUSIVE_LOCK 1, sample_request DSTORE_ROW_EXCLUSIVE_LOCK 2]"
  "waitingQueue sample_entry_self = [sample_request DSTORE_SHARE_LOCK 1]"
  by code_simp+

subsection \<open>Properties\<close>

text \<open>
  C2. Mutual exclusion. In every state a lock entry can reach, two granted requests in
  conflicting modes belong to the same requester, unless one of them was forced in during
  recovery (\<open>FORCE_HOLD\<close>).
\<close>

theorem conflicting_holders_same_requester:
  assumes "reachable_entry e" and "a \<in> set (holders e)" and "b \<in> set (holders e)"
    and "HasConflictWithMode (GetLockMode a) (GetLockMode b)"
  shows "IsSameRequester a b \<or> IsForceHold a \<or> IsForceHold b"
  using reachable_entryD(2) [OF assms(1)] assms(2-4) unfolding exclusive_def by blast

theorem conflicting_holders_same_requester_witness:
  "reachable_entry sample_entry_own \<and>
   sample_request DSTORE_SHARE_LOCK 1 \<in> set (holders sample_entry_own) \<and>
   sample_request DSTORE_ROW_EXCLUSIVE_LOCK 1 \<in> set (holders sample_entry_own) \<and>
   HasConflictWithMode DSTORE_SHARE_LOCK DSTORE_ROW_EXCLUSIVE_LOCK \<and>
   IsSameRequester (sample_request DSTORE_SHARE_LOCK 1) (sample_request DSTORE_ROW_EXCLUSIVE_LOCK 1)"
  using sample_entry_own_reachable conflicting_holders_same_requester
    [OF sample_entry_own_reachable, of "sample_request DSTORE_SHARE_LOCK 1"
      "sample_request DSTORE_ROW_EXCLUSIVE_LOCK 1"]
  by (simp add: sample_entry_own_holders HasConflictWithMode_def sample_request_def IsForceHold_def)

text \<open>
  C5. No lost wake-up. In every state a lock entry can reach, the request at the head of the
  waiting queue conflicts with a lock that another requester holds; a request that could be
  granted is never left at the head of the queue.
\<close>

theorem first_waiter_is_blocked:
  assumes "reachable_entry e" and "waitingQueue e = w # ws"
  shows "\<exists>h \<in> set (holders e). \<not> IsSameRequester h w \<and> HasConflictWithMode (GetLockMode w) (GetLockMode h)"
  using reachable_entryD(3) [OF assms(1)] assms(2) by (simp add: head_blocked_def blocks_def)

theorem first_waiter_is_blocked_witness:
  "reachable_entry (sample_entry 3) \<and> waitingQueue (sample_entry 3) = [sample_request DSTORE_EXCLUSIVE_LOCK 3] \<and>
   (\<exists>h \<in> set (holders (sample_entry 3)). HasConflictWithMode DSTORE_EXCLUSIVE_LOCK (GetLockMode h))"
  using sample_entry_reachable [of 3] sample_entry_queues(2)
    first_waiter_is_blocked [OF sample_entry_reachable sample_entry_queues(2)]
  by (auto simp: sample_request_def)

text \<open>
  C21. The counters and masks of an entry are exact. In every state an entry can reach, a bit of
  the grant mask (wait mask) is set exactly when a request of that mode is granted (waiting),
  the per-mode and total counters count the requests, and \<open>IsNoHolderAndNoWaiter\<close>, after
  which the entry is thrown away, holds only of an entry with two empty queues.
\<close>

theorem entry_counters_exact:
  assumes "reachable_entry e"
  shows "(\<forall>m. bit (m_grantMask (lockEntryCore e)) (lock_mode_code m) \<longleftrightarrow>
        (\<exists>h \<in> set (holders e). GetLockMode h = m)) \<and>
    (\<forall>m. bit (m_waitMask (lockEntryCore e)) (lock_mode_code m) \<longleftrightarrow>
        (\<exists>w \<in> set (waitingQueue e). GetLockMode w = m)) \<and>
    (\<forall>m. unat (m_grantedCnt (lockEntryCore e) m) = length (filter (\<lambda>h. GetLockMode h = m) (holders e))) \<and>
    (\<forall>m. unat (m_waitingCnt (lockEntryCore e) m) = length (filter (\<lambda>w. GetLockMode w = m) (waitingQueue e))) \<and>
    unat (m_grantedTotal (lockEntryCore e)) = length (holders e) \<and>
    unat (m_waitingTotal (lockEntryCore e)) = length (waitingQueue e) \<and>
    (IsNoHolderAndNoWaiter e \<longleftrightarrow> holders e = [] \<and> waitingQueue e = [])"
proof -
  note inv = reachable_entryD(1) [OF assms]
  have len: "length (holders e) < 2 ^ 32" "length (waitingQueue e) < 2 ^ 32"
    using entry_invD(6) [OF inv] by auto
  have small: "unat (of_nat (length (filter P xs)) :: uint32) = length (filter P xs)"
    if "length xs < 2 ^ 32" for P and xs :: "LockRequest list"
    using le_less_trans [OF length_filter_le [of P xs] that] by (intro unat_of_nat_small) simp
  show ?thesis
    using entry_invD(2,3) [OF inv] len small [of _ "\<lambda>_. True"] small
      summary_total_0 [OF entry_invD(2) [OF inv] len(1)] summary_total_0 [OF entry_invD(3) [OF inv] len(2)]
    unfolding summary_ok_def IsNoHolderAndNoWaiter_def by auto
qed

theorem entry_counters_exact_witness:
  "reachable_entry (sample_entry 3) \<and> unat (m_grantedTotal (lockEntryCore (sample_entry 3))) = 2 \<and>
   \<not> IsNoHolderAndNoWaiter (sample_entry 3)"
  using sample_entry_reachable entry_counters_exact [OF sample_entry_reachable, of 3]
  by (simp add: sample_entry_queues)

text \<open>
  C22. Cutting in line. When an enqueue puts the request into the waiting queue, it keeps the
  order of the other waiters, and no waiter in front of the new one waits for a lock that the
  new waiter's requester already holds: the two cannot be waiting for each other.
\<close>

theorem EnqueueLockRequest_cuts_in_line:
  assumes "reachable_entry e" and "GetLockMode r \<noteq> DSTORE_LOCK_MODE_MAX"
    and "\<not> (\<exists>w \<in> set (waitingQueue e). IsSameRequester w r \<and> GetLockMode w = GetLockMode r)"
    and "EnqueueLockRequest dup_ok e r fl info = (Inl LOCK_INFO_WAITING, e', fl', info')"
  shows "holders e' = holders e \<and>
    (\<exists>xs ys. waitingQueue e = xs @ ys \<and> waitingQueue e' = xs @ r # ys \<and>
       (\<forall>x \<in> set xs. \<forall>h \<in> set (holders e').
          IsSameRequester h r \<longrightarrow> \<not> HasConflictWithMode (GetLockMode x) (GetLockMode h)))"
proof -
  note inv = reachable_entryD(1) [OF assms(1)]
  have new: "\<not> (\<exists>w \<in> set (waitingQueue e). same_wait w r)" using assms(3) by (simp add: same_wait_def)
  from inv assms(2,4) show ?thesis
  proof (cases rule: EnqueueLockRequest_cases)
    case (wait fl2 info2)
    then show ?thesis
      using TryAddToWaiterQueue_waits(1) [OF inv assms(2) new wait(2) refl] unfolding owns_against_def by auto
  qed auto
qed

theorem EnqueueLockRequest_cuts_in_line_witness:
  "\<exists>e' fl' info'. reachable_entry (sample_entry 3) \<and>
     EnqueueLockRequest True (sample_entry 3) (sample_request DSTORE_EXCLUSIVE_LOCK 1)
       (LockRequestFreeList_new 0) None = (Inl LOCK_INFO_WAITING, e', fl', info') \<and>
     holders e' = holders (sample_entry 3) \<and> hd (waitingQueue e') = sample_request DSTORE_EXCLUSIVE_LOCK 1"
proof -
  let ?r = "sample_request DSTORE_EXCLUSIVE_LOCK 1"
  obtain res e' fl' info' where enq: "EnqueueLockRequest True (sample_entry 3) ?r
      (LockRequestFreeList_new 0) None = (res, e', fl', info')" by (metis prod_cases4)
  have "fst (EnqueueLockRequest True (sample_entry 3) ?r (LockRequestFreeList_new 0) None) = Inl LOCK_INFO_WAITING"
    by code_simp
  then have enq: "EnqueueLockRequest True (sample_entry 3) ?r
      (LockRequestFreeList_new 0) None = (Inl LOCK_INFO_WAITING, e', fl', info')" using enq by simp
  have "HasConflictWithMode DSTORE_EXCLUSIVE_LOCK DSTORE_ROW_SHARE_LOCK"
    by (simp add: HasConflictWithMode_def)
  then show ?thesis
    using sample_entry_reachable enq
      EnqueueLockRequest_cuts_in_line [OF sample_entry_reachable _ _ enq]
    by (auto simp: sample_entry_queues sample_request_def IsSameRequester_def append_eq_Cons_conv
        Cons_eq_append_conv)
qed

text \<open>
  C30. For a requester that has no other request waiting here, as a thread that sleeps while it waits, an
  enqueue reports an early deadlock only when there is one: a request of another requester waits for a lock
  held by this requester, and the requested mode conflicts with a lock held by that other requester. The
  entry is left as it was.
\<close>

theorem early_deadlock_is_real:
  assumes "reachable_entry e" and "GetLockMode r \<noteq> DSTORE_LOCK_MODE_MAX"
    and "\<forall>w \<in> set (waitingQueue e). \<not> IsSameRequester w r"
    and "EnqueueLockRequest dup_ok e r fl info = (Inl LOCK_ERROR_DEADLOCK, e', fl', info')"
  shows "e' = e \<and> (\<exists>w \<in> set (waitingQueue e). \<not> IsSameRequester w r \<and>
      (\<exists>h \<in> set (holders e). IsSameRequester h r \<and> HasConflictWithMode (GetLockMode w) (GetLockMode h)) \<and>
      (\<exists>h \<in> set (holders e). IsSameRequester h w \<and> HasConflictWithMode (GetLockMode r) (GetLockMode h)))"
proof -
  note inv = reachable_entryD(1) [OF assms(1)]
  from inv assms(2,4) show ?thesis
  proof (cases rule: EnqueueLockRequest_cases)
    case (wait fl2 info2)
    then have new: "\<not> (\<exists>w \<in> set (waitingQueue e). same_wait w r)"
      using TryAddToWaiterQueue_again by fastforce
    then show ?thesis
      using TryAddToWaiterQueue_waits(2) [OF inv assms(2) new wait(2) refl] assms(3) unfolding owns_against_def by blast
  qed auto
qed

theorem early_deadlock_is_real_witness:
  "\<exists>e' fl' info'. reachable_entry (sample_entry 1) \<and>
     EnqueueLockRequest True (sample_entry 1) (sample_request DSTORE_EXCLUSIVE_LOCK 2)
       (LockRequestFreeList_new 0) None = (Inl LOCK_ERROR_DEADLOCK, e', fl', info') \<and> e' = sample_entry 1"
proof -
  let ?r = "sample_request DSTORE_EXCLUSIVE_LOCK 2"
  obtain res e' fl' info' where enq: "EnqueueLockRequest True (sample_entry 1) ?r
      (LockRequestFreeList_new 0) None = (res, e', fl', info')" by (metis prod_cases4)
  have "fst (EnqueueLockRequest True (sample_entry 1) ?r (LockRequestFreeList_new 0) None) = Inl LOCK_ERROR_DEADLOCK"
    by code_simp
  then have enq: "EnqueueLockRequest True (sample_entry 1) ?r
      (LockRequestFreeList_new 0) None = (Inl LOCK_ERROR_DEADLOCK, e', fl', info')" using enq by simp
  then show ?thesis
    using sample_entry_reachable early_deadlock_is_real [OF sample_entry_reachable _ _ enq]
    by (auto simp: sample_request_def sample_entry_queues_1 IsSameRequester_def)
qed

text \<open>
  The search for the first blocking waiter does not skip the requests of the current thread, as its comment
  says it does. When the only waiting requests are the requester's own, one of them in a mode that conflicts
  with a lock the requester holds, and the new mode conflicts with a lock of the requester and with one of
  somebody else, the enqueue is refused with \<open>LOCK_ERROR_DEADLOCK\<close>, although no other requester waits.
\<close>

lemma own_waiter_reported_as_deadlock:
  assumes "reachable_entry e" and "GetLockMode r \<noteq> DSTORE_LOCK_MODE_MAX" and "\<not> IsDontWait r" "\<not> IsForceHold r"
    and own: "\<forall>w \<in> set (waitingQueue e). IsSameRequester w r \<and> GetLockMode w \<noteq> GetLockMode r"
    and "w \<in> set (waitingQueue e)" "h \<in> set (holders e)" "IsSameRequester h r"
      "HasConflictWithMode (GetLockMode w) (GetLockMode h)"
    and "g \<in> set (holders e)" "IsSameRequester g r" "HasConflictWithMode (GetLockMode r) (GetLockMode g)"
    and "k \<in> set (holders e)" "\<not> IsSameRequester k r" "HasConflictWithMode (GetLockMode r) (GetLockMode k)"
  shows "fst (EnqueueLockRequest True e r fl info) = Inl LOCK_ERROR_DEADLOCK"
proof -
  note inv = reachable_entryD(1) [OF assms(1)]
  obtain res e' fl' info' where enq: "EnqueueLockRequest True e r fl info = (res, e', fl', info')" by (metis prod_cases4)
  have blocked: "blocks k r" using assms(14,15) by (simp add: blocks_def)
  have against: "owns_against (grantedQueue e) r w" using assms(7-9) by (auto simp: owns_against_def)
  have owner: "owns_against (grantedQueue e) x r" if "x \<in> set (waitingQueue e)" for x
    using own that assms(10-12) by (auto simp: owns_against_def IsSameRequester_def)
  from inv assms(2) enq have "res = Inl LOCK_ERROR_DEADLOCK"
  proof (cases rule: EnqueueLockRequest_cases)
    case (wait fl2 info2)
    let ?p = "Preventor_Start (grantedQueue e) (waitingQueue e) r EarlyDeadLockPreventor_new"
    have "verdict_ok (grantedQueue e) (waitingQueue e) r ?p"
      using entry_invD(4) [OF inv] assms(2) by (intro Start_verdict) auto
    then have "m_result ?p = CANT_PREVENT_DEADLOCK"
      using against owner assms(6,13) blocked by (cases "m_result ?p") (auto simp: verdict_ok_def)
    moreover have "\<not> (\<exists>v \<in> set (waitingQueue e). IsSameRequester v r \<and> GetLockMode v = GetLockMode r)"
      using own by blast
    ultimately have "TryAddToWaiterQueue e r fl2 info2 = (Inl LOCK_ERROR_DEADLOCK, e, Push fl2 r, info2)"
      unfolding TryAddToWaiterQueue_def by (simp only: if_False Let_def PreventorResult.case)
    then show ?thesis using wait(2) by simp
  qed (use assms(3,4,13) blocked in auto)
  then show ?thesis using enq by simp
qed

lemma own_waiter_reported_as_deadlock_sample:
  "waitingQueue sample_entry_self = [sample_request DSTORE_SHARE_LOCK 1] \<and>
   fst (EnqueueLockRequest True sample_entry_self (sample_request DSTORE_EXCLUSIVE_LOCK 1) (LockRequestFreeList_new 0) None) =
     Inl LOCK_ERROR_DEADLOCK"
  using own_waiter_reported_as_deadlock [OF sample_entry_self_reachable, of "sample_request DSTORE_EXCLUSIVE_LOCK 1"
      "sample_request DSTORE_SHARE_LOCK 1" "sample_request DSTORE_ROW_EXCLUSIVE_LOCK 1" "sample_request DSTORE_ROW_EXCLUSIVE_LOCK 1"
      "sample_request DSTORE_ROW_EXCLUSIVE_LOCK 2"]
  by (simp add: sample_entry_self_queues sample_request_def IsSameRequester_def IsDontWait_def IsForceHold_def
      HasConflictWithMode_def)


text \<open>
  A request that conflicts neither with a lock of another requester nor with a waiting
  request is granted at once when memory for it is available, and a request that reports success
  is held afterwards (unless it asked only to wait). Success never takes a lock from anyone.
\<close>

lemma EnqueueLockRequest_grants:
  assumes "reachable_entry e" and "GetLockMode r \<noteq> DSTORE_LOCK_MODE_MAX"
    and "length (holders e) + length (waitingQueue e) < 2 ^ 32 - 1"
    and "EnqueueLockRequest dup_ok e r fl info = (res, e', fl', info')"
  shows "(dup_ok \<and>
      (\<forall>h \<in> set (holders e). HasConflictWithMode (GetLockMode r) (GetLockMode h) \<longrightarrow> IsSameRequester h r) \<and>
      (\<forall>w \<in> set (waitingQueue e). \<not> HasConflictWithMode (GetLockMode r) (GetLockMode w)) \<longrightarrow> res = Inr ()) \<and>
    (res = Inr () \<longrightarrow> set (holders e) \<subseteq> set (holders e') \<and> (IsOnlyWait r \<or> IsHeldByRequester e' r))"
proof -
  note inv = reachable_entryD(1) [OF assms(1)]
  have "reachable_entry e'" using enqueue [OF assms] .
  note held = IsHeldByRequester_iff [OF reachable_entryD(1) [OF this], of r]
  from inv assms(2,4) show ?thesis
  proof (cases rule: EnqueueLockRequest_cases)
    case (grant fl2)
    then show ?thesis using AddToHolderQueue_spec [OF inv assms(2,3) grant(3)] held by auto
  next
    case (wait fl2 info2)
    moreover have "set (holders e) \<subseteq> set (holders e') \<and> (IsOnlyWait r \<or> IsHeldByRequester e' r)"
      if "res = Inr ()"
      using wait(2) that AddToHolderQueue_spec [OF inv assms(2,3)] held
      by (auto simp: TryAddToWaiterQueue_def Let_def split: if_splits PreventorResult.splits prod.splits)
    ultimately show ?thesis by (auto simp: blocks_def)
  next
    case not_avail
    then show ?thesis
      using assms(4) HasConflictWithAnyHolder_eq [OF inv assms(2)] summary_conflict [OF entry_invD(3) [OF inv] assms(2)]
      by (auto simp: EnqueueLockRequest_def PopACopyOf_def Let_def blocks_def split: list.splits if_splits prod.splits)
  qed auto
qed

text \<open>
  C31. Releasing a held lock lets the waiters move up in the order they queued: the requests
  woken are a prefix of the waiting queue, each of them is held afterwards (unless it asked only
  to wait), and the locks of the other holders stay.
\<close>

theorem DequeueLockRequest_fifo:
  assumes "reachable_entry e" and "IsHeldByRequester e r"
    and "DequeueLockRequest e r fl = (ok, e', fl', woken)"
  shows "ok \<and> waitingQueue e = woken @ waitingQueue e' \<and>
    (\<forall>p \<in> set woken. \<not> IsOnlyWait p \<longrightarrow> IsHeldByRequester e' p) \<and>
    (\<forall>h \<in> set (holders e). Compare r h \<noteq> 0 \<longrightarrow> h \<in> set (holders e'))"
proof -
  note inv = reachable_entryD(1,2) [OF assms(1)]
  from inv assms(3) show ?thesis
  proof (cases rule: DequeueLockRequest_cases)
    case (held e1 fl1 h)
    note adv = AdvanceWaitingQueue_good [OF held(3,4,2)]
    have "x \<in> set (holders e1)" if "x \<in> set (holders e)" "Compare r x \<noteq> 0" for x
    proof -
      have "x \<noteq> h" using that(2) held(6) by auto
      then show ?thesis using that(1) unfolding held(7) by simp
    qed
    moreover have "entry_inv e'" using adv by (simp add: entry_good_def)
    ultimately show ?thesis
      using adv held(1,8) by (auto simp: IsHeldByRequester_iff subset_iff)
  qed (use assms(2) IsHeldByRequester_iff [OF inv(1)] in auto)
qed

theorem DequeueLockRequest_fifo_witness:
  "\<exists>e' fl'. reachable_entry (sample_entry 1) \<and>
     IsHeldByRequester (sample_entry 1) (sample_request DSTORE_ROW_SHARE_LOCK 2) \<and>
     DequeueLockRequest (sample_entry 1) (sample_request DSTORE_ROW_SHARE_LOCK 2) (LockRequestFreeList_new 0) =
       (True, e', fl', [sample_request DSTORE_EXCLUSIVE_LOCK 1]) \<and>
     IsHeldByRequester e' (sample_request DSTORE_EXCLUSIVE_LOCK 1)"
proof -
  let ?r = "sample_request DSTORE_ROW_SHARE_LOCK 2"
  obtain ok e' fl' woken where deq: "DequeueLockRequest (sample_entry 1) ?r (LockRequestFreeList_new 0) =
      (ok, e', fl', woken)" by (metis prod_cases4)
  have held: "IsHeldByRequester (sample_entry 1) ?r" by code_simp
  have "snd (snd (snd (DequeueLockRequest (sample_entry 1) ?r (LockRequestFreeList_new 0)))) =
      [sample_request DSTORE_EXCLUSIVE_LOCK 1]" by code_simp
  then show ?thesis
    using sample_entry_reachable [of 1] held deq
      DequeueLockRequest_fifo [OF sample_entry_reachable held deq]
    by (simp add: IsOnlyWait_def sample_request_def)
qed

end
