(* ===== verification/Local_Lock.thy ===== *)
theory Local_Lock
  imports Lock_Entry "HOL-Library.Monad_Syntax" "HOL-Library.AList"
begin

text \<open>
  The locks a thread holds or waits for (\<open>LocalLock\<close> and \<open>ThreadLocalLock\<close> of
  \<open>src/lock/dstore_lock_thrd_local.cpp\<close>). The entries live in two places: 512 slots addressed by
  the hash code of the tag, and a hash table for the tags whose slot is taken. Other threads read
  and change the entries, too, when they move locks of the fast path to the main lock table.

  A pointer to an entry is the address of a slot or of a node of the hash table; a node is
  addressed by the key it was entered with. Following a pointer to a removed node, a violated
  assertion and a panic are \<open>None\<close>. The hash table is the list of its nodes in the order of the
  sequential scan. Every operation runs under the mutex of the thread's table, and is one
  function here. The argument \<open>enter_ok\<close> says whether a new node could be allocated.
\<close>

subsection \<open>Tags with their hash code\<close>

text \<open>The hash function of tags is an argument; nothing depends on which one it is.\<close>

definition LockTagCache_new :: "(LockTag \<Rightarrow> uint32) \<Rightarrow> LockTag \<Rightarrow> LockTagCache" where
  "LockTagCache_new hash t = \<lparr>lockTag = t, hashCode = hash t\<rparr>"

lemma cache_simps [simp]: "lockTag (LockTagCache_new hash t) = t" "hashCode (LockTagCache_new hash t) = hash t"
  by (simp_all add: LockTagCache_new_def)

subsection \<open>Entries\<close>

record LocalLockEntry =
  entry_tag :: LockTag
  entry_type :: LockMgrType
  grantedByFastPath :: uint8
  grantedTotal :: uint32
  granted :: "LockMode \<Rightarrow> uint32"

definition LocalLockEntry_Initialize :: "LockTag \<Rightarrow> LockMgrType \<Rightarrow> LocalLockEntry" where
  "LocalLockEntry_Initialize tag mgrType =
     \<lparr>entry_tag = tag, entry_type = mgrType, grantedByFastPath = 0, grantedTotal = 0,
      granted = (\<lambda>_. 0)\<rparr>"

definition GetMask :: "LocalLockEntry \<Rightarrow> LockMask" where
  "GetMask e = fold (\<lambda>m acc. acc OR (if granted e m > 0 then GetLockMask m else 0)) requestable_modes 0"

definition LocalLockEntry_IsEmpty :: "LocalLockEntry \<Rightarrow> bool" where
  "LocalLockEntry_IsEmpty e \<longleftrightarrow> grantedTotal e = 0"

text \<open>Only these modes may be granted by the fast path.\<close>

definition weak_mode :: "LockMode \<Rightarrow> bool" where
  "weak_mode mode \<longleftrightarrow> mode \<noteq> DSTORE_NO_LOCK \<and> mode < DSTORE_SHARE_UPDATE_EXCLUSIVE_LOCK"

definition fast_path_bit :: "LockMode \<Rightarrow> uint8" where
  "fast_path_bit mode = push_bit (lock_mode_code mode) 1"

definition SetGrantedByFastPath :: "LockMode \<Rightarrow> LocalLockEntry \<Rightarrow> LocalLockEntry option" where
  "SetGrantedByFastPath mode e =
     (if weak_mode mode \<and> (grantedByFastPath e AND fast_path_bit mode) = 0
      then Some (e\<lparr>grantedByFastPath := grantedByFastPath e OR fast_path_bit mode\<rparr>) else None)"

definition ClearGrantedByFastPath :: "LockMode \<Rightarrow> LocalLockEntry \<Rightarrow> LocalLockEntry option" where
  "ClearGrantedByFastPath mode e =
     (if weak_mode mode \<and> (grantedByFastPath e AND fast_path_bit mode) \<noteq> 0
      then Some (e\<lparr>grantedByFastPath := grantedByFastPath e AND NOT (fast_path_bit mode)\<rparr>) else None)"

definition IsGrantedByFastPath :: "LockMode \<Rightarrow> LocalLockEntry \<Rightarrow> bool option" where
  "IsGrantedByFastPath mode e =
     (if weak_mode mode then Some ((grantedByFastPath e AND fast_path_bit mode) \<noteq> 0) else None)"

definition GrantLock :: "LockMode \<Rightarrow> LocalLockEntry \<Rightarrow> LocalLockEntry" where
  "GrantLock mode e =
     e\<lparr>granted := (granted e)(mode := granted e mode + 1), grantedTotal := grantedTotal e + 1\<rparr>"

definition UnGrantLock :: "LockMode \<Rightarrow> LocalLockEntry \<Rightarrow> LocalLockEntry" where
  "UnGrantLock mode e =
     e\<lparr>granted := (granted e)(mode := granted e mode - 1), grantedTotal := grantedTotal e - 1\<rparr>"

subsection \<open>The table of a thread\<close>

datatype EntryPtr = Slot uint32 | Node LockTag

record WaitingLockInfo =
  lockEntry :: "EntryPtr option"
  wait_lockMode :: LockMode
  unlockEntry :: "EntryPtr option"
  lockScanned :: bool

definition WaitingLockInfo_new :: WaitingLockInfo where
  "WaitingLockInfo_new =
     \<lparr>lockEntry = None, wait_lockMode = DSTORE_NO_LOCK, unlockEntry = None, lockScanned = False\<rparr>"

text \<open>If the thread is in an acquisition and in a release at once the source asserts.\<close>

definition WaitingLockInfo_GetActiveEntry :: "WaitingLockInfo \<Rightarrow> EntryPtr option option" where
  "WaitingLockInfo_GetActiveEntry w =
     (if lockEntry w = None \<or> unlockEntry w = None
      then Some (if lockEntry w \<noteq> None then lockEntry w else unlockEntry w) else None)"

definition FAST_LOCK_ENTRY_MAP_MAX_SLOT :: uint32 where
  "FAST_LOCK_ENTRY_MAP_MAX_SLOT = 512"

definition m_waitLockMaxCount :: nat where "m_waitLockMaxCount = 128"

record LocalLock =
  m_holdLocks :: "(LockTag \<times> LocalLockEntry) list"
  m_fastLockEntryMapUseCnt :: uint32
  m_hashMapUseCnt :: uint32
  m_fastLockEntryMap :: "uint32 \<Rightarrow> LocalLockEntry"

record ThreadLocalLock = LocalLock +
  m_waitingInfo :: WaitingLockInfo
  m_waitLocksLen :: nat
  m_waitLocks :: "EntryPtr option list"
  m_backupWaitLock :: "EntryPtr option"
  m_backupWaitMode :: LockMode
  m_backupWaitLocksLen :: nat
  m_backupWaitLocks :: "EntryPtr option list"

text \<open>\<open>Initialize\<close> marks all slots free by an invalid tag.\<close>

definition ThreadLocalLock_Initialize :: ThreadLocalLock where
  "ThreadLocalLock_Initialize =
     \<lparr>m_holdLocks = [], m_fastLockEntryMapUseCnt = 0, m_hashMapUseCnt = 0,
      m_fastLockEntryMap =
        (\<lambda>_. \<lparr>entry_tag = SetInvalid LockTag_default, entry_type = LOCK_MGR, grantedByFastPath = 0,
              grantedTotal = 0, granted = (\<lambda>_. 0)\<rparr>),
      m_waitingInfo = WaitingLockInfo_new, m_waitLocksLen = 0,
      m_waitLocks = replicate m_waitLockMaxCount None,
      m_backupWaitLock = None, m_backupWaitMode = DSTORE_NO_LOCK, m_backupWaitLocksLen = 0,
      m_backupWaitLocks = replicate m_waitLockMaxCount None\<rparr>"

text \<open>Reading and writing the entry behind a pointer.\<close>

definition deref :: "ThreadLocalLock \<Rightarrow> EntryPtr \<Rightarrow> LocalLockEntry option" where
  "deref l p = (case p of Slot i \<Rightarrow> Some (m_fastLockEntryMap l i) | Node t \<Rightarrow> map_of (m_holdLocks l) t)"

definition store :: "EntryPtr \<Rightarrow> LocalLockEntry \<Rightarrow> ThreadLocalLock \<Rightarrow> ThreadLocalLock" where
  "store p e l = (case p of
      Slot i \<Rightarrow> l\<lparr>m_fastLockEntryMap := (m_fastLockEntryMap l)(i := e)\<rparr>
    | Node t \<Rightarrow> l\<lparr>m_holdLocks := AList.update t e (m_holdLocks l)\<rparr>)"

definition guard :: "bool \<Rightarrow> unit option" where
  "guard b = (if b then Some () else None)"

definition CreateLock ::
    "bool \<Rightarrow> LockTagCache \<Rightarrow> LockMgrType \<Rightarrow> ThreadLocalLock \<Rightarrow> (EntryPtr option \<times> ThreadLocalLock) option" where
  "CreateLock enter_ok tag mgrType l =
     (let fastHash = hashCode tag mod FAST_LOCK_ENTRY_MAP_MAX_SLOT;
          slot = m_fastLockEntryMap l fastHash in
      if IsInvalid (entry_tag slot) \<and> m_hashMapUseCnt l = 0
      then Some (Some (Slot fastHash),
        l\<lparr>m_fastLockEntryMap := (m_fastLockEntryMap l)
             (fastHash := LocalLockEntry_Initialize (lockTag tag) mgrType),
          m_fastLockEntryMapUseCnt := m_fastLockEntryMapUseCnt l + 1\<rparr>)
      else if HashCompareFunc (entry_tag slot) (lockTag tag) = 0 then Some (Some (Slot fastHash), l)
      else case map_of (m_holdLocks l) (lockTag tag) of
        Some _ \<Rightarrow> Some (Some (Node (lockTag tag)), l)
      | None \<Rightarrow>
          if \<not> enter_ok then Some (None, l)
          else do {
            let l' = l\<lparr>m_holdLocks := m_holdLocks l @ [(lockTag tag, LocalLockEntry_Initialize (lockTag tag) mgrType)],
                       m_hashMapUseCnt := m_hashMapUseCnt l + 1\<rparr>;
            guard (m_hashMapUseCnt l' = of_nat (length (m_holdLocks l')));
            Some (Some (Node (lockTag tag)), l') })"

definition FindLock :: "LockTagCache \<Rightarrow> ThreadLocalLock \<Rightarrow> EntryPtr option" where
  "FindLock tag l =
     (let fastHash = hashCode tag mod FAST_LOCK_ENTRY_MAP_MAX_SLOT in
      if HashCompareFunc (entry_tag (m_fastLockEntryMap l fastHash)) (lockTag tag) = 0
      then Some (Slot fastHash)
      else map_option (\<lambda>_. Node (lockTag tag)) (map_of (m_holdLocks l) (lockTag tag)))"

definition IsClearable :: "ThreadLocalLock \<Rightarrow> EntryPtr \<Rightarrow> bool" where
  "IsClearable l p \<longleftrightarrow> m_backupWaitLock l \<noteq> Some p"

definition ClearLock :: "EntryPtr \<Rightarrow> uint32 \<Rightarrow> ThreadLocalLock \<Rightarrow> ThreadLocalLock option" where
  "ClearLock p tagHashCode l = do {
     e \<leftarrow> deref l p;
     if \<not> LocalLockEntry_IsEmpty e \<or> \<not> IsClearable l p then Some l
     else
       let fastHash = tagHashCode mod FAST_LOCK_ENTRY_MAP_MAX_SLOT; slot = m_fastLockEntryMap l fastHash in
       if HashCompareFunc (entry_tag slot) (entry_tag e) = 0
       then Some (l\<lparr>m_fastLockEntryMap := (m_fastLockEntryMap l)
                      (fastHash := slot\<lparr>entry_tag := SetInvalid (entry_tag slot)\<rparr>),
                    m_fastLockEntryMapUseCnt := m_fastLockEntryMapUseCnt l - 1\<rparr>)
       else do {
         guard (map_of (m_holdLocks l) (entry_tag e) \<noteq> None);
         let l' = l\<lparr>m_holdLocks := AList.delete (entry_tag e) (m_holdLocks l),
                    m_hashMapUseCnt := m_hashMapUseCnt l - 1\<rparr>;
         guard (m_hashMapUseCnt l' = of_nat (length (m_holdLocks l')));
         Some l' } }"

subsection \<open>What the thread waits for\<close>

definition SetLockScannedForRecovery :: "bool \<Rightarrow> ThreadLocalLock \<Rightarrow> ThreadLocalLock" where
  "SetLockScannedForRecovery scanned l = l\<lparr>m_waitingInfo := (m_waitingInfo l)\<lparr>lockScanned := scanned\<rparr>\<rparr>"

definition GetLockScannedByRecovery :: "ThreadLocalLock \<Rightarrow> bool" where
  "GetLockScannedByRecovery l = lockScanned (m_waitingInfo l)"

definition SetWaitingEntryForLock :: "EntryPtr option \<Rightarrow> LockMode \<Rightarrow> ThreadLocalLock \<Rightarrow> ThreadLocalLock" where
  "SetWaitingEntryForLock p mode l =
     l\<lparr>m_waitingInfo := (m_waitingInfo l)\<lparr>lockEntry := p, wait_lockMode := mode\<rparr>\<rparr>"

text \<open>The mode is only written when there is an entry; \<open>mode\<close> is its value before the call.\<close>

definition GetWaitingEntryForLock :: "LockMode \<Rightarrow> ThreadLocalLock \<Rightarrow> EntryPtr option \<times> LockMode" where
  "GetWaitingEntryForLock mode l =
     (lockEntry (m_waitingInfo l),
      if lockEntry (m_waitingInfo l) \<noteq> None then wait_lockMode (m_waitingInfo l) else mode)"

definition SetWaitingEntryForUnlock :: "EntryPtr option \<Rightarrow> ThreadLocalLock \<Rightarrow> ThreadLocalLock" where
  "SetWaitingEntryForUnlock p l = l\<lparr>m_waitingInfo := (m_waitingInfo l)\<lparr>unlockEntry := p\<rparr>\<rparr>"

definition GetWaitingEntryForUnlock :: "ThreadLocalLock \<Rightarrow> EntryPtr option" where
  "GetWaitingEntryForUnlock l = unlockEntry (m_waitingInfo l)"

definition ThreadLocalLock_GetActiveEntry :: "ThreadLocalLock \<Rightarrow> EntryPtr option option" where
  "ThreadLocalLock_GetActiveEntry l =
     (if m_backupWaitLock l \<noteq> None then Some (m_backupWaitLock l)
      else WaitingLockInfo_GetActiveEntry (m_waitingInfo l))"

text \<open>The tag and mode the thread waits for, if any; a dangling pointer is \<open>None\<close>.\<close>

definition IsWaitingLock :: "ThreadLocalLock \<Rightarrow> (LockTag \<times> LockMode) option option" where
  "IsWaitingLock l =
     (case GetWaitingEntryForLock DSTORE_NO_LOCK l of
        (None, _) \<Rightarrow> Some None
      | (Some p, mode) \<Rightarrow> map_option (\<lambda>e. Some (entry_tag e, mode)) (deref l p))"

definition IsHoldingLock :: "LockTagCache \<Rightarrow> ThreadLocalLock \<Rightarrow> bool" where
  "IsHoldingLock tag l \<longleftrightarrow> FindLock tag l \<noteq> None"

subsection \<open>Acquiring and releasing\<close>

definition GrantIfAlreadyHold ::
    "bool \<Rightarrow> LockTagCache \<Rightarrow> LockMode \<Rightarrow> LockMgrType \<Rightarrow> ThreadLocalLock
     \<Rightarrow> ((LockErrorCode + unit) \<times> ThreadLocalLock) option" where
  "GrantIfAlreadyHold enter_ok tag mode mgrType l = do {
     (created, l1) \<leftarrow> CreateLock enter_ok tag mgrType (SetLockScannedForRecovery False l);
     case created of
       None \<Rightarrow> Some (Inl LOCK_ERROR_OUT_OF_MEMORY, l1)
     | Some p \<Rightarrow> do {
         e \<leftarrow> deref l1 p;
         if granted e mode > 0 then Some (Inr (), store p (GrantLock mode e) l1)
         else Some (Inl LOCK_INFO_NOT_AVAIL, SetWaitingEntryForLock (Some p) mode l1) } }"

text \<open>
  The hash code of \<open>tag\<close> is the one its constructor computed, so the assertion that compares it
  with the hash function is not repeated here.
\<close>

definition RecordLockResult ::
    "LockTagCache \<Rightarrow> LockMode \<Rightarrow> RetStatus \<Rightarrow> ThreadLocalLock
     \<Rightarrow> ((LockErrorCode + unit) \<times> ThreadLocalLock) option" where
  "RecordLockResult tag mode status l =
     (let (waiting, lockMode) = GetWaitingEntryForLock DSTORE_NO_LOCK l in do {
        p \<leftarrow> waiting;
        guard (lockMode = mode);
        if status = DSTORE_SUCC \<and> GetLockScannedByRecovery l
        then Some (Inl LOCK_ERROR_SCAN_PASSED, SetLockScannedForRecovery False l)
        else do {
          l1 \<leftarrow> (case status of
                  DSTORE_SUCC \<Rightarrow> map_option (\<lambda>e. store p (GrantLock lockMode e) l) (deref l p)
                | DSTORE_FAIL \<Rightarrow> ClearLock p (hashCode tag) l);
          Some (Inr (), SetWaitingEntryForLock None DSTORE_NO_LOCK l1) } })"

definition UngrantIfGrantedMultipleTimes ::
    "LockTagCache \<Rightarrow> LockMode \<Rightarrow> ThreadLocalLock \<Rightarrow> ((LockErrorCode + unit) \<times> ThreadLocalLock) option" where
  "UngrantIfGrantedMultipleTimes tag mode l =
     (let l1 = SetLockScannedForRecovery False l in do {
        p \<leftarrow> FindLock tag l1;
        e \<leftarrow> deref l1 p;
        guard (granted e mode \<noteq> 0);
        if granted e mode > 1 then Some (Inr (), store p (UnGrantLock mode e) l1)
        else Some (Inl LOCK_INFO_NOT_AVAIL, SetWaitingEntryForUnlock (Some p) l1) })"

text \<open>The result is \<open>isCntZero\<close>.\<close>

definition BatchDecreaseGrantedCount ::
    "LockTagCache \<Rightarrow> LockMode \<Rightarrow> uint32 \<Rightarrow> ThreadLocalLock \<Rightarrow> (bool \<times> ThreadLocalLock) option" where
  "BatchDecreaseGrantedCount tag mode decreaseCnt l = do {
     p \<leftarrow> FindLock tag l;
     e \<leftarrow> deref l p;
     guard (decreaseCnt \<le> granted e mode);
     let e' = e\<lparr>granted := (granted e)(mode := granted e mode - decreaseCnt),
                grantedTotal := grantedTotal e - decreaseCnt\<rparr>;
     l' \<leftarrow> ClearLock p (hashCode tag) (store p e' l);
     Some (granted e' mode = 0, l') }"

text \<open>The assertion compares the whole tag, not only the fields \<open>HashCompareFunc\<close> looks at.\<close>

definition RemoveLockRecord ::
    "LockTagCache \<Rightarrow> LockMode \<Rightarrow> ThreadLocalLock \<Rightarrow> ((LockErrorCode + unit) \<times> ThreadLocalLock) option" where
  "RemoveLockRecord tag mode l =
     (if GetLockScannedByRecovery l
      then Some (Inl LOCK_ERROR_SCAN_PASSED, SetLockScannedForRecovery False l)
      else do {
        p \<leftarrow> GetWaitingEntryForUnlock l;
        e \<leftarrow> deref l p;
        guard (entry_tag e = lockTag tag);
        l1 \<leftarrow> ClearLock p (hashCode tag) (store p (UnGrantLock mode e) l);
        Some (Inr (), SetWaitingEntryForUnlock None l1) })"

definition LocalLock_IsEmpty :: "ThreadLocalLock \<Rightarrow> bool" where
  "LocalLock_IsEmpty l \<longleftrightarrow> m_fastLockEntryMapUseCnt l = 0 \<and> m_hashMapUseCnt l = 0"

definition GetNumEntries :: "ThreadLocalLock \<Rightarrow> uint32 option" where
  "GetNumEntries l = do {
     guard (m_hashMapUseCnt l = of_nat (length (m_holdLocks l)));
     Some (m_hashMapUseCnt l + m_fastLockEntryMapUseCnt l) }"

definition GetHoldLockCnt :: "LockTagCache \<Rightarrow> ThreadLocalLock \<Rightarrow> LockMode \<Rightarrow> uint32" where
  "GetHoldLockCnt tag l =
     (case Option.bind (FindLock tag l) (deref l) of None \<Rightarrow> (\<lambda>_. 0) | Some e \<Rightarrow> granted e)"

text \<open>A lock that is still recorded when the thread ends is a panic.\<close>

definition CheckForLockLeakage :: "ThreadLocalLock \<Rightarrow> unit option" where
  "CheckForLockLeakage l = guard (LocalLock_IsEmpty l)"

subsection \<open>The fast path\<close>

definition FAST_PATH_STRONG_LOCK_HASH_PARTITIONS :: uint32 where
  "FAST_PATH_STRONG_LOCK_HASH_PARTITIONS = 1024"

record FastPathStrongLockData =
  counts :: "uint32 \<Rightarrow> uint32"

definition FastPathStrongLockData_new :: FastPathStrongLockData where
  "FastPathStrongLockData_new = \<lparr>counts = (\<lambda>_. 0)\<rparr>"

definition GetStrongLockHashPartition :: "uint32 \<Rightarrow> uint32" where
  "GetStrongLockHashPartition hash = hash mod FAST_PATH_STRONG_LOCK_HASH_PARTITIONS"

definition MarkStrongLockInFastPath :: "uint32 \<Rightarrow> FastPathStrongLockData \<Rightarrow> FastPathStrongLockData" where
  "MarkStrongLockInFastPath tagHashCode d =
     (let fastHashcode = GetStrongLockHashPartition tagHashCode in
      d\<lparr>counts := (counts d)(fastHashcode := counts d fastHashcode + 1)\<rparr>)"

definition UnmarkStrongLockInFastPath :: "uint32 \<Rightarrow> FastPathStrongLockData \<Rightarrow> FastPathStrongLockData option" where
  "UnmarkStrongLockInFastPath tagHashCode d =
     (let fastHashcode = GetStrongLockHashPartition tagHashCode in do {
        guard (counts d fastHashcode > 0);
        Some (d\<lparr>counts := (counts d)(fastHashcode := counts d fastHashcode - 1)\<rparr>) })"

definition CheckStrongLocksInFastPathLeak :: "FastPathStrongLockData \<Rightarrow> unit option" where
  "CheckStrongLocksInFastPathLeak d =
     guard (list_all (\<lambda>i. counts d (of_nat i) = 0) [0..<unat FAST_PATH_STRONG_LOCK_HASH_PARTITIONS])"

definition GetStrongLockCntInPartition :: "uint32 \<Rightarrow> FastPathStrongLockData \<Rightarrow> uint32" where
  "GetStrongLockCntInPartition hash d = counts d (GetStrongLockHashPartition hash)"

text \<open>The result of a success is \<open>isAlreadyHeld\<close>.\<close>

definition TryGrantByFastPath ::
    "bool \<Rightarrow> FastPathStrongLockData \<Rightarrow> LockTagCache \<Rightarrow> LockMode \<Rightarrow> LockMgrType \<Rightarrow> ThreadLocalLock
     \<Rightarrow> ((LockErrorCode + bool) \<times> ThreadLocalLock) option" where
  "TryGrantByFastPath enter_ok d tag mode mgrType l = do {
     guard (\<not> IsInvalid (lockTag tag));
     guard (weak_mode mode);
     (created, l1) \<leftarrow> CreateLock enter_ok tag mgrType (SetLockScannedForRecovery False l);
     case created of
       None \<Rightarrow> Some (Inl LOCK_ERROR_OUT_OF_MEMORY, l1)
     | Some p \<Rightarrow> do {
         e \<leftarrow> deref l1 p;
         if granted e mode > 0 then Some (Inr True, store p (GrantLock mode e) l1)
         else if counts d (GetStrongLockHashPartition (hashCode tag)) \<noteq> 0
         then Some (Inl LOCK_INFO_NOT_AVAIL, SetWaitingEntryForLock (Some p) mode l1)
         else do {
           e' \<leftarrow> SetGrantedByFastPath mode (GrantLock mode e);
           Some (Inr False, store p e' l1) } } }"

definition TryReleaseByFastPath ::
    "LockTagCache \<Rightarrow> LockMode \<Rightarrow> ThreadLocalLock \<Rightarrow> ((LockErrorCode + unit) \<times> ThreadLocalLock) option" where
  "TryReleaseByFastPath tag mode l =
     (let l1 = SetLockScannedForRecovery False l in do {
        p \<leftarrow> FindLock tag l1;
        e \<leftarrow> deref l1 p;
        guard (granted e mode \<noteq> 0);
        if granted e mode > 1 then Some (Inr (), store p (UnGrantLock mode e) l1)
        else do {
          fast \<leftarrow> IsGrantedByFastPath mode e;
          if fast
          then do {
            e' \<leftarrow> ClearGrantedByFastPath mode e;
            l2 \<leftarrow> ClearLock p (hashCode tag) (store p (UnGrantLock mode e') l1);
            Some (Inr (), l2) }
          else Some (Inl LOCK_INFO_NOT_AVAIL, SetWaitingEntryForUnlock (Some p) l1) } })"

text \<open>The result is \<open>unlockFinished\<close>.\<close>

definition BatchReleaseByFastPath ::
    "LockTagCache \<Rightarrow> LockMode \<Rightarrow> uint32 \<Rightarrow> ThreadLocalLock \<Rightarrow> (bool \<times> ThreadLocalLock) option" where
  "BatchReleaseByFastPath tag mode decreaseCnt l = do {
     p \<leftarrow> FindLock tag l;
     e \<leftarrow> deref l p;
     guard (decreaseCnt \<le> granted e mode);
     let e1 = e\<lparr>granted := (granted e)(mode := granted e mode - decreaseCnt),
                grantedTotal := grantedTotal e - decreaseCnt\<rparr>;
     if granted e1 mode = 0
     then do {
       fast \<leftarrow> IsGrantedByFastPath mode e1;
       e2 \<leftarrow> (if fast then ClearGrantedByFastPath mode e1 else Some e1);
       l' \<leftarrow> ClearLock p (hashCode tag) (store p e2 l);
       Some (fast, l') }
     else Some (True, store p e1 l) }"

definition LockAndGetLocalLockEntry :: "LockTagCache \<Rightarrow> ThreadLocalLock \<Rightarrow> EntryPtr option" where
  "LockAndGetLocalLockEntry tag l = FindLock tag l"

subsection \<open>Waiting for several locks\<close>

definition LOCK_XACT_SHARED_WAIT_LOCK :: LockMode where
  "LOCK_XACT_SHARED_WAIT_LOCK = DSTORE_ROW_EXCLUSIVE_LOCK"

definition IsWaitingForMultipleLocks :: "ThreadLocalLock \<Rightarrow> bool" where
  "IsWaitingForMultipleLocks l \<longleftrightarrow> m_waitLocksLen l \<noteq> 0"

text \<open>The tags behind a list of pointers; a null or dangling pointer is \<open>None\<close>.\<close>

fun tags_behind :: "ThreadLocalLock \<Rightarrow> EntryPtr option list \<Rightarrow> LockTag list option" where
  "tags_behind l [] = Some []"
| "tags_behind l (q # qs) = do {
     p \<leftarrow> q;
     e \<leftarrow> deref l p;
     ts \<leftarrow> tags_behind l qs;
     Some (entry_tag e # ts) }"

text \<open>The result is the return value with the tags and the mode written to the output parameters.\<close>

definition GetWaitingLocks :: "nat \<Rightarrow> ThreadLocalLock \<Rightarrow> (bool \<times> LockTag list \<times> LockMode) option" where
  "GetWaitingLocks arrayLen l =
     (if \<not> IsWaitingForMultipleLocks l
      then map_option (\<lambda>w. case w of None \<Rightarrow> (False, [], DSTORE_NO_LOCK) | Some (t, mode) \<Rightarrow> (True, [t], mode))
             (IsWaitingLock l)
      else do {
        guard (m_waitLocksLen l \<le> arrayLen \<and> m_waitLocksLen l \<le> m_waitLockMaxCount);
        ts \<leftarrow> tags_behind l (take (m_waitLocksLen l) (m_waitLocks l));
        Some (True, ts, LOCK_XACT_SHARED_WAIT_LOCK) })"

text \<open>
  The loop of \<open>RecordWaitingForMultiLocks\<close>. The result says at which index a node could not be
  allocated, if at any; waiting for a lock the thread holds itself is a panic.
\<close>

fun record_waiting_loop ::
    "(nat \<Rightarrow> bool) \<Rightarrow> LockMode \<Rightarrow> LockMgrType \<Rightarrow> nat \<Rightarrow> LockTagCache list \<Rightarrow> ThreadLocalLock
     \<Rightarrow> (nat option \<times> ThreadLocalLock) option" where
  "record_waiting_loop enter_ok waitMode mgrType lockedIndex [] l = Some (None, l)"
| "record_waiting_loop enter_ok waitMode mgrType lockedIndex (tag # tags) l = do {
     (created, l1) \<leftarrow> CreateLock (enter_ok lockedIndex) tag mgrType l;
     case created of
       None \<Rightarrow> Some (Some lockedIndex, l1)
     | Some p \<Rightarrow> do {
         e \<leftarrow> deref l1 p;
         guard (\<not> granted e waitMode > 0);
         guard (lockedIndex < m_waitLockMaxCount);
         record_waiting_loop enter_ok waitMode mgrType (Suc lockedIndex) tags
           (l1\<lparr>m_waitLocks := (m_waitLocks l1)[lockedIndex := Some p]\<rparr>) } }"

text \<open>The part of \<open>RecordWaitingForMultiLocks\<close> under the mutex; a failure is cleaned up after it was released.\<close>

definition record_waiting_locked ::
    "(nat \<Rightarrow> bool) \<Rightarrow> LockTagCache list \<Rightarrow> LockMode \<Rightarrow> LockMgrType \<Rightarrow> ThreadLocalLock
     \<Rightarrow> (nat option \<times> ThreadLocalLock) option" where
  "record_waiting_locked enter_ok waitTagCaches waitMode mgrType l =
     record_waiting_loop enter_ok waitMode mgrType 0 waitTagCaches
       (l\<lparr>m_waitLocksLen := length waitTagCaches\<rparr>)"

fun clear_waiting_loop :: "nat \<Rightarrow> LockTagCache list \<Rightarrow> ThreadLocalLock \<Rightarrow> ThreadLocalLock option" where
  "clear_waiting_loop lockedIndex [] l = Some l"
| "clear_waiting_loop lockedIndex (tag # tags) l = do {
     guard (lockedIndex < m_waitLockMaxCount);
     p \<leftarrow> m_waitLocks l ! lockedIndex;
     l1 \<leftarrow> ClearLock p (hashCode tag) l;
     clear_waiting_loop (Suc lockedIndex) tags (l1\<lparr>m_waitLocks := (m_waitLocks l1)[lockedIndex := None]\<rparr>) }"

definition RecordLockResultForMultiLocks ::
    "LockTagCache list \<Rightarrow> nat \<Rightarrow> RetStatus \<Rightarrow> ThreadLocalLock \<Rightarrow> ThreadLocalLock option" where
  "RecordLockResultForMultiLocks waitTagCaches cnt ret l = do {
     guard (lockEntry (m_waitingInfo l) = None \<and> wait_lockMode (m_waitingInfo l) = DSTORE_NO_LOCK);
     guard (ret = DSTORE_FAIL);
     l1 \<leftarrow> clear_waiting_loop 0 (take cnt waitTagCaches) l;
     Some (l1\<lparr>m_waitLocksLen := 0\<rparr>) }"

definition RecordWaitingForMultiLocks ::
    "(nat \<Rightarrow> bool) \<Rightarrow> LockTagCache list \<Rightarrow> LockMode \<Rightarrow> LockMgrType \<Rightarrow> ThreadLocalLock
     \<Rightarrow> ((LockErrorCode + unit) \<times> ThreadLocalLock) option" where
  "RecordWaitingForMultiLocks enter_ok waitTagCaches waitMode mgrType l = do {
     (failed, l1) \<leftarrow> record_waiting_locked enter_ok waitTagCaches waitMode mgrType l;
     case failed of
       None \<Rightarrow> Some (Inr (), l1)
     | Some lockedIndex \<Rightarrow> do {
         l2 \<leftarrow> RecordLockResultForMultiLocks waitTagCaches lockedIndex DSTORE_FAIL l1;
         Some (Inl LOCK_ERROR_OUT_OF_MEMORY, l2) } }"

definition BackupWaitingLock :: "ThreadLocalLock \<Rightarrow> ThreadLocalLock" where
  "BackupWaitingLock l =
     (if m_waitLocksLen l = 0
      then let (p, mode) = GetWaitingEntryForLock (m_backupWaitMode l) l in
        SetWaitingEntryForLock None DSTORE_NO_LOCK (l\<lparr>m_backupWaitLock := p, m_backupWaitMode := mode\<rparr>)
      else l\<lparr>m_backupWaitLocks := m_waitLocks l, m_backupWaitLocksLen := m_waitLocksLen l,
             m_waitLocks := replicate m_waitLockMaxCount None, m_waitLocksLen := 0\<rparr>)"

definition RestoreWaitingLock :: "ThreadLocalLock \<Rightarrow> ThreadLocalLock" where
  "RestoreWaitingLock l =
     (if m_backupWaitLocksLen l = 0
      then (SetWaitingEntryForLock (m_backupWaitLock l) (m_backupWaitMode l) l)
             \<lparr>m_backupWaitLock := None, m_backupWaitMode := DSTORE_NO_LOCK\<rparr>
      else l\<lparr>m_waitLocks := m_backupWaitLocks l, m_waitLocksLen := m_backupWaitLocksLen l,
             m_backupWaitLocks := replicate m_waitLockMaxCount None, m_backupWaitLocksLen := 0\<rparr>)"

subsection \<open>Visiting all entries\<close>

record HoldLockIterator =
  m_status :: "(LockTag \<times> LocalLockEntry) list"
  m_fastLockEntryIndex :: nat

definition HoldLockIterator_new :: "ThreadLocalLock \<Rightarrow> HoldLockIterator" where
  "HoldLockIterator_new l = \<lparr>m_status = m_holdLocks l, m_fastLockEntryIndex = 0\<rparr>"

text \<open>The inner loop of \<open>GetNextLock\<close>: the next slot in use.\<close>

function next_used_slot :: "ThreadLocalLock \<Rightarrow> nat \<Rightarrow> nat" where
  "next_used_slot l i =
     (if i < unat FAST_LOCK_ENTRY_MAP_MAX_SLOT \<and> IsInvalid (entry_tag (m_fastLockEntryMap l (of_nat i)))
      then next_used_slot l (Suc i) else i)"
  by pat_completeness auto
termination
  by (relation "measure (\<lambda>(l, i). unat FAST_LOCK_ENTRY_MAP_MAX_SLOT - i)") auto

declare next_used_slot.simps [simp del]

definition GetNextLock ::
    "ThreadLocalLock \<Rightarrow> HoldLockIterator \<Rightarrow> (LocalLockEntry \<times> HoldLockIterator) option" where
  "GetNextLock l it =
     (let i = (if m_fastLockEntryIndex it \<noteq> unat FAST_LOCK_ENTRY_MAP_MAX_SLOT
               then next_used_slot l (m_fastLockEntryIndex it) else m_fastLockEntryIndex it) in
      if i \<noteq> unat FAST_LOCK_ENTRY_MAP_MAX_SLOT
      then Some (m_fastLockEntryMap l (of_nat i), it\<lparr>m_fastLockEntryIndex := Suc i\<rparr>)
      else case m_status it of
        [] \<Rightarrow> None
      | (_, e) # rest \<Rightarrow> Some (e, it\<lparr>m_fastLockEntryIndex := i, m_status := rest\<rparr>))"

end
