(* ===== verification/Local_Lock_Inv.thy ===== *)
theory Local_Lock_Inv
  imports Local_Lock
begin

text \<open>
  The invariant of the locks of a thread and what the operations do to it. The slots and the
  hash table together are a map from tags to entries (\<open>lookup\<close>): every tag is in at most one
  place, because a free slot is used only while the hash table is empty.
\<close>

subsection \<open>Tags\<close>

definition built_tag :: "LockTag \<Rightarrow> bool" where
  "built_tag t \<longleftrightarrow> t \<in> range tag_of"

lemma tag_key_iff:
  assumes "built_tag s" and "built_tag t"
  shows "HashCompareFunc s t = 0 \<longleftrightarrow> s = t"
proof -
  obtain a b where ab: "s = tag_of a" "t = tag_of b" using assms by (auto simp: built_tag_def)
  show ?thesis unfolding ab by (cases a; cases b; simp add: tag_setter_defs tag_compare_simps)
qed

lemma built_tag_valid: "built_tag t \<Longrightarrow> \<not> IsInvalid t"
  unfolding built_tag_def
proof (elim rangeE)
  fix a assume "t = tag_of a"
  then show "\<not> IsInvalid t" by (cases a) (simp_all add: tag_setter_defs IsInvalid_def)
qed

lemma invalid_compare: "IsInvalid s \<Longrightarrow> built_tag t \<Longrightarrow> HashCompareFunc s t \<noteq> 0"
  using built_tag_valid [of t] by (auto simp: HashCompareFunc_def IsInvalid_def)

abbreviation slot_of :: "(LockTag \<Rightarrow> uint32) \<Rightarrow> LockTag \<Rightarrow> uint32" where
  "slot_of hash t \<equiv> hash t mod FAST_LOCK_ENTRY_MAP_MAX_SLOT"

definition used_slots :: "ThreadLocalLock \<Rightarrow> uint32 set" where
  "used_slots l = {i. \<not> IsInvalid (entry_tag (m_fastLockEntryMap l i))}"

definition fast_granted :: "LocalLockEntry \<Rightarrow> LockMode \<Rightarrow> bool" where
  "fast_granted e m \<longleftrightarrow> (grantedByFastPath e AND fast_path_bit m) \<noteq> 0"

definition entry_ok :: "LocalLockEntry \<Rightarrow> bool" where
  "entry_ok e \<longleftrightarrow>
     unat (grantedTotal e) = (\<Sum>m\<in>UNIV. unat (granted e m)) \<and>
     (\<forall>m. fast_granted e m \<longrightarrow> weak_mode m \<and> granted e m > 0)"

definition local_inv :: "(LockTag \<Rightarrow> uint32) \<Rightarrow> ThreadLocalLock \<Rightarrow> bool" where
  "local_inv hash l \<longleftrightarrow>
     distinct (map fst (m_holdLocks l)) \<and>
     length (m_holdLocks l) < 2 ^ 32 \<and>
     m_hashMapUseCnt l = of_nat (length (m_holdLocks l)) \<and>
     m_fastLockEntryMapUseCnt l = of_nat (card (used_slots l)) \<and>
     (\<forall>t e. map_of (m_holdLocks l) t = Some e \<longrightarrow> entry_tag e = t \<and> built_tag t \<and> entry_ok e \<and>
        entry_tag (m_fastLockEntryMap l (slot_of hash t)) \<noteq> t) \<and>
     (\<forall>i. \<not> IsInvalid (entry_tag (m_fastLockEntryMap l i)) \<longrightarrow>
        built_tag (entry_tag (m_fastLockEntryMap l i)) \<and>
        slot_of hash (entry_tag (m_fastLockEntryMap l i)) = i \<and> entry_ok (m_fastLockEntryMap l i))"

definition lookup :: "(LockTag \<Rightarrow> uint32) \<Rightarrow> ThreadLocalLock \<Rightarrow> LockTag \<Rightarrow> LocalLockEntry option" where
  "lookup hash l t = Option.bind (FindLock (LockTagCache_new hash t) l) (deref l)"

lemma local_invD:
  assumes "local_inv hash l"
  shows "distinct (map fst (m_holdLocks l))" and "length (m_holdLocks l) < 2 ^ 32"
    and "m_hashMapUseCnt l = of_nat (length (m_holdLocks l))"
    and "m_fastLockEntryMapUseCnt l = of_nat (card (used_slots l))"
    and "map_of (m_holdLocks l) t = Some e \<Longrightarrow> entry_tag e = t \<and> built_tag t \<and> entry_ok e \<and>
        entry_tag (m_fastLockEntryMap l (slot_of hash t)) \<noteq> t"
    and "\<not> IsInvalid (entry_tag (m_fastLockEntryMap l i)) \<Longrightarrow> built_tag (entry_tag (m_fastLockEntryMap l i)) \<and>
        slot_of hash (entry_tag (m_fastLockEntryMap l i)) = i \<and> entry_ok (m_fastLockEntryMap l i)"
  using assms unfolding local_inv_def by blast+

lemma local_invI:
  assumes "distinct (map fst (m_holdLocks l))" and "length (m_holdLocks l) < 2 ^ 32"
    and "m_hashMapUseCnt l = of_nat (length (m_holdLocks l))"
    and "m_fastLockEntryMapUseCnt l = of_nat (card (used_slots l))"
    and "\<And>t e. map_of (m_holdLocks l) t = Some e \<Longrightarrow> entry_tag e = t \<and> built_tag t \<and> entry_ok e \<and>
        entry_tag (m_fastLockEntryMap l (slot_of hash t)) \<noteq> t"
    and "\<And>i. \<not> IsInvalid (entry_tag (m_fastLockEntryMap l i)) \<Longrightarrow> built_tag (entry_tag (m_fastLockEntryMap l i)) \<and>
        slot_of hash (entry_tag (m_fastLockEntryMap l i)) = i \<and> entry_ok (m_fastLockEntryMap l i)"
  shows "local_inv hash l"
  using assms unfolding local_inv_def by blast

lemma slot_match:
  assumes "local_inv hash l" and "built_tag t"
  shows "HashCompareFunc (entry_tag (m_fastLockEntryMap l (slot_of hash t))) t = 0 \<longleftrightarrow>
    entry_tag (m_fastLockEntryMap l (slot_of hash t)) = t"
proof (cases "slot_of hash t \<in> used_slots l")
  case True
  then have "built_tag (entry_tag (m_fastLockEntryMap l (slot_of hash t)))"
    using local_invD(6) [OF assms(1)] by (simp add: used_slots_def)
  then show ?thesis using tag_key_iff assms(2) by blast
next
  case False
  then show ?thesis
    using invalid_compare [OF _ assms(2)] built_tag_valid [OF assms(2)] by (auto simp: used_slots_def)
qed

lemma FindLock_cases:
  assumes "local_inv hash l" and "built_tag t"
  shows "FindLock (LockTagCache_new hash t) l =
    (if entry_tag (m_fastLockEntryMap l (slot_of hash t)) = t then Some (Slot (slot_of hash t))
     else if map_of (m_holdLocks l) t \<noteq> None then Some (Node t) else None)"
  using slot_match [OF assms] by (auto simp: FindLock_def LockTagCache_new_def)

lemma lookup_cases:
  assumes "local_inv hash l" and "built_tag t"
  shows "lookup hash l t =
    (if entry_tag (m_fastLockEntryMap l (slot_of hash t)) = t then Some (m_fastLockEntryMap l (slot_of hash t))
     else map_of (m_holdLocks l) t)"
  unfolding lookup_def FindLock_cases [OF assms] by (auto simp: deref_def)

lemma lookup_SomeD:
  assumes "local_inv hash l" and "built_tag t" and "lookup hash l t = Some e"
  shows "entry_tag e = t" and "entry_ok e"
proof -
  have "entry_tag e = t \<and> entry_ok e"
  proof (cases "entry_tag (m_fastLockEntryMap l (slot_of hash t)) = t")
    case True
    then show ?thesis
      using assms(3) lookup_cases [OF assms(1,2)] local_invD(6) [OF assms(1), of "slot_of hash t"]
        built_tag_valid [OF assms(2)] by auto
  next
    case False
    then show ?thesis using assms(3) lookup_cases [OF assms(1,2)] local_invD(5) [OF assms(1)] by auto
  qed
  then show "entry_tag e = t" "entry_ok e" by auto
qed

lemma lookup_ptr:
  assumes "local_inv hash l" and "built_tag t" and "lookup hash l t = Some e"
  obtains p where "FindLock (LockTagCache_new hash t) l = Some p" and "deref l p = Some e"
  using assms(3) that by (auto simp: lookup_def bind_eq_Some_conv)

lemma FindLock_SomeD:
  assumes "local_inv hash l" and "built_tag t" and "FindLock (LockTagCache_new hash t) l = Some p"
  obtains e where "deref l p = Some e" and "lookup hash l t = Some e" "entry_tag e = t" "entry_ok e"
proof -
  have "\<exists>e. deref l p = Some e"
    using assms(3) FindLock_cases [OF assms(1,2)] by (auto simp: deref_def split: if_splits)
  then obtain e where "deref l p = Some e" "lookup hash l t = Some e" using assms(3) by (auto simp: lookup_def)
  then show ?thesis using lookup_SomeD [OF assms(1,2)] that by blast
qed

lemma FindLock_None: "FindLock (LockTagCache_new hash t) l = None \<Longrightarrow> lookup hash l t = None"
  by (simp add: lookup_def)

text \<open>Writing an entry back.\<close>

lemma store_simps [simp]:
  "m_holdLocks (store (Slot i) e l) = m_holdLocks l"
  "m_fastLockEntryMap (store (Slot i) e l) = (m_fastLockEntryMap l)(i := e)"
  "m_holdLocks (store (Node t) e l) = AList.update t e (m_holdLocks l)"
  "m_fastLockEntryMap (store (Node t) e l) = m_fastLockEntryMap l"
  "m_hashMapUseCnt (store p e l) = m_hashMapUseCnt l"
  "m_fastLockEntryMapUseCnt (store p e l) = m_fastLockEntryMapUseCnt l"
  by (simp_all add: store_def split: EntryPtr.splits)

lemma store_Slot:
  assumes inv: "local_inv hash l" and i: "entry_tag (m_fastLockEntryMap l i) = t" "built_tag t"
    and e: "entry_tag e = t" "entry_ok e"
  shows "local_inv hash (store (Slot i) e l)"
proof (rule local_invI)
  have tags: "entry_tag (((m_fastLockEntryMap l)(i := e)) j) = entry_tag (m_fastLockEntryMap l j)" for j
    using i e by simp
  then have "used_slots (store (Slot i) e l) = used_slots l" by (simp add: used_slots_def)
  then show "m_fastLockEntryMapUseCnt (store (Slot i) e l) = of_nat (card (used_slots (store (Slot i) e l)))"
    using local_invD(4) [OF inv] by simp
  show "entry_tag f = s \<and> built_tag s \<and> entry_ok f \<and>
      entry_tag (m_fastLockEntryMap (store (Slot i) e l) (slot_of hash s)) \<noteq> s"
    if "map_of (m_holdLocks (store (Slot i) e l)) s = Some f" for s f
    using local_invD(5) [OF inv, of s f] that unfolding store_simps tags by blast
  show "built_tag (entry_tag (m_fastLockEntryMap (store (Slot i) e l) j)) \<and>
      slot_of hash (entry_tag (m_fastLockEntryMap (store (Slot i) e l) j)) = j \<and>
      entry_ok (m_fastLockEntryMap (store (Slot i) e l) j)"
    if "\<not> IsInvalid (entry_tag (m_fastLockEntryMap (store (Slot i) e l) j))" for j
    using local_invD(6) [OF inv, of j] that e unfolding store_simps tags by simp
qed (use local_invD [OF inv] in simp_all)

lemma store_Node:
  assumes inv: "local_inv hash l" and t: "map_of (m_holdLocks l) t \<noteq> None"
    and e: "entry_tag e = t" "entry_ok e"
  shows "local_inv hash (store (Node t) e l)"
proof (rule local_invI)
  let ?l = "store (Node t) e l"
  have keys: "map fst (m_holdLocks ?l) = map fst (m_holdLocks l)"
    using t by (auto simp: update_keys map_of_eq_None_iff)
  then have len: "length (m_holdLocks ?l) = length (m_holdLocks l)" by (metis length_map)
  show "distinct (map fst (m_holdLocks ?l))" unfolding keys by (rule local_invD(1) [OF inv])
  show "length (m_holdLocks ?l) < 2 ^ 32" "m_hashMapUseCnt ?l = of_nat (length (m_holdLocks ?l))"
    using local_invD(2,3) [OF inv] unfolding len by simp_all
  show "m_fastLockEntryMapUseCnt ?l = of_nat (card (used_slots ?l))"
    using local_invD(4) [OF inv] by (simp add: used_slots_def)
  show "entry_tag f = s \<and> built_tag s \<and> entry_ok f \<and> entry_tag (m_fastLockEntryMap ?l (slot_of hash s)) \<noteq> s"
    if "map_of (m_holdLocks ?l) s = Some f" for s f
  proof (cases "s = t")
    case True
    obtain e0 where "map_of (m_holdLocks l) t = Some e0" using t by blast
    then have "built_tag t \<and> entry_tag (m_fastLockEntryMap l (slot_of hash t)) \<noteq> t"
      using local_invD(5) [OF inv] by blast
    moreover have "f = e" using that True by (simp add: update_conv')
    ultimately show ?thesis unfolding True store_simps using e by blast
  next
    case False
    then have "map_of (m_holdLocks l) s = Some f" using that by (simp add: update_conv')
    then show ?thesis unfolding store_simps by (rule local_invD(5) [OF inv])
  qed
  show "built_tag (entry_tag (m_fastLockEntryMap ?l j)) \<and> slot_of hash (entry_tag (m_fastLockEntryMap ?l j)) = j \<and>
      entry_ok (m_fastLockEntryMap ?l j)" if "\<not> IsInvalid (entry_tag (m_fastLockEntryMap ?l j))" for j
    using that local_invD(6) [OF inv, of j] by simp
qed

lemma FindLock_ptr:
  assumes "local_inv hash l" and "built_tag t" and "FindLock (LockTagCache_new hash t) l = Some p"
  obtains (slot) "p = Slot (slot_of hash t)" "entry_tag (m_fastLockEntryMap l (slot_of hash t)) = t"
  | (node) "p = Node t" "map_of (m_holdLocks l) t \<noteq> None" "entry_tag (m_fastLockEntryMap l (slot_of hash t)) \<noteq> t"
  using assms(3) that unfolding FindLock_cases [OF assms(1,2)] by (auto split: if_splits)

lemma store_spec:
  assumes inv: "local_inv hash l" and t: "built_tag t" and p: "FindLock (LockTagCache_new hash t) l = Some p"
    and e: "entry_tag e = t" "entry_ok e"
  shows store_inv: "local_inv hash (store p e l)"
    and store_find: "built_tag s \<Longrightarrow> FindLock (LockTagCache_new hash s) (store p e l) = FindLock (LockTagCache_new hash s) l"
    and store_lookup: "built_tag s \<Longrightarrow> lookup hash (store p e l) s = (if s = t then Some e else lookup hash l s)"
    and store_deref: "deref (store p e l) p = Some e"
proof -
  let ?l = "store p e l"
  show inv': "local_inv hash ?l"
    using inv t p
  proof (cases rule: FindLock_ptr)
    case slot
    show ?thesis unfolding slot(1) by (rule store_Slot [OF inv slot(2) t e])
  next
    case node
    show ?thesis unfolding node(1) by (rule store_Node [OF inv node(2) e])
  qed
  show "deref ?l p = Some e"
    using inv t p by (cases rule: FindLock_ptr) (simp_all add: deref_def update_conv' del: AList.update.simps)
  assume s: "built_tag s"
  note find = FindLock_cases [OF inv s] FindLock_cases [OF inv' s]
  note look = lookup_cases [OF inv s] lookup_cases [OF inv' s]
  show "FindLock (LockTagCache_new hash s) ?l = FindLock (LockTagCache_new hash s) l"
    using inv t p
  proof (cases rule: FindLock_ptr)
    case slot
    then have "entry_tag (m_fastLockEntryMap ?l i) = entry_tag (m_fastLockEntryMap l i)" for i using e by simp
    then show ?thesis unfolding find using slot by simp
  next
    case node
    then show ?thesis unfolding find by (cases "s = t") (simp_all add: update_conv')
  qed
  show "lookup hash ?l s = (if s = t then Some e else lookup hash l s)"
    using inv t p
  proof (cases rule: FindLock_ptr)
    case slot
    then have tags: "entry_tag (m_fastLockEntryMap ?l i) = entry_tag (m_fastLockEntryMap l i)" for i using e by simp
    show ?thesis
    proof (cases "s = t")
      case True
      then show ?thesis unfolding look(2) using slot e by simp
    next
      case False
      then have "m_fastLockEntryMap ?l (slot_of hash s) = m_fastLockEntryMap l (slot_of hash s)"
        if "entry_tag (m_fastLockEntryMap l (slot_of hash s)) = s"
        using that slot by (cases "slot_of hash s = slot_of hash t") simp_all
      then show ?thesis unfolding look tags using slot False by simp
    qed
  next
    case node
    then show ?thesis unfolding look by (simp add: update_conv')
  qed
qed


definition same_waits :: "ThreadLocalLock \<Rightarrow> ThreadLocalLock \<Rightarrow> bool" where
  "same_waits l l' \<longleftrightarrow> m_waitingInfo l' = m_waitingInfo l \<and> m_waitLocksLen l' = m_waitLocksLen l \<and>
     m_waitLocks l' = m_waitLocks l \<and> m_backupWaitLock l' = m_backupWaitLock l \<and>
     m_backupWaitMode l' = m_backupWaitMode l \<and> m_backupWaitLocksLen l' = m_backupWaitLocksLen l \<and>
     m_backupWaitLocks l' = m_backupWaitLocks l"

lemma same_waits_refl [simp]: "same_waits l l"
  by (simp add: same_waits_def)

lemma same_waits_store [simp]: "same_waits l (store p e l)"
  by (simp add: same_waits_def store_def split: EntryPtr.splits)

lemma same_waits_trans: "same_waits a b \<Longrightarrow> same_waits b c \<Longrightarrow> same_waits a c"
  by (simp add: same_waits_def)

definition room_local :: "ThreadLocalLock \<Rightarrow> bool" where
  "room_local l \<longleftrightarrow> length (m_holdLocks l) < 2 ^ 32 - 1"

lemma room_local_code [code]: "room_local l \<longleftrightarrow> int (length (m_holdLocks l)) < 4294967295"
  by (simp add: room_local_def nat_less_iff flip: zless_nat_eq_int_zless)

lemma entry_ok_Initialize [simp]: "entry_ok (LocalLockEntry_Initialize t mt)"
  by (simp add: entry_ok_def LocalLockEntry_Initialize_def fast_granted_def)

lemma LocalLockEntry_Initialize_simps [simp]:
  "entry_tag (LocalLockEntry_Initialize t mt) = t" "granted (LocalLockEntry_Initialize t mt) = (\<lambda>_. 0)"
  "grantedTotal (LocalLockEntry_Initialize t mt) = 0" "grantedByFastPath (LocalLockEntry_Initialize t mt) = 0"
  by (simp_all add: LocalLockEntry_Initialize_def)

text \<open>Adding an entry for a new tag to a free slot or to the hash table.\<close>

definition add_slot :: "(LockTag \<Rightarrow> uint32) \<Rightarrow> LockTag \<Rightarrow> LocalLockEntry \<Rightarrow> ThreadLocalLock \<Rightarrow> ThreadLocalLock" where
  "add_slot hash t e l = l\<lparr>m_fastLockEntryMap := (m_fastLockEntryMap l)(slot_of hash t := e),
     m_fastLockEntryMapUseCnt := m_fastLockEntryMapUseCnt l + 1\<rparr>"

definition add_node :: "LockTag \<Rightarrow> LocalLockEntry \<Rightarrow> ThreadLocalLock \<Rightarrow> ThreadLocalLock" where
  "add_node t e l = l\<lparr>m_holdLocks := m_holdLocks l @ [(t, e)], m_hashMapUseCnt := m_hashMapUseCnt l + 1\<rparr>"

lemma add_simps [simp]:
  "m_holdLocks (add_slot hash t e l) = m_holdLocks l"
  "m_fastLockEntryMap (add_slot hash t e l) = (m_fastLockEntryMap l)(slot_of hash t := e)"
  "m_hashMapUseCnt (add_slot hash t e l) = m_hashMapUseCnt l"
  "m_fastLockEntryMapUseCnt (add_slot hash t e l) = m_fastLockEntryMapUseCnt l + 1"
  "m_holdLocks (add_node t e l) = m_holdLocks l @ [(t, e)]"
  "m_fastLockEntryMap (add_node t e l) = m_fastLockEntryMap l"
  "m_hashMapUseCnt (add_node t e l) = m_hashMapUseCnt l + 1"
  "m_fastLockEntryMapUseCnt (add_node t e l) = m_fastLockEntryMapUseCnt l"
  "same_waits l (add_slot hash t e l)" "same_waits l (add_node t e l)"
  by (simp_all add: add_slot_def add_node_def same_waits_def)

lemma finite_used_slots: "finite (used_slots l)"
  by simp

lemma add_slot_inv:
  assumes inv: "local_inv hash l" and t: "built_tag t" and free: "IsInvalid (entry_tag (m_fastLockEntryMap l (slot_of hash t)))"
    and empty: "m_holdLocks l = []" and e: "entry_tag e = t" "entry_ok e"
  shows "local_inv hash (add_slot hash t e l)"
proof (rule local_invI)
  let ?l = "add_slot hash t e l"
  have used: "used_slots ?l = insert (slot_of hash t) (used_slots l)"
    using built_tag_valid [OF t] e by (auto simp: used_slots_def)
  have "slot_of hash t \<notin> used_slots l" using free by (simp add: used_slots_def)
  then have "card (used_slots ?l) = Suc (card (used_slots l))" unfolding used by simp
  then show "m_fastLockEntryMapUseCnt ?l = of_nat (card (used_slots ?l))"
    using local_invD(4) [OF inv] by simp
  show "built_tag (entry_tag (m_fastLockEntryMap ?l j)) \<and> slot_of hash (entry_tag (m_fastLockEntryMap ?l j)) = j \<and>
      entry_ok (m_fastLockEntryMap ?l j)" if "\<not> IsInvalid (entry_tag (m_fastLockEntryMap ?l j))" for j
    using that local_invD(6) [OF inv, of j] t e by (cases "j = slot_of hash t") simp_all
qed (use local_invD(3) [OF inv] empty in simp_all)

lemma add_node_inv:
  assumes inv: "local_inv hash l" and t: "built_tag t" and slot: "entry_tag (m_fastLockEntryMap l (slot_of hash t)) \<noteq> t"
    and new: "map_of (m_holdLocks l) t = None" and room: "room_local l" and e: "entry_tag e = t" "entry_ok e"
  shows "local_inv hash (add_node t e l)"
proof (rule local_invI)
  let ?l = "add_node t e l"
  show "distinct (map fst (m_holdLocks ?l))"
    using local_invD(1) [OF inv] new by (auto simp: map_of_eq_None_iff)
  show "length (m_holdLocks ?l) < 2 ^ 32" using room by (simp add: room_local_def)
  show "m_hashMapUseCnt ?l = of_nat (length (m_holdLocks ?l))" using local_invD(3) [OF inv] by simp
  show "m_fastLockEntryMapUseCnt ?l = of_nat (card (used_slots ?l))"
    using local_invD(4) [OF inv] by (simp add: used_slots_def)
  show "entry_tag f = s \<and> built_tag s \<and> entry_ok f \<and> entry_tag (m_fastLockEntryMap ?l (slot_of hash s)) \<noteq> s"
    if "map_of (m_holdLocks ?l) s = Some f" for s f
  proof (cases "map_of (m_holdLocks l) s = Some f")
    case True
    then show ?thesis unfolding add_simps by (rule local_invD(5) [OF inv])
  next
    case False
    then have "s = t \<and> f = e" using that new by (auto simp: map_add_def split: option.splits if_splits)
    then show ?thesis unfolding add_simps using t slot e by blast
  qed
  show "built_tag (entry_tag (m_fastLockEntryMap ?l j)) \<and> slot_of hash (entry_tag (m_fastLockEntryMap ?l j)) = j \<and>
      entry_ok (m_fastLockEntryMap ?l j)" if "\<not> IsInvalid (entry_tag (m_fastLockEntryMap ?l j))" for j
    using that unfolding add_simps by (rule local_invD(6) [OF inv])
qed

lemma add_slot_lookup:
  assumes inv: "local_inv hash l" and t: "built_tag t" and free: "IsInvalid (entry_tag (m_fastLockEntryMap l (slot_of hash t)))"
    and empty: "m_holdLocks l = []" and e: "entry_tag e = t" "entry_ok e" and s: "built_tag s"
  shows "FindLock (LockTagCache_new hash s) (add_slot hash t e l) =
      (if s = t then Some (Slot (slot_of hash t)) else FindLock (LockTagCache_new hash s) l)"
    and "lookup hash (add_slot hash t e l) s = (if s = t then Some e else lookup hash l s)"
proof -
  note inv' = add_slot_inv [OF inv t free empty e]
  let ?l = "add_slot hash t e l"
  consider (eq) "s = t"
    | (kept) "s \<noteq> t" "m_fastLockEntryMap ?l (slot_of hash s) = m_fastLockEntryMap l (slot_of hash s)"
    | (none) "s \<noteq> t" "entry_tag (m_fastLockEntryMap ?l (slot_of hash s)) \<noteq> s"
        "entry_tag (m_fastLockEntryMap l (slot_of hash s)) \<noteq> s"
    using free built_tag_valid [OF s] e by (cases "slot_of hash s = slot_of hash t"; cases "s = t") fastforce+
  then have "FindLock (LockTagCache_new hash s) ?l =
      (if s = t then Some (Slot (slot_of hash t)) else FindLock (LockTagCache_new hash s) l) \<and>
      lookup hash ?l s = (if s = t then Some e else lookup hash l s)"
  proof cases
    case eq
    then have "m_fastLockEntryMap ?l (slot_of hash s) = e" "entry_tag e = s" using e by simp_all
    then show ?thesis unfolding FindLock_cases [OF inv' s] lookup_cases [OF inv' s] using eq by simp
  next
    case kept
    show ?thesis
      unfolding FindLock_cases [OF inv s] FindLock_cases [OF inv' s] lookup_cases [OF inv s] lookup_cases [OF inv' s]
        kept(2) add_simps(1) empty using kept(1) by simp
  next
    case none
    then show ?thesis
      unfolding FindLock_cases [OF inv s] FindLock_cases [OF inv' s] lookup_cases [OF inv s] lookup_cases [OF inv' s]
        add_simps(1) empty by (simp del: add_simps)
  qed
  then show "FindLock (LockTagCache_new hash s) ?l =
      (if s = t then Some (Slot (slot_of hash t)) else FindLock (LockTagCache_new hash s) l)"
    "lookup hash ?l s = (if s = t then Some e else lookup hash l s)" by blast+
qed

lemma add_node_lookup:
  assumes inv: "local_inv hash l" and t: "built_tag t" and slot: "entry_tag (m_fastLockEntryMap l (slot_of hash t)) \<noteq> t"
    and new: "map_of (m_holdLocks l) t = None" and room: "room_local l" and e: "entry_tag e = t" "entry_ok e"
    and s: "built_tag s"
  shows "FindLock (LockTagCache_new hash s) (add_node t e l) =
      (if s = t then Some (Node t) else FindLock (LockTagCache_new hash s) l)"
    and "lookup hash (add_node t e l) s = (if s = t then Some e else lookup hash l s)"
proof -
  note inv' = add_node_inv [OF inv t slot new room e]
  have "map_of (m_holdLocks l @ [(t, e)]) s = (if s = t then Some e else map_of (m_holdLocks l) s)"
    using new by (auto simp: map_add_def split: option.splits)
  then show "FindLock (LockTagCache_new hash s) (add_node t e l) =
      (if s = t then Some (Node t) else FindLock (LockTagCache_new hash s) l)"
    "lookup hash (add_node t e l) s = (if s = t then Some e else lookup hash l s)"
    unfolding FindLock_cases [OF inv s] FindLock_cases [OF inv' s] lookup_cases [OF inv s] lookup_cases [OF inv' s]
      add_simps using slot by (cases "s = t"; simp)+
qed


lemma hash_empty_iff:
  assumes "local_inv hash l"
  shows "m_hashMapUseCnt l = 0 \<longleftrightarrow> m_holdLocks l = []"
  using local_invD(2,3) [OF assms] of_nat_word_eq_0_iff [of "length (m_holdLocks l)", where 'a=32] by simp

text \<open>The branches of \<open>CreateLock\<close>: a free slot is used only while the hash table is empty.\<close>

lemma CreateLock_eq:
  assumes inv: "local_inv hash l" and t: "built_tag t"
  shows "CreateLock ok (LockTagCache_new hash t) mt l =
    (let e = LocalLockEntry_Initialize t mt in
     if IsInvalid (entry_tag (m_fastLockEntryMap l (slot_of hash t))) \<and> m_holdLocks l = []
     then Some (Some (Slot (slot_of hash t)), add_slot hash t e l)
     else if FindLock (LockTagCache_new hash t) l \<noteq> None then Some (FindLock (LockTagCache_new hash t) l, l)
     else if ok then Some (Some (Node t), add_node t e l) else Some (None, l))"
proof -
  have cnt: "m_hashMapUseCnt l + 1 = of_nat (Suc (length (m_holdLocks l)))" using local_invD(3) [OF inv] by simp
  show ?thesis
    unfolding FindLock_cases [OF inv t]
    unfolding CreateLock_def LockTagCache_new_def Let_def hash_empty_iff [OF inv] LockTagCache.simps
      slot_match [OF inv t]
    using cnt by (auto simp: add_slot_def add_node_def guard_def split: option.splits)
qed

lemma CreateLock_spec:
  assumes inv: "local_inv hash l" and t: "built_tag t" and room: "room_local l"
  obtains (oom) "CreateLock ok (LockTagCache_new hash t) mt l = Some (None, l)" "\<not> ok" "lookup hash l t = None"
  | (found) p e where "CreateLock ok (LockTagCache_new hash t) mt l = Some (Some p, l)"
      "FindLock (LockTagCache_new hash t) l = Some p" "deref l p = Some e" "lookup hash l t = Some e"
  | (new) p l' where "CreateLock ok (LockTagCache_new hash t) mt l = Some (Some p, l')" "lookup hash l t = None"
      "local_inv hash l'" "same_waits l l'" "FindLock (LockTagCache_new hash t) l' = Some p"
      "deref l' p = Some (LocalLockEntry_Initialize t mt)"
      "\<And>s. built_tag s \<Longrightarrow> s \<noteq> t \<Longrightarrow> FindLock (LockTagCache_new hash s) l' = FindLock (LockTagCache_new hash s) l"
      "\<And>s. built_tag s \<Longrightarrow> lookup hash l' s = (if s = t then Some (LocalLockEntry_Initialize t mt) else lookup hash l s)"
proof -
  let ?i = "slot_of hash t" and ?e = "LocalLockEntry_Initialize t mt"
  note create = CreateLock_eq [OF inv t, of ok mt, unfolded Let_def]
  consider (slot) "IsInvalid (entry_tag (m_fastLockEntryMap l ?i))" "m_holdLocks l = []"
    | (found) p where "FindLock (LockTagCache_new hash t) l = Some p"
        "\<not> (IsInvalid (entry_tag (m_fastLockEntryMap l ?i)) \<and> m_holdLocks l = [])"
    | (none) "FindLock (LockTagCache_new hash t) l = None"
        "\<not> (IsInvalid (entry_tag (m_fastLockEntryMap l ?i)) \<and> m_holdLocks l = [])"
    by (cases "FindLock (LockTagCache_new hash t) l") auto
  then show ?thesis
  proof cases
    case slot
    then have create: "CreateLock ok (LockTagCache_new hash t) mt l = Some (Some (Slot ?i), add_slot hash t ?e l)"
      unfolding create by simp
    note add = add_slot_lookup [OF inv t slot, where e = ?e] and add_inv = add_slot_inv [OF inv t slot, of ?e]
    have "entry_tag (m_fastLockEntryMap l ?i) \<noteq> t" using slot(1) built_tag_valid [OF t] by metis
    then have none: "lookup hash l t = None" unfolding lookup_cases [OF inv t] slot(2) by simp
    show ?thesis
      by (rule that(3) [OF create none add_inv]) (simp_all add: add t deref_def)
  next
    case found
    then have "CreateLock ok (LockTagCache_new hash t) mt l = Some (Some p, l)" unfolding create by auto
    then show ?thesis using FindLock_SomeD [OF inv t found(1)] that(2) found(1) by blast
  next
    case none
    then have new: "entry_tag (m_fastLockEntryMap l ?i) \<noteq> t" "map_of (m_holdLocks l) t = None"
      unfolding FindLock_cases [OF inv t] by (auto split: if_splits)
    note look = FindLock_None [OF none(1)]
    show ?thesis
    proof (cases ok)
      case True
      then have create: "CreateLock ok (LockTagCache_new hash t) mt l = Some (Some (Node t), add_node t ?e l)"
        unfolding create using none by simp
      note add = add_node_lookup [OF inv t new room, where e = ?e] and add_inv = add_node_inv [OF inv t new room, of ?e]
      have "deref (add_node t ?e l) (Node t) = Some ?e" using new by (auto simp: deref_def map_add_def split: option.splits)
      then show ?thesis by (intro that(3) [OF create look add_inv]) (simp_all add: add t)
    next
      case False
      then show ?thesis using that(1) create none look by auto
    qed
  qed
qed

definition drop_slot :: "uint32 \<Rightarrow> ThreadLocalLock \<Rightarrow> ThreadLocalLock" where
  "drop_slot i l = l\<lparr>m_fastLockEntryMap := (m_fastLockEntryMap l)
       (i := (m_fastLockEntryMap l i)\<lparr>entry_tag := SetInvalid (entry_tag (m_fastLockEntryMap l i))\<rparr>),
     m_fastLockEntryMapUseCnt := m_fastLockEntryMapUseCnt l - 1\<rparr>"

definition drop_node :: "LockTag \<Rightarrow> ThreadLocalLock \<Rightarrow> ThreadLocalLock" where
  "drop_node t l = l\<lparr>m_holdLocks := AList.delete t (m_holdLocks l), m_hashMapUseCnt := m_hashMapUseCnt l - 1\<rparr>"

lemma drop_simps [simp]:
  "m_holdLocks (drop_slot i l) = m_holdLocks l"
  "m_fastLockEntryMap (drop_slot i l) = (m_fastLockEntryMap l)
       (i := (m_fastLockEntryMap l i)\<lparr>entry_tag := SetInvalid (entry_tag (m_fastLockEntryMap l i))\<rparr>)"
  "m_hashMapUseCnt (drop_slot i l) = m_hashMapUseCnt l"
  "m_fastLockEntryMapUseCnt (drop_slot i l) = m_fastLockEntryMapUseCnt l - 1"
  "m_holdLocks (drop_node t l) = AList.delete t (m_holdLocks l)"
  "m_fastLockEntryMap (drop_node t l) = m_fastLockEntryMap l"
  "m_hashMapUseCnt (drop_node t l) = m_hashMapUseCnt l - 1"
  "m_fastLockEntryMapUseCnt (drop_node t l) = m_fastLockEntryMapUseCnt l"
  "same_waits l (drop_slot i l)" "same_waits l (drop_node t l)"
  by (simp_all add: drop_slot_def drop_node_def same_waits_def)

lemma IsInvalid_SetInvalid [simp]: "IsInvalid (SetInvalid t)"
  by (simp add: IsInvalid_def SetInvalid_def)

lemma drop_slot_inv:
  assumes inv: "local_inv hash l" and used: "i \<in> used_slots l"
  shows "local_inv hash (drop_slot i l)"
proof (rule local_invI)
  let ?l = "drop_slot i l"
  have "used_slots ?l = used_slots l - {i}" by (auto simp: used_slots_def)
  moreover have "card (used_slots l) = Suc (card (used_slots l - {i}))"
    by (rule card.remove [OF _ used]) simp
  ultimately show "m_fastLockEntryMapUseCnt ?l = of_nat (card (used_slots ?l))"
    using local_invD(4) [OF inv] by simp
  show "entry_tag f = s \<and> built_tag s \<and> entry_ok f \<and> entry_tag (m_fastLockEntryMap ?l (slot_of hash s)) \<noteq> s"
    if "map_of (m_holdLocks ?l) s = Some f" for s f
  proof -
    have s: "entry_tag f = s \<and> built_tag s \<and> entry_ok f \<and> entry_tag (m_fastLockEntryMap l (slot_of hash s)) \<noteq> s"
      by (rule local_invD(5) [OF inv]) (use that in simp)
    then have "SetInvalid (entry_tag (m_fastLockEntryMap l i)) \<noteq> s"
      using built_tag_valid IsInvalid_SetInvalid by metis
    then have "entry_tag (m_fastLockEntryMap ?l (slot_of hash s)) \<noteq> s"
      using s by (cases "slot_of hash s = i") simp_all
    then show ?thesis using s by blast
  qed
  show "built_tag (entry_tag (m_fastLockEntryMap ?l j)) \<and> slot_of hash (entry_tag (m_fastLockEntryMap ?l j)) = j \<and>
      entry_ok (m_fastLockEntryMap ?l j)" if "\<not> IsInvalid (entry_tag (m_fastLockEntryMap ?l j))" for j
  proof -
    have "j \<noteq> i" using that by auto
    then have same: "m_fastLockEntryMap ?l j = m_fastLockEntryMap l j" by simp
    show ?thesis using that unfolding same by (rule local_invD(6) [OF inv])
  qed
qed (use local_invD(1-3) [OF inv] in simp_all)

lemma length_delete_key:
  assumes "distinct (map fst xs)" and "map_of xs k \<noteq> None"
  shows "Suc (length (AList.delete k xs)) = length xs"
proof -
  have "k \<in> set (map fst xs)" using assms(2) by (auto simp: map_of_eq_None_iff)
  then have "Suc (length (remove1 k (map fst xs))) = length (map fst xs)"
    using length_pos_if_in_set by (force simp: length_remove1)
  then have "Suc (length (map fst (AList.delete k xs))) = length (map fst xs)"
    unfolding delete_keys distinct_remove1_removeAll [OF assms(1)] .
  then show ?thesis by simp
qed

lemma drop_node_inv:
  assumes inv: "local_inv hash l" and old: "map_of (m_holdLocks l) t \<noteq> None"
  shows "local_inv hash (drop_node t l)"
    and "m_hashMapUseCnt l - 1 = of_nat (length (AList.delete t (m_holdLocks l)))"
proof -
  let ?l = "drop_node t l"
  note len = length_delete_key [OF local_invD(1) [OF inv] old]
  show cnt: "m_hashMapUseCnt l - 1 = of_nat (length (AList.delete t (m_holdLocks l)))"
    unfolding local_invD(3) [OF inv] by (simp flip: len)
  show "local_inv hash (drop_node t l)"
  proof (rule local_invI)
    show "distinct (map fst (m_holdLocks ?l))" using local_invD(1) [OF inv] by (simp add: distinct_delete)
    show "length (m_holdLocks ?l) < 2 ^ 32" using local_invD(2) [OF inv] len by simp
    show "m_fastLockEntryMapUseCnt ?l = of_nat (card (used_slots ?l))"
      using local_invD(4) [OF inv] by (simp add: used_slots_def)
    show "entry_tag f = s \<and> built_tag s \<and> entry_ok f \<and> entry_tag (m_fastLockEntryMap ?l (slot_of hash s)) \<noteq> s"
      if "map_of (m_holdLocks ?l) s = Some f" for s f
      unfolding drop_simps by (rule local_invD(5) [OF inv]) (use that in \<open>simp add: delete_conv' split: if_splits\<close>)
    show "built_tag (entry_tag (m_fastLockEntryMap ?l j)) \<and> slot_of hash (entry_tag (m_fastLockEntryMap ?l j)) = j \<and>
        entry_ok (m_fastLockEntryMap ?l j)" if "\<not> IsInvalid (entry_tag (m_fastLockEntryMap ?l j))" for j
      using that unfolding drop_simps by (rule local_invD(6) [OF inv])
  qed (simp add: cnt)
qed

lemma drop_slot_lookup:
  assumes inv: "local_inv hash l" and t: "built_tag t" and at: "entry_tag (m_fastLockEntryMap l (slot_of hash t)) = t"
    and s: "built_tag s"
  shows "FindLock (LockTagCache_new hash s) (drop_slot (slot_of hash t) l) =
      (if s = t then None else FindLock (LockTagCache_new hash s) l)"
    and "lookup hash (drop_slot (slot_of hash t) l) s = (if s = t then None else lookup hash l s)"
proof -
  let ?l = "drop_slot (slot_of hash t) l"
  have "slot_of hash t \<in> used_slots l" using at built_tag_valid [OF t] by (simp add: used_slots_def)
  note inv' = drop_slot_inv [OF inv this]
  note cases = FindLock_cases [OF inv s] FindLock_cases [OF inv' s] lookup_cases [OF inv s] lookup_cases [OF inv' s]
  have free: "map_of (m_holdLocks l) t = None" using local_invD(5) [OF inv, of t] at by fastforce
  have gone: "SetInvalid u \<noteq> s" for u using built_tag_valid [OF s] IsInvalid_SetInvalid by metis
  consider (kept) "slot_of hash s \<noteq> slot_of hash t" | (eq) "s = t"
    | (other) "slot_of hash s = slot_of hash t" "entry_tag (m_fastLockEntryMap l (slot_of hash s)) \<noteq> s" "s \<noteq> t"
    using at by fastforce
  then have "FindLock (LockTagCache_new hash s) ?l = (if s = t then None else FindLock (LockTagCache_new hash s) l) \<and>
      lookup hash ?l s = (if s = t then None else lookup hash l s)"
  proof cases
    case kept
    moreover from kept have "s \<noteq> t" by blast
    ultimately show ?thesis unfolding cases by simp
  next
    case eq
    then show ?thesis unfolding cases using free gone by simp
  next
    case other
    then show ?thesis unfolding cases using gone by simp
  qed
  then show "FindLock (LockTagCache_new hash s) ?l = (if s = t then None else FindLock (LockTagCache_new hash s) l)"
    "lookup hash ?l s = (if s = t then None else lookup hash l s)" by blast+
qed

lemma drop_node_lookup:
  assumes inv: "local_inv hash l" and at: "map_of (m_holdLocks l) t \<noteq> None"
    "entry_tag (m_fastLockEntryMap l (slot_of hash t)) \<noteq> t" and s: "built_tag s"
  shows "FindLock (LockTagCache_new hash s) (drop_node t l) = (if s = t then None else FindLock (LockTagCache_new hash s) l)"
    and "lookup hash (drop_node t l) s = (if s = t then None else lookup hash l s)"
  unfolding FindLock_cases [OF inv s] FindLock_cases [OF drop_node_inv(1) [OF inv at(1)] s]
    lookup_cases [OF inv s] lookup_cases [OF drop_node_inv(1) [OF inv at(1)] s] drop_simps delete_conv'
  using at(2) by (cases "s = t"; simp)+

lemma ClearLock_spec:
  assumes inv: "local_inv hash l" and t: "built_tag t" and p: "FindLock (LockTagCache_new hash t) l = Some p"
    and e: "deref l p = Some e"
  obtains (kept) "ClearLock p (hash t) l = Some l" "grantedTotal e \<noteq> 0 \<or> m_backupWaitLock l = Some p"
  | (gone) l' where "ClearLock p (hash t) l = Some l'" "grantedTotal e = 0" "m_backupWaitLock l \<noteq> Some p"
      "local_inv hash l'" "same_waits l l'"
      "\<And>s. built_tag s \<Longrightarrow> FindLock (LockTagCache_new hash s) l' = (if s = t then None else FindLock (LockTagCache_new hash s) l)"
      "\<And>s. built_tag s \<Longrightarrow> lookup hash l' s = (if s = t then None else lookup hash l s)"
proof (cases "grantedTotal e \<noteq> 0 \<or> m_backupWaitLock l = Some p")
  case True
  then show ?thesis using that(1) e by (auto simp: ClearLock_def LocalLockEntry_IsEmpty_def IsClearable_def)
next
  case False
  have tag: "entry_tag e = t" using FindLock_SomeD [OF inv t p] e by auto
  have clear: "ClearLock p (hash t) l =
      (if entry_tag (m_fastLockEntryMap l (slot_of hash t)) = t then Some (drop_slot (slot_of hash t) l)
       else do { guard (map_of (m_holdLocks l) t \<noteq> None);
         guard (m_hashMapUseCnt l - 1 = of_nat (length (AList.delete t (m_holdLocks l)))); Some (drop_node t l) })"
    using False e tag slot_match [OF inv t]
    by (simp add: ClearLock_def LocalLockEntry_IsEmpty_def IsClearable_def Let_def drop_slot_def drop_node_def)
  show ?thesis
    using inv t p
  proof (cases rule: FindLock_ptr)
    case slot
    have "slot_of hash t \<in> used_slots l" using slot(2) built_tag_valid [OF t] by (simp add: used_slots_def)
    then show ?thesis
      using that(2) [of "drop_slot (slot_of hash t) l"] clear slot(2) False drop_slot_inv [OF inv]
        drop_slot_lookup [OF inv t slot(2)] by simp
  next
    case node
    then show ?thesis
      using that(2) [of "drop_node t l"] clear False drop_node_inv [OF inv node(2)]
        drop_node_lookup [OF inv node(2,3)] by (simp add: guard_def)
  qed
qed



subsection \<open>Entries\<close>

lemma fast_granted_bit: "fast_granted e m \<longleftrightarrow> bit (grantedByFastPath e) (lock_mode_code m)"
  by (simp only: fast_granted_def fast_path_bit_def and_single_bit_iff)

lemma weak_mode_code: "weak_mode m \<Longrightarrow> lock_mode_code m < 8"
  by (simp add: weak_mode_def less_LockMode_def)

lemma SetGrantedByFastPath_spec:
  assumes "weak_mode m" and "\<not> fast_granted e m"
  obtains e' where "SetGrantedByFastPath m e = Some e'" "\<And>k. fast_granted e' k \<longleftrightarrow> k = m \<or> fast_granted e k"
    "entry_tag e' = entry_tag e" "granted e' = granted e" "grantedTotal e' = grantedTotal e"
proof -
  let ?e = "e\<lparr>grantedByFastPath := grantedByFastPath e OR fast_path_bit m\<rparr>"
  have set: "SetGrantedByFastPath m e = Some ?e"
    using assms by (simp add: SetGrantedByFastPath_def fast_granted_def)
  have sel: "grantedByFastPath ?e = grantedByFastPath e OR fast_path_bit m" by simp
  have "fast_granted ?e k \<longleftrightarrow> k = m \<or> fast_granted e k" for k
    using weak_mode_code [OF assms(1)] unfolding fast_granted_bit sel unfolding fast_path_bit_def bit_or_single by auto
  then show ?thesis using that [OF set] by simp
qed

lemma ClearGrantedByFastPath_spec:
  assumes "weak_mode m" and "fast_granted e m"
  obtains e' where "ClearGrantedByFastPath m e = Some e'" "\<And>k. fast_granted e' k \<longleftrightarrow> k \<noteq> m \<and> fast_granted e k"
    "entry_tag e' = entry_tag e" "granted e' = granted e" "grantedTotal e' = grantedTotal e"
proof -
  let ?e = "e\<lparr>grantedByFastPath := grantedByFastPath e AND NOT (fast_path_bit m)\<rparr>"
  have set: "ClearGrantedByFastPath m e = Some ?e"
    using assms by (simp add: ClearGrantedByFastPath_def fast_granted_def)
  have sel: "grantedByFastPath ?e = grantedByFastPath e AND NOT (fast_path_bit m)" by simp
  have "fast_granted ?e k \<longleftrightarrow> k \<noteq> m \<and> fast_granted e k" for k
    unfolding fast_granted_bit sel unfolding fast_path_bit_def bit_and_not_single by auto
  then show ?thesis using that [OF set] by simp
qed

lemma IsGrantedByFastPath_eq: "weak_mode m \<Longrightarrow> IsGrantedByFastPath m e = Some (fast_granted e m)"
  by (simp add: IsGrantedByFastPath_def fast_granted_def)

lemma sum_granted_upd:
  fixes g :: "LockMode \<Rightarrow> uint32"
  shows "(\<Sum>k\<in>UNIV. unat ((g(m := v)) k)) + unat (g m) = (\<Sum>k\<in>UNIV. unat (g k)) + unat v"
proof -
  have "(\<Sum>k\<in>UNIV. unat ((g(m := v)) k)) = unat v + (\<Sum>k\<in>UNIV - {m}. unat (g k))"
    by (subst sum.remove [of _ m]) auto
  moreover have "(\<Sum>k\<in>UNIV. unat (g k)) = unat (g m) + (\<Sum>k\<in>UNIV - {m}. unat (g k))"
    by (subst sum.remove [of _ m]) auto
  ultimately show ?thesis by simp
qed

lemma granted_le_total: "entry_ok e \<Longrightarrow> granted e m \<le> grantedTotal e"
  using member_le_sum [of m UNIV "\<lambda>k. unat (granted e k)"] by (simp add: entry_ok_def word_le_nat_alt)

text \<open>The counts of an entry do not wrap around.\<close>

definition entry_room :: "LocalLockEntry \<Rightarrow> bool" where
  "entry_room e \<longleftrightarrow> grantedTotal e \<noteq> - 1"

lemma unat_plus_1: "w \<noteq> - 1 \<Longrightarrow> unat (w + 1) = Suc (unat w)" for w :: uint32
  using unatSuc [of w] by (simp add: add_eq_0_iff add.commute)

lemma GrantLock_simps [simp]:
  "entry_tag (GrantLock m e) = entry_tag e" "granted (GrantLock m e) = (granted e)(m := granted e m + 1)"
  "grantedTotal (GrantLock m e) = grantedTotal e + 1" "fast_granted (GrantLock m e) k = fast_granted e k"
  by (simp_all add: GrantLock_def fast_granted_def)

lemma UnGrantLock_simps [simp]:
  "entry_tag (UnGrantLock m e) = entry_tag e" "granted (UnGrantLock m e) = (granted e)(m := granted e m - 1)"
  "grantedTotal (UnGrantLock m e) = grantedTotal e - 1" "fast_granted (UnGrantLock m e) k = fast_granted e k"
  by (simp_all add: UnGrantLock_def fast_granted_def)

lemma grant_no_wrap:
  assumes "entry_ok e" and "entry_room e"
  shows "granted e m \<noteq> - 1"
  using granted_le_total [OF assms(1), of m] assms(2) by (metis entry_room_def word_order.extremum_unique)

lemma entry_ok_GrantLock:
  assumes "entry_ok e" and "entry_room e"
  shows "entry_ok (GrantLock m e)"
proof -
  have "granted e m + 1 \<noteq> 0" using grant_no_wrap [OF assms, of m] by (simp add: add_eq_0_iff2)
  then have "granted e m + 1 > 0" by (simp add: word_gt_0)
  moreover have "unat (grantedTotal e + 1) = (\<Sum>k\<in>UNIV. unat (granted (GrantLock m e) k))"
  proof -
    have tot: "unat (grantedTotal e + 1) = Suc (\<Sum>k\<in>UNIV. unat (granted e k))"
      using assms unat_plus_1 [of "grantedTotal e"] unfolding entry_ok_def entry_room_def by metis
    show ?thesis
      using sum_granted_upd [of "granted e" m "granted e m + 1"] unfolding tot GrantLock_simps
        unat_plus_1 [OF grant_no_wrap [OF assms]] by linarith
  qed
  ultimately show ?thesis using assms(1) unfolding entry_ok_def GrantLock_simps by simp
qed

text \<open>Taking \<open>n\<close> locks off an entry.\<close>

definition ungrant :: "LockMode \<Rightarrow> uint32 \<Rightarrow> LocalLockEntry \<Rightarrow> LocalLockEntry" where
  "ungrant m n e = e\<lparr>granted := (granted e)(m := granted e m - n), grantedTotal := grantedTotal e - n\<rparr>"

lemma ungrant_simps [simp]:
  "entry_tag (ungrant m n e) = entry_tag e" "granted (ungrant m n e) = (granted e)(m := granted e m - n)"
  "grantedTotal (ungrant m n e) = grantedTotal e - n" "fast_granted (ungrant m n e) k = fast_granted e k"
  by (simp_all add: ungrant_def fast_granted_def)

lemma fast_granted_counts [simp]:
  "fast_granted (e\<lparr>granted := g, grantedTotal := n\<rparr>) = fast_granted e" "fast_granted (ungrant m k e) = fast_granted e"
  by (simp_all add: fun_eq_iff fast_granted_def ungrant_def)

lemma UnGrantLock_ungrant: "UnGrantLock m e = ungrant m 1 e"
  by (simp add: UnGrantLock_def ungrant_def)

lemma entry_ok_ungrant:
  assumes ok: "unat (grantedTotal e) = (\<Sum>m\<in>UNIV. unat (granted e m))" and n: "n \<le> granted e m"
    and fast: "\<And>k. fast_granted e k \<Longrightarrow> weak_mode k \<and> granted e k > 0 \<and> (k = m \<longrightarrow> n < granted e m)"
  shows "entry_ok (ungrant m n e)"
proof -
  have "unat (granted e m) \<le> unat (grantedTotal e)"
    unfolding ok by (rule member_le_sum) auto
  then have "n \<le> grantedTotal e" using n by (simp add: word_le_nat_alt)
  then have "unat (grantedTotal e - n) = (\<Sum>k\<in>UNIV. unat (granted (ungrant m n e) k))"
    using sum_granted_upd [of "granted e" m "granted e m - n"] ok n
    by (simp add: unat_sub word_le_nat_alt)
  moreover have "granted e m - n > 0" if "n < granted e m" using that by (simp add: word_gt_0)
  ultimately show ?thesis using fast unfolding entry_ok_def by auto
qed


subsection \<open>What a thread holds\<close>

definition hold_cnt :: "(LockTag \<Rightarrow> uint32) \<Rightarrow> ThreadLocalLock \<Rightarrow> LockTag \<Rightarrow> LockMode \<Rightarrow> uint32" where
  "hold_cnt hash l t = (if built_tag t then GetHoldLockCnt (LockTagCache_new hash t) l else (\<lambda>_. 0))"

definition hold_fast :: "(LockTag \<Rightarrow> uint32) \<Rightarrow> ThreadLocalLock \<Rightarrow> LockTag \<Rightarrow> LockMode \<Rightarrow> bool" where
  "hold_fast hash l t =
     (if built_tag t then case lookup hash l t of None \<Rightarrow> (\<lambda>_. False) | Some e \<Rightarrow> fast_granted e else (\<lambda>_. False))"

lemma hold_cnt_lookup:
  "built_tag t \<Longrightarrow> hold_cnt hash l t = (case lookup hash l t of None \<Rightarrow> (\<lambda>_. 0) | Some e \<Rightarrow> granted e)"
  by (simp add: hold_cnt_def GetHoldLockCnt_def lookup_def)

definition waits_for_lock :: "(LockTag \<Rightarrow> uint32) \<Rightarrow> ThreadLocalLock \<Rightarrow> LockTag \<Rightarrow> LockMode \<Rightarrow> bool" where
  "waits_for_lock hash l t m \<longleftrightarrow>
     (\<exists>p. lockEntry (m_waitingInfo l) = Some p \<and> FindLock (LockTagCache_new hash t) l = Some p \<and>
       wait_lockMode (m_waitingInfo l) = m)"

definition waits_for_unlock :: "(LockTag \<Rightarrow> uint32) \<Rightarrow> ThreadLocalLock \<Rightarrow> LockTag \<Rightarrow> bool" where
  "waits_for_unlock hash l t \<longleftrightarrow>
     (\<exists>p. unlockEntry (m_waitingInfo l) = Some p \<and> FindLock (LockTagCache_new hash t) l = Some p)"

text \<open>Changing what the thread waits for does not touch the entries.\<close>

lemma waitingInfo_update:
  "local_inv hash (l\<lparr>m_waitingInfo := w\<rparr>) = local_inv hash l"
  "FindLock c (l\<lparr>m_waitingInfo := w\<rparr>) = FindLock c l"
  "deref (l\<lparr>m_waitingInfo := w\<rparr>) = deref l"
  "lookup hash (l\<lparr>m_waitingInfo := w\<rparr>) = lookup hash l"
  "hold_cnt hash (l\<lparr>m_waitingInfo := w\<rparr>) = hold_cnt hash l"
  "hold_fast hash (l\<lparr>m_waitingInfo := w\<rparr>) = hold_fast hash l"
  "room_local (l\<lparr>m_waitingInfo := w\<rparr>) = room_local l"
proof -
  show inv: "local_inv hash (l\<lparr>m_waitingInfo := w\<rparr>) = local_inv hash l" by (simp add: local_inv_def used_slots_def)
  show find: "FindLock c (l\<lparr>m_waitingInfo := w\<rparr>) = FindLock c l" for c by (simp add: FindLock_def Let_def)
  show deref: "deref (l\<lparr>m_waitingInfo := w\<rparr>) = deref l" by (simp add: fun_eq_iff deref_def split: EntryPtr.splits)
  show look: "lookup hash (l\<lparr>m_waitingInfo := w\<rparr>) = lookup hash l" by (simp add: fun_eq_iff lookup_def find deref)
  show "hold_cnt hash (l\<lparr>m_waitingInfo := w\<rparr>) = hold_cnt hash l"
    by (simp add: fun_eq_iff hold_cnt_def GetHoldLockCnt_def find deref)
  show "hold_fast hash (l\<lparr>m_waitingInfo := w\<rparr>) = hold_fast hash l" by (simp add: fun_eq_iff hold_fast_def look)
  show "room_local (l\<lparr>m_waitingInfo := w\<rparr>) = room_local l" by (simp add: room_local_def)
qed

lemmas waiting_updates [simp] = waitingInfo_update

lemmas waiting_setters = SetLockScannedForRecovery_def SetWaitingEntryForLock_def SetWaitingEntryForUnlock_def
  GetWaitingEntryForLock_def GetWaitingEntryForUnlock_def GetLockScannedByRecovery_def

lemma hold_upd:
  assumes "built_tag t"
    and "\<And>s. built_tag s \<Longrightarrow> lookup hash l' s = (if s = t then r else lookup hash l s)"
  shows "hold_cnt hash l' = (hold_cnt hash l)(t := (case r of None \<Rightarrow> (\<lambda>_. 0) | Some e \<Rightarrow> granted e))"
    and "hold_fast hash l' = (hold_fast hash l)(t := (case r of None \<Rightarrow> (\<lambda>_. False) | Some e \<Rightarrow> fast_granted e))"
proof -
  have "hold_cnt hash l' s = ((hold_cnt hash l)(t := (case r of None \<Rightarrow> (\<lambda>_. 0) | Some e \<Rightarrow> granted e))) s \<and>
      hold_fast hash l' s = ((hold_fast hash l)(t := (case r of None \<Rightarrow> (\<lambda>_. False) | Some e \<Rightarrow> fast_granted e))) s" for s
  proof (cases "built_tag s")
    case True
    then show ?thesis using assms(2) [OF True] by (simp add: hold_cnt_lookup hold_fast_def)
  next
    case False
    then show ?thesis using assms(1) by (auto simp: hold_cnt_def hold_fast_def)
  qed
  then show "hold_cnt hash l' = (hold_cnt hash l)(t := (case r of None \<Rightarrow> (\<lambda>_. 0) | Some e \<Rightarrow> granted e))"
    "hold_fast hash l' = (hold_fast hash l)(t := (case r of None \<Rightarrow> (\<lambda>_. False) | Some e \<Rightarrow> fast_granted e))"
    by (simp_all add: fun_eq_iff)
qed

lemma hold_fastD:
  assumes "local_inv hash l" and "hold_fast hash l t m"
  shows "weak_mode m" and "hold_cnt hash l t m > 0" and "built_tag t"
proof -
  show t: "built_tag t" using assms(2) by (auto simp: hold_fast_def split: if_splits)
  obtain e where e: "lookup hash l t = Some e" "fast_granted e m"
    using assms(2) t by (auto simp: hold_fast_def split: option.splits)
  then have "entry_ok e" using lookup_SomeD [OF assms(1) t] by blast
  then show "weak_mode m" "hold_cnt hash l t m > 0"
    using e t by (auto simp: entry_ok_def hold_cnt_lookup)
qed

text \<open>The thread can take the lock once more.\<close>

definition grant_room :: "(LockTag \<Rightarrow> uint32) \<Rightarrow> ThreadLocalLock \<Rightarrow> LockTag \<Rightarrow> bool" where
  "grant_room hash l t \<longleftrightarrow> room_local l \<and> (case lookup hash l t of None \<Rightarrow> True | Some e \<Rightarrow> entry_room e)"

text \<open>The effect of \<open>CreateLock\<close> on what is held: none; afterwards there is an entry for the tag.\<close>

lemma CreateLock_holds:
  assumes inv: "local_inv hash l" and t: "built_tag t" and room: "grant_room hash l t"
  obtains (oom) "CreateLock ok (LockTagCache_new hash t) mt l = Some (None, l)" "\<not> ok" "lookup hash l t = None"
  | (entry) p e l' where "CreateLock ok (LockTagCache_new hash t) mt l = Some (Some p, l')"
      "local_inv hash l'" "same_waits l l'" "FindLock (LockTagCache_new hash t) l' = Some p"
      "deref l' p = Some e" "lookup hash l' t = Some e" "entry_tag e = t" "entry_ok e" "entry_room e"
      "hold_cnt hash l' = hold_cnt hash l" "hold_fast hash l' = hold_fast hash l"
      "granted e = hold_cnt hash l t" "fast_granted e = hold_fast hash l t"
proof -
  have "room_local l" using room by (simp add: grant_room_def)
  show ?thesis
    using inv t \<open>room_local l\<close>
  proof (cases rule: CreateLock_spec [where ok = ok and mt = mt])
    case oom
    then show ?thesis by (rule that(1))
  next
    case (found p e)
    then show ?thesis
      using that(2) [OF found(1) inv same_waits_refl found(2-4)] lookup_SomeD [OF inv t found(4)] room t
      by (simp add: grant_room_def hold_cnt_lookup hold_fast_def)
  next
    case (new p l')
    let ?e = "LocalLockEntry_Initialize t mt"
    have zero: "granted ?e = hold_cnt hash l t" "fast_granted ?e = hold_fast hash l t"
      using new(2) t by (simp_all add: hold_cnt_lookup hold_fast_def fun_eq_iff fast_granted_def)
    then have "hold_cnt hash l' = hold_cnt hash l" "hold_fast hash l' = hold_fast hash l"
      using hold_upd [OF t new(8)] by simp_all
    moreover have "lookup hash l' t = Some ?e" using new(8) [OF t] by simp
    ultimately show ?thesis
      using that(2) [OF new(1,3,4,5,6)] zero by (simp add: entry_room_def)
  qed
qed


subsection \<open>The operations\<close>

lemma store_holds:
  assumes inv: "local_inv hash l" and t: "built_tag t" and p: "FindLock (LockTagCache_new hash t) l = Some p"
    and e: "entry_tag e = t" "entry_ok e"
  shows "hold_cnt hash (store p e l) = (hold_cnt hash l)(t := granted e)"
    and "hold_fast hash (store p e l) = (hold_fast hash l)(t := fast_granted e)"
  using hold_upd [OF t store_lookup [OF inv t p e]] by simp_all

lemma same_waitsD:
  "same_waits l l' \<Longrightarrow> m_waitingInfo l' = m_waitingInfo l" "same_waits l l' \<Longrightarrow> m_backupWaitLock l' = m_backupWaitLock l"
  by (simp_all add: same_waits_def)

lemma store_waits [simp]:
  "m_waitingInfo (store p e l) = m_waitingInfo l" "m_backupWaitLock (store p e l) = m_backupWaitLock l"
  using same_waitsD [OF same_waits_store] by auto

text \<open>
  What an operation leaves: the invariant, the backup of the waiting lock, and no mark of the
  recovery.
\<close>

definition keeps :: "(LockTag \<Rightarrow> uint32) \<Rightarrow> ThreadLocalLock \<Rightarrow> ThreadLocalLock \<Rightarrow> bool" where
  "keeps hash l l' \<longleftrightarrow> local_inv hash l' \<and> m_backupWaitLock l' = m_backupWaitLock l \<and>
     \<not> lockScanned (m_waitingInfo l')"

abbreviation raise :: "('t \<Rightarrow> 'm \<Rightarrow> 'n) \<Rightarrow> 't \<Rightarrow> 'm \<Rightarrow> 'n \<Rightarrow> 't \<Rightarrow> 'm \<Rightarrow> 'n" where
  "raise f t m v \<equiv> f(t := (f t)(m := v))"

lemma GrantIfAlreadyHold_spec:
  assumes inv: "local_inv hash l" and t: "built_tag t" and room: "grant_room hash l t"
  obtains (oom) l' where "GrantIfAlreadyHold ok (LockTagCache_new hash t) m mt l = Some (Inl LOCK_ERROR_OUT_OF_MEMORY, l')"
      "\<not> ok" "keeps hash l l'" "hold_cnt hash l' = hold_cnt hash l" "hold_fast hash l' = hold_fast hash l"
  | (again) l' where "GrantIfAlreadyHold ok (LockTagCache_new hash t) m mt l = Some (Inr (), l')"
      "hold_cnt hash l t m > 0" "keeps hash l l'" "hold_fast hash l' = hold_fast hash l"
      "hold_cnt hash l' = raise (hold_cnt hash l) t m (hold_cnt hash l t m + 1)" "hold_cnt hash l t m \<noteq> - 1"
  | (wait) l' where "GrantIfAlreadyHold ok (LockTagCache_new hash t) m mt l = Some (Inl LOCK_INFO_NOT_AVAIL, l')"
      "hold_cnt hash l t m = 0" "keeps hash l l'" "hold_cnt hash l' = hold_cnt hash l"
      "hold_fast hash l' = hold_fast hash l" "waits_for_lock hash l' t m"
proof -
  let ?l = "SetLockScannedForRecovery False l"
  have l: "local_inv hash ?l" "grant_room hash ?l t" "hold_cnt hash ?l = hold_cnt hash l"
      "hold_fast hash ?l = hold_fast hash l" "m_backupWaitLock ?l = m_backupWaitLock l"
      "\<not> lockScanned (m_waitingInfo ?l)"
    using inv room by (simp_all add: SetLockScannedForRecovery_def grant_room_def)
  show ?thesis
    using l(1) t l(2)
  proof (cases rule: CreateLock_holds [where ok = ok and mt = mt])
    case oom
    then show ?thesis using that(1) [of ?l] l by (simp add: GrantIfAlreadyHold_def keeps_def)
  next
    case (entry p e l')
    note waits = same_waitsD [OF entry(3)]
    show ?thesis
    proof (cases "granted e m > 0")
      case True
      let ?l' = "store p (GrantLock m e) l'"
      have e: "entry_tag (GrantLock m e) = t" "entry_ok (GrantLock m e)"
        using entry entry_ok_GrantLock by simp_all
      have "GrantIfAlreadyHold ok (LockTagCache_new hash t) m mt l = Some (Inr (), ?l')"
        using entry True by (simp add: GrantIfAlreadyHold_def)
      then show ?thesis
        using that(2) [of ?l'] store_holds [OF entry(2) t entry(4) e] store_inv [OF entry(2) t entry(4) e]
          entry True l waits grant_no_wrap [OF entry(8,9), of m] by (simp add: keeps_def fun_eq_iff)
    next
      case False
      let ?l' = "SetWaitingEntryForLock (Some p) m l'"
      have "GrantIfAlreadyHold ok (LockTagCache_new hash t) m mt l = Some (Inl LOCK_INFO_NOT_AVAIL, ?l')"
        using entry False by (simp add: GrantIfAlreadyHold_def)
      then show ?thesis
        using that(3) [of ?l'] entry False l waits
        by (simp add: keeps_def SetWaitingEntryForLock_def waits_for_lock_def word_gt_0)
    qed
  qed
qed


lemma TryGrantByFastPath_spec:
  assumes inv: "local_inv hash l" and t: "built_tag t" and room: "grant_room hash l t" and weak: "weak_mode m"
  obtains (oom) l' where "TryGrantByFastPath ok d (LockTagCache_new hash t) m mt l = Some (Inl LOCK_ERROR_OUT_OF_MEMORY, l')"
      "\<not> ok" "keeps hash l l'" "hold_cnt hash l' = hold_cnt hash l" "hold_fast hash l' = hold_fast hash l"
  | (again) l' where "TryGrantByFastPath ok d (LockTagCache_new hash t) m mt l = Some (Inr True, l')"
      "hold_cnt hash l t m > 0" "keeps hash l l'" "hold_fast hash l' = hold_fast hash l"
      "hold_cnt hash l' = raise (hold_cnt hash l) t m (hold_cnt hash l t m + 1)" "hold_cnt hash l t m \<noteq> - 1"
  | (wait) l' where "TryGrantByFastPath ok d (LockTagCache_new hash t) m mt l = Some (Inl LOCK_INFO_NOT_AVAIL, l')"
      "GetStrongLockCntInPartition (hash t) d \<noteq> 0"
      "hold_cnt hash l t m = 0" "keeps hash l l'" "hold_cnt hash l' = hold_cnt hash l"
      "hold_fast hash l' = hold_fast hash l" "waits_for_lock hash l' t m"
  | (fast) l' where "TryGrantByFastPath ok d (LockTagCache_new hash t) m mt l = Some (Inr False, l')"
      "GetStrongLockCntInPartition (hash t) d = 0"
      "hold_cnt hash l t m = 0" "keeps hash l l'" "hold_cnt hash l' = raise (hold_cnt hash l) t m 1"
      "hold_fast hash l' = raise (hold_fast hash l) t m True"
proof -
  let ?l = "SetLockScannedForRecovery False l" and ?op = "TryGrantByFastPath ok d (LockTagCache_new hash t) m mt l"
  have l: "local_inv hash ?l" "grant_room hash ?l t" "hold_cnt hash ?l = hold_cnt hash l"
      "hold_fast hash ?l = hold_fast hash l" "m_backupWaitLock ?l = m_backupWaitLock l"
      "\<not> lockScanned (m_waitingInfo ?l)"
    using inv room by (simp_all add: SetLockScannedForRecovery_def grant_room_def)
  note op = TryGrantByFastPath_def guard_def weak built_tag_valid [OF t] GetStrongLockCntInPartition_def LockTagCache_new_def
  have tag: "lockTag (LockTagCache_new hash t) = t" "hashCode (LockTagCache_new hash t) = hash t"
    by (simp_all add: LockTagCache_new_def)
  note op = TryGrantByFastPath_def guard_def weak built_tag_valid [OF t] GetStrongLockCntInPartition_def tag
  show ?thesis
    using l(1) t l(2)
  proof (cases rule: CreateLock_holds [where ok = ok and mt = mt])
    case oom
    then show ?thesis using that(1) [of ?l] l by (simp add: op keeps_def)
  next
    case (entry p e l')
    note waits = same_waitsD [OF entry(3)]
    have ok: "entry_tag (GrantLock m e) = t" "entry_ok (GrantLock m e)" using entry entry_ok_GrantLock by simp_all
    consider (again) "granted e m > 0" | (wait) "granted e m = 0" "GetStrongLockCntInPartition (hash t) d \<noteq> 0"
      | (fast) "granted e m = 0" "GetStrongLockCntInPartition (hash t) d = 0" by (auto simp: word_gt_0)
    then show ?thesis
    proof cases
      case again
      then have "?op = Some (Inr True, store p (GrantLock m e) l')" using entry by (simp add: op)
      then show ?thesis
        using that(2) [of "store p (GrantLock m e) l'"] store_holds [OF entry(2) t entry(4) ok] again
          store_inv [OF entry(2) t entry(4) ok] entry l waits grant_no_wrap [OF entry(8,9), of m]
        by (simp add: keeps_def fun_eq_iff)
    next
      case wait
      then have "?op = Some (Inl LOCK_INFO_NOT_AVAIL, SetWaitingEntryForLock (Some p) m l')"
        using entry by (simp add: op)
      then show ?thesis
        using that(3) [of "SetWaitingEntryForLock (Some p) m l'"] wait entry l waits
        by (simp add: keeps_def SetWaitingEntryForLock_def waits_for_lock_def)
    next
      case fast
      then have "\<not> fast_granted (GrantLock m e) m" using entry(8) by (auto simp: entry_ok_def)
      then obtain e' where e': "SetGrantedByFastPath m (GrantLock m e) = Some e'"
          "\<And>k. fast_granted e' k \<longleftrightarrow> k = m \<or> fast_granted (GrantLock m e) k" "entry_tag e' = entry_tag (GrantLock m e)"
          "granted e' = granted (GrantLock m e)" "grantedTotal e' = grantedTotal (GrantLock m e)"
        using SetGrantedByFastPath_spec [OF weak] by metis
      have ok': "entry_tag e' = t" "entry_ok e'"
        using ok e' weak fast by (auto simp: entry_ok_def)
      have "?op = Some (Inr False, store p e' l')" using entry fast e'(1) by (simp add: op)
      then show ?thesis
        using that(4) [of "store p e' l'"] fast store_holds [OF entry(2) t entry(4) ok']
          store_inv [OF entry(2) t entry(4) ok'] entry l waits e'(2,4) by (simp add: keeps_def fun_eq_iff)
    qed
  qed
qed

lemma empty_entry:
  assumes "entry_ok e" and "grantedTotal e = 0"
  shows "granted e = (\<lambda>_. 0)" and "fast_granted e = (\<lambda>_. False)"
proof -
  have "(\<Sum>m\<in>UNIV. unat (granted e m)) = 0" using assms by (simp add: entry_ok_def)
  then have zero: "granted e m = 0" for m by (simp add: unat_eq_zero)
  then show "granted e = (\<lambda>_. 0)" by (simp add: fun_eq_iff)
  show "fast_granted e = (\<lambda>_. False)" using assms(1) zero by (auto simp: fun_eq_iff entry_ok_def)
qed

text \<open>Removing an entry that holds nothing does not change what is held.\<close>

lemma ClearLock_holds:
  assumes inv: "local_inv hash l" and t: "built_tag t" and p: "FindLock (LockTagCache_new hash t) l = Some p"
  obtains l' where "ClearLock p (hash t) l = Some l'" "local_inv hash l'" "same_waits l l'"
    "hold_cnt hash l' = hold_cnt hash l" "hold_fast hash l' = hold_fast hash l"
    "m_backupWaitLock l = None \<Longrightarrow> hold_cnt hash l t = (\<lambda>_. 0) \<Longrightarrow> lookup hash l' t = None"
proof -
  obtain e where e: "deref l p = Some e" "lookup hash l t = Some e" "entry_ok e" using FindLock_SomeD [OF inv t p] by metis
  show ?thesis
    using inv t p e(1)
  proof (cases rule: ClearLock_spec)
    case kept
    have "grantedTotal e = 0" if "hold_cnt hash l t = (\<lambda>_. 0)"
      using that e t by (simp add: entry_ok_def hold_cnt_lookup unat_eq_zero)
    then show ?thesis using that [OF kept(1) inv] kept(2) by auto
  next
    case (gone l')
    have "hold_cnt hash l t = (\<lambda>_. 0)" "hold_fast hash l t = (\<lambda>_. False)"
      using empty_entry [OF e(3) gone(2)] e(2) t by (simp_all add: hold_cnt_lookup hold_fast_def)
    then have "hold_cnt hash l' = hold_cnt hash l" "hold_fast hash l' = hold_fast hash l"
      using hold_upd [OF t gone(7)] by (simp_all add: fun_eq_iff)
    then show ?thesis using that [OF gone(1,4,5)] gone(7) [OF t] by simp
  qed
qed

lemma RecordLockResult_fail:
  assumes inv: "local_inv hash l" and t: "built_tag t" and waits: "waits_for_lock hash l t m"
    and scan: "\<not> lockScanned (m_waitingInfo l)"
  obtains l' where "RecordLockResult (LockTagCache_new hash t) m DSTORE_FAIL l = Some (Inr (), l')" "keeps hash l l'"
    "hold_cnt hash l' = hold_cnt hash l" "hold_fast hash l' = hold_fast hash l"
proof -
  obtain p where p: "lockEntry (m_waitingInfo l) = Some p" "FindLock (LockTagCache_new hash t) l = Some p"
      "wait_lockMode (m_waitingInfo l) = m" using waits by (auto simp: waits_for_lock_def)
  obtain l' where l': "ClearLock p (hash t) l = Some l'" "local_inv hash l'" "same_waits l l'"
      "hold_cnt hash l' = hold_cnt hash l" "hold_fast hash l' = hold_fast hash l"
    using ClearLock_holds [OF inv t p(2)] by metis
  show ?thesis
    by (rule that [of "SetWaitingEntryForLock None DSTORE_NO_LOCK l'"])
      (use p l' scan same_waitsD [OF l'(3)] in
        \<open>simp_all add: RecordLockResult_def waiting_setters guard_def keeps_def LockTagCache_new_def\<close>)
qed

lemma RecordLockResult_succ:
  assumes inv: "local_inv hash l" and t: "built_tag t" and waits: "waits_for_lock hash l t m"
    and scan: "\<not> lockScanned (m_waitingInfo l)" and room: "grant_room hash l t"
  obtains l' where "RecordLockResult (LockTagCache_new hash t) m DSTORE_SUCC l = Some (Inr (), l')" "keeps hash l l'"
    "hold_cnt hash l' = raise (hold_cnt hash l) t m (hold_cnt hash l t m + 1)" "hold_fast hash l' = hold_fast hash l"
    "hold_cnt hash l t m \<noteq> - 1"
proof -
  obtain p where p: "lockEntry (m_waitingInfo l) = Some p" "FindLock (LockTagCache_new hash t) l = Some p"
      "wait_lockMode (m_waitingInfo l) = m" using waits by (auto simp: waits_for_lock_def)
  obtain e where e: "deref l p = Some e" "lookup hash l t = Some e" "entry_tag e = t" "entry_ok e"
    using FindLock_SomeD [OF inv t p(2)] by metis
  then have room: "entry_room e" using room by (simp add: grant_room_def)
  have ok: "entry_tag (GrantLock m e) = t" "entry_ok (GrantLock m e)"
    using e(3) entry_ok_GrantLock [OF e(4) room] by simp_all
  have e': "granted e = hold_cnt hash l t" "fast_granted e = hold_fast hash l t"
    using e(2) t by (simp_all add: hold_cnt_lookup hold_fast_def)
  note holds = store_holds [OF inv t p(2) ok]
  show ?thesis
  proof (rule that [of "SetWaitingEntryForLock None DSTORE_NO_LOCK (store p (GrantLock m e) l)"])
    show "RecordLockResult (LockTagCache_new hash t) m DSTORE_SUCC l =
        Some (Inr (), SetWaitingEntryForLock None DSTORE_NO_LOCK (store p (GrantLock m e) l))"
      using p e scan by (simp add: RecordLockResult_def waiting_setters guard_def)
    show "keeps hash l (SetWaitingEntryForLock None DSTORE_NO_LOCK (store p (GrantLock m e) l))"
      using store_inv [OF inv t p(2) ok] scan by (simp add: keeps_def waiting_setters)
    show "hold_cnt hash l t m \<noteq> - 1" using grant_no_wrap [OF e(4) room, of m] e' by simp
  qed (use holds e' in \<open>simp_all add: waiting_setters fun_eq_iff\<close>)
qed

text \<open>Releasing: a release needs the lock to be held.\<close>

lemma held_entry:
  assumes inv: "local_inv hash l" and held: "hold_cnt hash l t m \<noteq> 0"
  obtains p e where "built_tag t" "FindLock (LockTagCache_new hash t) l = Some p" "deref l p = Some e"
    "entry_tag e = t" "entry_ok e" "granted e = hold_cnt hash l t" "fast_granted e = hold_fast hash l t"
proof -
  have t: "built_tag t" using held by (auto simp: hold_cnt_def split: if_splits)
  then obtain e where e: "lookup hash l t = Some e" using held by (auto simp: hold_cnt_lookup split: option.splits)
  obtain p where "FindLock (LockTagCache_new hash t) l = Some p" "deref l p = Some e" using lookup_ptr [OF inv t e] by metis
  then show ?thesis
    using that [OF t] lookup_SomeD [OF inv t e] e t by (simp add: hold_cnt_lookup hold_fast_def)
qed

lemma word_one_cases: "w \<noteq> 0 \<Longrightarrow> \<not> w > 1 \<Longrightarrow> w = 1" for w :: uint32
  by (auto simp: word_less_nat_alt word_unat_eq_iff)

lemma UngrantIfGrantedMultipleTimes_spec:
  assumes inv: "local_inv hash l" and held: "hold_cnt hash l t m \<noteq> 0"
  obtains (again) l' where "UngrantIfGrantedMultipleTimes (LockTagCache_new hash t) m l = Some (Inr (), l')"
      "hold_cnt hash l t m > 1" "keeps hash l l'" "hold_fast hash l' = hold_fast hash l"
      "hold_cnt hash l' = raise (hold_cnt hash l) t m (hold_cnt hash l t m - 1)"
  | (last) l' where "UngrantIfGrantedMultipleTimes (LockTagCache_new hash t) m l = Some (Inl LOCK_INFO_NOT_AVAIL, l')"
      "hold_cnt hash l t m = 1" "keeps hash l l'" "hold_fast hash l' = hold_fast hash l"
      "hold_cnt hash l' = hold_cnt hash l" "waits_for_unlock hash l' t"
proof -
  obtain p e where e: "built_tag t" "FindLock (LockTagCache_new hash t) l = Some p" "deref l p = Some e"
    "entry_tag e = t" "entry_ok e" "granted e = hold_cnt hash l t" "fast_granted e = hold_fast hash l t"
    using held_entry [OF inv held] by metis
  let ?l = "SetLockScannedForRecovery False l"
  have l: "local_inv hash ?l" "FindLock (LockTagCache_new hash t) ?l = Some p" "deref ?l p = Some e"
    using inv e by (simp_all add: SetLockScannedForRecovery_def)
  show ?thesis
  proof (cases "hold_cnt hash l t m > 1")
    case True
    have "entry_ok (ungrant m 1 e)"
      using e(5) True e(6) by (intro entry_ok_ungrant) (auto simp: entry_ok_def word_le_nat_alt word_less_nat_alt)
    then have ok: "entry_tag (UnGrantLock m e) = t" "entry_ok (UnGrantLock m e)"
      using e(4) by (simp_all add: UnGrantLock_ungrant)
    show ?thesis
      by (rule that(1) [of "store p (UnGrantLock m e) ?l"])
        (use l True held e store_inv [OF l(1) e(1) l(2) ok] store_holds [OF l(1) e(1) l(2) ok] in
          \<open>simp_all add: UngrantIfGrantedMultipleTimes_def guard_def keeps_def fun_eq_iff waiting_setters\<close>)
  next
    case False
    then have one: "hold_cnt hash l t m = 1" using held word_one_cases by blast
    show ?thesis
      by (rule that(2) [of "SetWaitingEntryForUnlock (Some p) ?l"])
        (use l one e in \<open>simp_all add: UngrantIfGrantedMultipleTimes_def guard_def keeps_def waiting_setters waits_for_unlock_def\<close>)
  qed
qed


lemma ungrant_clear:
  assumes inv: "local_inv hash l" and t: "built_tag t" and p: "FindLock (LockTagCache_new hash t) l = Some p"
    and e: "entry_tag e = t" "entry_ok e"
  obtains l' where "ClearLock p (hash t) (store p e l) = Some l'" "local_inv hash l'" "same_waits l l'"
    "hold_cnt hash l' = (hold_cnt hash l)(t := granted e)" "hold_fast hash l' = (hold_fast hash l)(t := fast_granted e)"
proof -
  have "FindLock (LockTagCache_new hash t) (store p e l) = Some p"
    using store_find [OF inv t p e t] p by simp
  then show ?thesis
    using ClearLock_holds [OF store_inv [OF inv t p e] t] that store_holds [OF inv t p e] same_waits_trans [OF same_waits_store]
    by metis
qed

lemma RemoveLockRecord_spec:
  assumes inv: "local_inv hash l" and t: "built_tag t" and waits: "waits_for_unlock hash l t"
    and scan: "\<not> lockScanned (m_waitingInfo l)" and held: "hold_cnt hash l t m \<noteq> 0"
    and fast: "hold_fast hash l t m \<Longrightarrow> hold_cnt hash l t m > 1"
  obtains l' where "RemoveLockRecord (LockTagCache_new hash t) m l = Some (Inr (), l')" "keeps hash l l'"
    "hold_cnt hash l' = raise (hold_cnt hash l) t m (hold_cnt hash l t m - 1)" "hold_fast hash l' = hold_fast hash l"
proof -
  obtain p e where e: "built_tag t" "FindLock (LockTagCache_new hash t) l = Some p" "deref l p = Some e"
    "entry_tag e = t" "entry_ok e" "granted e = hold_cnt hash l t" "fast_granted e = hold_fast hash l t"
    using held_entry [OF inv held] by metis
  have p: "unlockEntry (m_waitingInfo l) = Some p" using waits e(2) by (auto simp: waits_for_unlock_def)
  have "1 \<le> granted e m" using held e(6) by (simp add: word_le_nat_alt Suc_le_eq word_unat_eq_iff)
  then have "entry_ok (ungrant m 1 e)"
    using e fast by (intro entry_ok_ungrant) (auto simp: entry_ok_def)
  then have ok: "entry_tag (UnGrantLock m e) = t" "entry_ok (UnGrantLock m e)"
    using e(4) by (simp_all add: UnGrantLock_ungrant)
  obtain l' where l': "ClearLock p (hash t) (store p (UnGrantLock m e) l) = Some l'" "local_inv hash l'" "same_waits l l'"
    "hold_cnt hash l' = (hold_cnt hash l)(t := granted (UnGrantLock m e))"
    "hold_fast hash l' = (hold_fast hash l)(t := fast_granted (UnGrantLock m e))"
    using ungrant_clear [OF inv t e(2) ok] by metis
  show ?thesis
    by (rule that [of "SetWaitingEntryForUnlock None l'"])
      (use l' p e scan same_waitsD [OF l'(3)] in
        \<open>simp_all add: RemoveLockRecord_def waiting_setters guard_def keeps_def LockTagCache_new_def fun_eq_iff\<close>)
qed

lemma BatchDecreaseGrantedCount_eq:
  "BatchDecreaseGrantedCount tag m n l = do {
     p \<leftarrow> FindLock tag l;
     e \<leftarrow> deref l p;
     guard (n \<le> granted e m);
     l' \<leftarrow> ClearLock p (hashCode tag) (store p (ungrant m n e) l);
     Some (granted e m = n, l') }"
  by (simp add: BatchDecreaseGrantedCount_def ungrant_def)

lemma BatchDecreaseGrantedCount_spec:
  assumes inv: "local_inv hash l" and n: "n \<le> hold_cnt hash l t m" "n \<noteq> 0" and strong: "\<not> weak_mode m"
    and scan: "\<not> lockScanned (m_waitingInfo l)"
  obtains l' where "BatchDecreaseGrantedCount (LockTagCache_new hash t) m n l = Some (hold_cnt hash l t m = n, l')" "keeps hash l l'"
    "hold_cnt hash l' = raise (hold_cnt hash l) t m (hold_cnt hash l t m - n)" "hold_fast hash l' = hold_fast hash l"
proof -
  have held: "hold_cnt hash l t m \<noteq> 0" using n by auto
  obtain p e where e: "built_tag t" "FindLock (LockTagCache_new hash t) l = Some p" "deref l p = Some e"
    "entry_tag e = t" "entry_ok e" "granted e = hold_cnt hash l t" "fast_granted e = hold_fast hash l t"
    using held_entry [OF inv held] by metis
  have "entry_ok (ungrant m n e)"
    using e n strong by (intro entry_ok_ungrant) (auto simp: entry_ok_def)
  then have ok: "entry_tag (ungrant m n e) = t" "entry_ok (ungrant m n e)" using e(4) by simp_all
  obtain l' where l': "ClearLock p (hash t) (store p (ungrant m n e) l) = Some l'" "local_inv hash l'" "same_waits l l'"
    "hold_cnt hash l' = (hold_cnt hash l)(t := granted (ungrant m n e))"
    "hold_fast hash l' = (hold_fast hash l)(t := fast_granted (ungrant m n e))"
    using ungrant_clear [OF inv e(1,2) ok] by metis
  show ?thesis
    by (rule that [of l'])
      (use l' e n scan same_waitsD [OF l'(3)] in
        \<open>simp_all add: BatchDecreaseGrantedCount_eq guard_def keeps_def\<close>)
qed


lemma BatchReleaseByFastPath_eq:
  "weak_mode m \<Longrightarrow> BatchReleaseByFastPath tag m n l = do {
     p \<leftarrow> FindLock tag l;
     e \<leftarrow> deref l p;
     guard (n \<le> granted e m);
     if granted e m = n
     then do {
       e2 \<leftarrow> (if fast_granted e m then ClearGrantedByFastPath m (ungrant m n e) else Some (ungrant m n e));
       l' \<leftarrow> ClearLock p (hashCode tag) (store p e2 l);
       Some (fast_granted e m, l') }
     else Some (True, store p (ungrant m n e) l) }"
  by (simp add: BatchReleaseByFastPath_def IsGrantedByFastPath_eq ungrant_def cong: if_cong)

text \<open>An entry after the last lock in a mode was taken off, fast path or not.\<close>

lemma last_ungrant:
  assumes weak: "weak_mode m" and e: "entry_ok e" 
  obtains e2 where "(if fast_granted e m then ClearGrantedByFastPath m (ungrant m (granted e m) e) else Some (ungrant m (granted e m) e)) = Some e2"
    "entry_tag e2 = entry_tag e" "entry_ok e2" "granted e2 = (granted e)(m := 0)" "fast_granted e2 = (fast_granted e)(m := False)"
proof (cases "fast_granted e m")
  case True
  obtain e1 where e1: "ClearGrantedByFastPath m e = Some e1" "\<And>k. fast_granted e1 k \<longleftrightarrow> k \<noteq> m \<and> fast_granted e k"
    "entry_tag e1 = entry_tag e" "granted e1 = granted e" "grantedTotal e1 = grantedTotal e"
    using ClearGrantedByFastPath_spec [OF weak True] by metis
  have "ClearGrantedByFastPath m (ungrant m (granted e m) e) = Some (ungrant m (granted e m) e1)"
    using e1(1) by (auto simp: ClearGrantedByFastPath_def ungrant_def split: if_splits)
  moreover have "entry_ok (ungrant m (granted e m) e1)"
    using e e1 by (intro entry_ok_ungrant) (auto simp: entry_ok_def)
  ultimately show ?thesis using that e1 True by (simp add: fun_eq_iff)
next
  case False
  then have "entry_ok (ungrant m (granted e m) e)" using e by (intro entry_ok_ungrant) (auto simp: entry_ok_def)
  then show ?thesis using that False by (simp add: fun_eq_iff)
qed

lemma BatchReleaseByFastPath_spec:
  assumes inv: "local_inv hash l" and n: "n \<le> hold_cnt hash l t m" "n \<noteq> 0" and weak: "weak_mode m"
    and scan: "\<not> lockScanned (m_waitingInfo l)"
  obtains (some) l' where "BatchReleaseByFastPath (LockTagCache_new hash t) m n l = Some (True, l')" "keeps hash l l'"
      "n < hold_cnt hash l t m" "hold_cnt hash l' = raise (hold_cnt hash l) t m (hold_cnt hash l t m - n)"
      "hold_fast hash l' = hold_fast hash l"
  | (all) l' where "BatchReleaseByFastPath (LockTagCache_new hash t) m n l = Some (hold_fast hash l t m, l')" "keeps hash l l'"
      "n = hold_cnt hash l t m" "hold_cnt hash l' = raise (hold_cnt hash l) t m 0"
      "hold_fast hash l' = raise (hold_fast hash l) t m False"
proof -
  have held: "hold_cnt hash l t m \<noteq> 0" using n by auto
  obtain p e where e: "built_tag t" "FindLock (LockTagCache_new hash t) l = Some p" "deref l p = Some e"
    "entry_tag e = t" "entry_ok e" "granted e = hold_cnt hash l t" "fast_granted e = hold_fast hash l t"
    using held_entry [OF inv held] by metis
  show ?thesis
  proof (cases "n = granted e m")
    case True
    obtain e2 where e2: "(if fast_granted e m then ClearGrantedByFastPath m (ungrant m n e) else Some (ungrant m n e)) = Some e2"
      "entry_tag e2 = t" "entry_ok e2" "granted e2 = (granted e)(m := 0)" "fast_granted e2 = (fast_granted e)(m := False)"
      using last_ungrant [OF weak e(5)] e(4) True by metis
    obtain l' where l': "ClearLock p (hash t) (store p e2 l) = Some l'" "local_inv hash l'" "same_waits l l'"
      "hold_cnt hash l' = (hold_cnt hash l)(t := granted e2)" "hold_fast hash l' = (hold_fast hash l)(t := fast_granted e2)"
      using ungrant_clear [OF inv e(1,2) e2(2,3)] by metis
    have "BatchReleaseByFastPath (LockTagCache_new hash t) m n l = Some (hold_fast hash l t m, l')"
      using l'(1) e e2(1) True
      by (cases "hold_fast hash l t m") (simp_all add: BatchReleaseByFastPath_eq [OF weak] guard_def)
    then show ?thesis
      by (rule that(2)) (use l' e e2 True scan same_waitsD [OF l'(3)] in \<open>simp_all add: keeps_def\<close>)
  next
    case False
    then have less: "n < granted e m" using n e(6) by simp
    then have "entry_ok (ungrant m n e)" using e(5) by (intro entry_ok_ungrant) (auto simp: entry_ok_def)
    then have ok: "entry_tag (ungrant m n e) = t" "entry_ok (ungrant m n e)" using e(4) by simp_all
    show ?thesis
      by (rule that(1) [of "store p (ungrant m n e) l"])
        (use e less False n scan store_inv [OF inv e(1,2) ok] store_holds [OF inv e(1,2) ok] in
          \<open>simp_all add: BatchReleaseByFastPath_eq [OF weak] guard_def keeps_def fun_eq_iff\<close>)
  qed
qed


lemma TryReleaseByFastPath_spec:
  assumes inv: "local_inv hash l" and held: "hold_cnt hash l t m \<noteq> 0" and weak: "weak_mode m"
  obtains (again) l' where "TryReleaseByFastPath (LockTagCache_new hash t) m l = Some (Inr (), l')"
      "hold_cnt hash l t m > 1" "keeps hash l l'" "hold_fast hash l' = hold_fast hash l"
      "hold_cnt hash l' = raise (hold_cnt hash l) t m (hold_cnt hash l t m - 1)"
  | (fast) l' where "TryReleaseByFastPath (LockTagCache_new hash t) m l = Some (Inr (), l')"
      "hold_cnt hash l t m = 1" "hold_fast hash l t m" "keeps hash l l'"
      "hold_cnt hash l' = raise (hold_cnt hash l) t m 0" "hold_fast hash l' = raise (hold_fast hash l) t m False"
  | (last) l' where "TryReleaseByFastPath (LockTagCache_new hash t) m l = Some (Inl LOCK_INFO_NOT_AVAIL, l')"
      "hold_cnt hash l t m = 1" "\<not> hold_fast hash l t m" "keeps hash l l'" "hold_fast hash l' = hold_fast hash l"
      "hold_cnt hash l' = hold_cnt hash l" "waits_for_unlock hash l' t"
proof -
  obtain p e where e: "built_tag t" "FindLock (LockTagCache_new hash t) l = Some p" "deref l p = Some e"
    "entry_tag e = t" "entry_ok e" "granted e = hold_cnt hash l t" "fast_granted e = hold_fast hash l t"
    using held_entry [OF inv held] by metis
  let ?l = "SetLockScannedForRecovery False l" and ?op = "TryReleaseByFastPath (LockTagCache_new hash t) m l"
  have l: "local_inv hash ?l" "FindLock (LockTagCache_new hash t) ?l = Some p" "deref ?l p = Some e"
    using inv e by (simp_all add: SetLockScannedForRecovery_def)
  note op = TryReleaseByFastPath_def guard_def IsGrantedByFastPath_eq [OF weak]
  consider (again) "hold_cnt hash l t m > 1" | (fast) "hold_cnt hash l t m = 1" "hold_fast hash l t m"
    | (last) "hold_cnt hash l t m = 1" "\<not> hold_fast hash l t m"
    using held word_one_cases by blast
  then show ?thesis
  proof cases
    case again
    have "entry_ok (ungrant m 1 e)"
      using e(5) again e(6) by (intro entry_ok_ungrant) (auto simp: entry_ok_def word_le_nat_alt word_less_nat_alt)
    then have ok: "entry_tag (UnGrantLock m e) = t" "entry_ok (UnGrantLock m e)"
      using e(4) by (simp_all add: UnGrantLock_ungrant)
    show ?thesis
      by (rule that(1) [of "store p (UnGrantLock m e) ?l"])
        (use l again held e store_inv [OF l(1) e(1) l(2) ok] store_holds [OF l(1) e(1) l(2) ok] in
          \<open>simp_all add: op keeps_def fun_eq_iff waiting_setters\<close>)
  next
    case fast
    obtain e2 where e2: "(if fast_granted e m then ClearGrantedByFastPath m (ungrant m 1 e) else Some (ungrant m 1 e)) = Some e2"
      "entry_tag e2 = t" "entry_ok e2" "granted e2 = (granted e)(m := 0)" "fast_granted e2 = (fast_granted e)(m := False)"
      using last_ungrant [OF weak e(5)] e(4,6) fast(1) by metis
    then obtain e1 where e1: "ClearGrantedByFastPath m e = Some e1" "UnGrantLock m e1 = e2"
      using fast e(7) by (auto simp: ClearGrantedByFastPath_def UnGrantLock_def ungrant_def split: if_splits)
    obtain l' where l': "ClearLock p (hash t) (store p e2 ?l) = Some l'" "local_inv hash l'" "same_waits ?l l'"
      "hold_cnt hash l' = (hold_cnt hash ?l)(t := granted e2)" "hold_fast hash l' = (hold_fast hash ?l)(t := fast_granted e2)"
      using ungrant_clear [OF l(1) e(1) l(2) e2(2,3)] by metis
    have "?op = Some (Inr (), l')" using fast e l e1 l'(1) by (simp add: op)
    then show ?thesis
      by (rule that(2)) (use fast l' e e2 same_waitsD [OF l'(3)] in \<open>simp_all add: keeps_def waiting_setters\<close>)
  next
    case last
    show ?thesis
      by (rule that(3) [of "SetWaitingEntryForUnlock (Some p) ?l"])
        (use l last e in \<open>simp_all add: op keeps_def waiting_setters waits_for_unlock_def\<close>)
  qed
qed

text \<open>Taking a lock off the fast path.\<close>

lemma waits_same_find:
  assumes "m_waitingInfo l' = m_waitingInfo l" and "FindLock (LockTagCache_new hash t) l' = FindLock (LockTagCache_new hash t) l"
  shows "waits_for_lock hash l' t m = waits_for_lock hash l t m" and "waits_for_unlock hash l' t = waits_for_unlock hash l t"
  using assms by (simp_all add: waits_for_lock_def waits_for_unlock_def)

lemma moved_entry:
  assumes inv: "local_inv hash l" and fast: "hold_fast hash l t k"
    and p: "FindLock (LockTagCache_new hash t) l = Some p" "deref l p = Some e"
  obtains e' where "ClearGrantedByFastPath k e = Some e'" "local_inv hash (store p e' l)"
    "hold_cnt hash (store p e' l) = hold_cnt hash l" "hold_fast hash (store p e' l) = raise (hold_fast hash l) t k False"
    "\<And>u. built_tag u \<Longrightarrow> FindLock (LockTagCache_new hash u) (store p e' l) = FindLock (LockTagCache_new hash u) l"
proof -
  note D = hold_fastD [OF inv fast]
  have look: "lookup hash l t = Some e" using p by (simp add: lookup_def)
  note e = lookup_SomeD [OF inv D(3) look]
  have ef: "fast_granted e = hold_fast hash l t" "granted e = hold_cnt hash l t"
    using look D(3) by (simp_all add: hold_fast_def hold_cnt_lookup)
  obtain e' where e': "ClearGrantedByFastPath k e = Some e'" "\<And>m. fast_granted e' m \<longleftrightarrow> m \<noteq> k \<and> fast_granted e m"
    "entry_tag e' = entry_tag e" "granted e' = granted e" "grantedTotal e' = grantedTotal e"
    by (rule ClearGrantedByFastPath_spec [OF D(1), of e]) (use ef(1) fast in auto)
  have ok: "entry_tag e' = t" "entry_ok e'" using e e'(2-5) by (auto simp: entry_ok_def)
  show ?thesis
  proof (rule that [OF e'(1) store_inv [OF inv D(3) p(1) ok] _ _ store_find [OF inv D(3) p(1) ok]])
    show "hold_cnt hash (store p e' l) = hold_cnt hash l" using store_holds(1) [OF inv D(3) p(1) ok] e'(4) ef(2) by simp
    have "fast_granted e' = (hold_fast hash l t)(k := False)" using e'(2) ef(1) by (auto simp: fun_eq_iff)
    then show "hold_fast hash (store p e' l) = raise (hold_fast hash l) t k False"
      using store_holds(2) [OF inv D(3) p(1) ok] by simp
  qed
qed

text \<open>A thread starts with nothing.\<close>

lemma Initialize_local:
  "local_inv hash ThreadLocalLock_Initialize" "hold_cnt hash ThreadLocalLock_Initialize t m = 0"
  "\<not> hold_fast hash ThreadLocalLock_Initialize t m"
proof -
  have tag: "IsInvalid (entry_tag (m_fastLockEntryMap ThreadLocalLock_Initialize i))" for i
    by (simp add: ThreadLocalLock_Initialize_def IsInvalid_def SetInvalid_def)
  show inv: "local_inv hash ThreadLocalLock_Initialize"
    using tag by (simp add: local_inv_def used_slots_def ThreadLocalLock_Initialize_def)
  have none: "lookup hash ThreadLocalLock_Initialize t = None" if "built_tag t"
  proof -
    have "entry_tag (m_fastLockEntryMap ThreadLocalLock_Initialize i) \<noteq> t" for i
      using tag [of i] built_tag_valid [OF that] by auto
    then show ?thesis unfolding lookup_cases [OF inv that] by (simp add: ThreadLocalLock_Initialize_def)
  qed
  show "hold_cnt hash ThreadLocalLock_Initialize t m = 0"
    by (cases "built_tag t") (simp add: hold_cnt_lookup none, simp add: hold_cnt_def)
  show "\<not> hold_fast hash ThreadLocalLock_Initialize t m"
    by (cases "built_tag t") (simp_all add: hold_fast_def none)
qed

end
