(* ===== verification/Lock_Table.thy ===== *)
theory Lock_Table
  imports Lock_Entry_Inv Local_Lock_Inv
begin

text \<open>
  The main lock table (\<open>LockHashTable\<close> of \<open>src/lock/dstore_lock_hash_table.cpp\<close>): a hash table of
  lock entries in partitions, with a free list of requests per partition. Every operation runs
  under the latch of the partition of its tag and is one function here. The hash table is the
  list of its nodes in the order of the sequential scan. The arguments \<open>enter_ok\<close> and \<open>dup_ok\<close>
  say whether a node for the tag and a copy of the request could be allocated; the calls of
  \<open>WakeUp\<close> are returned as the list of requests woken. An entry without requests is removed.
\<close>

subsection \<open>The table\<close>

record LockHashTable =
  m_lockTable :: "(LockTag \<times> LockEntry) list"
  m_partitionNum :: uint32
  m_freeLists :: "uint32 \<Rightarrow> LockRequestFreeList"

definition maxFreelistLength :: uint32 where "maxFreelistLength = 1024"

text \<open>\<open>Initialize\<close> when all its allocations succeed.\<close>

definition LockHashTable_Initialize :: "uint32 \<Rightarrow> LockHashTable" where
  "LockHashTable_Initialize partitionNum =
     \<lparr>m_lockTable = [], m_partitionNum = partitionNum,
      m_freeLists = (\<lambda>_. LockRequestFreeList_new maxFreelistLength)\<rparr>"

text \<open>Putting an entry back after an operation: it is removed when nobody holds or awaits the lock.\<close>

definition put_entry :: "LockTag \<Rightarrow> LockEntry \<Rightarrow> uint32 \<Rightarrow> LockRequestFreeList \<Rightarrow> LockHashTable \<Rightarrow> LockHashTable" where
  "put_entry tag e partitionId fl h =
     h\<lparr>m_lockTable := (if IsNoHolderAndNoWaiter e then AList.delete tag (m_lockTable h)
                       else AList.update tag e (m_lockTable h)),
       m_freeLists := (m_freeLists h)(partitionId := fl)\<rparr>"

definition LockRequestEnqueue ::
    "bool \<Rightarrow> bool \<Rightarrow> LockTagCache \<Rightarrow> LockRequest \<Rightarrow> LockErrorInfo option \<Rightarrow> LockHashTable
     \<Rightarrow> (LockErrorCode + unit) \<times> LockHashTable \<times> LockErrorInfo option" where
  "LockRequestEnqueue enter_ok dup_ok tag request info h =
     (let partitionId = hashCode tag mod m_partitionNum h;
          found = map_of (m_lockTable h) (lockTag tag) in
      if found = None \<and> \<not> enter_ok then (Inl LOCK_ERROR_OUT_OF_MEMORY, h, info)
      else
        let e = (case found of Some e \<Rightarrow> e | None \<Rightarrow> Initialize (lockTag tag));
            (ret, e', fl', info') = EnqueueLockRequest dup_ok e request (m_freeLists h partitionId) info in
        (ret, put_entry (lockTag tag) e' partitionId fl' h, info'))"

definition LockRequestDequeue ::
    "LockTagCache \<Rightarrow> LockRequest \<Rightarrow> LockHashTable \<Rightarrow> bool \<times> LockHashTable \<times> LockRequest list" where
  "LockRequestDequeue tag request h =
     (let partitionId = hashCode tag mod m_partitionNum h in
      case map_of (m_lockTable h) (lockTag tag) of
        None \<Rightarrow> (False, h, [])
      | Some e \<Rightarrow>
          (case DequeueLockRequest e request (m_freeLists h partitionId) of
             (isFound, e', fl', woken) \<Rightarrow> (isFound, put_entry (lockTag tag) e' partitionId fl' h, woken)))"

text \<open>The scan removes only the node it is at, so it visits the nodes that were there at the start.\<close>

fun update_loop ::
    "(LockTag \<Rightarrow> uint32) \<Rightarrow> (LockTag \<times> LockEntry) list \<Rightarrow> LockHashTable \<Rightarrow> LockHashTable \<times> LockRequest list" where
  "update_loop hash [] h = (h, [])"
| "update_loop hash ((_, e) # rest) h =
     (let key = m_lockTag (lockEntryCore e); partitionId = hash key mod m_partitionNum h;
          (e', fl', woken) = AdvanceWaitingQueue e (m_freeLists h partitionId);
          (h', woken') = update_loop hash rest (put_entry key e' partitionId fl' h) in
      (h', woken @ woken'))"

definition UpdateAllWaitersAndHolders :: "(LockTag \<Rightarrow> uint32) \<Rightarrow> LockHashTable \<Rightarrow> LockHashTable \<times> LockRequest list" where
  "UpdateAllWaitersAndHolders hash h = update_loop hash (m_lockTable h) h"

definition LockHashTable_IsHeldByRequester :: "LockTag \<Rightarrow> LockRequest \<Rightarrow> LockHashTable \<Rightarrow> bool option" where
  "LockHashTable_IsHeldByRequester tag request h =
     (case map_of (m_lockTable h) tag of
        None \<Rightarrow> Some False
      | Some e \<Rightarrow>
          if IsHeldByRequester e request
          then do { guard (m_grantedCnt (lockEntryCore e) (GetLockMode request) \<noteq> 0); Some True }
          else Some False)"

text \<open>
  \<open>TransferSingleLockHolder\<close> overwrites the thread in the only granted request of a lock. The
  request is linked in several levels of the skip list, so it changes in all of them.
\<close>

definition TransferSingleLockHolder ::
    "LockTag \<Rightarrow> uint64 \<Rightarrow> uint32 \<Rightarrow> LockHashTable \<Rightarrow> ((LockErrorCode + uint32) \<times> LockHashTable) option" where
  "TransferSingleLockHolder tag newThreadId newCoreIdx h =
     (case map_of (m_lockTable h) tag of
        None \<Rightarrow> Some (Inl XACTLOCK_ERROR_TRANSFER_LOCK_NOT_HELD, h)
      | Some e \<Rightarrow>
          (case iterate_level (grantedQueue e) 0 of
             [holder] \<Rightarrow>
               let owned = (\<lambda>r. r\<lparr>threadId := newThreadId, threadCoreIdx := newCoreIdx\<rparr>);
                   queue = (grantedQueue e)\<lparr>m_indexHeads := map (map owned) (m_indexHeads (grantedQueue e))\<rparr> in
               Some (Inr (threadCoreIdx holder),
                 h\<lparr>m_lockTable := AList.update tag (e\<lparr>grantedQueue := queue\<rparr>) (m_lockTable h)\<rparr>)
           | _ \<Rightarrow> None))"

end
