(* ===== verification/Lock_Table_Inv.thy ===== *)
theory Lock_Table_Inv
  imports Lock_Table
begin

text \<open>
  The invariant of the main lock table and what its operations do to the locks held and awaited.
  A lock held or awaited is named by a key, the core of the thread and the mode; an enqueue adds
  the key of its request to the locks held or to the locks awaited, and a dequeue takes the key
  away and turns the keys of the requests it wakes into locks held.
\<close>


subsection \<open>The invariant\<close>

definition entry_at :: "LockHashTable \<Rightarrow> LockTag \<Rightarrow> LockEntry" where
  "entry_at h t = (case map_of (m_lockTable h) t of None \<Rightarrow> Initialize t | Some e \<Rightarrow> e)"

definition holders_of :: "LockHashTable \<Rightarrow> LockTag \<Rightarrow> LockRequest list" where
  "holders_of h t = holders (entry_at h t)"

definition waiters_of :: "LockHashTable \<Rightarrow> LockTag \<Rightarrow> LockRequest list" where
  "waiters_of h t = waitingQueue (entry_at h t)"

definition table_inv :: "LockHashTable \<Rightarrow> bool" where
  "table_inv h \<longleftrightarrow> distinct (map fst (m_lockTable h)) \<and>
     (\<forall>t e. map_of (m_lockTable h) t = Some e \<longrightarrow>
        entry_good e \<and> m_lockTag (lockEntryCore e) = t \<and> (holders e \<noteq> [] \<or> waitingQueue e \<noteq> []))"

subsection \<open>Operations on an entry keep its tag\<close>

abbreviation tag_in :: "LockEntry \<Rightarrow> LockTag" where
  "tag_in e \<equiv> m_lockTag (lockEntryCore e)"

lemma AddToHolderQueue_tag: "AddToHolderQueue e fl r = (e', fl') \<Longrightarrow> tag_in e' = tag_in e"
  by (auto simp: AddToHolderQueue_def Let_def split: if_splits prod.splits RetStatus.splits)

lemma RemoveFromHolderQueue_tag: "RemoveFromHolderQueue e fl r = (ret, e', fl') \<Longrightarrow> tag_in e' = tag_in e"
  by (auto simp: RemoveFromHolderQueue_def Let_def split: prod.splits option.splits)

lemma RemoveFromWaiterQueue_tag [simp]: "tag_in (RemoveFromWaiterQueue e r) = tag_in e"
  by (simp add: RemoveFromWaiterQueue_def Let_def)

lemma add_waiter_tag [simp]: "tag_in (add_waiter e r n) = tag_in e"
  by (simp add: add_waiter_def Let_def)

lemma TryAddToWaiterQueue_tag:
  "TryAddToWaiterQueue e r fl info = (res, e', fl', info') \<Longrightarrow> tag_in e' = tag_in e"
  by (auto simp: TryAddToWaiterQueue_def Let_def AddToHolderQueue_tag split: if_splits prod.splits PreventorResult.splits)

lemma holder_conflict_loop_tag: "holder_conflict_loop r hs e fl info = (c, e', fl', info') \<Longrightarrow> tag_in e' = tag_in e"
  by (simp add: holder_conflict_loop_eq)

lemma HasConflictWithAnyHolder_tag:
  "HasConflictWithAnyHolder e r fl info = (c, e', fl', info') \<Longrightarrow> tag_in e' = tag_in e"
  by (auto simp: HasConflictWithAnyHolder_def holder_conflict_loop_tag split: if_splits)

lemma advance_loop_tag: "advance_loop ws e fl info woken = (e', fl', woken') \<Longrightarrow> tag_in e' = tag_in e"
proof (induction ws arbitrary: e fl info woken)
  case (Cons w ws)
  obtain c e1 fl1 info1 where c: "HasConflictWithAnyHolder e w fl info = (c, e1, fl1, info1)" by (metis prod_cases4)
  then have e1: "tag_in e1 = tag_in e" by (rule HasConflictWithAnyHolder_tag)
  obtain e2 fl2 where a: "AddToHolderQueue (RemoveFromWaiterQueue e1 w) fl1 w = (e2, fl2)" by fastforce
  then have e2: "tag_in e2 = tag_in e" using AddToHolderQueue_tag [OF a] e1 by simp
  show ?case
    using Cons.prems Cons.IH [of e2 fl2 info1 "woken @ [w]"] c a e1 e2 by (auto simp: IsValid_def split: bool.splits)
qed simp

lemma AdvanceWaitingQueue_tag: "AdvanceWaitingQueue e fl = (e', fl', woken) \<Longrightarrow> tag_in e' = tag_in e"
  by (simp add: AdvanceWaitingQueue_def advance_loop_tag)

lemma EnqueueLockRequest_tag:
  assumes "EnqueueLockRequest dup_ok e r fl info = (res, e', fl', info')"
  shows "tag_in e' = tag_in e"
  using assms
  by (auto simp: EnqueueLockRequest_def split: prod.splits option.splits if_splits
      dest!: HasConflictWithAnyHolder_tag AddToHolderQueue_tag TryAddToWaiterQueue_tag)

lemma DequeueLockRequest_tag:
  assumes "DequeueLockRequest e r fl = (ok, e', fl', woken)"
  shows "tag_in e' = tag_in e"
  using assms
  by (auto simp: DequeueLockRequest_def split: prod.splits option.splits RetStatus.splits
      dest!: RemoveFromHolderQueue_tag AdvanceWaitingQueue_tag)


subsection \<open>What the table holds\<close>

lemma good_empty_iff: "entry_good e \<Longrightarrow> IsNoHolderAndNoWaiter e \<longleftrightarrow> holders e = [] \<and> waitingQueue e = []"
  unfolding IsNoHolderAndNoWaiter_def
  using summary_total_0 [OF entry_invD(2)] summary_total_0 [OF entry_invD(3)] entry_invD(6)
  by (fastforce simp: entry_good_def)

lemma Initialize_empty [simp]: "holders (Initialize t) = []" "waitingQueue (Initialize t) = []" "tag_in (Initialize t) = t"
  by (simp_all add: Initialize_def granted.items_empty)

lemma table_invD:
  assumes "table_inv h"
  shows "distinct (map fst (m_lockTable h))"
    and "map_of (m_lockTable h) t = Some e \<Longrightarrow> entry_good e \<and> tag_in e = t \<and> (holders e \<noteq> [] \<or> waitingQueue e \<noteq> [])"
  using assms unfolding table_inv_def by blast+

lemma entry_at_good:
  assumes "table_inv h"
  shows "entry_good (entry_at h t)" and "tag_in (entry_at h t) = t"
  using table_invD(2) [OF assms, of t] Initialize_good by (auto simp: entry_at_def split: option.splits)

lemma put_entry_spec:
  assumes inv: "table_inv h" and e: "entry_good e" "tag_in e = t"
  shows "table_inv (put_entry t e part fl h)"
    and "holders_of (put_entry t e part fl h) s = (if s = t then holders e else holders_of h s)"
    and "waiters_of (put_entry t e part fl h) s = (if s = t then waitingQueue e else waiters_of h s)"
proof -
  let ?h = "put_entry t e part fl h"
  have m: "map_of (m_lockTable ?h) s = (if s = t then (if IsNoHolderAndNoWaiter e then None else Some e)
      else map_of (m_lockTable h) s)" for s
    by (simp add: put_entry_def update_conv' delete_conv')
  have "distinct (map fst (m_lockTable ?h))"
    using table_invD(1) [OF inv] by (simp add: put_entry_def distinct_update distinct_delete)
  then show "table_inv ?h"
    unfolding table_inv_def m using table_invD(2) [OF inv] e good_empty_iff [OF e(1)] by auto
  show "holders_of ?h s = (if s = t then holders e else holders_of h s)"
    "waiters_of ?h s = (if s = t then waitingQueue e else waiters_of h s)"
    unfolding holders_of_def waiters_of_def entry_at_def m
    using good_empty_iff [OF e(1)] by (simp_all split: option.splits)
qed

text \<open>A lock in a mode, held or awaited by a thread, given by the index of its core.\<close>

type_synonym lock_key = "uint32 \<times> LockMode"

definition req_key :: "LockRequest \<Rightarrow> lock_key" where
  "req_key r = (threadCoreIdx r, m_lockMode r)"

definition held_keys :: "LockHashTable \<Rightarrow> LockTag \<Rightarrow> lock_key set" where
  "held_keys h t = req_key ` set (holders_of h t)"

definition wait_keys :: "LockHashTable \<Rightarrow> LockTag \<Rightarrow> lock_key set" where
  "wait_keys h t = req_key ` set (waiters_of h t)"

lemma Compare_key: "Compare a b = 0 \<longleftrightarrow> req_key a = req_key b"
  by (auto simp: Compare_zero_iff req_key_def)

text \<open>
  Requests that threads make: they may be held, they are not forced, and their thread is the one
  that runs on their core.
\<close>

definition regular :: "(uint32 \<Rightarrow> uint64) \<Rightarrow> LockRequest \<Rightarrow> bool" where
  "regular pid r \<longleftrightarrow> threadId r = pid (threadCoreIdx r) \<and> \<not> IsOnlyWait r \<and> \<not> IsForceHold r \<and>
     m_lockMode r \<noteq> DSTORE_LOCK_MODE_MAX"

definition all_regular :: "(uint32 \<Rightarrow> uint64) \<Rightarrow> LockHashTable \<Rightarrow> bool" where
  "all_regular pid h \<longleftrightarrow> (\<forall>t. \<forall>r \<in> set (holders_of h t) \<union> set (waiters_of h t). regular pid r)"

lemma regular_same:
  assumes "inj pid" and "regular pid a" and "regular pid b"
  shows "same_wait a b \<longleftrightarrow> req_key a = req_key b" and "IsSameRequester a b \<longleftrightarrow> threadCoreIdx a = threadCoreIdx b"
  using assms by (auto simp: same_wait_def IsSameRequester_def regular_def req_key_def inj_eq)

text \<open>What an enqueue does to an entry.\<close>

lemma TryAddToWaiterQueue_effect:
  assumes inv: "entry_inv e" and mode: "m_lockMode r \<noteq> DSTORE_LOCK_MODE_MAX"
    and new: "\<not> (\<exists>w \<in> set (waitingQueue e). same_wait w r)"
    and tried: "TryAddToWaiterQueue e r fl info = (res, e', fl', info')"
  obtains (grant) "res = Inr ()" "AddToHolderQueue e fl r = (e', fl')"
  | (wait) "res = Inl LOCK_INFO_WAITING" "holders e' = holders e" "set (waitingQueue e') = insert r (set (waitingQueue e))"
  | (dead) "res = Inl LOCK_ERROR_DEADLOCK" "e' = e"
proof -
  consider "res = Inr ()" | "res = Inl LOCK_INFO_WAITING" | "res = Inl LOCK_ERROR_DEADLOCK"
    using tried by (auto simp: TryAddToWaiterQueue_def Let_def split: if_splits prod.splits PreventorResult.splits)
  then show ?thesis
  proof cases
    case 1
    then have "AddToHolderQueue e fl r = (e', fl')"
      using tried by (auto simp: TryAddToWaiterQueue_def Let_def split: if_splits prod.splits PreventorResult.splits)
    then show ?thesis using that(1) 1 by blast
  next
    case 2
    then show ?thesis
      using that(2) TryAddToWaiterQueue_waits(1) [OF inv mode new tried] by (metis Un_insert_right list.simps(15) set_append)
  next
    case 3
    then show ?thesis using that(3) TryAddToWaiterQueue_waits(2) [OF inv mode new tried] by blast
  qed
qed

lemma EnqueueLockRequest_effect:
  assumes good: "entry_good e" and reg: "regular pid r" and room: "room e"
    and enq: "EnqueueLockRequest dup_ok e r fl info = (res, e', fl', info')"
    and new: "\<not> (\<exists>w \<in> set (waitingQueue e). same_wait w r)"
  shows "res = Inr () \<Longrightarrow> waitingQueue e' = waitingQueue e \<and> set (holders e) \<subseteq> set (holders e') \<and>
      set (holders e') \<subseteq> insert r (set (holders e)) \<and> (\<exists>h \<in> set (holders e'). Compare r h = 0)"
    and "res = Inl LOCK_INFO_WAITING \<Longrightarrow> holders e' = holders e \<and> set (waitingQueue e') = insert r (set (waitingQueue e)) \<and> \<not> IsDontWait r"
    and "res = Inl c \<Longrightarrow> c \<noteq> LOCK_INFO_WAITING \<Longrightarrow> holders e' = holders e \<and> waitingQueue e' = waitingQueue e"
proof -
  have inv: "entry_inv e" and mode: "m_lockMode r \<noteq> DSTORE_LOCK_MODE_MAX" and only: "\<not> IsOnlyWait r"
    using good reg by (auto simp: entry_good_def regular_def)
  have "(res = Inr () \<longrightarrow> waitingQueue e' = waitingQueue e \<and> set (holders e) \<subseteq> set (holders e') \<and>
      set (holders e') \<subseteq> insert r (set (holders e)) \<and> (\<exists>h \<in> set (holders e'). Compare r h = 0)) \<and>
    (res = Inl LOCK_INFO_WAITING \<longrightarrow> holders e' = holders e \<and> set (waitingQueue e') = insert r (set (waitingQueue e)) \<and> \<not> IsDontWait r) \<and>
    (\<forall>c. res = Inl c \<longrightarrow> c \<noteq> LOCK_INFO_WAITING \<longrightarrow> holders e' = holders e \<and> waitingQueue e' = waitingQueue e)"
    using inv mode enq
  proof (cases rule: EnqueueLockRequest_cases)
    case oom
    then show ?thesis by simp
  next
    case (grant fl2)
    then show ?thesis
      using AddToHolderQueue_spec [OF inv mode _ grant(3)] room only by simp
  next
    case not_avail
    then show ?thesis by simp
  next
    case (wait fl2 info2)
    show ?thesis
      using inv mode new wait(2)
    proof (cases rule: TryAddToWaiterQueue_effect)
      case grant
      then show ?thesis using AddToHolderQueue_spec [OF inv mode _ grant(2)] room only by simp
    qed (simp_all add: wait)
  qed
  then show "res = Inr () \<Longrightarrow> waitingQueue e' = waitingQueue e \<and> set (holders e) \<subseteq> set (holders e') \<and>
      set (holders e') \<subseteq> insert r (set (holders e)) \<and> (\<exists>h \<in> set (holders e'). Compare r h = 0)"
    and "res = Inl LOCK_INFO_WAITING \<Longrightarrow> holders e' = holders e \<and> set (waitingQueue e') = insert r (set (waitingQueue e)) \<and> \<not> IsDontWait r"
    and "res = Inl c \<Longrightarrow> c \<noteq> LOCK_INFO_WAITING \<Longrightarrow> holders e' = holders e \<and> waitingQueue e' = waitingQueue e"
    by blast+
qed


text \<open>What a dequeue does to an entry: the request is gone, and the requests woken are held.\<close>

lemma sorted_remove1_same:
  "sorted_wrt (\<lambda>a b. \<not> same_wait a b) ws \<Longrightarrow> w \<in> set ws \<Longrightarrow> x \<in> set (remove1 w ws) \<Longrightarrow> \<not> same_wait x w"
proof (induction ws)
  case (Cons v ws)
  then show ?case
    using same_wait_sym [of x w] by (cases "v = w") (auto dest: notin_set_remove1)
qed simp

lemma woken_held:
  assumes adv: "AdvanceWaitingQueue e1 fl1 = (e', fl', woken)" "entry_inv e1" "exclusive e1"
    and ws: "\<forall>x \<in> set (waitingQueue e1). regular pid x"
  shows "req_key ` set woken \<subseteq> req_key ` set (holders e')"
proof
  fix k assume "k \<in> req_key ` set woken"
  then obtain p where p: "p \<in> set woken" "k = req_key p" by blast
  note adv = AdvanceWaitingQueue_good [OF adv(2,3,1)]
  then have "p \<in> set (waitingQueue e1)" using p(1) by simp
  then have "\<not> IsOnlyWait p" using ws by (simp add: regular_def)
  then obtain h where "h \<in> set (holders e')" "Compare p h = 0" using adv p(1) by blast
  then show "k \<in> req_key ` set (holders e')" using p(2) by (simp add: Compare_key)
qed

lemma holder_keys_remove:
  assumes inv: "entry_inv e" and h: "h \<in> set (holders e)"
  shows "req_key ` set (remove1 h (holders e)) = req_key ` set (holders e) - {req_key h}"
proof -
  have inj: "inj_on req_key (set (holders e))"
    using granted.items_unique [OF entry_invD(1) [OF inv]] by (auto simp: inj_on_def Compare_key)
  have "set (remove1 h (holders e)) = set (holders e) - {h}"
    using granted.items_distinct [OF entry_invD(1) [OF inv]] by simp
  then show ?thesis using inj_on_image_set_diff [OF inj, of "set (holders e)" "{h}"] h by simp
qed

lemma waiter_keys_remove:
  assumes inv: "entry_inv e" and w: "w \<in> set (waitingQueue e)" "same_wait w r"
    and same: "\<And>x. x \<in> set (waitingQueue e) \<Longrightarrow> same_wait x r \<longleftrightarrow> req_key x = req_key r"
  shows "req_key ` set (remove1 w (waitingQueue e)) = req_key ` set (waitingQueue e) - {req_key r}"
proof (intro subset_antisym subsetI)
  fix k assume "k \<in> req_key ` set (remove1 w (waitingQueue e))"
  then obtain x where x: "x \<in> set (remove1 w (waitingQueue e))" "k = req_key x" by blast
  then have "\<not> same_wait x w" using sorted_remove1_same [OF entry_invD(5) [OF inv] w(1)] by blast
  then have "\<not> same_wait x r" using w(2) by (auto simp: same_wait_def IsSameRequester_def)
  then show "k \<in> req_key ` set (waitingQueue e) - {req_key r}" using same x notin_set_remove1 by fast
next
  fix k assume "k \<in> req_key ` set (waitingQueue e) - {req_key r}"
  then obtain x where "x \<in> set (waitingQueue e)" "k = req_key x" "x \<noteq> w" using same w by blast
  then show "k \<in> req_key ` set (remove1 w (waitingQueue e))" by (simp add: in_set_remove1)
qed

lemma dequeue_parts:
  assumes good: "entry_good e" and inj: "inj pid" and reg: "regular pid r"
    and all: "\<forall>x \<in> set (holders e) \<union> set (waitingQueue e). regular pid x"
    and deq: "DequeueLockRequest e r fl = (ok, e', fl', woken)"
  obtains hs ws where "set hs \<subseteq> set (holders e)" "req_key ` set hs = req_key ` set (holders e) - {req_key r}"
    "set ws \<subseteq> set (waitingQueue e)" "req_key ` set (waitingQueue e) - {req_key r} \<subseteq> req_key ` set ws"
    "req_key r \<in> req_key ` set (holders e) \<or> req_key r \<notin> req_key ` set ws"
    "ws = woken @ waitingQueue e'" "set hs \<subseteq> set (holders e')" "set (holders e') \<subseteq> set hs \<union> set woken"
    "req_key ` set woken \<subseteq> req_key ` set (holders e')"
    "sorted_wrt (\<lambda>a b. \<not> same_wait a b) ws"
proof -
  have inv: "entry_inv e" "exclusive e" using good by (auto simp: entry_good_def)
  have same: "same_wait x r \<longleftrightarrow> req_key x = req_key r" if "x \<in> set (waitingQueue e)" for x
    using regular_same(1) [OF inj _ reg] all that by blast
  show ?thesis
    using inv deq
  proof (cases rule: DequeueLockRequest_cases)
    case (held e1 fl1 h)
    note adv = AdvanceWaitingQueue_good [OF held(3,4,2)]
    have key: "req_key h = req_key r" using held(6) by (simp add: Compare_key)
    have ws: "waitingQueue e = woken @ waitingQueue e'" using adv held(8) by simp
    show ?thesis
    proof (rule that [OF _ _ subset_refl Diff_subset _ ws])
      show "set (holders e1) \<subseteq> set (holders e)" unfolding held(7) by (rule set_remove1_subset)
      show "req_key ` set (holders e1) = req_key ` set (holders e) - {req_key r}"
        unfolding held(7) using holder_keys_remove [OF inv(1) held(5)] by (simp only: key)
      show "req_key r \<in> req_key ` set (holders e) \<or> req_key r \<notin> req_key ` set (waitingQueue e)"
        using imageI [OF held(5), of req_key] unfolding key by (rule disjI1)
      show "req_key ` set woken \<subseteq> req_key ` set (holders e')"
        by (rule woken_held [OF held(2-4), where pid = pid]) (use all held(8) in simp)
    qed (use adv entry_invD(5) [OF inv(1)] in simp_all)
  next
    case (waiting e1 fl1 w)
    note adv = AdvanceWaitingQueue_good [OF waiting(3,4,2)]
    have none: "req_key r \<notin> req_key ` set (holders e)" using waiting(5) by (auto simp: Compare_key)
    note keys = waiter_keys_remove [OF inv(1) waiting(6,7) same]
    have ws: "remove1 w (waitingQueue e) = woken @ waitingQueue e'" using adv waiting(8) by simp
    show ?thesis
    proof (rule that [OF subset_refl _ set_remove1_subset _ _ ws])
      show "req_key ` set woken \<subseteq> req_key ` set (holders e')"
        by (rule woken_held [OF waiting(2-4), where pid = pid])
          (use all waiting(8) set_remove1_subset [of w "waitingQueue e"] in auto)
    qed (use adv waiting(9) none keys sorted_wrt_remove1 [OF entry_invD(5) [OF inv(1)]] in simp_all)
  next
    case missing
    then have "req_key r \<notin> req_key ` set (holders e)" "req_key r \<notin> req_key ` set (waitingQueue e)"
      using same by (auto simp: Compare_key)
    then show ?thesis by (intro that [of "holders e" "waitingQueue e"])
      (simp_all add: missing(2,3) entry_invD(5) [OF inv(1)])
  qed
qed

subsection \<open>The operations on the table\<close>

lemma all_regularD: "all_regular pid h \<Longrightarrow> \<forall>x \<in> set (holders (entry_at h t)) \<union> set (waitingQueue (entry_at h t)). regular pid x"
  unfolding all_regular_def holders_of_def waiters_of_def by blast

definition table_room :: "LockHashTable \<Rightarrow> LockTag \<Rightarrow> bool" where
  "table_room h t \<longleftrightarrow> room (entry_at h t)"

lemma table_room_code [code]:
  "table_room h t \<longleftrightarrow> int (length (holders (entry_at h t))) + int (length (waitingQueue (entry_at h t))) < 4294967295"
  by (simp add: table_room_def flip: of_nat_add)

lemma put_entry_keys:
  assumes inv: "table_inv h" and reg: "all_regular pid h" and e: "entry_good e" "tag_in e = t"
    and e_reg: "\<forall>x \<in> set (holders e) \<union> set (waitingQueue e). regular pid x" and h': "h' = put_entry t e part fl h"
  shows "table_inv h'" and "all_regular pid h'"
    and "held_keys h' = (held_keys h)(t := req_key ` set (holders e))"
    and "wait_keys h' = (wait_keys h)(t := req_key ` set (waitingQueue e))"
proof -
  note put = put_entry_spec [OF inv e, where part = part and fl = fl, folded h']
  show "table_inv h'" by (rule put(1))
  show "all_regular pid h'" using reg e_reg unfolding all_regular_def put(2,3) by simp
  show "held_keys h' = (held_keys h)(t := req_key ` set (holders e))"
    "wait_keys h' = (wait_keys h)(t := req_key ` set (waitingQueue e))"
    by (simp_all add: fun_eq_iff held_keys_def wait_keys_def put(2,3))
qed

lemma old_keys: "held_keys h t = req_key ` set (holders (entry_at h t))" "wait_keys h t = req_key ` set (waitingQueue (entry_at h t))"
  by (simp_all add: held_keys_def wait_keys_def holders_of_def waiters_of_def)

lemma LockRequestEnqueue_cases:
  assumes "LockRequestEnqueue enter_ok dup_ok (LockTagCache_new hash t) r info h = (res, h', info')"
  obtains (oom) "res = Inl LOCK_ERROR_OUT_OF_MEMORY" "h' = h"
  | (enq) part fl e' fl' where "EnqueueLockRequest dup_ok (entry_at h t) r fl info = (res, e', fl', info')"
      "h' = put_entry t e' part fl' h"
proof -
  let ?part = "hash t mod m_partitionNum h"
  obtain ret e' fl' i where enq: "EnqueueLockRequest dup_ok (entry_at h t) r (m_freeLists h ?part) info = (ret, e', fl', i)"
    by (metis prod_cases4)
  have "LockRequestEnqueue enter_ok dup_ok (LockTagCache_new hash t) r info h =
      (if map_of (m_lockTable h) t = None \<and> \<not> enter_ok then (Inl LOCK_ERROR_OUT_OF_MEMORY, h, info)
       else (ret, put_entry t e' ?part fl' h, i))"
    using enq unfolding LockRequestEnqueue_def Let_def entry_at_def cache_simps by simp
  then show ?thesis using assms that enq by (auto split: if_splits)
qed

lemma LockRequestEnqueue_spec:
  assumes inv: "table_inv h" and reg: "all_regular pid h" "regular pid r" and inj: "inj pid"
    and room: "table_room h t" and new: "req_key r \<notin> wait_keys h t"
    and enq: "LockRequestEnqueue enter_ok dup_ok (LockTagCache_new hash t) r info h = (res, h', info')"
  obtains (granted) "res = Inr ()" "table_inv h'" "all_regular pid h'"
      "held_keys h' = (held_keys h)(t := insert (req_key r) (held_keys h t))" "wait_keys h' = wait_keys h"
  | (waiting) "res = Inl LOCK_INFO_WAITING" "table_inv h'" "all_regular pid h'" "\<not> IsDontWait r"
      "held_keys h' = held_keys h" "wait_keys h' = (wait_keys h)(t := insert (req_key r) (wait_keys h t))"
  | (refused) c where "res = Inl c" "c \<noteq> LOCK_INFO_WAITING" "table_inv h'" "all_regular pid h'"
      "held_keys h' = held_keys h" "wait_keys h' = wait_keys h"
  using enq
proof (cases rule: LockRequestEnqueue_cases)
  case oom
  then show ?thesis using that(3) inv reg by simp
next
  case (enq part fl e' fl')
  let ?e = "entry_at h t"
  note good = entry_at_good [OF inv, of t] and room = room [unfolded table_room_def]
  have mode: "m_lockMode r \<noteq> DSTORE_LOCK_MODE_MAX" using reg by (simp add: regular_def)
  have e': "entry_good e'" "tag_in e' = t"
    using EnqueueLockRequest_good [OF good(1) mode room enq(1)] EnqueueLockRequest_tag [OF enq(1)] good(2) by simp_all
  have "\<not> same_wait w r" if "w \<in> set (waitingQueue ?e)" for w
    using new regular_same(1) [OF inj _ reg(2)] all_regularD [OF reg(1), of t] that
    unfolding old_keys by (metis UnI2 image_eqI)
  then have new: "\<not> (\<exists>w \<in> set (waitingQueue ?e). same_wait w r)" by blast
  note eff = EnqueueLockRequest_effect [OF good(1) reg(2) room enq(1) new]
  have e_reg: "\<forall>x \<in> set (holders e') \<union> set (waitingQueue e'). regular pid x" if "set (holders e') \<subseteq> insert r (set (holders ?e))"
      "set (waitingQueue e') \<subseteq> insert r (set (waitingQueue ?e))"
    using that all_regularD [OF reg(1), of t] reg(2) by blast
  note put = put_entry_keys [OF inv reg(1) e' e_reg enq(2)]
  consider (1) "res = Inr ()" | (2) "res = Inl LOCK_INFO_WAITING" | (3) c where "res = Inl c" "c \<noteq> LOCK_INFO_WAITING"
    by (cases res) auto
  then show ?thesis
  proof cases
    case 1
    note eff = eff(1) [OF 1]
    then have "req_key ` set (holders e') = insert (req_key r) (held_keys h t)"
      unfolding old_keys by (auto simp: Compare_key)
    moreover have "set (holders e') \<subseteq> insert r (set (holders ?e))" "set (waitingQueue e') \<subseteq> insert r (set (waitingQueue ?e))"
      using eff by auto
    note put = put [OF this]
    ultimately show ?thesis using that(1) [OF 1] eff put by (simp add: old_keys fun_upd_idem)
  next
    case 2
    note eff = eff(2) [OF 2]
    then have "set (holders e') \<subseteq> insert r (set (holders ?e))" "set (waitingQueue e') \<subseteq> insert r (set (waitingQueue ?e))"
      by auto
    note put = put [OF this]
    then show ?thesis using that(2) [OF 2] eff by (simp add: old_keys fun_upd_idem)
  next
    case 3
    note eff = eff(3) [OF 3]
    then have "set (holders e') \<subseteq> insert r (set (holders ?e))" "set (waitingQueue e') \<subseteq> insert r (set (waitingQueue ?e))"
      by auto
    note put = put [OF this]
    then show ?thesis using that(3) [OF 3] eff by (simp add: old_keys fun_upd_idem)
  qed
qed


lemma LockRequestDequeue_spec:
  assumes inv: "table_inv h" and reg: "all_regular pid h" "regular pid r" and inj: "inj pid"
    and deq: "LockRequestDequeue (LockTagCache_new hash t) r h = (ok, h', woken)"
  obtains W where "table_inv h'" "all_regular pid h'" "\<forall>x \<in> set woken. regular pid x"
    "held_keys h' = (held_keys h)(t := held_keys h t - {req_key r} \<union> req_key ` set woken)"
    "wait_keys h' = (wait_keys h)(t := W)" "W \<union> req_key ` set woken \<subseteq> wait_keys h t"
    "wait_keys h t - {req_key r} \<subseteq> W \<union> req_key ` set woken"
    "req_key r \<in> held_keys h t \<or> req_key r \<notin> W \<union> req_key ` set woken"
    "W \<inter> req_key ` set woken = {}"
proof (cases "map_of (m_lockTable h) t")
  case None
  then have "holders (entry_at h t) = []" "waitingQueue (entry_at h t) = []" by (simp_all add: entry_at_def)
  then have "held_keys h t = {}" "wait_keys h t = {}" by (simp_all add: old_keys)
  moreover have "h' = h" "woken = []" using deq None by (simp_all add: LockRequestDequeue_def)
  ultimately show ?thesis
    by (intro that [of "{}"]) (use inv reg in \<open>simp_all add: fun_upd_idem\<close>)
next
  case (Some e)
  let ?part = "hash t mod m_partitionNum h"
  have e: "entry_at h t = e" using Some by (simp add: entry_at_def)
  obtain fl e' fl' where d: "DequeueLockRequest e r fl = (ok, e', fl', woken)" "h' = put_entry t e' ?part fl' h"
    using deq Some by (auto simp: LockRequestDequeue_def Let_def split: prod.splits)
  note good = entry_at_good [OF inv, of t, unfolded e] and all = all_regularD [OF reg(1), of t, unfolded e]
  have e': "entry_good e'" "tag_in e' = t"
    using DequeueLockRequest_good [OF good(1) d(1)] DequeueLockRequest_tag [OF d(1)] good(2) by simp_all
  obtain hs ws where parts: "set hs \<subseteq> set (holders e)" "req_key ` set hs = req_key ` set (holders e) - {req_key r}"
    "set ws \<subseteq> set (waitingQueue e)" "req_key ` set (waitingQueue e) - {req_key r} \<subseteq> req_key ` set ws"
    "req_key r \<in> req_key ` set (holders e) \<or> req_key r \<notin> req_key ` set ws"
    "ws = woken @ waitingQueue e'" "set hs \<subseteq> set (holders e')" "set (holders e') \<subseteq> set hs \<union> set woken"
    "req_key ` set woken \<subseteq> req_key ` set (holders e')" "sorted_wrt (\<lambda>a b. \<not> same_wait a b) ws"
    by (rule dequeue_parts [OF good(1) inj reg(2) all d(1)])
  have ws: "set ws = set woken \<union> set (waitingQueue e')" using parts(6) by simp
  have e_reg: "\<forall>x \<in> set (holders e') \<union> set (waitingQueue e'). regular pid x"
    using parts(1,3,8) ws all by blast
  note put = put_entry_keys [OF inv reg(1) e' e_reg d(2)]
  have held: "req_key ` set (holders e') = held_keys h t - {req_key r} \<union> req_key ` set woken"
  proof -
    have "req_key ` set hs \<subseteq> req_key ` set (holders e')" "req_key ` set (holders e') \<subseteq> req_key ` set hs \<union> req_key ` set woken"
      using image_mono [OF parts(7), of req_key] image_mono [OF parts(8), of req_key] by (simp_all add: image_Un)
    then show ?thesis unfolding old_keys e parts(2) using parts(9) by (simp add: subset_antisym)
  qed
  show ?thesis
  proof (rule that [OF put(1,2) _ _ put(4)])
    show "\<forall>x \<in> set woken. regular pid x" using parts(3) ws all by blast
    show "held_keys h' = (held_keys h)(t := held_keys h t - {req_key r} \<union> req_key ` set woken)" using put(3) held by simp
    show "req_key ` set (waitingQueue e') \<union> req_key ` set woken \<subseteq> wait_keys h t"
      "wait_keys h t - {req_key r} \<subseteq> req_key ` set (waitingQueue e') \<union> req_key ` set woken"
      "req_key r \<in> held_keys h t \<or> req_key r \<notin> req_key ` set (waitingQueue e') \<union> req_key ` set woken"
      unfolding old_keys e using parts(3-5) ws by blast+
    show "req_key ` set (waitingQueue e') \<inter> req_key ` set woken = {}"
    proof (intro equals0I, elim IntE imageE)
      fix k a b
      assume x: "k = req_key a" "a \<in> set (waitingQueue e')" "k = req_key b" "b \<in> set woken"
      then have "\<not> same_wait b a" using parts(10) by (simp add: parts(6) sorted_wrt_append)
      moreover have "regular pid a" "regular pid b" using x(2,4) parts(3) ws all by blast+
      ultimately show False using regular_same(1) [OF inj, of b a] x(1,3) by simp
    qed
  qed
qed

text \<open>Conflicting locks in the table belong to one thread.\<close>

lemma held_keys_exclusive:
  assumes inv: "table_inv h" and reg: "all_regular pid h" and inj: "inj pid"
    and held: "(i, m) \<in> held_keys h t" "(j, n) \<in> held_keys h t" and conflict: "HasConflictWithMode m n"
  shows "i = j"
proof -
  obtain a where a: "a \<in> set (holders (entry_at h t))" "req_key a = (i, m)"
    using held(1) unfolding old_keys by (elim imageE) simp
  obtain b where b: "b \<in> set (holders (entry_at h t))" "req_key b = (j, n)"
    using held(2) unfolding old_keys by (elim imageE) simp
  have "regular pid a" "regular pid b" using all_regularD [OF reg, of t] a b by auto
  moreover have "IsSameRequester a b \<or> IsForceHold a \<or> IsForceHold b"
    using entry_at_good(1) [OF inv, of t] a b conflict by (auto simp: entry_good_def exclusive_def req_key_def)
  ultimately show ?thesis using regular_same(2) [OF inj, of a b] a(2) b(2) by (auto simp: regular_def req_key_def)
qed

lemma Initialize_table:
  "table_inv (LockHashTable_Initialize n)" "all_regular pid (LockHashTable_Initialize n)"
  "held_keys (LockHashTable_Initialize n) t = {}" "wait_keys (LockHashTable_Initialize n) t = {}"
  by (simp_all add: table_inv_def all_regular_def held_keys_def wait_keys_def holders_of_def waiters_of_def entry_at_def
      LockHashTable_Initialize_def)

end
