(* ===== verification/Table_Lock.thy ===== *)
theory Table_Lock
  imports Lock_Table_Inv
begin

text \<open>
  Table locks (\<open>TableLockMgr\<close> of \<open>src/lock/dstore_table_lock_mgr.cpp\<close> with \<open>LockInMainLockTable\<close> and
  \<open>UnlockInMainLockTable\<close> of \<open>src/lock/dstore_lock_mgr.cpp\<close>), for a server with the option
  \<open>enableLazyLock\<close> off. A thread takes a weak lock in its own table only (the fast path) while no
  strong lock is announced for the partition of the tag; a strong lock is announced, then the weak
  locks that all threads hold on the tag are moved to the main lock table, then it is requested
  there.

  Many threads run the calls at once. Each call is cut where the source gives up the latch it
  holds: the mutex of a thread's table, the mutex of the counts of strong locks, the latch of a
  partition of the main lock table. What a thread does between two cuts is one function on the
  shared state, and \<open>tl_step\<close> lets the threads take these steps in any order. \<open>tl_pc\<close> is where
  in a call a thread is, with the arguments and local variables it needs from there on. Failed
  assertions and panics of these calls and of the tables of the threads are \<open>None\<close>; those of the main
  lock table and its entries are the predicates of \<open>Lock_Asserts\<close>.

  A thread is named by the index of its core, which the iterator over all threads visits in the
  order of the list \<open>cores\<close>; \<open>pid\<close> is the thread identifier of a core. The statistics counters and
  reports to the wait-event monitor are left out.
\<close>

subsection \<open>State\<close>

datatype tl_pc =
    Idle
  | Marking LockTag LockMode bool
  | Transferring LockTag LockMode bool "(uint32 \<times> LockMode) list"
  | Entering LockTag LockMode bool
  | Waiting LockTag LockMode
  | Unmarking LockTag LockMode
  | Recording LockTag LockMode RetStatus
  | Leaving LockTag LockMode
  | LeavingUnmark LockTag LockMode
  | Forgetting LockTag LockMode
  | BatchLeaving LockTag LockMode
  | BatchUnmark LockTag LockMode

record tl_state =
  m_strongLocks :: FastPathStrongLockData
  main_table :: LockHashTable
  local_lock :: "uint32 \<Rightarrow> ThreadLocalLock"
  isWaiting :: "uint32 \<Rightarrow> bool"
  pc :: "uint32 \<Rightarrow> tl_pc"

definition tl_init :: "uint32 \<Rightarrow> tl_state" where
  "tl_init partitionNum =
     \<lparr>m_strongLocks = FastPathStrongLockData_new, main_table = LockHashTable_Initialize partitionNum,
      local_lock = (\<lambda>_. ThreadLocalLock_Initialize), isWaiting = (\<lambda>_. False), pc = (\<lambda>_. Idle)\<rparr>"

definition goto :: "uint32 \<Rightarrow> tl_pc \<Rightarrow> tl_state \<Rightarrow> tl_state" where
  "goto i c s = s\<lparr>pc := (pc s)(i := c)\<rparr>"

definition set_local :: "uint32 \<Rightarrow> ThreadLocalLock \<Rightarrow> tl_state \<Rightarrow> tl_state" where
  "set_local i l s = s\<lparr>local_lock := (local_lock s)(i := l)\<rparr>"

text \<open>\<open>LockRequest::WakeUp\<close> clears the flag of the thread that made the request.\<close>

definition WakeUp :: "LockRequest list \<Rightarrow> tl_state \<Rightarrow> tl_state" where
  "WakeUp woken s = s\<lparr>isWaiting := (\<lambda>i. isWaiting s i \<and> i \<notin> threadCoreIdx ` set woken)\<rparr>"

definition thread_request ::
    "(uint32 \<Rightarrow> uint64) \<Rightarrow> uint32 \<Rightarrow> LockMode \<Rightarrow> LockEnqueueMethod \<Rightarrow> LockRequest" where
  "thread_request pid i mode method =
     \<lparr>m_lockMode = mode, m_enqueueMethod = method, threadId = pid i, threadCoreIdx = i\<rparr>"

text \<open>The modes that announce themselves, because they conflict with weak modes.\<close>

definition announced :: "LockMode \<Rightarrow> bool" where
  "announced mode \<longleftrightarrow> mode > DSTORE_SHARE_UPDATE_EXCLUSIVE_LOCK"

subsection \<open>Acquiring\<close>

definition WeakLockAcquire_begin ::
    "(LockTag \<Rightarrow> uint32) \<Rightarrow> bool \<Rightarrow> uint32 \<Rightarrow> LockTag \<Rightarrow> LockMode \<Rightarrow> bool \<Rightarrow> tl_state \<Rightarrow> tl_state option" where
  "WeakLockAcquire_begin hash enter_ok i tag mode dontWait s = do {
     (ret, l) \<leftarrow> TryGrantByFastPath enter_ok (m_strongLocks s) (LockTagCache_new hash tag) mode TABLE_LOCK_MGR
                   (local_lock s i);
     Some (goto i (if ret = Inl LOCK_INFO_NOT_AVAIL then Entering tag mode dontWait else Idle) (set_local i l s)) }"

definition StrongLockAcquire_begin ::
    "(LockTag \<Rightarrow> uint32) \<Rightarrow> bool \<Rightarrow> uint32 \<Rightarrow> LockTag \<Rightarrow> LockMode \<Rightarrow> bool \<Rightarrow> tl_state \<Rightarrow> tl_state option" where
  "StrongLockAcquire_begin hash enter_ok i tag mode dontWait s = do {
     (ret, l) \<leftarrow> GrantIfAlreadyHold enter_ok (LockTagCache_new hash tag) mode TABLE_LOCK_MGR (local_lock s i);
     Some (goto i
       (if ret = Inl LOCK_INFO_NOT_AVAIL
        then (if announced mode then Marking tag mode dontWait else Entering tag mode dontWait) else Idle)
       (set_local i l s)) }"

definition LockTable_begin ::
    "(LockTag \<Rightarrow> uint32) \<Rightarrow> bool \<Rightarrow> uint32 \<Rightarrow> LockTag \<Rightarrow> LockMode \<Rightarrow> bool \<Rightarrow> tl_state \<Rightarrow> tl_state option" where
  "LockTable_begin hash enter_ok i tag mode dontWait s =
     (if mode < DSTORE_SHARE_UPDATE_EXCLUSIVE_LOCK
      then WeakLockAcquire_begin hash enter_ok i tag mode dontWait s
      else StrongLockAcquire_begin hash enter_ok i tag mode dontWait s)"

text \<open>
  The two loops of \<open>TransferWeakLocks\<close> and \<open>TransferAllModesForWeakLock\<close>: what is to be visited,
  thread by thread and mode by mode. One step visits one mode of one thread: reading its bit, the
  enqueue and clearing the bit happen under the mutex of that thread's table, so nobody else sees
  the bit in between. Steps of that thread between two modes, which its mutex excludes, are
  allowed here.
\<close>

definition weak_modes :: "LockMode list" where
  "weak_modes = [DSTORE_ACCESS_SHARE_LOCK, DSTORE_ROW_SHARE_LOCK, DSTORE_ROW_EXCLUSIVE_LOCK]"

definition transfer_list :: "uint32 list \<Rightarrow> (uint32 \<times> LockMode) list" where
  "transfer_list cores = List.product cores weak_modes"

definition TryMarkStrongLockByFastPath_begin ::
    "(LockTag \<Rightarrow> uint32) \<Rightarrow> uint32 list \<Rightarrow> uint32 \<Rightarrow> LockTag \<Rightarrow> LockMode \<Rightarrow> bool \<Rightarrow> tl_state \<Rightarrow> tl_state" where
  "TryMarkStrongLockByFastPath_begin hash cores i tag mode dontWait s =
     goto i (Transferring tag mode dontWait (transfer_list cores))
       (s\<lparr>m_strongLocks := MarkStrongLockInFastPath (hash tag) (m_strongLocks s)\<rparr>)"

definition zero_info :: LockErrorInfo where
  "zero_info =
     \<lparr>lockHolder = 0, isHolder = False, info_nodeId = 0, processTimelineId = 0, nodeTimelineId = 0,
      info_threadId = 0, info_lockMode = DSTORE_NO_LOCK\<rparr>"

definition TransferOneWeakLock ::
    "(LockTag \<Rightarrow> uint32) \<Rightarrow> bool \<Rightarrow> bool \<Rightarrow> LockTag \<Rightarrow> LockMode \<Rightarrow> uint64 \<Rightarrow> uint32 \<Rightarrow> LockHashTable
     \<Rightarrow> (LockErrorCode + unit) \<times> LockHashTable" where
  "TransferOneWeakLock hash enter_ok dup_ok tag mode tid core h =
     (case LockRequestEnqueue enter_ok dup_ok (LockTagCache_new hash tag)
        \<lparr>m_lockMode = mode, m_enqueueMethod = HOLD_BUT_DONT_WAIT, threadId = tid, threadCoreIdx = core\<rparr>
        (Some zero_info) h of (ret, h', _) \<Rightarrow> (ret, h'))"

definition TransferAllModesForWeakLock_step ::
    "(LockTag \<Rightarrow> uint32) \<Rightarrow> (uint32 \<Rightarrow> uint64) \<Rightarrow> bool \<Rightarrow> bool \<Rightarrow> uint32 \<Rightarrow> LockTag \<Rightarrow> LockMode \<Rightarrow> bool
     \<Rightarrow> uint32 \<Rightarrow> LockMode \<Rightarrow> (uint32 \<times> LockMode) list \<Rightarrow> tl_state \<Rightarrow> tl_state option" where
  "TransferAllModesForWeakLock_step hash pid enter_ok dup_ok i tag mode dontWait core lockMode rest s =
     (let next = goto i (Transferring tag mode dontWait rest) in
      case LockAndGetLocalLockEntry (LockTagCache_new hash tag) (local_lock s core) of
        None \<Rightarrow> Some (next s)
      | Some p \<Rightarrow> do {
          e \<leftarrow> deref (local_lock s core) p;
          fast \<leftarrow> IsGrantedByFastPath lockMode e;
          if \<not> fast then Some (next s)
          else case TransferOneWeakLock hash enter_ok dup_ok tag lockMode (pid core) core (main_table s) of
            (Inl _, h) \<Rightarrow> Some (goto i (Unmarking tag mode) (s\<lparr>main_table := h\<rparr>))
          | (Inr _, h) \<Rightarrow> do {
              e' \<leftarrow> ClearGrantedByFastPath lockMode e;
              Some (next (set_local core (store p e' (local_lock s core)) (s\<lparr>main_table := h\<rparr>))) } })"

text \<open>
  \<open>LockInMainLockTable\<close>, up to the wait. The thread sets its own flag before it enqueues; nobody
  clears it before the request is in the queue.
\<close>

definition after_failure :: "LockTag \<Rightarrow> LockMode \<Rightarrow> tl_pc" where
  "after_failure tag mode = (if announced mode then Unmarking tag mode else Recording tag mode DSTORE_FAIL)"

definition LockInMainLockTable_begin ::
    "(LockTag \<Rightarrow> uint32) \<Rightarrow> (uint32 \<Rightarrow> uint64) \<Rightarrow> bool \<Rightarrow> bool \<Rightarrow> LockErrorInfo option \<Rightarrow> uint32 \<Rightarrow> LockTag \<Rightarrow> LockMode
     \<Rightarrow> bool \<Rightarrow> tl_state \<Rightarrow> tl_state" where
  "LockInMainLockTable_begin hash pid enter_ok dup_ok info i tag mode dontWait s =
     (let s1 = (if dontWait then s else s\<lparr>isWaiting := (isWaiting s)(i := True)\<rparr>);
          request = thread_request pid i mode (if dontWait then HOLD_BUT_DONT_WAIT else HOLD_OR_WAIT) in
      case LockRequestEnqueue enter_ok dup_ok (LockTagCache_new hash tag) request info (main_table s1) of
        (ret, h, _) \<Rightarrow>
          goto i (case ret of
              Inr _ \<Rightarrow> Recording tag mode DSTORE_SUCC
            | Inl err \<Rightarrow> if err = LOCK_INFO_WAITING then Waiting tag mode else after_failure tag mode)
            (s1\<lparr>main_table := h\<rparr>))"

text \<open>The loop ends with success when the flag is cleared, or in one of the three failures.\<close>

definition LockInMainLockTable_woken :: "uint32 \<Rightarrow> LockTag \<Rightarrow> LockMode \<Rightarrow> tl_state \<Rightarrow> tl_state" where
  "LockInMainLockTable_woken i tag mode s =
     (if \<not> isWaiting s i then goto i (Recording tag mode DSTORE_SUCC) s else s)"

definition LockInMainLockTable_failed ::
    "(LockTag \<Rightarrow> uint32) \<Rightarrow> (uint32 \<Rightarrow> uint64) \<Rightarrow> uint32 \<Rightarrow> LockTag \<Rightarrow> LockMode \<Rightarrow> tl_state \<Rightarrow> tl_state" where
  "LockInMainLockTable_failed hash pid i tag mode s =
     (case LockRequestDequeue (LockTagCache_new hash tag) (thread_request pid i mode HOLD_OR_WAIT) (main_table s) of
        (_, h, woken) \<Rightarrow> goto i (after_failure tag mode) (WakeUp woken (s\<lparr>main_table := h\<rparr>)))"

definition unmark_to :: "(LockTag \<Rightarrow> uint32) \<Rightarrow> uint32 \<Rightarrow> LockTag \<Rightarrow> tl_pc \<Rightarrow> tl_state \<Rightarrow> tl_state option" where
  "unmark_to hash i tag c s = do {
     d \<leftarrow> UnmarkStrongLockInFastPath (hash tag) (m_strongLocks s);
     Some (goto i c (s\<lparr>m_strongLocks := d\<rparr>)) }"

definition LockTable_end ::
    "(LockTag \<Rightarrow> uint32) \<Rightarrow> uint32 \<Rightarrow> LockTag \<Rightarrow> LockMode \<Rightarrow> RetStatus \<Rightarrow> tl_state \<Rightarrow> tl_state option" where
  "LockTable_end hash i tag mode ret s = do {
     (_, l) \<leftarrow> RecordLockResult (LockTagCache_new hash tag) mode ret (local_lock s i);
     Some (goto i Idle (set_local i l s)) }"

subsection \<open>Releasing\<close>

definition WeakLockRelease_begin ::
    "(LockTag \<Rightarrow> uint32) \<Rightarrow> uint32 \<Rightarrow> LockTag \<Rightarrow> LockMode \<Rightarrow> tl_state \<Rightarrow> tl_state option" where
  "WeakLockRelease_begin hash i tag mode s = do {
     (ret, l) \<leftarrow> TryReleaseByFastPath (LockTagCache_new hash tag) mode (local_lock s i);
     Some (goto i (if ret = Inr () then Idle else Leaving tag mode) (set_local i l s)) }"

definition StrongLockRelease_begin ::
    "(LockTag \<Rightarrow> uint32) \<Rightarrow> uint32 \<Rightarrow> LockTag \<Rightarrow> LockMode \<Rightarrow> tl_state \<Rightarrow> tl_state option" where
  "StrongLockRelease_begin hash i tag mode s = do {
     (ret, l) \<leftarrow> UngrantIfGrantedMultipleTimes (LockTagCache_new hash tag) mode (local_lock s i);
     Some (goto i (if ret = Inr () then Idle else Leaving tag mode) (set_local i l s)) }"

definition Unlock_begin :: "(LockTag \<Rightarrow> uint32) \<Rightarrow> uint32 \<Rightarrow> LockTag \<Rightarrow> LockMode \<Rightarrow> tl_state \<Rightarrow> tl_state option" where
  "Unlock_begin hash i tag mode s =
     (if mode < DSTORE_SHARE_UPDATE_EXCLUSIVE_LOCK then WeakLockRelease_begin hash i tag mode s
      else StrongLockRelease_begin hash i tag mode s)"

text \<open>\<open>UnlockInMainLockTable\<close>, after which the thread goes on at \<open>c\<close>.\<close>

definition UnlockInMainLockTable ::
    "(LockTag \<Rightarrow> uint32) \<Rightarrow> (uint32 \<Rightarrow> uint64) \<Rightarrow> uint32 \<Rightarrow> LockTag \<Rightarrow> LockMode \<Rightarrow> tl_pc \<Rightarrow> tl_state \<Rightarrow> tl_state" where
  "UnlockInMainLockTable hash pid i tag mode c s =
     (case LockRequestDequeue (LockTagCache_new hash tag) (thread_request pid i mode HOLD_OR_WAIT) (main_table s) of
        (_, h, woken) \<Rightarrow> goto i c (WakeUp woken (s\<lparr>main_table := h\<rparr>)))"

definition Unlock_end :: "(LockTag \<Rightarrow> uint32) \<Rightarrow> uint32 \<Rightarrow> LockTag \<Rightarrow> LockMode \<Rightarrow> tl_state \<Rightarrow> tl_state option" where
  "Unlock_end hash i tag mode s = do {
     (_, l) \<leftarrow> RemoveLockRecord (LockTagCache_new hash tag) mode (local_lock s i);
     Some (goto i Idle (set_local i l s)) }"

definition WeakLockBatchRelease_begin ::
    "(LockTag \<Rightarrow> uint32) \<Rightarrow> uint32 \<Rightarrow> LockTag \<Rightarrow> LockMode \<Rightarrow> uint32 \<Rightarrow> tl_state \<Rightarrow> tl_state option" where
  "WeakLockBatchRelease_begin hash i tag mode unlockTimes s = do {
     (unlockFinished, l) \<leftarrow> BatchReleaseByFastPath (LockTagCache_new hash tag) mode unlockTimes (local_lock s i);
     Some (goto i (if unlockFinished then Idle else BatchLeaving tag mode) (set_local i l s)) }"

definition StrongLockBatchRelease_begin ::
    "(LockTag \<Rightarrow> uint32) \<Rightarrow> uint32 \<Rightarrow> LockTag \<Rightarrow> LockMode \<Rightarrow> uint32 \<Rightarrow> tl_state \<Rightarrow> tl_state option" where
  "StrongLockBatchRelease_begin hash i tag mode unlockTimes s = do {
     (needFurtherUnlock, l) \<leftarrow> BatchDecreaseGrantedCount (LockTagCache_new hash tag) mode unlockTimes (local_lock s i);
     Some (goto i (if needFurtherUnlock then BatchLeaving tag mode else Idle) (set_local i l s)) }"

definition BatchUnlock_begin ::
    "(LockTag \<Rightarrow> uint32) \<Rightarrow> uint32 \<Rightarrow> LockTag \<Rightarrow> LockMode \<Rightarrow> uint32 \<Rightarrow> tl_state \<Rightarrow> tl_state option" where
  "BatchUnlock_begin hash i tag mode unlockTimes s = do {
     guard (mode \<noteq> DSTORE_LOCK_MODE_MAX \<and> mode \<noteq> DSTORE_NO_LOCK);
     guard (unlockTimes > 0);
     if mode < DSTORE_SHARE_UPDATE_EXCLUSIVE_LOCK then WeakLockBatchRelease_begin hash i tag mode unlockTimes s
     else StrongLockBatchRelease_begin hash i tag mode unlockTimes s }"

subsection \<open>Steps\<close>

definition usable_mode :: "LockMode \<Rightarrow> bool" where
  "usable_mode m \<longleftrightarrow> m \<noteq> DSTORE_NO_LOCK \<and> m \<noteq> DSTORE_LOCK_MODE_MAX"

text \<open>
  The next step of the call a thread is in. The arguments say whether allocations succeed, where
  the caller wants to be told about a conflict, and whether a wait fails in this cycle.
\<close>

definition continue_call ::
    "(LockTag \<Rightarrow> uint32) \<Rightarrow> (uint32 \<Rightarrow> uint64) \<Rightarrow> uint32 list \<Rightarrow> bool \<Rightarrow> bool \<Rightarrow> LockErrorInfo option \<Rightarrow> bool
     \<Rightarrow> uint32 \<Rightarrow> tl_state \<Rightarrow> tl_state option" where
  "continue_call hash pid cores enter_ok dup_ok info wait_fails i s = (case pc s i of
     Idle \<Rightarrow> Some s
   | Marking t m dontWait \<Rightarrow> Some (TryMarkStrongLockByFastPath_begin hash cores i t m dontWait s)
   | Transferring t m dontWait todo \<Rightarrow>
       (case todo of
          [] \<Rightarrow> Some (goto i (Entering t m dontWait) s)
        | (j, k) # rest \<Rightarrow> TransferAllModesForWeakLock_step hash pid enter_ok dup_ok i t m dontWait j k rest s)
   | Entering t m dontWait \<Rightarrow> Some (LockInMainLockTable_begin hash pid enter_ok dup_ok info i t m dontWait s)
   | Waiting t m \<Rightarrow>
       Some (if wait_fails then LockInMainLockTable_failed hash pid i t m s else LockInMainLockTable_woken i t m s)
   | Unmarking t m \<Rightarrow> unmark_to hash i t (Recording t m DSTORE_FAIL) s
   | Recording t m ret \<Rightarrow> LockTable_end hash i t m ret s
   | Leaving t m \<Rightarrow>
       Some (UnlockInMainLockTable hash pid i t m (if announced m then LeavingUnmark t m else Forgetting t m) s)
   | LeavingUnmark t m \<Rightarrow> unmark_to hash i t (Forgetting t m) s
   | Forgetting t m \<Rightarrow> Unlock_end hash i t m s
   | BatchLeaving t m \<Rightarrow> Some (UnlockInMainLockTable hash pid i t m (if announced m then BatchUnmark t m else Idle) s)
   | BatchUnmark t m \<Rightarrow> unmark_to hash i t Idle s)"

text \<open>The counters the step increases are not at their limit.\<close>

definition call_room :: "(LockTag \<Rightarrow> uint32) \<Rightarrow> uint32 \<Rightarrow> tl_state \<Rightarrow> bool" where
  "call_room hash i s \<longleftrightarrow> (case pc s i of
     Marking t m _ \<Rightarrow> GetStrongLockCntInPartition (hash t) (m_strongLocks s) \<noteq> - 1
   | Transferring t m _ _ \<Rightarrow> table_room (main_table s) t
   | Entering t m _ \<Rightarrow> table_room (main_table s) t
   | Recording t m ret \<Rightarrow> ret = DSTORE_SUCC \<longrightarrow> grant_room hash (local_lock s i) t
   | _ \<Rightarrow> True)"

text \<open>
  A thread that is not in a call may begin one: to lock, to give back a lock it holds, once or
  several times. A thread in a call goes on.
\<close>

inductive tl_step ::
    "(LockTag \<Rightarrow> uint32) \<Rightarrow> (uint32 \<Rightarrow> uint64) \<Rightarrow> uint32 list \<Rightarrow> tl_state \<Rightarrow> tl_state \<Rightarrow> bool"
  for hash pid cores where
  lock: "i \<in> set cores \<Longrightarrow> pc s i = Idle \<Longrightarrow> built_tag t \<Longrightarrow> usable_mode m \<Longrightarrow>
    grant_room hash (local_lock s i) t \<Longrightarrow> LockTable_begin hash enter_ok i t m dontWait s = Some s' \<Longrightarrow>
    tl_step hash pid cores s s'"
| unlock: "i \<in> set cores \<Longrightarrow> pc s i = Idle \<Longrightarrow> usable_mode m \<Longrightarrow> hold_cnt hash (local_lock s i) t m \<noteq> 0 \<Longrightarrow>
    Unlock_begin hash i t m s = Some s' \<Longrightarrow> tl_step hash pid cores s s'"
| batch: "i \<in> set cores \<Longrightarrow> pc s i = Idle \<Longrightarrow> usable_mode m \<Longrightarrow> n \<le> hold_cnt hash (local_lock s i) t m \<Longrightarrow>
    n \<noteq> 0 \<Longrightarrow> BatchUnlock_begin hash i t m n s = Some s' \<Longrightarrow> tl_step hash pid cores s s'"
| further: "call_room hash i s \<Longrightarrow>
    continue_call hash pid cores enter_ok dup_ok info wait_fails i s = Some s' \<Longrightarrow> tl_step hash pid cores s s'"

inductive tl_reachable ::
    "(LockTag \<Rightarrow> uint32) \<Rightarrow> (uint32 \<Rightarrow> uint64) \<Rightarrow> uint32 list \<Rightarrow> uint32 \<Rightarrow> tl_state \<Rightarrow> bool"
  for hash pid cores n where
  start: "tl_reachable hash pid cores n (tl_init n)"
| next_step: "tl_reachable hash pid cores n s \<Longrightarrow> tl_step hash pid cores s s' \<Longrightarrow> tl_reachable hash pid cores n s'"

end
