(* ===== verification/Table_Lock_Inv.thy ===== *)
theory Table_Lock_Inv
  imports Table_Lock
begin

text \<open>
  The invariant of the table locks and that every step of \<open>tl_step\<close> keeps it. A lock of a thread
  is in one of two places, its own table alone (fast path) or the main lock table, too, and the
  calls pass through states in which the places disagree; the functions on \<open>tl_pc\<close> below say how.
  The invariant says, for every state a schedule can reach:

  \<^item> the tables of the threads are well formed and fit the call the thread is in (\<open>thread_ok\<close>);
  \<^item> the main lock table holds exactly the requests that the threads hold outside the fast path
    (\<open>held_exact\<close>) and queues exactly the requests of the threads that wait (\<open>waits_exact\<close>);
  \<^item> the counts of strong locks count the announcements (\<open>marks_counted\<close>);
  \<^item> while a strong lock is announced on a tag, the weak locks on the tag that are still on the fast
    path are those the announcing thread has yet to visit (\<open>weak_moved\<close>).

  Each step is proved to have a result, so that no assertion fails, and to keep the invariant.
\<close>

subsection \<open>What a thread holds in which place\<close>

text \<open>The lock a call is about.\<close>

fun acquires :: "tl_pc \<Rightarrow> (LockTag \<times> LockMode) option" where
  "acquires (Marking t m d) = Some (t, m)"
| "acquires (Transferring t m d todo) = Some (t, m)"
| "acquires (Entering t m d) = Some (t, m)"
| "acquires (Waiting t m) = Some (t, m)"
| "acquires (Unmarking t m) = Some (t, m)"
| "acquires (Recording t m ret) = Some (t, m)"
| "acquires c = None"

fun releases :: "tl_pc \<Rightarrow> (LockTag \<times> LockMode) option" where
  "releases (Leaving t m) = Some (t, m)"
| "releases (LeavingUnmark t m) = Some (t, m)"
| "releases (Forgetting t m) = Some (t, m)"
| "releases c = None"

fun batches :: "tl_pc \<Rightarrow> (LockTag \<times> LockMode) option" where
  "batches (BatchLeaving t m) = Some (t, m)"
| "batches (BatchUnmark t m) = Some (t, m)"
| "batches c = None"

text \<open>The calls that have announced the lock although the thread does not hold it.\<close>

fun marks_ahead :: "tl_pc \<Rightarrow> (LockTag \<times> LockMode) option" where
  "marks_ahead (Transferring t m d todo) = Some (t, m)"
| "marks_ahead (Entering t m d) = Some (t, m)"
| "marks_ahead (Waiting t m) = Some (t, m)"
| "marks_ahead (Unmarking t m) = Some (t, m)"
| "marks_ahead (Recording t m DSTORE_SUCC) = Some (t, m)"
| "marks_ahead (BatchLeaving t m) = Some (t, m)"
| "marks_ahead (BatchUnmark t m) = Some (t, m)"
| "marks_ahead c = None"

text \<open>The calls that hold the lock in the main lock table although the thread's table does not say so.\<close>

fun holds_ahead :: "bool \<Rightarrow> tl_pc \<Rightarrow> (LockTag \<times> LockMode) option" where
  "holds_ahead w (Waiting t m) = (if w then None else Some (t, m))"
| "holds_ahead w (Recording t m DSTORE_SUCC) = Some (t, m)"
| "holds_ahead w (BatchLeaving t m) = Some (t, m)"
| "holds_ahead w c = None"

text \<open>The calls that have given up the lock although the thread's table still names it.\<close>

fun left :: "tl_pc \<Rightarrow> (LockTag \<times> LockMode) option" where
  "left (LeavingUnmark t m) = Some (t, m)"
| "left (Forgetting t m) = Some (t, m)"
| "left c = None"

fun only_announced :: "tl_pc \<Rightarrow> LockMode option" where
  "only_announced (Marking t m d) = Some m"
| "only_announced (Transferring t m d todo) = Some m"
| "only_announced (Unmarking t m) = Some m"
| "only_announced (LeavingUnmark t m) = Some m"
| "only_announced (BatchUnmark t m) = Some m"
| "only_announced c = None"

fun pending :: "tl_pc \<Rightarrow> LockTag \<Rightarrow> LockMode \<Rightarrow> (uint32 \<times> LockMode) set" where
  "pending (Transferring t' m' d todo) t m = (if t' = t \<and> m' = m then set todo else {})"
| "pending c t m = {}"

definition in_main :: "(LockTag \<Rightarrow> LockMode \<Rightarrow> uint32) \<Rightarrow> (LockTag \<Rightarrow> LockMode \<Rightarrow> bool) \<Rightarrow> bool \<Rightarrow> tl_pc \<Rightarrow> LockTag \<Rightarrow> LockMode \<Rightarrow> bool" where
  "in_main c f w p t m \<longleftrightarrow> c t m \<noteq> 0 \<and> \<not> f t m \<and> left p \<noteq> Some (t, m) \<or> holds_ahead w p = Some (t, m)"

definition has_mark :: "(LockTag \<Rightarrow> LockMode \<Rightarrow> uint32) \<Rightarrow> tl_pc \<Rightarrow> LockTag \<Rightarrow> LockMode \<Rightarrow> bool" where
  "has_mark c p t m \<longleftrightarrow> announced m \<and> (marks_ahead p = Some (t, m) \<or> c t m \<noteq> 0 \<and> p \<noteq> Forgetting t m)"

definition thread_ok :: "(LockTag \<Rightarrow> uint32) \<Rightarrow> uint32 set \<Rightarrow> uint32 \<Rightarrow> ThreadLocalLock \<Rightarrow> tl_pc \<Rightarrow> bool" where
  "thread_ok hash cores i l p \<longleftrightarrow>
     local_inv hash l \<and> m_backupWaitLock l = None \<and> \<not> lockScanned (m_waitingInfo l) \<and>
     (i \<notin> cores \<longrightarrow> p = Idle \<and> (\<forall>t m. hold_cnt hash l t m = 0)) \<and>
     (\<forall>t m. acquires p = Some (t, m) \<longrightarrow> built_tag t \<and> usable_mode m \<and> waits_for_lock hash l t m \<and> hold_cnt hash l t m = 0) \<and>
     (\<forall>t m. releases p = Some (t, m) \<longrightarrow> built_tag t \<and> usable_mode m \<and> waits_for_unlock hash l t \<and>
        hold_cnt hash l t m = 1 \<and> \<not> hold_fast hash l t m) \<and>
     (\<forall>t m. batches p = Some (t, m) \<longrightarrow> built_tag t \<and> usable_mode m \<and> hold_cnt hash l t m = 0) \<and>
     (\<forall>m. only_announced p = Some m \<longrightarrow> announced m) \<and>
     (\<forall>t m. \<forall>(j, k) \<in> pending p t m. weak_mode k) \<and>
     (\<forall>t m. hold_cnt hash l t m \<noteq> 0 \<longrightarrow> usable_mode m)"

abbreviation main_at :: "(LockTag \<Rightarrow> uint32) \<Rightarrow> tl_state \<Rightarrow> uint32 \<Rightarrow> LockTag \<Rightarrow> LockMode \<Rightarrow> bool" where
  "main_at hash s i \<equiv> in_main (hold_cnt hash (local_lock s i)) (hold_fast hash (local_lock s i)) (isWaiting s i) (pc s i)"

abbreviation mark_at :: "(LockTag \<Rightarrow> uint32) \<Rightarrow> tl_state \<Rightarrow> uint32 \<Rightarrow> LockTag \<Rightarrow> LockMode \<Rightarrow> bool" where
  "mark_at hash s i \<equiv> has_mark (hold_cnt hash (local_lock s i)) (pc s i)"

abbreviation part_of :: "(LockTag \<Rightarrow> uint32) \<Rightarrow> LockTag \<Rightarrow> uint32" where
  "part_of hash t \<equiv> GetStrongLockHashPartition (hash t)"

text \<open>A mark stands for good once the weak locks have been moved; a failed call takes it back.\<close>

definition firm :: "(LockTag \<Rightarrow> LockMode \<Rightarrow> uint32) \<Rightarrow> tl_pc \<Rightarrow> LockTag \<Rightarrow> LockMode \<Rightarrow> bool" where
  "firm c p t m \<longleftrightarrow> has_mark c p t m \<and> p \<noteq> Unmarking t m"

abbreviation firm_at :: "(LockTag \<Rightarrow> uint32) \<Rightarrow> tl_state \<Rightarrow> uint32 \<Rightarrow> LockTag \<Rightarrow> LockMode \<Rightarrow> bool" where
  "firm_at hash s i \<equiv> firm (hold_cnt hash (local_lock s i)) (pc s i)"

definition marks_counted :: "(LockTag \<Rightarrow> uint32) \<Rightarrow> (uint32 \<times> LockTag \<times> LockMode) set \<Rightarrow> FastPathStrongLockData \<Rightarrow> bool" where
  "marks_counted hash M d \<longleftrightarrow> finite M \<and> (\<forall>q. unat (counts d q) = card {x \<in> M. part_of hash (fst (snd x)) = q})"

definition marks :: "(LockTag \<Rightarrow> uint32) \<Rightarrow> tl_state \<Rightarrow> (uint32 \<times> LockTag \<times> LockMode) set" where
  "marks hash s = {(i, t, m). mark_at hash s i t m}"

definition threads_ok :: "(LockTag \<Rightarrow> uint32) \<Rightarrow> uint32 list \<Rightarrow> tl_state \<Rightarrow> bool" where
  "threads_ok hash cores s \<longleftrightarrow> (\<forall>i. thread_ok hash (set cores) i (local_lock s i) (pc s i))"

definition held_exact :: "(LockTag \<Rightarrow> uint32) \<Rightarrow> tl_state \<Rightarrow> bool" where
  "held_exact hash s \<longleftrightarrow> (\<forall>i t m. (i, m) \<in> held_keys (main_table s) t \<longleftrightarrow> main_at hash s i t m)"

definition waits_exact :: "tl_state \<Rightarrow> bool" where
  "waits_exact s \<longleftrightarrow> (\<forall>i t m. (i, m) \<in> wait_keys (main_table s) t \<longleftrightarrow> pc s i = Waiting t m \<and> isWaiting s i)"

definition weak_moved :: "(LockTag \<Rightarrow> uint32) \<Rightarrow> tl_state \<Rightarrow> bool" where
  "weak_moved hash s \<longleftrightarrow>
     (\<forall>i t m j k. firm_at hash s i t m \<longrightarrow> hold_fast hash (local_lock s j) t k \<longrightarrow> (j, k) \<in> pending (pc s i) t m)"

definition tl_inv :: "(LockTag \<Rightarrow> uint32) \<Rightarrow> (uint32 \<Rightarrow> uint64) \<Rightarrow> uint32 list \<Rightarrow> tl_state \<Rightarrow> bool" where
  "tl_inv hash pid cores s \<longleftrightarrow>
     threads_ok hash cores s \<and> table_inv (main_table s) \<and> all_regular pid (main_table s) \<and>
     held_exact hash s \<and> waits_exact s \<and> marks_counted hash (marks hash s) (m_strongLocks s) \<and> weak_moved hash s"

lemma tl_invD:
  assumes "tl_inv hash pid cores s"
  shows "thread_ok hash (set cores) i (local_lock s i) (pc s i)" and "table_inv (main_table s)"
    and "all_regular pid (main_table s)"
    and "(i, m) \<in> held_keys (main_table s) t \<longleftrightarrow> main_at hash s i t m"
    and "(i, m) \<in> wait_keys (main_table s) t \<longleftrightarrow> pc s i = Waiting t m \<and> isWaiting s i"
    and "marks_counted hash (marks hash s) (m_strongLocks s)"
    and "firm_at hash s i t m \<Longrightarrow> hold_fast hash (local_lock s j) t k \<Longrightarrow> (j, k) \<in> pending (pc s i) t m"
  using assms unfolding tl_inv_def threads_ok_def held_exact_def waits_exact_def weak_moved_def by blast+

lemma thread_okD:
  assumes "thread_ok hash C i l p"
  shows "local_inv hash l" and "m_backupWaitLock l = None" and "\<not> lockScanned (m_waitingInfo l)"
    and "i \<notin> C \<Longrightarrow> p = Idle" and "i \<notin> C \<Longrightarrow> hold_cnt hash l t m = 0"
    and "acquires p = Some (t, m) \<Longrightarrow> built_tag t \<and> usable_mode m \<and> waits_for_lock hash l t m \<and> hold_cnt hash l t m = 0"
    and "releases p = Some (t, m) \<Longrightarrow> built_tag t \<and> usable_mode m \<and> waits_for_unlock hash l t \<and>
        hold_cnt hash l t m = 1 \<and> \<not> hold_fast hash l t m"
    and "batches p = Some (t, m) \<Longrightarrow> built_tag t \<and> usable_mode m \<and> hold_cnt hash l t m = 0"
    and "only_announced p = Some m \<Longrightarrow> announced m"
    and "hold_cnt hash l t m \<noteq> 0 \<Longrightarrow> usable_mode m"
    and "(j, k) \<in> pending p t m \<Longrightarrow> weak_mode k"
  using assms unfolding thread_ok_def by blast+

subsection \<open>The counts of strong locks\<close>

lemma marks_counted_insert:
  assumes counted: "marks_counted hash M d" and new: "(i, t, m) \<notin> M"
    and room: "GetStrongLockCntInPartition (hash t) d \<noteq> - 1"
  shows "marks_counted hash (insert (i, t, m) M) (MarkStrongLockInFastPath (hash t) d)"
proof -
  have fin: "finite M" using counted by (simp add: marks_counted_def)
  have "{x \<in> insert (i, t, m) M. part_of hash (fst (snd x)) = q} =
      (if part_of hash t = q then insert (i, t, m) else (\<lambda>A. A)) {x \<in> M. part_of hash (fst (snd x)) = q}" for q
    by auto
  moreover have "unat (counts d (part_of hash t) + 1) = Suc (unat (counts d (part_of hash t)))"
    using room by (intro unat_plus_1) (simp add: GetStrongLockCntInPartition_def)
  ultimately show ?thesis
    using counted new fin by (simp add: marks_counted_def MarkStrongLockInFastPath_def Let_def)
qed

lemma marks_counted_remove:
  assumes counted: "marks_counted hash M d" and old: "(i, t, m) \<in> M"
  obtains d' where "UnmarkStrongLockInFastPath (hash t) d = Some d'" "marks_counted hash (M - {(i, t, m)}) d'"
proof -
  let ?q = "part_of hash t"
  have fin: "finite M" using counted by (simp add: marks_counted_def)
  have eq: "{x \<in> M - {(i, t, m)}. part_of hash (fst (snd x)) = q} =
      {x \<in> M. part_of hash (fst (snd x)) = q} - (if q = ?q then {(i, t, m)} else {})" for q
    by auto
  have "card {x \<in> M. part_of hash (fst (snd x)) = ?q} > 0"
    using fin old by (auto simp: card_gt_0_iff)
  then have pos: "unat (counts d ?q) > 0" using counted by (simp add: marks_counted_def)
  then have gt: "counts d ?q > 0" by (simp add: word_gt_0 unat_gt_0)
  have sub: "unat (counts d ?q - 1) = unat (counts d ?q) - 1"
    using pos by (simp add: unat_minus_one unat_gt_0)
  show ?thesis
  proof (rule that)
    show "UnmarkStrongLockInFastPath (hash t) d = Some (d\<lparr>counts := (counts d)(?q := counts d ?q - 1)\<rparr>)"
      using gt by (simp add: UnmarkStrongLockInFastPath_def guard_def Let_def)
    have "unat (((counts d)(?q := counts d ?q - 1)) q) = card {x \<in> M - {(i, t, m)}. part_of hash (fst (snd x)) = q}" for q
      using counted old sub unfolding eq marks_counted_def by (cases "q = ?q") (simp_all add: card_Diff_singleton)
    then show "marks_counted hash (M - {(i, t, m)}) (d\<lparr>counts := (counts d)(?q := counts d ?q - 1)\<rparr>)"
      using fin by (simp add: marks_counted_def)
  qed
qed

lemma marks_counted_zero:
  assumes counted: "marks_counted hash M d" and zero: "GetStrongLockCntInPartition (hash t) d = 0"
  shows "(i, t, m) \<notin> M"
proof
  assume old: "(i, t, m) \<in> M"
  have "finite M" "card {x \<in> M. part_of hash (fst (snd x)) = part_of hash t} = 0"
    using counted zero unfolding marks_counted_def GetStrongLockCntInPartition_def by (blast, metis unat_0)
  then show False using old by auto
qed

subsection \<open>Kinds of steps\<close>

lemmas state_simps [simp] = goto_def set_local_def

fun plain :: "tl_pc \<Rightarrow> bool" where
  "plain (Waiting t m) = False"
| "plain (Transferring t m d todo) = False"
| "plain (Unmarking t m) = False"
| "plain c = True"

lemma plainD: "plain p \<Longrightarrow> p \<noteq> Waiting t m" "plain p \<Longrightarrow> p \<noteq> Unmarking t m" "plain p \<Longrightarrow> pending p t m = {}"
  by (cases p; simp)+

text \<open>A thread changes its own table.\<close>

lemma local_step:
  assumes inv: "tl_inv hash pid cores s" and ok: "thread_ok hash (set cores) i l p" and pc: "plain (pc s i)" "plain p"
    and main: "\<And>t m. in_main (hold_cnt hash l) (hold_fast hash l) (isWaiting s i) p t m = main_at hash s i t m"
    and mark: "\<And>t m. has_mark (hold_cnt hash l) p t m = mark_at hash s i t m"
    and fast: "\<And>t k. hold_fast hash l t k \<Longrightarrow> hold_fast hash (local_lock s i) t k \<or> (\<forall>j m. \<not> mark_at hash s j t m)"
  shows "tl_inv hash pid cores (goto i p (set_local i l s))"
proof -
  let ?s = "goto i p (set_local i l s)"
  have marked: "mark_at hash ?s j t m = mark_at hash s j t m" for j t m using mark by simp
  then have "marks hash ?s = marks hash s" by (simp add: marks_def)
  moreover have "weak_moved hash ?s"
    unfolding weak_moved_def
  proof (intro allI impI)
    fix a t m j k
    assume f: "firm_at hash ?s a t m" "hold_fast hash (local_lock ?s j) t k"
    have a: "firm_at hash s a t m" using f(1) marked [of a t m] plainD [OF pc(1)] unfolding firm_def by (auto split: if_splits)
    have "hold_fast hash (local_lock s j) t k"
      using f(2) fast [of t k] a unfolding firm_def by (auto split: if_splits)
    then show "(j, k) \<in> pending (pc ?s a) t m"
      using tl_invD(7) [OF inv a] plainD(3) [OF pc(1)] by (cases "a = i") auto
  qed
  moreover have "threads_ok hash cores ?s" using tl_invD(1) [OF inv] ok by (simp add: threads_ok_def)
  moreover have "held_exact hash ?s" using tl_invD(4) [OF inv] main by (simp add: held_exact_def)
  moreover have "waits_exact ?s" using tl_invD(5) [OF inv] plainD(1) [OF pc(1)] plainD(1) [OF pc(2)] by (auto simp: waits_exact_def)
  ultimately show ?thesis using tl_invD(2,3,6) [OF inv] unfolding tl_inv_def by simp
qed

text \<open>A thread goes on, and the counts of strong locks may change.\<close>

lemma tl_pc_step:
  assumes inv: "tl_inv hash pid cores s" and ok: "thread_ok hash (set cores) i (local_lock s i) p"
    and main: "\<And>t m. in_main (hold_cnt hash (local_lock s i)) (hold_fast hash (local_lock s i)) (isWaiting s i) p t m = main_at hash s i t m"
    and wait: "\<And>t m. isWaiting s i \<Longrightarrow> p = Waiting t m \<longleftrightarrow> pc s i = Waiting t m"
    and counted: "marks_counted hash (marks hash (goto i p s)) d"
    and moved: "\<And>t m j k. firm (hold_cnt hash (local_lock s i)) p t m \<Longrightarrow> hold_fast hash (local_lock s j) t k \<Longrightarrow>
      (j, k) \<in> pending p t m"
  shows "tl_inv hash pid cores (goto i p (s\<lparr>m_strongLocks := d\<rparr>))"
proof -
  let ?s = "goto i p (s\<lparr>m_strongLocks := d\<rparr>)"
  have "weak_moved hash ?s"
    using tl_invD(7) [OF inv] moved by (simp add: weak_moved_def)
  moreover have "marks hash ?s = marks hash (goto i p s)" by (simp add: marks_def)
  moreover have "threads_ok hash cores ?s" using tl_invD(1) [OF inv] ok by (simp add: threads_ok_def)
  moreover have "held_exact hash ?s" using tl_invD(4) [OF inv] main by (simp add: held_exact_def)
  moreover have "(j, m) \<in> wait_keys (main_table ?s) t \<longleftrightarrow> pc ?s j = Waiting t m \<and> isWaiting ?s j" for j t m
    using tl_invD(5) [OF inv, of j m t] wait [of t m] by (cases "j = i") auto
  then have "waits_exact ?s" unfolding waits_exact_def by simp
  ultimately show ?thesis using tl_invD(2,3) [OF inv] counted unfolding tl_inv_def by simp
qed

text \<open>A thread goes on, and the main lock table changes.\<close>

lemma table_step:
  assumes inv: "tl_inv hash pid cores s" and ok: "thread_ok hash (set cores) i (local_lock s i) p"
    and h: "table_inv h" "all_regular pid h" and s': "s' = goto i p (s\<lparr>isWaiting := w, main_table := h\<rparr>)"
    and exact: "held_exact hash s'" "waits_exact s'"
    and mark: "\<And>t m. has_mark (hold_cnt hash (local_lock s i)) p t m = mark_at hash s i t m"
    and pc: "\<And>t m. pc s i \<noteq> Unmarking t m" "\<And>t m. pending (pc s i) t m = {}"
  shows "tl_inv hash pid cores s'"
proof -
  have view: "local_lock s' = local_lock s" "pc s' = (pc s)(i := p)" "m_strongLocks s' = m_strongLocks s" "main_table s' = h"
    by (simp_all add: s')
  have marked: "mark_at hash s' a t m = mark_at hash s a t m" for a t m
    unfolding view(1,2) using mark [of t m] by (cases "a = i") simp_all
  have "weak_moved hash s'"
    unfolding weak_moved_def
  proof (intro allI impI)
    fix a t m j k
    assume f: "firm_at hash s' a t m" "hold_fast hash (local_lock s' j) t k"
    have "mark_at hash s a t m" using f(1) marked [of a t m] unfolding firm_def by simp
    moreover have "pc s a \<noteq> Unmarking t m"
      using f(1) pc(1) unfolding firm_def view(2) by (cases "a = i") simp_all
    ultimately have "(j, k) \<in> pending (pc s a) t m"
      using tl_invD(7) [OF inv, of a t m j k] f(2) unfolding firm_def view(1) by simp
    then show "(j, k) \<in> pending (pc s' a) t m" unfolding view(2) using pc(2) by (cases "a = i") simp_all
  qed
  moreover have "marks hash s' = marks hash s" unfolding marks_def marked ..
  moreover have "threads_ok hash cores s'" using tl_invD(1) [OF inv] ok by (simp add: threads_ok_def view)
  ultimately show ?thesis using tl_invD(6) [OF inv] h exact unfolding tl_inv_def by (simp add: view)
qed

lemma thread_ok_move:
  assumes "thread_ok hash C i l p" and "p \<noteq> Idle" and "acquires p' = acquires p" "releases p' = releases p"
    "batches p' = batches p" and "\<And>m. only_announced p' = Some m \<Longrightarrow> announced m"
    and "\<And>t m. \<forall>(j, k) \<in> pending p' t m. weak_mode k"
  shows "thread_ok hash C i l p'"
  using assms(1,2,6,7) unfolding thread_ok_def assms(3-5) by simp

lemma in_main_Waiting [simp]:
  "in_main c f w (Waiting t' m') t m \<longleftrightarrow> c t m \<noteq> 0 \<and> \<not> f t m \<or> \<not> w \<and> t' = t \<and> m' = m"
  by (simp add: in_main_def)

lemma request_regular:
  assumes "usable_mode m" and "e = HOLD_OR_WAIT \<or> e = HOLD_BUT_DONT_WAIT"
  shows "regular pid (thread_request pid i m e)" and "req_key (thread_request pid i m e) = (i, m)"
  using assms by (auto simp: req_key_def thread_request_def regular_def usable_mode_def IsOnlyWait_def IsForceHold_def)

subsection \<open>Steps on the main lock table\<close>

text \<open>Giving up a lock or a wait.\<close>

lemma dequeue_step:
  assumes inv: "tl_inv hash pid cores s" and inj: "inj pid" and usable: "usable_mode m"
    and deq: "LockRequestDequeue (LockTagCache_new hash t) (thread_request pid i m HOLD_OR_WAIT) (main_table s) = (found, h, woken)"
    and ok: "thread_ok hash (set cores) i (local_lock s i) p"
    and pc: "\<And>u n. p \<noteq> Waiting u n" "\<And>u n. pc s i \<noteq> Unmarking u n" "\<And>u n. pending (pc s i) u n = {}"
      "\<And>u n. pc s i = Waiting u n \<Longrightarrow> u = t \<and> n = m \<and> hold_cnt hash (local_lock s i) t m = 0"
    and mark: "\<And>u n. has_mark (hold_cnt hash (local_lock s i)) p u n = mark_at hash s i u n"
    and main: "\<And>u n. in_main (hold_cnt hash (local_lock s i)) (hold_fast hash (local_lock s i)) (isWaiting s i) p u n \<longleftrightarrow>
      main_at hash s i u n \<and> (u, n) \<noteq> (t, m)"
  shows "tl_inv hash pid cores (goto i p (WakeUp woken (s\<lparr>main_table := h\<rparr>)))"
proof -
  let ?r = "thread_request pid i m HOLD_OR_WAIT" and ?s = "goto i p (WakeUp woken (s\<lparr>main_table := h\<rparr>))"
  define K where "K = req_key ` set woken"
  note req = request_regular [OF usable disjI1 [OF refl], where pid = pid and i = i]
  obtain W where d: "table_inv h" "all_regular pid h"
    "held_keys h = (held_keys (main_table s))(t := held_keys (main_table s) t - {(i, m)} \<union> K)"
    "wait_keys h = (wait_keys (main_table s))(t := W)" "W \<union> K \<subseteq> wait_keys (main_table s) t"
    "wait_keys (main_table s) t - {(i, m)} \<subseteq> W \<union> K"
    "(i, m) \<in> held_keys (main_table s) t \<or> (i, m) \<notin> W \<union> K" "W \<inter> K = {}"
    by (rule LockRequestDequeue_spec [OF tl_invD(2,3) [OF inv] req(1) inj deq, unfolded req(2), folded K_def])
  have woken: "k \<in> threadCoreIdx ` set woken \<longleftrightarrow> (\<exists>n. (k, n) \<in> K)" for k
    unfolding K_def by (auto simp: req_key_def image_iff)
  have waiting: "pc s k = Waiting t n" "isWaiting s k" if "(k, n) \<in> W \<union> K" for k n
    using that d(5) tl_invD(5) [OF inv, of k n t] by blast+
  have own: "(i, n) \<notin> W \<union> K" for n
  proof
    assume x: "(i, n) \<in> W \<union> K"
    then have "n = m" "hold_cnt hash (local_lock s i) t m = 0" using waiting(1) pc(4) by blast+
    then have "(i, m) \<notin> held_keys (main_table s) t" using waiting [OF x] tl_invD(4) [OF inv, of i m t] by simp
    then show False using d(7) x \<open>n = m\<close> by simp
  qed
  define w where "w k \<longleftrightarrow> isWaiting s k \<and> (\<forall>n. (k, n) \<notin> K)" for k
  have s': "?s = goto i p (s\<lparr>isWaiting := w, main_table := h\<rparr>)"
    by (simp add: WakeUp_def woken w_def fun_eq_iff)
  then have view: "local_lock ?s = local_lock s" "pc ?s = (pc s)(i := p)" "isWaiting ?s = w" "main_table ?s = h" by simp_all
  have "held_exact hash ?s"
    unfolding held_exact_def
  proof (intro allI)
    fix k u n
    have old: "(k, n) \<in> held_keys h u \<longleftrightarrow>
        main_at hash s k u n \<and> (u = t \<longrightarrow> (k, n) \<noteq> (i, m)) \<or> u = t \<and> (k, n) \<in> K"
      using tl_invD(4) [OF inv, of k n u] by (auto simp: d(3))
    consider "k = i" | "k \<noteq> i" "\<forall>n. (k, n) \<notin> K" | n0 where "k \<noteq> i" "(k, n0) \<in> K" by blast
    then show "(k, n) \<in> held_keys (main_table ?s) u \<longleftrightarrow> main_at hash ?s k u n"
    proof cases
      case 1
      then show ?thesis using own main [of u n] unfolding view old by (auto simp: w_def)
    next
      case 2
      then show ?thesis unfolding view old by (auto simp: w_def)
    next
      case 3
      note v = waiting [OF UnI2 [OF 3(2)]]
      have "(k, n) \<in> K \<longleftrightarrow> n = n0" using 3(2) waiting [of k n] v by auto
      then show ?thesis using 3 v unfolding view old by (auto simp: w_def)
    qed
  qed
  moreover have "waits_exact ?s"
    unfolding waits_exact_def
  proof (intro allI)
    fix k u n
    have here: "(k, n) \<in> W \<longleftrightarrow> pc s k = Waiting t n \<and> w k" if "k \<noteq> i"
    proof
      assume x: "(k, n) \<in> W"
      have "(k, n') \<notin> K" for n' using waiting(1) [of k n] waiting(1) [of k n'] x d(8) by auto
      then show "pc s k = Waiting t n \<and> w k" using waiting [of k n] x by (simp add: w_def)
    next
      assume x: "pc s k = Waiting t n \<and> w k"
      then have "(k, n) \<in> wait_keys (main_table s) t - {(i, m)}" using tl_invD(5) [OF inv, of k n t] that by (simp add: w_def)
      then show "(k, n) \<in> W" using d(6) x by (auto simp: w_def)
    qed
    have away: "w k = isWaiting s k" if "u \<noteq> t" "pc s k = Waiting u n"
      using that waiting(1) [of k] unfolding w_def by auto
    have "(i, n) \<notin> wait_keys h u"
      using own [of n] pc(4) [of u n] tl_invD(5) [OF inv, of i n u] by (cases "u = t") (auto simp: d(4))
    then show "(k, n) \<in> wait_keys (main_table ?s) u \<longleftrightarrow> pc ?s k = Waiting u n \<and> isWaiting ?s k"
      unfolding view using pc(1) [of u n] here away tl_invD(5) [OF inv, of k n u]
      by (cases "k = i"; cases "u = t"; cases "pc s k = Waiting u n") (simp_all add: d(4))
  qed
  ultimately show ?thesis
    by (rule table_step [OF inv ok d(1,2) s' _ _ mark pc(2,3)])
qed

lemma in_main_simps [simp]:
  "in_main c f w (Entering t' m' d) t m \<longleftrightarrow> c t m \<noteq> 0 \<and> \<not> f t m"
  "in_main c f w (Recording t' m' DSTORE_SUCC) t m \<longleftrightarrow> c t m \<noteq> 0 \<and> \<not> f t m \<or> t' = t \<and> m' = m"
  "in_main c f w (Recording t' m' DSTORE_FAIL) t m \<longleftrightarrow> c t m \<noteq> 0 \<and> \<not> f t m"
  "in_main c f w (Unmarking t' m') t m \<longleftrightarrow> c t m \<noteq> 0 \<and> \<not> f t m"
  "in_main c f w (Marking t' m' d) t m \<longleftrightarrow> c t m \<noteq> 0 \<and> \<not> f t m"
  "in_main c f w (Transferring t' m' d todo) t m \<longleftrightarrow> c t m \<noteq> 0 \<and> \<not> f t m"
  "in_main c f w (Leaving t' m') t m \<longleftrightarrow> c t m \<noteq> 0 \<and> \<not> f t m"
  "in_main c f w (LeavingUnmark t' m') t m \<longleftrightarrow> c t m \<noteq> 0 \<and> \<not> f t m \<and> (t', m') \<noteq> (t, m)"
  "in_main c f w (Forgetting t' m') t m \<longleftrightarrow> c t m \<noteq> 0 \<and> \<not> f t m \<and> (t', m') \<noteq> (t, m)"
  "in_main c f w (BatchLeaving t' m') t m \<longleftrightarrow> c t m \<noteq> 0 \<and> \<not> f t m \<or> t' = t \<and> m' = m"
  "in_main c f w (BatchUnmark t' m') t m \<longleftrightarrow> c t m \<noteq> 0 \<and> \<not> f t m"
  "in_main c f w Idle t m \<longleftrightarrow> c t m \<noteq> 0 \<and> \<not> f t m"
  by (simp_all add: in_main_def)

lemma has_mark_simps [simp]:
  "has_mark c (Entering t' m' d) t m \<longleftrightarrow> announced m \<and> (t' = t \<and> m' = m \<or> c t m \<noteq> 0)"
  "has_mark c (Waiting t' m') t m \<longleftrightarrow> announced m \<and> (t' = t \<and> m' = m \<or> c t m \<noteq> 0)"
  "has_mark c (Recording t' m' DSTORE_SUCC) t m \<longleftrightarrow> announced m \<and> (t' = t \<and> m' = m \<or> c t m \<noteq> 0)"
  "has_mark c (Recording t' m' DSTORE_FAIL) t m \<longleftrightarrow> announced m \<and> c t m \<noteq> 0"
  "has_mark c (Unmarking t' m') t m \<longleftrightarrow> announced m \<and> (t' = t \<and> m' = m \<or> c t m \<noteq> 0)"
  "has_mark c (Marking t' m' d) t m \<longleftrightarrow> announced m \<and> c t m \<noteq> 0"
  "has_mark c (Transferring t' m' d todo) t m \<longleftrightarrow> announced m \<and> (t' = t \<and> m' = m \<or> c t m \<noteq> 0)"
  "has_mark c (Leaving t' m') t m \<longleftrightarrow> announced m \<and> c t m \<noteq> 0"
  "has_mark c (LeavingUnmark t' m') t m \<longleftrightarrow> announced m \<and> c t m \<noteq> 0"
  "has_mark c (Forgetting t' m') t m \<longleftrightarrow> announced m \<and> c t m \<noteq> 0 \<and> (t', m') \<noteq> (t, m)"
  "has_mark c (BatchLeaving t' m') t m \<longleftrightarrow> announced m \<and> (t' = t \<and> m' = m \<or> c t m \<noteq> 0)"
  "has_mark c (BatchUnmark t' m') t m \<longleftrightarrow> announced m \<and> (t' = t \<and> m' = m \<or> c t m \<noteq> 0)"
  "has_mark c Idle t m \<longleftrightarrow> announced m \<and> c t m \<noteq> 0"
  by (auto simp: has_mark_def)

text \<open>Requesting a lock.\<close>

lemma enter_table_step:
  assumes inv: "tl_inv hash pid cores s" and here: "pc s i = Entering t m d"
    and p: "acquires p = Some (t, m)" "\<And>n. only_announced p = Some n \<Longrightarrow> announced n"
      "\<And>u n. has_mark (hold_cnt hash (local_lock s i)) p u n = mark_at hash s i u n"
      "\<And>u n. pending p u n = {}"
    and h: "table_inv h" "all_regular pid h"
    and held: "\<And>u. held_keys h u = (if u = t \<and> g then insert (i, m) (held_keys (main_table s) u) else held_keys (main_table s) u)"
    and wait: "\<And>u. wait_keys h u = (if u = t \<and> b then insert (i, m) (wait_keys (main_table s) u) else wait_keys (main_table s) u)"
    and w: "\<And>k. k \<noteq> i \<Longrightarrow> w k = isWaiting s k"
    and result: "\<And>u n. holds_ahead (w i) p = Some (u, n) \<longleftrightarrow> g \<and> u = t \<and> n = m"
      "\<And>u n. p = Waiting u n \<and> w i \<longleftrightarrow> b \<and> u = t \<and> n = m"
  shows "tl_inv hash pid cores (goto i p (s\<lparr>isWaiting := w, main_table := h\<rparr>))"
proof -
  let ?s = "goto i p (s\<lparr>isWaiting := w, main_table := h\<rparr>)"
  note old = tl_invD(1) [OF inv, of i, unfolded here]
  have others: "releases p = None" "batches p = None" "left p = None" using p(1) by (cases p; simp)+
  have ok: "thread_ok hash (set cores) i (local_lock s i) p"
    using old by (rule thread_ok_move) (use p others in simp_all)
  have "held_exact hash ?s"
    unfolding held_exact_def
  proof (intro allI)
    fix k u n
    have "in_main (hold_cnt hash (local_lock s i)) (hold_fast hash (local_lock s i)) (w i) p u n \<longleftrightarrow>
        main_at hash s i u n \<or> g \<and> u = t \<and> n = m"
      unfolding here using result(1) [of u n] others(3) by (auto simp: in_main_def)
    then show "(k, n) \<in> held_keys (main_table ?s) u \<longleftrightarrow> main_at hash ?s k u n"
      using tl_invD(4) [OF inv, of k n u] w [of k] by (cases "k = i") (auto simp: held)
  qed
  moreover have "waits_exact ?s"
    unfolding waits_exact_def
  proof (intro allI)
    fix k u n
    show "(k, n) \<in> wait_keys (main_table ?s) u \<longleftrightarrow> pc ?s k = Waiting u n \<and> isWaiting ?s k"
      using tl_invD(5) [OF inv, of k n u] w [of k] result(2) [of u n] here by (cases "k = i") (auto simp: wait)
  qed
  ultimately show ?thesis
    by (rule table_step [OF inv ok h refl _ _ p(3)]) (simp_all add: here)
qed

lemma enter_step:
  assumes inv: "tl_inv hash pid cores s" and inj: "inj pid" and here: "pc s i = Entering t m dontWait"
    and room: "table_room (main_table s) t"
  shows "tl_inv hash pid cores (LockInMainLockTable_begin hash pid enter_ok dup_ok info i t m dontWait s)"
proof -
  define r where "r = thread_request pid i m (if dontWait then HOLD_BUT_DONT_WAIT else HOLD_OR_WAIT)"
  define w where "w = (if dontWait then isWaiting s else (isWaiting s)(i := True))"
  note old = thread_okD(6) [OF tl_invD(1) [OF inv, of i, unfolded here], of t m]
  have r: "regular pid r" "req_key r = (i, m)" using request_regular [of m] old unfolding r_def by auto
  have new: "req_key r \<notin> wait_keys (main_table s) t" using tl_invD(5) [OF inv, of i m t] here r(2) by simp
  obtain res h info' where enq: "LockRequestEnqueue enter_ok dup_ok (LockTagCache_new hash t) r info (main_table s) = (res, h, info')"
    by (rule prod_cases3)
  have s': "LockInMainLockTable_begin hash pid enter_ok dup_ok info i t m dontWait s =
      goto i (case res of Inr _ \<Rightarrow> Recording t m DSTORE_SUCC
        | Inl err \<Rightarrow> if err = LOCK_INFO_WAITING then Waiting t m else after_failure t m) (s\<lparr>isWaiting := w, main_table := h\<rparr>)"
    using enq by (cases dontWait) (simp_all add: LockInMainLockTable_begin_def r_def w_def)
  have w: "w k = isWaiting s k" if "k \<noteq> i" for k using that by (simp add: w_def)
  note step = enter_table_step [OF inv here _ _ _ _ _ _ _ _ w]
  show ?thesis
    using tl_invD(2,3) [OF inv] r(1) inj room new enq
  proof (cases rule: LockRequestEnqueue_spec)
    case granted
    show ?thesis unfolding s' granted(1)
      by (rule step [where g = True and b = False]) (use granted r(2) old in \<open>auto simp: here\<close>)
  next
    case waiting
    have "w i" using waiting(4) by (auto simp: w_def r_def thread_request_def IsDontWait_def)
    then show ?thesis unfolding s' waiting(1)
      by (intro step [where g = False and b = True]) (use waiting r(2) old in \<open>auto simp: here\<close>)
  next
    case (refused c)
    show ?thesis unfolding s' refused(1)
      by (rule step [where g = False and b = False]) (use refused r(2) old in \<open>auto simp: here after_failure_def split: if_splits\<close>)
  qed
qed

text \<open>Moving a weak lock of a thread to the main lock table.\<close>

lemma same_keys_step:
  assumes inv: "tl_inv hash pid cores s" and h: "table_inv h" "all_regular pid h" "held_keys h = held_keys (main_table s)"
    "wait_keys h = wait_keys (main_table s)"
  shows "tl_inv hash pid cores (s\<lparr>main_table := h\<rparr>)"
  using inv h unfolding tl_inv_def threads_ok_def held_exact_def waits_exact_def marks_def weak_moved_def by simp

lemma tl_pc_step':
  assumes inv: "tl_inv hash pid cores s" and ok: "thread_ok hash (set cores) i (local_lock s i) p"
    and main: "\<And>t m. in_main (hold_cnt hash (local_lock s i)) (hold_fast hash (local_lock s i)) (isWaiting s i) p t m = main_at hash s i t m"
    and wait: "\<And>t m. isWaiting s i \<Longrightarrow> p = Waiting t m \<longleftrightarrow> pc s i = Waiting t m"
    and mark: "\<And>t m. has_mark (hold_cnt hash (local_lock s i)) p t m = mark_at hash s i t m"
    and moved: "\<And>t m j k. firm (hold_cnt hash (local_lock s i)) p t m \<Longrightarrow> hold_fast hash (local_lock s j) t k \<Longrightarrow>
      (j, k) \<in> pending p t m"
  shows "tl_inv hash pid cores (goto i p s)"
proof -
  have same: "mark_at hash (goto i p s) j t m = mark_at hash s j t m" for j t m using mark [of t m] by simp
  have "marks hash (goto i p s) = marks hash s" unfolding marks_def same ..
  then show ?thesis using tl_pc_step [OF inv ok main wait _ moved, of "m_strongLocks s"] tl_invD(6) [OF inv] by simp
qed

lemma skip_step:
  assumes inv: "tl_inv hash pid cores s" and here: "pc s i = Transferring t m d ((j, k) # rest)"
    and none: "\<not> hold_fast hash (local_lock s j) t k"
  shows "tl_inv hash pid cores (goto i (Transferring t m d rest) s)"
proof (rule tl_pc_step' [OF inv])
  note old = tl_invD(1) [OF inv, of i, unfolded here]
  show "thread_ok hash (set cores) i (local_lock s i) (Transferring t m d rest)"
    using old by (rule thread_ok_move) (use thread_okD(9) [OF old] thread_okD(11) [OF old, of _ _ t m] in auto)
  show "(j', k') \<in> pending (Transferring t m d rest) u n"
    if "firm (hold_cnt hash (local_lock s i)) (Transferring t m d rest) u n" "hold_fast hash (local_lock s j') u k'" for u n j' k'
    using tl_invD(7) [OF inv, of i u n j' k'] that none unfolding here firm_def by (auto split: if_splits)
qed (simp_all add: here)

lemma move_step:
  assumes inv: "tl_inv hash pid cores s" and fast: "hold_fast hash (local_lock s j) t k"
    and l: "local_inv hash l" "hold_cnt hash l = hold_cnt hash (local_lock s j)"
      "hold_fast hash l = raise (hold_fast hash (local_lock s j)) t k False"
      "m_backupWaitLock l = m_backupWaitLock (local_lock s j)" "m_waitingInfo l = m_waitingInfo (local_lock s j)"
      "\<And>u. built_tag u \<Longrightarrow> FindLock (LockTagCache_new hash u) l = FindLock (LockTagCache_new hash u) (local_lock s j)"
    and h: "table_inv h" "all_regular pid h" "wait_keys h = wait_keys (main_table s)"
      "held_keys h = (held_keys (main_table s))(t := insert (j, k) (held_keys (main_table s) t))"
  shows "tl_inv hash pid cores (set_local j l (s\<lparr>main_table := h\<rparr>))"
proof -
  let ?s = "set_local j l (s\<lparr>main_table := h\<rparr>)"
  note ok = tl_invD(1) [OF inv, of j]
  have cnt: "hold_cnt hash (local_lock s j) t k \<noteq> 0" using hold_fastD(2) [OF thread_okD(1) [OF ok] fast] by (simp add: word_gt_0)
  have "thread_ok hash (set cores) j l (pc s j)"
    using ok waits_same_find [OF l(5) l(6)] unfolding thread_ok_def l(2-5) by (auto simp: l(1))
  then have "threads_ok hash cores ?s" using tl_invD(1) [OF inv] by (simp add: threads_ok_def)
  moreover have "held_exact hash ?s"
    unfolding held_exact_def
  proof (intro allI)
    fix a u n
    have gone: "left (pc s j) \<noteq> Some (t, k)"
    proof
      assume "left (pc s j) = Some (t, k)"
      then have "releases (pc s j) = Some (t, k)" by (cases "pc s j") simp_all
      then show False using thread_okD(7) [OF ok] fast by blast
    qed
    have "in_main (hold_cnt hash l) (hold_fast hash l) (isWaiting s j) (pc s j) u n \<longleftrightarrow> main_at hash s j u n \<or> u = t \<and> n = k"
      unfolding l(2,3) using gone cnt by (auto simp: in_main_def)
    then show "(a, n) \<in> held_keys (main_table ?s) u \<longleftrightarrow> main_at hash ?s a u n"
      using tl_invD(4) [OF inv, of a n u] by (cases "a = j") (auto simp: h(4))
  qed
  moreover have "waits_exact ?s" using tl_invD(5) [OF inv] by (simp add: waits_exact_def h(3))
  moreover have same: "mark_at hash ?s a u n = mark_at hash s a u n" for a u n using l(2) by simp
  have "marks hash ?s = marks hash s" unfolding marks_def same ..
  moreover have "weak_moved hash ?s"
    unfolding weak_moved_def
  proof (intro allI impI)
    fix a u n b c
    assume x: "firm_at hash ?s a u n" "hold_fast hash (local_lock ?s b) u c"
    have "hold_fast hash (local_lock s b) u c" using x(2) l(3) by (auto split: if_splits)
    then show "(b, c) \<in> pending (pc ?s a) u n" using tl_invD(7) [OF inv, of a u n b c] x(1) same unfolding firm_def by simp
  qed
  ultimately show ?thesis using tl_invD(6) [OF inv] h(1,2) unfolding tl_inv_def by simp
qed

lemma weak_usable: "weak_mode m \<Longrightarrow> usable_mode m"
  by (cases m) (simp_all add: weak_mode_def usable_mode_def less_LockMode_def)

lemma weak_mode_iff: "usable_mode m \<Longrightarrow> m < DSTORE_SHARE_UPDATE_EXCLUSIVE_LOCK \<longleftrightarrow> weak_mode m"
  by (simp add: weak_mode_def usable_mode_def)

lemma weak_not_announced: "weak_mode m \<Longrightarrow> \<not> announced m"
  by (auto simp: weak_mode_def announced_def)

lemma weak_modes_set: "k \<in> set weak_modes \<longleftrightarrow> weak_mode k"
  by (cases k) (simp_all add: weak_modes_def weak_mode_def less_LockMode_def)

lemma transfer_step:
  assumes inv: "tl_inv hash pid cores s" and inj: "inj pid" and here: "pc s i = Transferring t m d ((j, k) # rest)"
    and room: "table_room (main_table s) t"
  shows "\<exists>s'. TransferAllModesForWeakLock_step hash pid enter_ok dup_ok i t m d j k rest s = Some s' \<and> tl_inv hash pid cores s'"
proof -
  let ?l = "local_lock s j" and ?c = "LockTagCache_new hash t" and ?next = "goto i (Transferring t m d rest)"
  note ok = tl_invD(1) [OF inv, of i, unfolded here]
  have weak: "weak_mode k" using thread_okD(11) [OF ok, of j k t m] by simp
  have t: "built_tag t" using thread_okD(6) [OF ok] by simp
  have usable: "usable_mode k" using weak by (rule weak_usable)
  show ?thesis
  proof (cases "FindLock ?c ?l")
    case None
    then have "\<not> hold_fast hash ?l t k" by (simp add: hold_fast_def lookup_def)
    then show ?thesis using None skip_step [OF inv here]
      by (simp add: TransferAllModesForWeakLock_step_def LockAndGetLocalLockEntry_def)
  next
    case (Some p)
    obtain e where e: "deref ?l p = Some e" by (rule FindLock_SomeD [OF thread_okD(1) [OF tl_invD(1) [OF inv]] t Some])
    then have ef: "fast_granted e k = hold_fast hash ?l t k" using t Some by (simp add: hold_fast_def lookup_def)
    note step = TransferAllModesForWeakLock_step_def [of hash pid enter_ok dup_ok i t m d j k rest s] LockAndGetLocalLockEntry_def
      Some e IsGrantedByFastPath_eq [OF weak] ef
    show ?thesis
    proof (cases "hold_fast hash ?l t k")
      case False
      then show ?thesis using skip_step [OF inv here False] by (simp add: step)
    next
      case True
      obtain e' where e': "ClearGrantedByFastPath k e = Some e'" "local_inv hash (store p e' ?l)"
        "hold_cnt hash (store p e' ?l) = hold_cnt hash ?l" "hold_fast hash (store p e' ?l) = raise (hold_fast hash ?l) t k False"
        "\<And>u. built_tag u \<Longrightarrow> FindLock (LockTagCache_new hash u) (store p e' ?l) = FindLock (LockTagCache_new hash u) ?l"
        by (rule moved_entry [OF thread_okD(1) [OF tl_invD(1) [OF inv]] True Some e]) blast
      let ?r = "thread_request pid j k HOLD_BUT_DONT_WAIT"
      obtain res h info where enq: "LockRequestEnqueue enter_ok dup_ok ?c ?r (Some zero_info) (main_table s) = (res, h, info)"
        by (rule prod_cases3)
      have one: "TransferOneWeakLock hash enter_ok dup_ok t k (pid j) j (main_table s) = (res, h)"
        using enq by (simp add: TransferOneWeakLock_def thread_request_def)
      note r = request_regular [OF usable disjI2 [OF refl], where pid = pid and i = j]
      have "hold_cnt hash ?l t k \<noteq> 0" using hold_fastD(2) [OF thread_okD(1) [OF tl_invD(1) [OF inv]] True] by (simp add: word_gt_0)
      then have "pc s j \<noteq> Waiting t k" using thread_okD(6) [OF tl_invD(1) [OF inv, of j], of t k] by auto
      then have new: "req_key ?r \<notin> wait_keys (main_table s) t" using tl_invD(5) [OF inv, of j k t] r(2) by simp
      show ?thesis
        using tl_invD(2,3) [OF inv] r(1) inj room new enq
      proof (cases rule: LockRequestEnqueue_spec)
        case granted
        let ?s = "set_local j (store p e' ?l) (s\<lparr>main_table := h\<rparr>)"
        have "tl_inv hash pid cores ?s"
          by (rule move_step [OF inv True e'(2-4) _ _ e'(5)]) (use granted r(2) in simp_all)
        then have "tl_inv hash pid cores (?next ?s)"
          by (rule skip_step [where j = j and k = k]) (use here e'(4) in simp_all)
        then show ?thesis using True e'(1) granted(1) by (simp add: step one)
      next
        case waiting
        then show ?thesis by (simp add: thread_request_def IsDontWait_def)
      next
        case (refused c)
        have "tl_inv hash pid cores (goto i (Unmarking t m) (s\<lparr>main_table := h\<rparr>))"
        proof (rule tl_pc_step' [OF same_keys_step [OF inv refused(3-6)]])
          have "thread_ok hash (set cores) i (local_lock s i) (Unmarking t m)"
            using ok by (rule thread_ok_move) (use thread_okD(9) [OF ok] in simp_all)
          then show "thread_ok hash (set cores) i (local_lock (s\<lparr>main_table := h\<rparr>) i) (Unmarking t m)" by simp
          show "(b, c) \<in> pending (Unmarking t m) u n"
            if "firm (hold_cnt hash (local_lock (s\<lparr>main_table := h\<rparr>) i)) (Unmarking t m) u n"
              "hold_fast hash (local_lock (s\<lparr>main_table := h\<rparr>) b) u c" for u n b c
            using tl_invD(7) [OF inv, of i u n b c] that unfolding here by (auto simp: firm_def split: if_splits)
        qed (simp_all add: here)
        then show ?thesis using True refused(1) by (simp add: step one)
      qed
    qed
  qed
qed

text \<open>Announcing a strong lock, and taking the announcement back.\<close>

lemma mark_step:
  assumes inv: "tl_inv hash pid cores s" and here: "pc s i = Marking t m d"
    and room: "GetStrongLockCntInPartition (hash t) (m_strongLocks s) \<noteq> - 1"
  shows "tl_inv hash pid cores (TryMarkStrongLockByFastPath_begin hash cores i t m d s)"
proof -
  note ok = tl_invD(1) [OF inv, of i, unfolded here]
  let ?p = "Transferring t m d (transfer_list cores)"
  have m: "announced m" "hold_cnt hash (local_lock s i) t m = 0" using thread_okD(6,9) [OF ok] by simp_all
  have same: "mark_at hash (goto i ?p s) a u n \<longleftrightarrow> mark_at hash s a u n \<or> a = i \<and> u = t \<and> n = m" for a u n
    using m here by auto
  have new: "(i, t, m) \<notin> marks hash s" using m(2) here by (simp add: marks_def)
  have marks: "marks hash (goto i ?p s) = insert (i, t, m) (marks hash s)" unfolding marks_def same by auto
  show ?thesis
    unfolding TryMarkStrongLockByFastPath_begin_def
  proof (rule tl_pc_step [OF inv])
    show "thread_ok hash (set cores) i (local_lock s i) ?p"
      using ok by (rule thread_ok_move) (use m weak_modes_set in \<open>auto simp: transfer_list_def\<close>)
    show "marks_counted hash (marks hash (goto i ?p s)) (MarkStrongLockInFastPath (hash t) (m_strongLocks s))"
      unfolding marks by (rule marks_counted_insert [OF tl_invD(6) [OF inv] new room])
    show "(j, k) \<in> pending ?p u n"
      if "firm (hold_cnt hash (local_lock s i)) ?p u n" "hold_fast hash (local_lock s j) u k" for u n j k
    proof (cases "u = t \<and> n = m")
      case True
      note okj = tl_invD(1) [OF inv, of j]
      note D = hold_fastD [OF thread_okD(1) [OF okj] that(2)]
      have "j \<in> set cores" using thread_okD(5) [OF okj, of u k] D(2) by (cases "j \<in> set cores") simp_all
      then show ?thesis using True D(1) weak_modes_set by (simp add: transfer_list_def)
    next
      case False
      then have "firm_at hash s i u n" using that(1) here by (auto simp: firm_def)
      then show ?thesis using tl_invD(7) [OF inv _ that(2)] here by fastforce
    qed
  qed (simp_all add: here)
qed

lemma unmark_step:
  assumes inv: "tl_inv hash pid cores s" and mark: "mark_at hash s i t m"
    and ok: "thread_ok hash (set cores) i (local_lock s i) p"
    and main: "\<And>u n. in_main (hold_cnt hash (local_lock s i)) (hold_fast hash (local_lock s i)) (isWaiting s i) p u n = main_at hash s i u n"
    and pc: "plain p" "\<And>u n. pc s i \<noteq> Waiting u n" "\<And>u n. pc s i = Unmarking u n \<Longrightarrow> (u, n) = (t, m)"
       "\<And>u n. pending (pc s i) u n = {}"
    and marks: "\<And>u n. has_mark (hold_cnt hash (local_lock s i)) p u n \<longleftrightarrow> mark_at hash s i u n \<and> (u, n) \<noteq> (t, m)"
  shows "\<exists>s'. unmark_to hash i t p s = Some s' \<and> tl_inv hash pid cores s'"
proof -
  have "(i, t, m) \<in> marks hash s" using mark by (simp add: marks_def)
  then obtain d where d: "UnmarkStrongLockInFastPath (hash t) (m_strongLocks s) = Some d"
    "marks_counted hash (marks hash s - {(i, t, m)}) d"
    by (rule marks_counted_remove [OF tl_invD(6) [OF inv]])
  have same: "mark_at hash (goto i p s) a u n \<longleftrightarrow> mark_at hash s a u n \<and> (a, u, n) \<noteq> (i, t, m)" for a u n
    using marks [of u n] by auto
  have "marks hash (goto i p s) = marks hash s - {(i, t, m)}" unfolding marks_def same by auto
  moreover have "(j, k) \<in> pending p u n"
    if "firm (hold_cnt hash (local_lock s i)) p u n" "hold_fast hash (local_lock s j) u k" for u n j k
    using tl_invD(7) [OF inv _ that(2), of i n] that(1) marks [of u n] pc(3) [of u n] pc(4) [of u n] by (auto simp: firm_def)
  ultimately have "tl_inv hash pid cores (goto i p (s\<lparr>m_strongLocks := d\<rparr>))"
    using d(2) main pc(2) plainD(1) [OF pc(1)] by (intro tl_pc_step [OF inv ok]) simp_all
  then show ?thesis using d(1) by (simp add: unmark_to_def)
qed

subsection \<open>Steps in the table of the thread\<close>

lemma thread_ok_keeps:
  assumes "thread_ok hash C i l p" and "keeps hash l l'" and "i \<in> C"
    and "\<And>t m. hold_cnt hash l' t m \<noteq> 0 \<Longrightarrow> usable_mode m"
    and "\<And>t m. acquires p' = Some (t, m) \<Longrightarrow> built_tag t \<and> usable_mode m \<and> waits_for_lock hash l' t m \<and> hold_cnt hash l' t m = 0"
    and "\<And>t m. releases p' = Some (t, m) \<Longrightarrow> built_tag t \<and> usable_mode m \<and> waits_for_unlock hash l' t \<and>
        hold_cnt hash l' t m = 1 \<and> \<not> hold_fast hash l' t m"
    and "\<And>t m. batches p' = Some (t, m) \<Longrightarrow> built_tag t \<and> usable_mode m \<and> hold_cnt hash l' t m = 0"
    and "\<And>m. only_announced p' = Some m \<Longrightarrow> announced m" and "plain p'"
  shows "thread_ok hash C i l' p'"
  using assms(1-8) plainD(3) [OF assms(9)] unfolding thread_ok_def keeps_def by simp

lemma weak_lock_step:
  assumes inv: "tl_inv hash pid cores s" and i: "i \<in> set cores" "pc s i = Idle" and t: "built_tag t" and weak: "weak_mode m"
    and room: "grant_room hash (local_lock s i) t"
  shows "\<exists>s'. WeakLockAcquire_begin hash enter_ok i t m d s = Some s' \<and> tl_inv hash pid cores s'"
proof -
  let ?l = "local_lock s i"
  note ok = tl_invD(1) [OF inv, of i] and usable = thread_okD(10) [OF tl_invD(1) [OF inv, of i]]
  have um: "usable_mode m" "\<not> announced m" using weak_usable [OF weak] weak_not_announced [OF weak] by auto
  note unmarked = um(2)
  have nofast: "\<not> hold_fast hash ?l t m" if "hold_cnt hash ?l t m = 0"
    using hold_fastD(2) [OF thread_okD(1) [OF ok], of t m] that by auto
  show ?thesis
    using thread_okD(1) [OF ok] t room weak
  proof (cases rule: TryGrantByFastPath_spec [where ok = enter_ok and d = "m_strongLocks s" and mt = TABLE_LOCK_MGR])
    case (oom l')
    have "tl_inv hash pid cores (goto i Idle (set_local i l' s))"
      by (rule local_step [OF inv thread_ok_keeps [OF ok oom(3) i(1)]]) (use oom(4,5) usable i(2) in simp_all)
    then show ?thesis by (simp add: WeakLockAcquire_begin_def oom(1))
  next
    case (again l')
    have "tl_inv hash pid cores (goto i Idle (set_local i l' s))"
      by (rule local_step [OF inv thread_ok_keeps [OF ok again(3) i(1)]])
        (use again(2,4,5,6) usable i(2) um in \<open>auto simp: add_eq_0_iff2 split: if_splits\<close>)
    then show ?thesis by (simp add: WeakLockAcquire_begin_def again(1))
  next
    case (wait l')
    have "tl_inv hash pid cores (goto i (Entering t m d) (set_local i l' s))"
      by (rule local_step [OF inv thread_ok_keeps [OF ok wait(4) i(1)]])
        (use wait(3,5-7) usable i(2) um t in auto)
    then show ?thesis by (simp add: WeakLockAcquire_begin_def wait(1))
  next
    case (fast l')
    have none: "\<not> mark_at hash s j t n" for j n
      using marks_counted_zero [OF tl_invD(6) [OF inv] fast(2), of j n] by (simp add: marks_def)
    have "tl_inv hash pid cores (goto i Idle (set_local i l' s))"
      by (rule local_step [OF inv thread_ok_keeps [OF ok fast(4) i(1)]])
        (use fast(3,5,6) usable i(2) um none in \<open>auto split: if_splits\<close>)
    then show ?thesis by (simp add: WeakLockAcquire_begin_def fast(1))
  qed
qed

lemma strong_lock_step:
  assumes inv: "tl_inv hash pid cores s" and i: "i \<in> set cores" "pc s i = Idle" and t: "built_tag t" and um: "usable_mode m"
    and room: "grant_room hash (local_lock s i) t"
  shows "\<exists>s'. StrongLockAcquire_begin hash enter_ok i t m d s = Some s' \<and> tl_inv hash pid cores s'"
proof -
  let ?l = "local_lock s i"
  note ok = tl_invD(1) [OF inv, of i] and usable = thread_okD(10) [OF tl_invD(1) [OF inv, of i]]
  show ?thesis
    using thread_okD(1) [OF ok] t room
  proof (cases rule: GrantIfAlreadyHold_spec [where ok = enter_ok and m = m and mt = TABLE_LOCK_MGR])
    case (oom l')
    have "tl_inv hash pid cores (goto i Idle (set_local i l' s))"
      by (rule local_step [OF inv thread_ok_keeps [OF ok oom(3) i(1)]]) (use oom(4,5) usable i(2) in simp_all)
    then show ?thesis by (simp add: StrongLockAcquire_begin_def oom(1))
  next
    case (again l')
    have "tl_inv hash pid cores (goto i Idle (set_local i l' s))"
      by (rule local_step [OF inv thread_ok_keeps [OF ok again(3) i(1)]])
        (use again(2,4,5,6) usable i(2) um in \<open>auto simp: add_eq_0_iff2 split: if_splits\<close>)
    then show ?thesis by (simp add: StrongLockAcquire_begin_def again(1))
  next
    case (wait l')
    have "tl_inv hash pid cores (goto i (if announced m then Marking t m d else Entering t m d) (set_local i l' s))"
      by (rule local_step [OF inv thread_ok_keeps [OF ok wait(3) i(1)]])
        (use wait(2,4-6) usable i(2) um t in \<open>auto split: if_splits\<close>)
    then show ?thesis by (simp add: StrongLockAcquire_begin_def wait(1))
  qed
qed

lemma record_step:
  assumes inv: "tl_inv hash pid cores s" and here: "pc s i = Recording t m ret"
    and room: "ret = DSTORE_SUCC \<Longrightarrow> grant_room hash (local_lock s i) t"
  shows "\<exists>s'. LockTable_end hash i t m ret s = Some s' \<and> tl_inv hash pid cores s'"
proof -
  note ok = tl_invD(1) [OF inv, of i, unfolded here] and usable = thread_okD(10) [OF tl_invD(1) [OF inv, of i]]
  have a: "built_tag t" "usable_mode m" "waits_for_lock hash (local_lock s i) t m" "hold_cnt hash (local_lock s i) t m = 0"
    using thread_okD(6) [OF ok, of t m] by simp_all
  have nofast: "\<not> hold_fast hash (local_lock s i) t m"
    using hold_fastD(2) [OF thread_okD(1) [OF ok], of t m] a(4) by auto
  have i: "i \<in> set cores" using thread_okD(4) [OF ok] by blast
  show ?thesis
  proof (cases ret)
    case DSTORE_SUCC
    obtain l' where l': "RecordLockResult (LockTagCache_new hash t) m DSTORE_SUCC (local_lock s i) = Some (Inr (), l')"
      "keeps hash (local_lock s i) l'" "hold_cnt hash l' = raise (hold_cnt hash (local_lock s i)) t m (hold_cnt hash (local_lock s i) t m + 1)"
      "hold_fast hash l' = hold_fast hash (local_lock s i)"
      by (rule RecordLockResult_succ [OF thread_okD(1) [OF ok] a(1,3) thread_okD(3) [OF ok] room [OF DSTORE_SUCC]])
    have "tl_inv hash pid cores (goto i Idle (set_local i l' s))"
      by (rule local_step [OF inv thread_ok_keeps [OF tl_invD(1) [OF inv] l'(2) i]])
        (use l'(3,4) usable here DSTORE_SUCC a nofast in \<open>auto split: if_splits\<close>)
    then show ?thesis by (simp add: LockTable_end_def l'(1) DSTORE_SUCC)
  next
    case DSTORE_FAIL
    obtain l' where l': "RecordLockResult (LockTagCache_new hash t) m DSTORE_FAIL (local_lock s i) = Some (Inr (), l')"
      "keeps hash (local_lock s i) l'" "hold_cnt hash l' = hold_cnt hash (local_lock s i)"
      "hold_fast hash l' = hold_fast hash (local_lock s i)"
      by (rule RecordLockResult_fail [OF thread_okD(1) [OF ok] a(1,3) thread_okD(3) [OF ok]])
    have "tl_inv hash pid cores (goto i Idle (set_local i l' s))"
      by (rule local_step [OF inv thread_ok_keeps [OF tl_invD(1) [OF inv] l'(2) i]])
        (use l'(3,4) usable here DSTORE_FAIL a in simp_all)
    then show ?thesis by (simp add: LockTable_end_def l'(1) DSTORE_FAIL)
  qed
qed

lemma weak_unlock_step:
  assumes inv: "tl_inv hash pid cores s" and i: "i \<in> set cores" "pc s i = Idle" and weak: "weak_mode m"
    and held: "hold_cnt hash (local_lock s i) t m \<noteq> 0"
  shows "\<exists>s'. WeakLockRelease_begin hash i t m s = Some s' \<and> tl_inv hash pid cores s'"
proof -
  note ok = tl_invD(1) [OF inv, of i] and usable = thread_okD(10) [OF tl_invD(1) [OF inv, of i]]
  have t: "built_tag t" by (rule held_entry [OF thread_okD(1) [OF ok] held])
  have um: "usable_mode m" "\<not> announced m" using weak_usable [OF weak] weak_not_announced [OF weak] by auto
  show ?thesis
    using thread_okD(1) [OF ok] held weak
  proof (cases rule: TryReleaseByFastPath_spec)
    case (again l')
    have "tl_inv hash pid cores (goto i Idle (set_local i l' s))"
      by (rule local_step [OF inv thread_ok_keeps [OF ok again(3) i(1)]])
        (use again(2,4,5) usable i(2) um in \<open>auto split: if_splits\<close>)
    then show ?thesis by (simp add: WeakLockRelease_begin_def again(1))
  next
    case (fast l')
    have "tl_inv hash pid cores (goto i Idle (set_local i l' s))"
      by (rule local_step [OF inv thread_ok_keeps [OF ok fast(4) i(1)]])
        (use fast(2,3,5,6) usable i(2) um in \<open>auto split: if_splits\<close>)
    then show ?thesis by (simp add: WeakLockRelease_begin_def fast(1))
  next
    case (last l')
    have "tl_inv hash pid cores (goto i (Leaving t m) (set_local i l' s))"
      by (rule local_step [OF inv thread_ok_keeps [OF ok last(4) i(1)]])
        (use last(2,3,5-7) usable i(2) um t in auto)
    then show ?thesis by (simp add: WeakLockRelease_begin_def last(1))
  qed
qed

lemma strong_unlock_step:
  assumes inv: "tl_inv hash pid cores s" and i: "i \<in> set cores" "pc s i = Idle" and um: "usable_mode m" and strong: "\<not> weak_mode m"
    and held: "hold_cnt hash (local_lock s i) t m \<noteq> 0"
  shows "\<exists>s'. StrongLockRelease_begin hash i t m s = Some s' \<and> tl_inv hash pid cores s'"
proof -
  note ok = tl_invD(1) [OF inv, of i] and usable = thread_okD(10) [OF tl_invD(1) [OF inv, of i]]
  have t: "built_tag t" by (rule held_entry [OF thread_okD(1) [OF ok] held])
  have nofast: "\<not> hold_fast hash (local_lock s i) t m" using hold_fastD(1) [OF thread_okD(1) [OF ok], of t m] strong by blast
  show ?thesis
    using thread_okD(1) [OF ok] held
  proof (cases rule: UngrantIfGrantedMultipleTimes_spec)
    case (again l')
    have "tl_inv hash pid cores (goto i Idle (set_local i l' s))"
      by (rule local_step [OF inv thread_ok_keeps [OF ok again(3) i(1)]])
        (use again(2,4,5) usable i(2) um in \<open>auto split: if_splits\<close>)
    then show ?thesis by (simp add: StrongLockRelease_begin_def again(1))
  next
    case (last l')
    have "tl_inv hash pid cores (goto i (Leaving t m) (set_local i l' s))"
      by (rule local_step [OF inv thread_ok_keeps [OF ok last(3) i(1)]])
        (use last(2,4-6) usable i(2) um t nofast in auto)
    then show ?thesis by (simp add: StrongLockRelease_begin_def last(1))
  qed
qed

lemma forget_step:
  assumes inv: "tl_inv hash pid cores s" and here: "pc s i = Forgetting t m"
  shows "\<exists>s'. Unlock_end hash i t m s = Some s' \<and> tl_inv hash pid cores s'"
proof -
  note ok = tl_invD(1) [OF inv, of i, unfolded here] and usable = thread_okD(10) [OF tl_invD(1) [OF inv, of i]]
  have a: "built_tag t" "waits_for_unlock hash (local_lock s i) t" "hold_cnt hash (local_lock s i) t m = 1"
    "\<not> hold_fast hash (local_lock s i) t m" using thread_okD(7) [OF ok, of t m] by simp_all
  have i: "i \<in> set cores" using thread_okD(4) [OF ok] by blast
  obtain l' where l': "RemoveLockRecord (LockTagCache_new hash t) m (local_lock s i) = Some (Inr (), l')"
    "keeps hash (local_lock s i) l'" "hold_cnt hash l' = raise (hold_cnt hash (local_lock s i)) t m (hold_cnt hash (local_lock s i) t m - 1)"
    "hold_fast hash l' = hold_fast hash (local_lock s i)"
    by (rule RemoveLockRecord_spec [OF thread_okD(1) [OF ok] a(1,2) thread_okD(3) [OF ok], where m = m]) (use a in simp_all)
  have "tl_inv hash pid cores (goto i Idle (set_local i l' s))"
    by (rule local_step [OF inv thread_ok_keeps [OF tl_invD(1) [OF inv] l'(2) i]])
      (use l'(3,4) usable here a in \<open>auto split: if_splits\<close>)
  then show ?thesis by (simp add: Unlock_end_def l'(1))
qed

lemma batch_step:
  assumes inv: "tl_inv hash pid cores s" and i: "i \<in> set cores" "pc s i = Idle" and um: "usable_mode m"
    and n: "n \<le> hold_cnt hash (local_lock s i) t m" "n \<noteq> 0"
  shows "\<exists>s'. BatchUnlock_begin hash i t m n s = Some s' \<and> tl_inv hash pid cores s'"
proof -
  note ok = tl_invD(1) [OF inv, of i] and usable = thread_okD(10) [OF tl_invD(1) [OF inv, of i]]
  have held: "hold_cnt hash (local_lock s i) t m \<noteq> 0" using n by auto
  have t: "built_tag t" by (rule held_entry [OF thread_okD(1) [OF ok] held])
  have guards: "BatchUnlock_begin hash i t m n s = (if weak_mode m then WeakLockBatchRelease_begin hash i t m n s
      else StrongLockBatchRelease_begin hash i t m n s)"
    using um n weak_mode_iff [OF um] by (simp add: BatchUnlock_begin_def guard_def usable_mode_def word_gt_0)
  show ?thesis
  proof (cases "weak_mode m")
    case True
    note na = weak_not_announced [OF True]
    show ?thesis
      using thread_okD(1) [OF ok] n True thread_okD(3) [OF ok]
    proof (cases rule: BatchReleaseByFastPath_spec)
      case (some l')
      have "tl_inv hash pid cores (goto i Idle (set_local i l' s))"
        by (rule local_step [OF inv thread_ok_keeps [OF ok some(2) i(1)]])
          (use some(3-5) usable i(2) um na in \<open>auto split: if_splits\<close>)
      then show ?thesis by (simp add: guards True WeakLockBatchRelease_begin_def some(1))
    next
      case (all l')
      have "tl_inv hash pid cores (goto i (if hold_fast hash (local_lock s i) t m then Idle else BatchLeaving t m) (set_local i l' s))"
        by (rule local_step [OF inv thread_ok_keeps [OF ok all(2) i(1)]])
          (use all(3-5) n(2) usable i(2) um na t in \<open>auto split: if_splits\<close>)
      then show ?thesis by (simp add: guards True WeakLockBatchRelease_begin_def all(1))
    qed
  next
    case False
    have nofast: "\<not> hold_fast hash (local_lock s i) t m" using hold_fastD(1) [OF thread_okD(1) [OF ok], of t m] False by blast
    obtain l' where l': "BatchDecreaseGrantedCount (LockTagCache_new hash t) m n (local_lock s i) =
        Some (hold_cnt hash (local_lock s i) t m = n, l')" "keeps hash (local_lock s i) l'"
      "hold_cnt hash l' = raise (hold_cnt hash (local_lock s i)) t m (hold_cnt hash (local_lock s i) t m - n)"
      "hold_fast hash l' = hold_fast hash (local_lock s i)"
      by (rule BatchDecreaseGrantedCount_spec [OF thread_okD(1) [OF ok] n False thread_okD(3) [OF ok]])
    have "tl_inv hash pid cores (goto i (if hold_cnt hash (local_lock s i) t m = n then BatchLeaving t m else Idle) (set_local i l' s))"
      by (rule local_step [OF inv thread_ok_keeps [OF ok l'(2) i(1)]])
        (use l'(3,4) n(2) held usable i(2) um nofast t in \<open>auto split: if_splits\<close>)
    then show ?thesis by (simp add: guards False StrongLockBatchRelease_begin_def l'(1))
  qed
qed

text \<open>The steps that dequeue.\<close>

lemma failed_step:
  assumes inv: "tl_inv hash pid cores s" and inj: "inj pid" and here: "pc s i = Waiting t m"
  shows "tl_inv hash pid cores (LockInMainLockTable_failed hash pid i t m s)"
proof -
  note ok = tl_invD(1) [OF inv, of i, unfolded here]
  have a: "usable_mode m" "hold_cnt hash (local_lock s i) t m = 0" using thread_okD(6) [OF ok, of t m] by simp_all
  obtain found h woken where deq: "LockRequestDequeue (LockTagCache_new hash t) (thread_request pid i m HOLD_OR_WAIT) (main_table s) = (found, h, woken)"
    by (rule prod_cases3)
  have "thread_ok hash (set cores) i (local_lock s i) (after_failure t m)"
    using ok by (rule thread_ok_move) (auto simp: after_failure_def split: if_splits)
  then have "tl_inv hash pid cores (goto i (after_failure t m) (WakeUp woken (s\<lparr>main_table := h\<rparr>)))"
    by (rule dequeue_step [OF inv inj a(1) deq]) (use here a in \<open>auto simp: after_failure_def\<close>)
  then show ?thesis by (simp add: LockInMainLockTable_failed_def deq)
qed

lemma unlock_main_step:
  assumes inv: "tl_inv hash pid cores s" and inj: "inj pid"
    and here: "pc s i = Leaving t m \<and> p = (if announced m then LeavingUnmark t m else Forgetting t m) \<or>
      pc s i = BatchLeaving t m \<and> p = (if announced m then BatchUnmark t m else Idle)"
  shows "tl_inv hash pid cores (UnlockInMainLockTable hash pid i t m p s)"
proof -
  note ok = tl_invD(1) [OF inv, of i]
  have a: "usable_mode m" using thread_okD(7,8) [OF ok, of t m] here by auto
  obtain found h woken where deq: "LockRequestDequeue (LockTagCache_new hash t) (thread_request pid i m HOLD_OR_WAIT) (main_table s) = (found, h, woken)"
    by (rule prod_cases3)
  have "tl_inv hash pid cores (goto i p (WakeUp woken (s\<lparr>main_table := h\<rparr>)))"
    using here
  proof
    assume x: "pc s i = Leaving t m \<and> p = (if announced m then LeavingUnmark t m else Forgetting t m)"
    have "thread_ok hash (set cores) i (local_lock s i) p"
      using ok by (rule thread_ok_move) (use x in \<open>auto split: if_splits\<close>)
    then show ?thesis
      by (rule dequeue_step [OF inv inj a deq]) (use x in \<open>auto split: if_splits\<close>)
  next
    assume x: "pc s i = BatchLeaving t m \<and> p = (if announced m then BatchUnmark t m else Idle)"
    have "thread_ok hash (set cores) i (local_lock s i) p"
      using ok x thread_okD(4) [OF ok] unfolding thread_ok_def by (auto split: if_splits)
    then show ?thesis
      by (rule dequeue_step [OF inv inj a deq]) (use x thread_okD(8) [OF ok, of t m] in \<open>auto split: if_splits\<close>)
  qed
  then show ?thesis by (simp add: UnlockInMainLockTable_def deq)
qed

lemma woken_step:
  assumes inv: "tl_inv hash pid cores s" and here: "pc s i = Waiting t m"
  shows "tl_inv hash pid cores (LockInMainLockTable_woken i t m s)"
proof (cases "isWaiting s i")
  case False
  note ok = tl_invD(1) [OF inv, of i, unfolded here]
  have "thread_ok hash (set cores) i (local_lock s i) (Recording t m DSTORE_SUCC)"
    using ok by (rule thread_ok_move) auto
  then have "tl_inv hash pid cores (goto i (Recording t m DSTORE_SUCC) s)"
    by (rule tl_pc_step' [OF inv]) (use here False tl_invD(7) [OF inv, of i] in \<open>auto simp: firm_def\<close>)
  then show ?thesis using False by (simp add: LockInMainLockTable_woken_def)
qed (simp add: LockInMainLockTable_woken_def inv)

lemma transferred_step:
  assumes inv: "tl_inv hash pid cores s" and here: "pc s i = Transferring t m d []"
  shows "tl_inv hash pid cores (goto i (Entering t m d) s)"
proof -
  note ok = tl_invD(1) [OF inv, of i, unfolded here]
  have "thread_ok hash (set cores) i (local_lock s i) (Entering t m d)"
    using ok by (rule thread_ok_move) auto
  moreover have "\<not> hold_fast hash (local_lock s b) u c" if "announced n" "t = u \<and> m = n \<or> hold_cnt hash (local_lock s i) u n \<noteq> 0" for b c u n
    using tl_invD(7) [OF inv, of i u n b c] that unfolding here by (auto simp: firm_def split: if_splits)
  ultimately show ?thesis
    by (intro tl_pc_step' [OF inv]) (auto simp: here firm_def)
qed

lemma unmark_steps:
  assumes inv: "tl_inv hash pid cores s"
    and here: "pc s i = Unmarking t m \<and> p = Recording t m DSTORE_FAIL \<or> pc s i = LeavingUnmark t m \<and> p = Forgetting t m \<or>
      pc s i = BatchUnmark t m \<and> p = Idle"
  shows "\<exists>s'. unmark_to hash i t p s = Some s' \<and> tl_inv hash pid cores s'"
proof -
  note ok = tl_invD(1) [OF inv, of i]
  have "announced m" using thread_okD(9) [OF ok, of m] here by auto
  moreover have "thread_ok hash (set cores) i (local_lock s i) p"
    using here ok thread_okD(4) [OF ok] unfolding thread_ok_def by auto
  moreover note thread_okD(6-8) [OF ok, of t m] here
  ultimately show ?thesis by (intro unmark_step [OF inv, where m = m]) auto
qed

text \<open>
  From a state with the invariant every step has a result (no assertion fails, no pointer dangles)
  and keeps the invariant.
\<close>

lemma continue_call_inv:
  assumes inv: "tl_inv hash pid cores s" and inj: "inj pid" and room: "call_room hash i s"
  shows "\<exists>s'. continue_call hash pid cores enter_ok dup_ok info wait_fails i s = Some s' \<and> tl_inv hash pid cores s'"
proof (cases "pc s i")
  case Idle
  then show ?thesis using inv by (simp add: continue_call_def)
next
  case here: (Marking t m d)
  then show ?thesis using mark_step [OF inv here] room by (simp add: continue_call_def call_room_def)
next
  case here: (Transferring t m d todo)
  show ?thesis
  proof (cases todo)
    case Nil
    then show ?thesis using transferred_step [OF inv] here by (simp add: continue_call_def)
  next
    case (Cons x rest)
    then show ?thesis
      using transfer_step [OF inv inj, of i t m d "fst x" "snd x" rest enter_ok dup_ok] here room
      by (cases x) (simp add: continue_call_def call_room_def)
  qed
next
  case here: (Entering t m d)
  then show ?thesis using enter_step [OF inv inj here] room by (simp add: continue_call_def call_room_def)
next
  case here: (Waiting t m)
  then show ?thesis using failed_step [OF inv inj here] woken_step [OF inv here] by (simp add: continue_call_def)
next
  case here: (Unmarking t m)
  then show ?thesis using unmark_steps [OF inv, of i t m "Recording t m DSTORE_FAIL"] by (simp add: continue_call_def)
next
  case here: (Recording t m ret)
  then show ?thesis using record_step [OF inv here] room by (simp add: continue_call_def call_room_def)
next
  case here: (Leaving t m)
  then show ?thesis using unlock_main_step [OF inv inj, of i t m] by (simp add: continue_call_def)
next
  case here: (LeavingUnmark t m)
  then show ?thesis using unmark_steps [OF inv, of i t m "Forgetting t m"] by (simp add: continue_call_def)
next
  case here: (Forgetting t m)
  then show ?thesis using forget_step [OF inv here] by (simp add: continue_call_def)
next
  case here: (BatchLeaving t m)
  then show ?thesis using unlock_main_step [OF inv inj, of i t m] by (simp add: continue_call_def)
next
  case here: (BatchUnmark t m)
  then show ?thesis using unmark_steps [OF inv, of i t m Idle] by (simp add: continue_call_def)
qed

lemma LockTable_begin_inv:
  assumes inv: "tl_inv hash pid cores s" and i: "i \<in> set cores" "pc s i = Idle" and t: "built_tag t" and um: "usable_mode m"
    and room: "grant_room hash (local_lock s i) t"
  shows "\<exists>s'. LockTable_begin hash enter_ok i t m d s = Some s' \<and> tl_inv hash pid cores s'"
  using weak_lock_step [OF inv i t _ room] strong_lock_step [OF inv i t um room]
  by (simp add: LockTable_begin_def weak_mode_iff [OF um])

lemma Unlock_begin_inv:
  assumes inv: "tl_inv hash pid cores s" and i: "i \<in> set cores" "pc s i = Idle" and um: "usable_mode m"
    and held: "hold_cnt hash (local_lock s i) t m \<noteq> 0"
  shows "\<exists>s'. Unlock_begin hash i t m s = Some s' \<and> tl_inv hash pid cores s'"
  using weak_unlock_step [OF inv i _ held] strong_unlock_step [OF inv i um _ held]
  by (simp add: Unlock_begin_def weak_mode_iff [OF um])

lemma tl_step_inv:
  assumes step: "tl_step hash pid cores s s'" and inj: "inj pid" and inv: "tl_inv hash pid cores s"
  shows "tl_inv hash pid cores s'"
  using step
proof cases
  case (lock i t m enter_ok dontWait)
  then show ?thesis using LockTable_begin_inv [OF inv lock(1-5), of enter_ok dontWait] by simp
next
  case (unlock i m t)
  then show ?thesis using Unlock_begin_inv [OF inv unlock(1-4)] by simp
next
  case (batch i m n t)
  then show ?thesis using batch_step [OF inv batch(1-5)] by simp
next
  case (further i enter_ok dup_ok info wait_fails)
  then show ?thesis using continue_call_inv [OF inv inj further(1), of enter_ok dup_ok info wait_fails] by simp
qed

lemma tl_init_inv: "tl_inv hash pid cores (tl_init n)"
proof -
  have "thread_ok hash (set cores) i ThreadLocalLock_Initialize Idle" for i
    using Initialize_local by (simp add: thread_ok_def ThreadLocalLock_Initialize_def WaitingLockInfo_new_def)
  then have "threads_ok hash cores (tl_init n)" by (simp add: threads_ok_def tl_init_def)
  moreover have "marks hash (tl_init n) = {}" by (simp add: marks_def tl_init_def Initialize_local)
  ultimately show ?thesis
    using Initialize_table
    by (simp add: tl_inv_def tl_init_def held_exact_def waits_exact_def weak_moved_def Initialize_local
        marks_counted_def FastPathStrongLockData_new_def)
qed

lemma reachable_inv:
  assumes "tl_reachable hash pid cores n s" and "inj pid"
  shows "tl_inv hash pid cores s"
  using assms by (induction rule: tl_reachable.induct) (simp_all add: tl_init_inv tl_step_inv)

end
