(* ===== verification/Lock_Asserts.thy ===== *)
theory Lock_Asserts
  imports Table_Lock_Inv
begin

text \<open>
  The assertions of \<open>src/lock/dstore_lock_entry.cpp\<close>, \<open>src/lock/dstore_lock_hash_table.cpp\<close>,
  \<open>include/lock/dstore_lock_entry.h\<close> and \<open>include/lock/dstore_lock_datatype.h\<close> that the calls on table
  locks run through. The operations of a lock entry are total functions in \<open>Lock_Entry\<close>; what they
  assert is kept apart from them here, one predicate per operation, over the state the operation
  starts in. Where an operation asserts something of each request it visits, the predicate asks it
  of every request of the queue. That a pointer handed in is not null needs no statement, and
  \<open>IsValid\<close> of a \<open>LockRequest\<close> is constantly true, so the panic on a failed removal of an
  invalid holder is never reached. The lemmas show that the invariant of the table locks gives all
  of these assertions.
\<close>

subsection \<open>The assertions of a lock entry\<close>

definition IsSameRequester_assert :: "LockRequest \<Rightarrow> LockRequest \<Rightarrow> bool" where
  "IsSameRequester_assert r req \<longleftrightarrow> threadCoreIdx r = threadCoreIdx req \<or> threadId r \<noteq> threadId req"

definition SearchLockRequestPosition_assert :: "LockRequest skiplist \<Rightarrow> LockRequest \<Rightarrow> bool" where
  "SearchLockRequestPosition_assert queue target \<longleftrightarrow>
     (\<forall>nextRequest \<in> set (iterate_level queue 0). Compare target nextRequest = 0 \<longrightarrow>
        IsSameRequester_assert nextRequest target \<and> IsSameRequester nextRequest target)"

definition InsertLockRequest_assert :: "LockRequest skiplist \<Rightarrow> LockRequest \<Rightarrow> bool" where
  "InsertLockRequest_assert queue request \<longleftrightarrow>
     SearchLockRequestPosition_assert queue request \<and>
     (let newLevel = GetInsertLevel queue (GetSeed request) in
      newLevel > m_currHighestLevel queue \<longrightarrow>
        newLevel < MAX_SKIPLIST_LEVEL \<and> newLevel = m_currHighestLevel queue + 1)"

definition granted_count_assert :: "LockEntry \<Rightarrow> bool" where
  "granted_count_assert e \<longleftrightarrow> GetLevelRequestCnt (grantedQueue e) 0 = m_grantedTotal (lockEntryCore e)"

definition AddToHolderQueue_assert :: "LockEntry \<Rightarrow> LockRequestFreeList \<Rightarrow> LockRequest \<Rightarrow> bool" where
  "AddToHolderQueue_assert e fl requester \<longleftrightarrow>
     IsOnlyWait requester \<or>
     InsertLockRequest_assert (grantedQueue e) requester \<and> granted_count_assert (fst (AddToHolderQueue e fl requester))"

definition RemoveFromHolderQueue_assert :: "LockEntry \<Rightarrow> LockRequestFreeList \<Rightarrow> LockRequest \<Rightarrow> bool" where
  "RemoveFromHolderQueue_assert e fl requester \<longleftrightarrow>
     SearchLockRequestPosition_assert (grantedQueue e) requester \<and>
     granted_count_assert (fst (snd (RemoveFromHolderQueue e fl requester)))"

text \<open>The mode is the index into the conflict table, which has \<open>DSTORE_LOCK_MODE_MAX\<close> rows.\<close>

definition GetConflictMask_bound :: "LockMode \<Rightarrow> bool" where
  "GetConflictMask_bound mode \<longleftrightarrow> mode < DSTORE_LOCK_MODE_MAX"

definition HasConflictWithAnyHolder_assert :: "LockEntry \<Rightarrow> LockRequest \<Rightarrow> bool" where
  "HasConflictWithAnyHolder_assert e requester \<longleftrightarrow>
     GetConflictMask_bound (GetLockMode requester) \<and>
     (\<forall>holder \<in> set (iterate_level (grantedQueue e) 0). IsSameRequester_assert holder requester)"

definition Preventor_Start_assert :: "LockRequest skiplist \<Rightarrow> LockRequest list \<Rightarrow> LockRequest \<Rightarrow> bool" where
  "Preventor_Start_assert queue waiting requester \<longleftrightarrow>
     GetConflictMask_bound (GetLockMode requester) \<and>
     (\<forall>holder \<in> set (iterate_level queue 0). IsSameRequester_assert holder requester) \<and>
     (\<forall>waiter \<in> set waiting. GetConflictMask_bound (GetLockMode waiter) \<and>
        (\<forall>holder \<in> set (iterate_level queue 0). IsSameRequester_assert holder waiter))"

definition TryAddToWaiterQueue_assert :: "LockEntry \<Rightarrow> LockRequest \<Rightarrow> LockRequestFreeList \<Rightarrow> bool" where
  "TryAddToWaiterQueue_assert e requester fl \<longleftrightarrow>
     (\<forall>waiter \<in> set (waitingQueue e). IsSameRequester_assert waiter requester) \<and>
     Preventor_Start_assert (grantedQueue e) (waitingQueue e) requester \<and>
     (let p = Preventor_Start (grantedQueue e) (waitingQueue e) requester EarlyDeadLockPreventor_new in
      case m_result p of
        CANT_PREVENT_DEADLOCK \<Rightarrow> True
      | PREVENT_BY_GRANT_LOCK \<Rightarrow> AddToHolderQueue_assert e fl requester
      | PREVENT_BY_CUT_IN_LINE \<Rightarrow>
          m_cutInLinePosition p \<noteq> None \<and> GetLockMode requester < DSTORE_LOCK_MODE_MAX
      | NO_DEADLOCK \<Rightarrow> GetLockMode requester < DSTORE_LOCK_MODE_MAX)"

fun advance_loop_assert ::
    "LockRequest list \<Rightarrow> LockEntry \<Rightarrow> LockRequestFreeList \<Rightarrow> LockErrorInfo option \<Rightarrow> bool" where
  "advance_loop_assert [] e fl info = True"
| "advance_loop_assert (waiter # rest) e fl info =
     (if \<not> IsValid waiter (recoveryMode (m_lockTag (lockEntryCore e)))
      then advance_loop_assert rest (RemoveFromWaiterQueue e waiter) (Push fl waiter) info
      else HasConflictWithAnyHolder_assert e waiter \<and>
        (case HasConflictWithAnyHolder e waiter fl info of
           (True, e', fl', info') \<Rightarrow> True
         | (False, e', fl', info') \<Rightarrow>
             AddToHolderQueue_assert (RemoveFromWaiterQueue e' waiter) fl' waiter \<and>
             (case AddToHolderQueue (RemoveFromWaiterQueue e' waiter) fl' waiter of
                (e'', fl'') \<Rightarrow> advance_loop_assert rest e'' fl'' info')))"

definition AdvanceWaitingQueue_assert :: "LockEntry \<Rightarrow> LockRequestFreeList \<Rightarrow> bool" where
  "AdvanceWaitingQueue_assert e fl =
     advance_loop_assert (waitingQueue e) e fl (Some LockErrorInfo_Initialize)"

definition EnqueueLockRequest_assert ::
    "bool \<Rightarrow> LockEntry \<Rightarrow> LockRequest \<Rightarrow> LockRequestFreeList \<Rightarrow> LockErrorInfo option \<Rightarrow> bool" where
  "EnqueueLockRequest_assert dup_ok e request fl info =
     (case PopACopyOf dup_ok fl request of
        (None, _) \<Rightarrow> True
      | (Some requester, fl1) \<Rightarrow>
          HasConflictWithAnyHolder_assert e requester \<and>
          (case HasConflictWithAnyHolder e requester fl1 info of
             (conflict, e2, fl2, info2) \<Rightarrow>
               if \<not> conflict \<and>
                  \<not> HasConflictWithMask (GetLockMode requester) (m_waitMask (lockEntryCore e2)) \<or>
                  IsForceHold requester
               then AddToHolderQueue_assert e2 fl2 requester
               else IsDontWait requester \<or> TryAddToWaiterQueue_assert e2 requester fl2))"

definition DequeueLockRequest_assert :: "LockEntry \<Rightarrow> LockRequest \<Rightarrow> LockRequestFreeList \<Rightarrow> bool" where
  "DequeueLockRequest_assert e requester fl \<longleftrightarrow>
     RemoveFromHolderQueue_assert e fl requester \<and>
     (case RemoveFromHolderQueue e fl requester of
        (DSTORE_SUCC, e', fl') \<Rightarrow> AdvanceWaitingQueue_assert e' fl'
      | (DSTORE_FAIL, e', fl') \<Rightarrow>
          (\<forall>waiter \<in> set (waitingQueue e'). IsSameRequester_assert waiter requester) \<and>
          (case find (\<lambda>waiter. IsSameRequester waiter requester \<and>
                  GetLockMode waiter = GetLockMode requester) (waitingQueue e') of
             Some waiter \<Rightarrow> AdvanceWaitingQueue_assert (RemoveFromWaiterQueue e' waiter) (Push fl' waiter)
           | None \<Rightarrow> True))"

subsection \<open>The assertions of the main lock table and of the tables of the threads\<close>

definition LockRequestEnqueue_assert ::
    "(LockTag \<Rightarrow> uint32) \<Rightarrow> bool \<Rightarrow> bool \<Rightarrow> LockTagCache \<Rightarrow> LockRequest \<Rightarrow> LockErrorInfo option \<Rightarrow> LockHashTable
     \<Rightarrow> bool" where
  "LockRequestEnqueue_assert hash enter_ok dup_ok tag request info h \<longleftrightarrow>
     hashCode tag = hash (lockTag tag) \<and>
     (let found = map_of (m_lockTable h) (lockTag tag) in
      found = None \<and> \<not> enter_ok \<or>
      EnqueueLockRequest_assert dup_ok (case found of Some e \<Rightarrow> e | None \<Rightarrow> Initialize (lockTag tag)) request
        (m_freeLists h (hashCode tag mod m_partitionNum h)) info)"

definition LockRequestDequeue_assert ::
    "(LockTag \<Rightarrow> uint32) \<Rightarrow> LockTagCache \<Rightarrow> LockRequest \<Rightarrow> LockHashTable \<Rightarrow> bool" where
  "LockRequestDequeue_assert hash tag request h \<longleftrightarrow>
     hashCode tag = hash (lockTag tag) \<and>
     (case map_of (m_lockTable h) (lockTag tag) of
        None \<Rightarrow> True
      | Some e \<Rightarrow> DequeueLockRequest_assert e request (m_freeLists h (hashCode tag mod m_partitionNum h)))"

definition HashCompareFunc_assert :: "LockTag \<Rightarrow> LockTag \<Rightarrow> bool" where
  "HashCompareFunc_assert tag1 tag2 \<longleftrightarrow>
     lockTagType tag1 = lockTagType tag2 \<longrightarrow>
       lockTagType tag1 \<noteq> LOCKTAG_MAX_NUM \<and> lockMethodId tag1 = lockMethodId tag2 \<and>
       recoveryMode tag1 = recoveryMode tag2"

text \<open>The one comparison of tags in a thread's table: the slot of the tag with the tag.\<close>

definition slot_compare_assert :: "(LockTag \<Rightarrow> uint32) \<Rightarrow> ThreadLocalLock \<Rightarrow> LockTag \<Rightarrow> bool" where
  "slot_compare_assert hash l tag =
     HashCompareFunc_assert (entry_tag (m_fastLockEntryMap l (hash tag mod FAST_LOCK_ENTRY_MAP_MAX_SLOT))) tag"

text \<open>
  The assertions that the next step of the call of a thread runs through, beside those in the step itself.
  They are asked for also where the step would not reach them: for a weak lock that is not on the fast
  path and for a wait that goes on.
\<close>

definition continue_call_assert ::
    "(LockTag \<Rightarrow> uint32) \<Rightarrow> (uint32 \<Rightarrow> uint64) \<Rightarrow> bool \<Rightarrow> bool \<Rightarrow> LockErrorInfo option \<Rightarrow> uint32 \<Rightarrow> tl_state \<Rightarrow> bool" where
  "continue_call_assert hash pid enter_ok dup_ok info i s = (case pc s i of
     Transferring t m dontWait ((j, k) # rest) \<Rightarrow>
       slot_compare_assert hash (local_lock s j) t \<and>
       LockRequestEnqueue_assert hash enter_ok dup_ok (LockTagCache_new hash t)
         (thread_request pid j k HOLD_BUT_DONT_WAIT) (Some zero_info) (main_table s)
   | Entering t m dontWait \<Rightarrow>
       LockRequestEnqueue_assert hash enter_ok dup_ok (LockTagCache_new hash t)
         (thread_request pid i m (if dontWait then HOLD_BUT_DONT_WAIT else HOLD_OR_WAIT)) info (main_table s)
   | Waiting t m \<Rightarrow>
       LockRequestDequeue_assert hash (LockTagCache_new hash t) (thread_request pid i m HOLD_OR_WAIT) (main_table s)
   | Leaving t m \<Rightarrow>
       LockRequestDequeue_assert hash (LockTagCache_new hash t) (thread_request pid i m HOLD_OR_WAIT) (main_table s)
   | BatchLeaving t m \<Rightarrow>
       LockRequestDequeue_assert hash (LockTagCache_new hash t) (thread_request pid i m HOLD_OR_WAIT) (main_table s)
   | Recording t m ret \<Rightarrow> slot_compare_assert hash (local_lock s i) t
   | Forgetting t m \<Rightarrow> slot_compare_assert hash (local_lock s i) t
   | _ \<Rightarrow> True)"

subsection \<open>The invariant gives the assertions\<close>

lemma regular_same_assert:
  "inj pid \<Longrightarrow> regular pid a \<Longrightarrow> regular pid b \<Longrightarrow> IsSameRequester_assert a b"
  by (auto simp: IsSameRequester_assert_def regular_def inj_eq)

lemma regular_bound: "regular pid r \<Longrightarrow> m_lockMode r < DSTORE_LOCK_MODE_MAX"
  by (cases "m_lockMode r") (simp_all add: regular_def less_LockMode_def)

lemma search_assert:
  assumes "inj pid" and "regular pid t" and "\<forall>x \<in> set (contents q). regular pid x"
  shows "SearchLockRequestPosition_assert q t"
  unfolding SearchLockRequestPosition_assert_def iterate_level_def
proof (intro ballI impI)
  fix x assume x: "x \<in> set (contents q)" "Compare t x = 0"
  then have "regular pid x" "threadCoreIdx x = threadCoreIdx t" using assms(3) by (auto simp: Compare_key req_key_def)
  then show "IsSameRequester_assert x t \<and> IsSameRequester x t"
    using regular_same_assert [OF assms(1) _ assms(2)] regular_same(2) [OF assms(1) _ assms(2)] by blast
qed

lemma insert_assert:
  assumes "inj pid" and "regular pid t" and "\<forall>x \<in> set (contents q). regular pid x"
  shows "InsertLockRequest_assert q t"
  using search_assert [OF assms] request.GetInsertLevel_bounds [of q "GetSeed t"]
  by (simp add: InsertLockRequest_assert_def Let_def)

lemma count_steps: "fold (\<lambda>_ n. n + 1) xs (n :: uint32) = n + of_nat (length xs)"
  by (induction xs arbitrary: n) (simp_all add: algebra_simps)

lemma entry_inv_count: "entry_inv e \<Longrightarrow> granted_count_assert e"
  using entry_invD(2) [of e]
  by (simp add: granted_count_assert_def GetLevelRequestCnt_def iterate_level_def count_steps summary_ok_def)

lemma add_assert:
  assumes inv: "entry_inv e" and inj: "inj pid" and reg: "regular pid r" "\<forall>x \<in> set (holders e). regular pid x"
    and room: "length (holders e) + length (waitingQueue e) < 2 ^ 32 - 1"
  shows "AddToHolderQueue_assert e fl r"
proof -
  have "entry_inv (fst (AddToHolderQueue e fl r))"
    using AddToHolderQueue_spec [OF inv _ room, of r fl] reg(1) by (cases "AddToHolderQueue e fl r") (simp add: regular_def)
  then show ?thesis
    using insert_assert [OF inj reg] entry_inv_count unfolding AddToHolderQueue_assert_def by blast
qed

lemma remove_assert:
  assumes inv: "entry_inv e" and inj: "inj pid" and reg: "regular pid r" "\<forall>x \<in> set (holders e). regular pid x"
  shows "RemoveFromHolderQueue_assert e fl r"
proof -
  have "entry_inv (fst (snd (RemoveFromHolderQueue e fl r)))"
    using RemoveFromHolderQueue_spec [OF inv, of fl r] by (cases "RemoveFromHolderQueue e fl r") simp
  then show ?thesis
    using search_assert [OF inj reg] entry_inv_count unfolding RemoveFromHolderQueue_assert_def by blast
qed

lemma conflict_assert:
  assumes "inj pid" and "regular pid r" and "\<forall>x \<in> set (holders e). regular pid x"
  shows "HasConflictWithAnyHolder_assert e r"
  using assms regular_same_assert [OF assms(1) _ assms(2)] regular_bound [OF assms(2)]
  by (simp add: HasConflictWithAnyHolder_assert_def GetConflictMask_bound_def iterate_level_def)

lemma preventor_assert:
  assumes "inj pid" and "regular pid r" and "\<forall>x \<in> set (contents q) \<union> set ws. regular pid x"
  shows "Preventor_Start_assert q ws r"
  using assms regular_same_assert [OF assms(1)] regular_bound [of pid]
  by (simp add: Preventor_Start_assert_def GetConflictMask_bound_def iterate_level_def)

lemma cut_has_position:
  "m_result (Preventor_Start q ws r EarlyDeadLockPreventor_new) = PREVENT_BY_CUT_IN_LINE \<Longrightarrow>
   m_cutInLinePosition (Preventor_Start q ws r EarlyDeadLockPreventor_new) \<noteq> None"
  by (auto simp: Preventor_Start_def Let_def CheckForDeadLock_def PrepareOwnedLock_split EarlyDeadLockPreventor_new_def
      split: if_splits option.splits prod.splits)

lemma wait_assert:
  assumes inv: "entry_inv e" and inj: "inj pid" and reg: "regular pid r"
    and all: "\<forall>x \<in> set (holders e) \<union> set (waitingQueue e). regular pid x"
    and room: "length (holders e) + length (waitingQueue e) < 2 ^ 32 - 1"
  shows "TryAddToWaiterQueue_assert e r fl"
proof -
  have "\<forall>x \<in> set (holders e). regular pid x" using all by blast
  note add = add_assert [OF inv inj reg this room, of fl]
  have "\<forall>w \<in> set (waitingQueue e). IsSameRequester_assert w r" using regular_same_assert [OF inj _ reg] all by blast
  then show ?thesis
    using preventor_assert [OF inj reg all] regular_bound [OF reg] add cut_has_position [of "grantedQueue e" "waitingQueue e" r]
    by (simp add: TryAddToWaiterQueue_assert_def Let_def split: PreventorResult.split)
qed

lemma advance_assert:
  assumes "entry_inv e" and "exclusive e" and "waitingQueue e = ws" and inj: "inj pid"
    and "\<forall>x \<in> set (holders e) \<union> set ws. regular pid x"
  shows "advance_loop_assert ws e fl info"
  using assms(1-3,5)
proof (induction ws arbitrary: e fl info)
  case (Cons w ws)
  have reg: "regular pid w" "\<forall>x \<in> set (holders e). regular pid x" using Cons.prems(4) by auto
  then have mode: "m_lockMode w \<noteq> DSTORE_LOCK_MODE_MAX" by (simp add: regular_def)
  note conflict = conflict_assert [OF inj reg]
  show ?case
  proof (cases "\<exists>h \<in> set (holders e). blocks h w")
    case True
    then show ?thesis using conflict by (simp add: IsValid_def HasConflictWithAnyHolder_eq [OF Cons.prems(1) mode])
  next
    case False
    define e1 where "e1 = RemoveFromWaiterQueue e w"
    obtain e2 fl2 where add: "AddToHolderQueue e1 fl w = (e2, fl2)" by fastforce
    have e1: "entry_inv e1" "holders e1 = holders e" "waitingQueue e1 = ws"
        "length (holders e1) + length (waitingQueue e1) < 2 ^ 32 - 1"
      using RemoveFromWaiterQueue_spec [OF Cons.prems(1), of w] Cons.prems(3) by (auto simp: e1_def)
    note spec = AddToHolderQueue_spec [OF e1(1) mode e1(4) add]
    have "exclusive e1" using Cons.prems(2) e1(2) by (simp add: exclusive_def)
    then have "exclusive e2" using exclusive_insert [OF e1(1) _ mode, of e2] False spec e1(2) by auto
    moreover have "\<forall>x \<in> set (holders e2) \<union> set ws. regular pid x" using spec e1(2) Cons.prems(4) by auto
    ultimately have "advance_loop_assert ws e2 fl2 info'" for info' using Cons.IH spec e1(3) by blast
    moreover have "AddToHolderQueue_assert e1 fl w"
      using add_assert [OF e1(1) inj reg(1) _ e1(4)] reg(2) e1(2) by simp
    ultimately show ?thesis
      using conflict False add unfolding e1_def
      by (simp add: IsValid_def HasConflictWithAnyHolder_eq [OF Cons.prems(1) mode])
  qed
qed simp

lemma enqueue_assert:
  assumes good: "entry_good e" and inj: "inj pid" and reg: "regular pid r"
    and all: "\<forall>x \<in> set (holders e) \<union> set (waitingQueue e). regular pid x" and room: "room e"
  shows "EnqueueLockRequest_assert dup_ok e r fl info"
proof (cases "PopACopyOf dup_ok fl r")
  case (Pair copy fl1)
  have inv: "entry_inv e" using good by (simp add: entry_good_def)
  have hs: "\<forall>x \<in> set (holders e). regular pid x" using all by blast
  have mode: "m_lockMode r \<noteq> DSTORE_LOCK_MODE_MAX" using reg by (simp add: regular_def)
  have copy: "copy = None \<or> copy = Some r" using Pair by (auto simp: PopACopyOf_def Let_def split: if_splits list.splits)
  show ?thesis
    using copy Pair conflict_assert [OF inj reg hs] add_assert [OF inv inj reg hs] wait_assert [OF inv inj reg all] room
    by (auto simp: EnqueueLockRequest_assert_def HasConflictWithAnyHolder_eq [OF inv mode])
qed

lemma dequeue_assert:
  assumes good: "entry_good e" and inj: "inj pid" and reg: "regular pid r"
    and all: "\<forall>x \<in> set (holders e) \<union> set (waitingQueue e). regular pid x"
  shows "DequeueLockRequest_assert e r fl"
proof -
  have inv: "entry_inv e" "exclusive e" using good by (auto simp: entry_good_def)
  have hs: "\<forall>x \<in> set (holders e). regular pid x" and ws: "\<forall>w \<in> set (waitingQueue e). IsSameRequester_assert w r"
    using all regular_same_assert [OF inj _ reg] by blast+
  obtain ret e1 fl1 where rem: "RemoveFromHolderQueue e fl r = (ret, e1, fl1)"
    by (cases "RemoveFromHolderQueue e fl r") auto
  note spec = RemoveFromHolderQueue_spec [OF inv(1) rem]
  note here = remove_assert [OF inv(1) inj reg hs, of fl]
  show ?thesis
  proof (cases ret)
    case DSTORE_SUCC
    then obtain h where h: "holders e1 = remove1 h (holders e)" "waitingQueue e1 = waitingQueue e" "entry_inv e1"
      using spec by auto
    have sub: "set (holders e1) \<subseteq> set (holders e)" unfolding h(1) by (rule set_remove1_subset)
    then have "\<forall>x \<in> set (holders e1) \<union> set (waitingQueue e1). regular pid x" using all h(2) by auto
    then have "AdvanceWaitingQueue_assert e1 fl1"
      unfolding AdvanceWaitingQueue_assert_def
      by (rule advance_assert [OF h(3) exclusive_subset [OF inv(2) sub] refl inj])
    then show ?thesis using here rem DSTORE_SUCC by (simp add: DequeueLockRequest_assert_def)
  next
    case DSTORE_FAIL
    then have e1: "e1 = e" "fl1 = fl" using spec by auto
    have "AdvanceWaitingQueue_assert (RemoveFromWaiterQueue e w) fl'" if w: "w \<in> set (waitingQueue e)" for w fl'
    proof -
      note rspec = RemoveFromWaiterQueue_spec [OF inv(1) w]
      have "exclusive (RemoveFromWaiterQueue e w)" using inv(2) rspec by (simp add: exclusive_def)
      moreover have "\<forall>x \<in> set (holders (RemoveFromWaiterQueue e w)) \<union> set (waitingQueue (RemoveFromWaiterQueue e w)). regular pid x"
        using all rspec set_remove1_subset [of w "waitingQueue e"] by auto
      ultimately show ?thesis
        unfolding AdvanceWaitingQueue_assert_def using advance_assert [OF _ _ refl inj] rspec by blast
    qed
    then show ?thesis
      using here rem DSTORE_FAIL e1 ws
      by (auto simp: DequeueLockRequest_assert_def find_Some_iff split: option.split)
  qed
qed

lemma table_enqueue_assert:
  assumes inv: "table_inv h" and reg: "all_regular pid h" "regular pid r" and inj: "inj pid" and room: "table_room h t"
  shows "LockRequestEnqueue_assert hash enter_ok dup_ok (LockTagCache_new hash t) r info h"
  using enqueue_assert [OF entry_at_good(1) [OF inv] inj reg(2) all_regularD [OF reg(1)] room [unfolded table_room_def]]
  by (auto simp: LockRequestEnqueue_assert_def Let_def entry_at_def LockTagCache_new_def split: option.splits)

lemma table_dequeue_assert:
  assumes inv: "table_inv h" and reg: "all_regular pid h" "regular pid r" and inj: "inj pid"
  shows "LockRequestDequeue_assert hash (LockTagCache_new hash t) r h"
  using dequeue_assert [OF entry_at_good(1) [OF inv] inj reg(2) all_regularD [OF reg(1)], of t]
  by (auto simp: LockRequestDequeue_assert_def entry_at_def LockTagCache_new_def split: option.splits)

lemma built_compare_assert:
  assumes "built_tag t" and "IsInvalid s \<or> built_tag s"
  shows "HashCompareFunc_assert s t"
  using assms(2)
proof
  assume "IsInvalid s"
  then show ?thesis using built_tag_valid [OF assms(1)] by (simp add: HashCompareFunc_assert_def IsInvalid_def)
next
  assume "built_tag s"
  then obtain a b where ab: "s = tag_of a" "t = tag_of b" using assms(1) by (auto simp: built_tag_def)
  show ?thesis unfolding ab by (cases a; cases b; simp add: HashCompareFunc_assert_def tag_setter_defs)
qed

lemma slot_assert:
  assumes "local_inv hash l" and "built_tag t"
  shows "slot_compare_assert hash l t"
  unfolding slot_compare_assert_def
  using built_compare_assert [OF assms(2)] local_invD(6) [OF assms(1)] by blast

lemma continue_call_asserts:
  assumes inv: "tl_inv hash pid cores s" and inj: "inj pid" and room: "call_room hash i s"
  shows "continue_call_assert hash pid enter_ok dup_ok info i s"
proof -
  note ok = tl_invD(1) [OF inv, of i] and tab = tl_invD(2,3) [OF inv]
  note enq = table_enqueue_assert [OF tab _ inj] and deq = table_dequeue_assert [OF tab _ inj]
  have slot: "slot_compare_assert hash (local_lock s j) t" if "built_tag t" for j t
    by (rule slot_assert [OF thread_okD(1) [OF tl_invD(1) [OF inv]] that])
  have deq: "LockRequestDequeue_assert hash (LockTagCache_new hash t) (thread_request pid i m HOLD_OR_WAIT) (main_table s)"
    if "usable_mode m" for t m
    by (rule deq) (simp add: request_regular(1) [OF that])
  show ?thesis
  proof (cases "pc s i")
    case here: (Transferring t m d todo)
    then have t: "built_tag t" using thread_okD(6) [OF ok, of t m] by simp
    have "usable_mode k" if "(j, k) \<in> set todo" for j k
      using thread_okD(11) [OF ok, of j k t m] here that by (auto simp: weak_mode_def usable_mode_def less_LockMode_def)
    then have "regular pid (thread_request pid j k HOLD_BUT_DONT_WAIT)" if "(j, k) \<in> set todo" for j k
      using request_regular(1) that by blast
    then show ?thesis
      using here room slot [OF t] enq [of "thread_request pid _ _ HOLD_BUT_DONT_WAIT" t]
      by (auto simp: continue_call_assert_def call_room_def split: list.split)
  next
    case here: (Entering t m d)
    then show ?thesis
      using room enq [of "thread_request pid i m _" t] request_regular(1) [of m] thread_okD(6) [OF ok, of t m]
      by (simp add: continue_call_assert_def call_room_def)
  qed (use slot deq thread_okD(6-8) [OF ok] in \<open>simp_all add: continue_call_assert_def\<close>)
qed

end
