(* ===== verification/Local_Lock_Spec.thy ===== *)
theory Local_Lock_Spec
  imports Local_Lock_Inv
begin

text \<open>
  What the table of a thread promises its callers: the two places an entry can be in look like
  one map from tags to entries, a weak lock taken and given back on the fast path leaves no trace,
  and an empty table holds nothing. It also shows a state of the wait for several locks in which
  other threads must not look.
\<close>

subsection \<open>One map\<close>

lemma CreateLock_finds:
  assumes inv: "local_inv hash l" and t: "built_tag t" and room: "room_local l"
    and create: "CreateLock ok (LockTagCache_new hash t) mt l = Some (Some p, l1)"
  shows "local_inv hash l1" and "FindLock (LockTagCache_new hash t) l1 = Some p"
    and "m_backupWaitLock l1 = m_backupWaitLock l"
    and "built_tag u \<Longrightarrow> lookup hash l1 u =
      (if u = t \<and> lookup hash l t = None then Some (LocalLockEntry_Initialize t mt) else lookup hash l u)"
proof -
  have "local_inv hash l1 \<and> FindLock (LockTagCache_new hash t) l1 = Some p \<and> m_backupWaitLock l1 = m_backupWaitLock l \<and>
      (\<forall>u. built_tag u \<longrightarrow> lookup hash l1 u =
        (if u = t \<and> lookup hash l t = None then Some (LocalLockEntry_Initialize t mt) else lookup hash l u))"
    using inv t room
  proof (cases rule: CreateLock_spec [where ok = ok and mt = mt])
    case oom
    then show ?thesis using create by simp
  next
    case (found q e)
    then show ?thesis using create inv by auto
  next
    case (new q l')
    then have "p = q" "l1 = l'" using create by simp_all
    then show ?thesis using new(2,3,5,8) same_waitsD(2) [OF new(4)] by simp
  qed
  then show "local_inv hash l1" "FindLock (LockTagCache_new hash t) l1 = Some p" "m_backupWaitLock l1 = m_backupWaitLock l"
    "built_tag u \<Longrightarrow> lookup hash l1 u =
      (if u = t \<and> lookup hash l t = None then Some (LocalLockEntry_Initialize t mt) else lookup hash l u)"
    by blast+
qed

lemma CreateLock_then_ClearLock:
  assumes inv: "local_inv hash l" and t: "built_tag t" and room: "room_local l"
    and create: "CreateLock ok (LockTagCache_new hash t) mt l = Some (Some p, l1)"
    and new: "lookup hash l t = None" "m_backupWaitLock l \<noteq> Some p"
  obtains l2 where "ClearLock p (hash t) l1 = Some l2" "local_inv hash l2"
    "\<And>u. built_tag u \<Longrightarrow> lookup hash l2 u = lookup hash l u"
proof -
  note c = CreateLock_finds [OF inv t room create]
  obtain e where e: "deref l1 p = Some e" "lookup hash l1 t = Some e" by (rule FindLock_SomeD [OF c(1) t c(2)])
  then have "grantedTotal e = 0" using c(4) [OF t] new(1) by (auto simp: LocalLockEntry_Initialize_def)
  show ?thesis
    using c(1) t c(2) e(1)
  proof (cases rule: ClearLock_spec)
    case kept
    then show ?thesis using \<open>grantedTotal e = 0\<close> c(3) new(2) by simp
  next
    case (gone l2)
    then show ?thesis using c(4) new(1) by (intro that [OF gone(1,4)]) auto
  qed
qed


text \<open>
  C13. The slots and the hash table behind them are one map from tags to entries. Creating an entry
  adds the tag with an empty entry, or finds the entry it has; it changes no other tag, and the
  returned pointer is the one a search finds. Clearing an entry that was new takes the tag out
  again and leaves every search as it was.
\<close>

theorem local_table_refines_map:
  assumes inv: "local_inv hash l" and t: "built_tag t" and room: "room_local l"
    and create: "CreateLock ok (LockTagCache_new hash t) mt l = Some (Some p, l1)"
    and free: "m_backupWaitLock l = None"
  shows "local_inv hash l1 \<and> FindLock (LockTagCache_new hash t) l1 = Some p \<and>
     (\<forall>u. built_tag u \<longrightarrow> lookup hash l1 u =
        (if u = t \<and> lookup hash l t = None then Some (LocalLockEntry_Initialize t mt) else lookup hash l u)) \<and>
     (lookup hash l t = None \<longrightarrow>
       (\<exists>l2. ClearLock p (hash t) l1 = Some l2 \<and> local_inv hash l2 \<and>
          (\<forall>u. built_tag u \<longrightarrow> lookup hash l2 u = lookup hash l u)))"
proof -
  note c = CreateLock_finds [OF inv t room create]
  have "\<exists>l2. ClearLock p (hash t) l1 = Some l2 \<and> local_inv hash l2 \<and> (\<forall>u. built_tag u \<longrightarrow> lookup hash l2 u = lookup hash l u)"
    if "lookup hash l t = None"
    by (rule CreateLock_then_ClearLock [OF inv t room create that]) (use free in auto)
  then show ?thesis using c by blast
qed

text \<open>A table that counts no entries holds nothing.\<close>

lemma IsEmpty_holds_nothing:
  assumes inv: "local_inv hash l" and empty: "LocalLock_IsEmpty l"
  shows "hold_cnt hash l t m = 0"
proof (cases "built_tag t")
  case True
  have "unat ` used_slots l \<subseteq> {..<512}"
  proof
    fix n assume "n \<in> unat ` used_slots l"
    then obtain i where i: "i \<in> used_slots l" "n = unat i" by blast
    let ?t = "entry_tag (m_fastLockEntryMap l i)"
    have "unat (slot_of hash ?t) < 512" by (simp add: FAST_LOCK_ENTRY_MAP_MAX_SLOT_def unat_mod)
    moreover have "slot_of hash ?t = i" using i(1) local_invD(6) [OF inv, of i] by (simp add: used_slots_def)
    ultimately show "n \<in> {..<512}" using i(2) by simp
  qed
  then have "card (unat ` used_slots l) \<le> 512" using card_mono [of "{..<512::nat}"] by simp
  then have "card (used_slots l) \<le> 512" using card_image [OF inj_onI, of "used_slots l" unat] by (simp add: word_unat_eq_iff)
  then have small: "card (used_slots l) < 2 ^ LENGTH(32)" by simp
  have "card (used_slots l) = 0" "m_holdLocks l = []"
    using empty local_invD(2-4) [OF inv] of_nat_word_eq_0_iff [OF small]
      of_nat_word_eq_0_iff [of "length (m_holdLocks l)", where 'a = 32]
    by (simp_all add: LocalLock_IsEmpty_def)
  then have "used_slots l = {}" "m_holdLocks l = []" using finite_used_slots by simp_all
  then have "lookup hash l t = None"
    unfolding lookup_cases [OF inv True] using built_tag_valid [OF True] by (simp add: used_slots_def) metis
  then show ?thesis using True by (simp add: hold_cnt_lookup)
next
  case False
  then show ?thesis by (simp add: hold_cnt_def)
qed

subsection \<open>The fast path leaves no trace\<close>

text \<open>
  C16. While no strong lock is announced in the partition of the tag, a thread that does not hold
  the weak lock gets it in its own table, and giving it back leaves the thread holding what it held
  before, all in its own table.
\<close>

theorem fast_path_round_trip:
  assumes inv: "local_inv hash l" and t: "built_tag t" and room: "grant_room hash l t" and weak: "weak_mode m"
    and free: "GetStrongLockCntInPartition (hash t) d = 0" and new: "hold_cnt hash l t m = 0"
  shows "\<exists>l1 l2. TryGrantByFastPath True d (LockTagCache_new hash t) m mt l = Some (Inr False, l1) \<and>
     hold_cnt hash l1 t m = 1 \<and> hold_fast hash l1 t m \<and>
     TryReleaseByFastPath (LockTagCache_new hash t) m l1 = Some (Inr (), l2) \<and>
     local_inv hash l2 \<and> hold_cnt hash l2 = hold_cnt hash l \<and> hold_fast hash l2 = hold_fast hash l"
proof -
  obtain l1 where l1: "TryGrantByFastPath True d (LockTagCache_new hash t) m mt l = Some (Inr False, l1)" "keeps hash l l1"
    "hold_cnt hash l1 = raise (hold_cnt hash l) t m 1" "hold_fast hash l1 = raise (hold_fast hash l) t m True"
    using inv t room weak by (cases rule: TryGrantByFastPath_spec [where ok = True and d = d and mt = mt]) (use free new in auto)
  have inv1: "local_inv hash l1" "hold_cnt hash l1 t m \<noteq> 0" using l1(2,3) by (simp_all add: keeps_def)
  obtain l2 where l2: "TryReleaseByFastPath (LockTagCache_new hash t) m l1 = Some (Inr (), l2)" "keeps hash l1 l2"
    "hold_cnt hash l2 = raise (hold_cnt hash l1) t m 0" "hold_fast hash l2 = raise (hold_fast hash l1) t m False"
    using inv1 weak by (cases rule: TryReleaseByFastPath_spec) (use l1(3,4) in auto)
  have "\<not> hold_fast hash l t m" using hold_fastD(2) [OF inv, of t m] new by auto
  then have "hold_cnt hash l2 = hold_cnt hash l" "hold_fast hash l2 = hold_fast hash l"
    using l1(3,4) l2(3,4) new by (auto simp: fun_eq_iff)
  then show ?thesis using l1 l2(1,2) by (simp add: keeps_def)
qed

subsection \<open>Waiting for several locks\<close>

lemma CreateLock_waits:
  "CreateLock ok c mt l = Some (r, l') \<Longrightarrow> m_waitLocks l' = m_waitLocks l \<and> m_waitLocksLen l' = m_waitLocksLen l"
  by (auto simp: CreateLock_def Let_def guard_def split: if_splits option.splits)

lemma record_waiting_loop_failed:
  assumes "record_waiting_loop enter_ok mode mt i tags l = Some (Some k, l1)"
  shows "i \<le> k \<and> k < i + length tags \<and> m_waitLocksLen l1 = m_waitLocksLen l \<and>
    length (m_waitLocks l1) = length (m_waitLocks l) \<and> m_waitLocks l1 ! k = m_waitLocks l ! k"
  using assms
proof (induction enter_ok mode mt i tags l rule: record_waiting_loop.induct)
  case (2 enter_ok mode mt i tag tags l)
  obtain r l' where c: "CreateLock (enter_ok i) tag mt l = Some (r, l')" using 2(2) by (auto simp: bind_eq_Some_conv)
  note w = CreateLock_waits [OF c]
  show ?case
  proof (cases r)
    case None
    then show ?thesis using 2(2) c w by simp
  next
    case (Some p)
    let ?l = "l'\<lparr>m_waitLocks := (m_waitLocks l')[i := Some p]\<rparr>"
    obtain e where "deref l' p = Some e" "record_waiting_loop enter_ok mode mt (Suc i) tags ?l = Some (Some k, l1)"
      using 2(2) c Some by (auto simp: bind_eq_Some_conv)
    then have "Suc i \<le> k \<and> k < Suc i + length tags \<and> m_waitLocksLen l1 = m_waitLocksLen ?l \<and>
        length (m_waitLocks l1) = length (m_waitLocks ?l) \<and> m_waitLocks l1 ! k = m_waitLocks ?l ! k"
      using 2(1) [OF c refl Some] 2(2) by (simp add: c Some bind_eq_Some_conv guard_def)
    then show ?thesis using w by simp
  qed
qed simp

lemma tags_behind_null: "None \<in> set qs \<Longrightarrow> tags_behind l qs = None"
proof (induction qs)
  case (Cons q qs)
  show ?case
  proof (cases q)
    case (Some p)
    then show ?thesis using Cons by (cases "deref l p") simp_all
  qed simp
qed simp

text \<open>
  C15. When \<open>RecordWaitingForMultiLocks\<close> runs out of memory, it gives up the mutex of the thread's
  table while the table still says that the thread waits for all the locks. A deadlock detector of
  another thread that calls \<open>GetWaitingLocks\<close> before the thread cleans up follows a null pointer.
\<close>

theorem multi_wait_null_pointer:
  assumes failed: "record_waiting_locked enter_ok tags mode mt l = Some (Some k, l1)"
    and fresh: "m_waitLocks l = replicate m_waitLockMaxCount None"
  shows "GetWaitingLocks arrayLen l1 = None"
proof -
  have k: "k < length tags" "m_waitLocksLen l1 = length tags" "length (m_waitLocks l1) = m_waitLockMaxCount"
    "m_waitLocks l1 ! k = m_waitLocks l ! k"
    using record_waiting_loop_failed [OF failed [unfolded record_waiting_locked_def]] fresh by simp_all
  have "tags_behind l1 (take (m_waitLocksLen l1) (m_waitLocks l1)) = None" if "m_waitLocksLen l1 \<le> m_waitLockMaxCount"
  proof (rule tags_behind_null)
    have "take (m_waitLocksLen l1) (m_waitLocks l1) ! k = None" using k that fresh by simp
    then show "None \<in> set (take (m_waitLocksLen l1) (m_waitLocks l1))"
      using k that by (metis in_set_conv_nth length_take min.absorb2)
  qed
  then show ?thesis
    using k(1,2) by (auto simp: GetWaitingLocks_def IsWaitingForMultipleLocks_def guard_def)
qed

subsection \<open>Samples\<close>

text \<open>All tags share one slot, so the second one goes to the hash table.\<close>

definition same_slot :: "LockTag \<Rightarrow> uint32" where
  "same_slot t = 0"

definition table_tag :: "uint32 \<Rightarrow> LockTag" where
  "table_tag relId = SetTableLockTag 1 relId LockTag_default"

definition one_entry :: ThreadLocalLock where
  "one_entry = snd (the (CreateLock True (LockTagCache_new same_slot (table_tag 7)) TABLE_LOCK_MGR ThreadLocalLock_Initialize))"

lemma table_tag_built: "built_tag (table_tag r)"
  unfolding built_tag_def table_tag_def using rangeI [of tag_of "Table_Obj 1 r"] by simp

lemma one_entry_inv: "local_inv same_slot one_entry"
proof -
  have "CreateLock True (LockTagCache_new same_slot (table_tag 7)) TABLE_LOCK_MGR ThreadLocalLock_Initialize = Some (Some (Slot 0), one_entry)"
    unfolding one_entry_def by (simp add: CreateLock_def ThreadLocalLock_Initialize_def IsInvalid_def SetInvalid_def same_slot_def)
  from CreateLock_finds(1) [OF Initialize_local(1) table_tag_built _ this]
  show ?thesis by (simp add: room_local_def ThreadLocalLock_Initialize_def)
qed

lemma result_of: "map_option fst x = Some a \<Longrightarrow> x = Some (a, snd (the x))"
  by (cases x) auto

theorem local_table_refines_map_witness:
  "\<exists>l2. lookup same_slot one_entry (table_tag 8) = None \<and>
     ClearLock (Node (table_tag 8)) (same_slot (table_tag 8))
       (snd (the (CreateLock True (LockTagCache_new same_slot (table_tag 8)) TABLE_LOCK_MGR one_entry))) = Some l2 \<and>
     lookup same_slot l2 (table_tag 8) = None \<and> lookup same_slot l2 (table_tag 7) = lookup same_slot one_entry (table_tag 7)"
proof -
  have "map_option fst (CreateLock True (LockTagCache_new same_slot (table_tag 8)) TABLE_LOCK_MGR one_entry) = Some (Some (Node (table_tag 8)))"
    and new: "lookup same_slot one_entry (table_tag 8) = None" and "room_local one_entry" and "m_backupWaitLock one_entry = None"
    by code_simp+
  then show ?thesis
    using local_table_refines_map [OF one_entry_inv table_tag_built _ result_of] table_tag_built by metis
qed

theorem fast_path_round_trip_witness:
  "\<exists>l1 l2. TryGrantByFastPath True FastPathStrongLockData_new (LockTagCache_new same_slot (table_tag 7)) DSTORE_ROW_SHARE_LOCK
       TABLE_LOCK_MGR one_entry = Some (Inr False, l1) \<and>
     TryReleaseByFastPath (LockTagCache_new same_slot (table_tag 7)) DSTORE_ROW_SHARE_LOCK l1 = Some (Inr (), l2) \<and>
     hold_cnt same_slot l2 = hold_cnt same_slot one_entry"
proof -
  have "grant_room same_slot one_entry (table_tag 7)" and "weak_mode DSTORE_ROW_SHARE_LOCK"
    and "GetStrongLockCntInPartition (same_slot (table_tag 7)) FastPathStrongLockData_new = 0"
    and "GetHoldLockCnt (LockTagCache_new same_slot (table_tag 7)) one_entry DSTORE_ROW_SHARE_LOCK = 0"
    by code_simp+
  moreover from this(4) have "hold_cnt same_slot one_entry (table_tag 7) DSTORE_ROW_SHARE_LOCK = 0"
    by (simp add: hold_cnt_def)
  ultimately show ?thesis
    using fast_path_round_trip [OF one_entry_inv table_tag_built, of 7 DSTORE_ROW_SHARE_LOCK FastPathStrongLockData_new TABLE_LOCK_MGR] by blast
qed

theorem multi_wait_null_pointer_witness:
  "GetWaitingLocks 8 (snd (the (record_waiting_locked (\<lambda>_. False)
     [LockTagCache_new same_slot (table_tag 7), LockTagCache_new same_slot (table_tag 8)] LOCK_XACT_SHARED_WAIT_LOCK
     TABLE_LOCK_MGR one_entry))) = None"
proof -
  have "map_option fst (record_waiting_locked (\<lambda>_. False)
      [LockTagCache_new same_slot (table_tag 7), LockTagCache_new same_slot (table_tag 8)] LOCK_XACT_SHARED_WAIT_LOCK
      TABLE_LOCK_MGR one_entry) = Some (Some 1)"
    and "m_waitLocks one_entry = replicate m_waitLockMaxCount None"
    by code_simp+
  then show ?thesis by (intro multi_wait_null_pointer [OF result_of])
qed

end
