(* ===== verification/Table_Lock_Safety.thy ===== *)
theory Table_Lock_Safety
  imports Lock_Asserts Local_Lock_Spec
begin

text \<open>
  What table locks promise, for every interleaving of the calls of the threads: conflicting locks
  exclude each other across the fast path and the main lock table, nothing leaks and no call crashes.
  A schedule that runs the steps on concrete states provides the samples.
\<close>

subsection \<open>What the invariant gives\<close>

text \<open>
  A thread owns a lock it has recorded and not begun to give up, or that the main lock table has
  granted to the call it is in.
\<close>

definition owns :: "(LockTag \<Rightarrow> uint32) \<Rightarrow> tl_state \<Rightarrow> uint32 \<Rightarrow> LockTag \<Rightarrow> LockMode \<Rightarrow> bool" where
  "owns hash s i t m \<longleftrightarrow> hold_cnt hash (local_lock s i) t m \<noteq> 0 \<and> left (pc s i) \<noteq> Some (t, m) \<or>
     holds_ahead (isWaiting s i) (pc s i) = Some (t, m)"

lemma weak_conflict_announced:
  assumes "weak_mode m" and "HasConflictWithMode m n \<or> HasConflictWithMode n m" and "usable_mode n"
  shows "announced n"
  using assms by (cases m; cases n) (simp_all add: weak_mode_def announced_def usable_mode_def less_LockMode_def
      HasConflictWithMode_def GetConflictMask_def lockConflictMap_def GetLockMask_def)

lemma holds_aheadD:
  assumes "holds_ahead w p = Some (t, m)"
  shows "marks_ahead p = Some (t, m)" and "p \<noteq> Unmarking u n" and "pending p u n = {}"
    and "acquires p = Some (t, m) \<or> batches p = Some (t, m)"
  using assms by (induction w p rule: holds_ahead.induct; simp split: if_splits)+

lemma owned_mark_firm:
  assumes inv: "tl_inv hash pid cores s" and own: "owns hash s i t m" and ann: "announced m"
  shows "firm_at hash s i t m" and "pending (pc s i) t m = {}"
proof -
  note acq = thread_okD(6) [OF tl_invD(1) [OF inv, of i], of t m]
  have "firm_at hash s i t m \<and> pending (pc s i) t m = {}"
    using own unfolding owns_def
  proof
    assume x: "hold_cnt hash (local_lock s i) t m \<noteq> 0 \<and> left (pc s i) \<noteq> Some (t, m)"
    then have "pc s i \<noteq> Forgetting t m" "pc s i \<noteq> Unmarking t m" using acq by auto
    moreover have "pending (pc s i) t m = {}" using x acq by (cases "pc s i") auto
    ultimately show ?thesis using x ann by (simp add: firm_def has_mark_def)
  next
    assume "holds_ahead (isWaiting s i) (pc s i) = Some (t, m)"
    from holds_aheadD [OF this] show ?thesis using ann by (simp add: firm_def has_mark_def)
  qed
  then show "firm_at hash s i t m" "pending (pc s i) t m = {}" by blast+
qed

lemma owns_usable:
  assumes "tl_inv hash pid cores s" and "owns hash s i t m"
  shows "usable_mode m"
proof -
  note ok = tl_invD(1) [OF assms(1), of i]
  show ?thesis
    using assms(2) thread_okD(6,8,10) [OF ok, of t m] holds_aheadD(4) [of "isWaiting s i" "pc s i" t m] unfolding owns_def
    by blast
qed

lemma fast_excludes_conflict:
  assumes inv: "tl_inv hash pid cores s" and fast: "hold_fast hash (local_lock s i) t m" and own: "owns hash s j t n"
  shows "\<not> HasConflictWithMode m n" and "\<not> HasConflictWithMode n m"
proof -
  have False if "HasConflictWithMode m n \<or> HasConflictWithMode n m"
  proof -
    have "announced n"
      using weak_conflict_announced [OF hold_fastD(1) [OF thread_okD(1) [OF tl_invD(1) [OF inv]] fast] that owns_usable [OF inv own]] .
    then show False using tl_invD(7) [OF inv owned_mark_firm(1) [OF inv own] fast] owned_mark_firm(2) [OF inv own] by simp
  qed
  then show "\<not> HasConflictWithMode m n" "\<not> HasConflictWithMode n m" by blast+
qed

lemma owns_where:
  assumes "tl_inv hash pid cores s" and "owns hash s i t m" and "\<not> hold_fast hash (local_lock s i) t m"
  shows "(i, m) \<in> held_keys (main_table s) t"
  using assms(2,3) tl_invD(4) [OF assms(1), of i m t] by (auto simp: owns_def in_main_def)

lemma conflicting_owners:
  assumes inv: "tl_inv hash pid cores s" and inj: "inj pid"
    and own: "owns hash s i t m" "owns hash s j t n" and conflict: "HasConflictWithMode m n"
  shows "i = j"
proof -
  have "\<not> hold_fast hash (local_lock s i) t m" "\<not> hold_fast hash (local_lock s j) t n"
    using fast_excludes_conflict [OF inv] own conflict by blast+
  then show ?thesis
    using held_keys_exclusive [OF tl_invD(2,3) [OF inv] inj _ _ conflict] owns_where [OF inv] own by blast
qed

text \<open>
  C1. In every state that threads can reach by interleaving their calls, conflicting table locks on
  one table belong to one thread: whether each lock is on the fast path of its thread or in the main
  lock table, and also while calls are under way.
\<close>

theorem conflicting_table_locks_one_thread:
  assumes reach: "tl_reachable hash pid cores parts s" and inj: "inj pid"
    and own: "owns hash s i t m" "owns hash s j t n" and conflict: "HasConflictWithMode m n"
  shows "i = j"
  by (rule conflicting_owners [OF reachable_inv [OF reach inj] inj own conflict])

text \<open>
  C4. Whenever no thread is in a call, the main lock table holds exactly the locks that the threads
  record and do not hold on the fast path, and nobody is queued: no call, failed, timed out or
  cancelled, leaves a request behind or loses one.
\<close>

theorem no_table_lock_leaks:
  assumes reach: "tl_reachable hash pid cores parts s" and inj: "inj pid" and idle: "\<forall>i. pc s i = Idle"
  shows "held_keys (main_table s) t =
      {(i, m). hold_cnt hash (local_lock s i) t m \<noteq> 0 \<and> \<not> hold_fast hash (local_lock s i) t m} \<and>
    wait_keys (main_table s) t = {}"
  using tl_invD(4,5) [OF reachable_inv [OF reach inj]] idle by auto

text \<open>
  C6. Whenever no thread is in a call and none holds a lock that is announced, all counts of strong
  locks are zero, so that the check for leaked counts passes and weak locks use the fast path again.
\<close>

theorem strong_counts_return_to_zero:
  assumes reach: "tl_reachable hash pid cores parts s" and inj: "inj pid" and idle: "\<forall>i. pc s i = Idle"
    and none: "\<forall>i t m. announced m \<longrightarrow> hold_cnt hash (local_lock s i) t m = 0"
  shows "CheckStrongLocksInFastPathLeak (m_strongLocks s) = Some ()"
proof -
  note inv = reachable_inv [OF reach inj]
  have "marks hash s = {}" using idle none by (simp add: marks_def)
  then have "counts (m_strongLocks s) q = 0" for q
    using tl_invD(6) [OF inv] by (simp add: marks_counted_def unat_eq_0)
  then show ?thesis by (simp add: CheckStrongLocksInFastPathLeak_def guard_def list_all_def)
qed

text \<open>
  C7. In every reachable state a thread that is in no call can begin to lock, to unlock what it holds,
  once or several times, and the next step of a call that is under way succeeds, whatever allocations
  fail and however waits end: no assertion is violated, neither those of the tables of the threads, of
  the counts of strong locks and of the calls themselves, nor those of the main lock table, its entries
  and their queues; no count falls below zero and no pointer to a removed entry is followed.
\<close>

theorem calls_never_crash:
  assumes reach: "tl_reachable hash pid cores parts s" and inj: "inj pid"
  shows "(call_room hash i s \<longrightarrow>
      continue_call hash pid cores enter_ok dup_ok info wait_fails i s \<noteq> None \<and>
      continue_call_assert hash pid enter_ok dup_ok info i s) \<and>
    (i \<in> set cores \<and> pc s i = Idle \<and> usable_mode m \<longrightarrow>
      (built_tag t \<and> grant_room hash (local_lock s i) t \<longrightarrow>
         LockTable_begin hash enter_ok i t m dontWait s \<noteq> None \<and> slot_compare_assert hash (local_lock s i) t) \<and>
      (hold_cnt hash (local_lock s i) t m \<noteq> 0 \<longrightarrow>
         Unlock_begin hash i t m s \<noteq> None \<and> slot_compare_assert hash (local_lock s i) t \<and>
         (n \<noteq> 0 \<and> n \<le> hold_cnt hash (local_lock s i) t m \<longrightarrow> BatchUnlock_begin hash i t m n s \<noteq> None)))"
proof -
  note inv = reachable_inv [OF reach inj]
  note here = thread_okD(1) [OF tl_invD(1) [OF inv, of i]]
  have "slot_compare_assert hash (local_lock s i) t" if "built_tag t \<or> hold_cnt hash (local_lock s i) t m \<noteq> 0"
    using that slot_assert [OF here] held_entry [OF here] by blast
  then show ?thesis
    using continue_call_inv [OF inv inj, of i enter_ok dup_ok info wait_fails] continue_call_asserts [OF inv inj]
      LockTable_begin_inv [OF inv, of i t m enter_ok dontWait] Unlock_begin_inv [OF inv, of i m t]
      batch_step [OF inv, of i m n t]
    by auto
qed

subsection \<open>Running a schedule\<close>

datatype tl_action = Begin_Lock uint32 LockTag LockMode bool | Begin_Unlock uint32 LockTag LockMode | Go_On uint32

fun tl_act :: "(LockTag \<Rightarrow> uint32) \<Rightarrow> (uint32 \<Rightarrow> uint64) \<Rightarrow> uint32 list \<Rightarrow> tl_action \<Rightarrow> tl_state \<Rightarrow> tl_state option" where
  "tl_act hash pid cores (Begin_Lock i t m dontWait) s =
     (if i \<in> set cores \<and> pc s i = Idle \<and> usable_mode m \<and> grant_room hash (local_lock s i) t
      then LockTable_begin hash True i t m dontWait s else None)"
| "tl_act hash pid cores (Begin_Unlock i t m) s =
     (if i \<in> set cores \<and> pc s i = Idle \<and> usable_mode m \<and> GetHoldLockCnt (LockTagCache_new hash t) (local_lock s i) m \<noteq> 0
      then Unlock_begin hash i t m s else None)"
| "tl_act hash pid cores (Go_On i) s =
     (if call_room hash i s then continue_call hash pid cores True True None False i s else None)"

fun tl_run :: "(LockTag \<Rightarrow> uint32) \<Rightarrow> (uint32 \<Rightarrow> uint64) \<Rightarrow> uint32 list \<Rightarrow> tl_action list \<Rightarrow> tl_state \<Rightarrow> tl_state option" where
  "tl_run hash pid cores [] s = Some s"
| "tl_run hash pid cores (a # as) s = Option.bind (tl_act hash pid cores a s) (tl_run hash pid cores as)"

fun action_tag :: "tl_action \<Rightarrow> LockTag option" where
  "action_tag (Begin_Lock i t m d) = Some t"
| "action_tag (Begin_Unlock i t m) = Some t"
| "action_tag (Go_On i) = None"

lemma tl_act_step:
  assumes "tl_act hash pid cores a s = Some s'" and "\<forall>t. action_tag a = Some t \<longrightarrow> built_tag t"
  shows "tl_step hash pid cores s s'"
proof (cases a)
  case (Begin_Lock i t m d)
  then show ?thesis using assms by (auto split: if_splits intro: tl_step.lock)
next
  case (Begin_Unlock i t m)
  then show ?thesis using assms by (auto simp: hold_cnt_def split: if_splits intro: tl_step.unlock)
next
  case (Go_On i)
  then show ?thesis using assms by (auto split: if_splits intro: tl_step.further)
qed

lemma tl_run_reachable:
  assumes "tl_reachable hash pid cores n s" and "tl_run hash pid cores as s = Some s'"
    and "\<forall>a \<in> set as. \<forall>t. action_tag a = Some t \<longrightarrow> built_tag t"
  shows "tl_reachable hash pid cores n s'"
  using assms
proof (induction as arbitrary: s)
  case (Cons a as)
  then obtain s1 where "tl_act hash pid cores a s = Some s1" "tl_run hash pid cores as s1 = Some s'"
    by (auto simp: bind_eq_Some_conv)
  then show ?case using Cons tl_act_step tl_reachable.next_step by (metis list.set_intros)
qed simp

abbreviation sample_table :: LockTag where "sample_table \<equiv> table_tag 7"
definition sample_hash :: "LockTag \<Rightarrow> uint32" where "sample_hash t = field2 t + field3 t"
definition sample_pid :: "uint32 \<Rightarrow> uint64" where "sample_pid i = of_nat (unat i)"

definition sample_schedule :: "tl_action list" where
  "sample_schedule =
     [Begin_Lock 2 sample_table DSTORE_ACCESS_SHARE_LOCK False, Begin_Lock 1 sample_table DSTORE_ROW_EXCLUSIVE_LOCK False,
      Begin_Lock 1 sample_table DSTORE_SHARE_LOCK False] @ replicate 10 (Go_On 1)"

definition sample_state :: "tl_action list \<Rightarrow> tl_state" where
  "sample_state as = the (tl_run sample_hash sample_pid [1, 2] as (tl_init 16))"

lemma unat_bound: "unat k < 2 ^ 32" for k :: uint32
  using unsigned_less [of k] by simp

lemma sample_pid_inj: "inj sample_pid"
proof (rule injI)
  fix i j assume "sample_pid i = sample_pid j"
  moreover have "unat (sample_pid k) = unat k" for k
    unfolding sample_pid_def using unat_bound [of k] by (intro unat_of_nat_small) simp
  ultimately show "i = j" by (metis word_unat_eq_iff)
qed

lemma sample_reachable:
  assumes "map_option f (tl_run sample_hash sample_pid [1, 2] as (tl_init 16)) = Some x"
    and "list_all (\<lambda>a. action_tag a = None \<or> action_tag a = Some sample_table) as"
  shows "tl_reachable sample_hash sample_pid [1, 2] 16 (sample_state as)" and "f (sample_state as) = x"
proof -
  obtain s where s: "tl_run sample_hash sample_pid [1, 2] as (tl_init 16) = Some s" "f s = x" using assms(1) by blast
  then show "f (sample_state as) = x" by (simp add: sample_state_def)
  have "\<forall>a \<in> set as. \<forall>t. action_tag a = Some t \<longrightarrow> built_tag t"
    using assms(2) table_tag_built [of 7] by (fastforce simp: list_all_iff)
  from tl_run_reachable [OF tl_reachable.start s(1) this]
  show "tl_reachable sample_hash sample_pid [1, 2] 16 (sample_state as)" using s(1) by (simp add: sample_state_def)
qed

text \<open>What one sees of the locks on the sample table: where a thread is, its counts and its bits of the fast path.\<close>

definition sample_view :: "uint32 \<Rightarrow> tl_state \<Rightarrow> tl_pc \<times> uint32 list \<times> uint8 option" where
  "sample_view i s =
     (pc s i, map (GetHoldLockCnt (LockTagCache_new sample_hash sample_table) (local_lock s i))
        [DSTORE_ACCESS_SHARE_LOCK, DSTORE_ROW_EXCLUSIVE_LOCK, DSTORE_SHARE_LOCK],
      map_option grantedByFastPath (lookup sample_hash (local_lock s i) sample_table))"

lemma sample_locked:
  "tl_reachable sample_hash sample_pid [1, 2] 16 (sample_state sample_schedule)"
  "sample_view 1 (sample_state sample_schedule) = (Idle, [0, 1, 1], Some 0)"
  "sample_view 2 (sample_state sample_schedule) = (Idle, [1, 0, 0], Some 0)"
proof -
  have run: "map_option (\<lambda>s. (sample_view 1 s, sample_view 2 s)) (tl_run sample_hash sample_pid [1, 2] sample_schedule (tl_init 16)) =
      Some ((Idle, [0, 1, 1], Some 0), (Idle, [1, 0, 0], Some 0))"
    by code_simp
  have tags: "list_all (\<lambda>a. action_tag a = None \<or> action_tag a = Some sample_table) sample_schedule"
    by (simp add: sample_schedule_def list_all_iff)
  show "tl_reachable sample_hash sample_pid [1, 2] 16 (sample_state sample_schedule)"
    "sample_view 1 (sample_state sample_schedule) = (Idle, [0, 1, 1], Some 0)"
    "sample_view 2 (sample_state sample_schedule) = (Idle, [1, 0, 0], Some 0)"
    using sample_reachable [OF run tags] by simp_all
qed

lemma sample_viewD:
  assumes "sample_view i s = (p, [a, b, c], Some 0)"
  shows "pc s i = p" "hold_cnt sample_hash (local_lock s i) sample_table DSTORE_ACCESS_SHARE_LOCK = a"
    "hold_cnt sample_hash (local_lock s i) sample_table DSTORE_ROW_EXCLUSIVE_LOCK = b"
    "hold_cnt sample_hash (local_lock s i) sample_table DSTORE_SHARE_LOCK = c"
    "\<not> hold_fast sample_hash (local_lock s i) sample_table m"
  using assms table_tag_built by (auto simp: sample_view_def hold_cnt_def hold_fast_def fast_granted_def split: option.splits)

theorem conflicting_table_locks_one_thread_witness:
  "{j. owns sample_hash (sample_state sample_schedule) j sample_table DSTORE_ROW_EXCLUSIVE_LOCK} = {1}"
proof -
  note v = sample_viewD [OF sample_locked(2)]
  have own: "owns sample_hash (sample_state sample_schedule) 1 sample_table DSTORE_ROW_EXCLUSIVE_LOCK"
    "owns sample_hash (sample_state sample_schedule) 1 sample_table DSTORE_SHARE_LOCK"
    by (simp_all add: owns_def v)
  have "HasConflictWithMode DSTORE_SHARE_LOCK DSTORE_ROW_EXCLUSIVE_LOCK" by code_simp
  then show ?thesis
    using conflicting_table_locks_one_thread [OF sample_locked(1) sample_pid_inj own(2)] own(1) by blast
qed

lemma idle_elsewhere:
  assumes reach: "tl_reachable hash sample_pid [1, 2] n s" and "pc s 1 = Idle" "pc s 2 = Idle"
  shows "\<forall>i. pc s i = Idle"
  using thread_okD(4) [OF tl_invD(1) [OF reachable_inv [OF reach sample_pid_inj]]] assms(2,3)
  by (metis empty_iff empty_set insert_iff list.simps(15))

theorem no_table_lock_leaks_witness:
  "{(1, DSTORE_ROW_EXCLUSIVE_LOCK), (1, DSTORE_SHARE_LOCK), (2, DSTORE_ACCESS_SHARE_LOCK)} \<subseteq>
     held_keys (main_table (sample_state sample_schedule)) sample_table \<and>
   wait_keys (main_table (sample_state sample_schedule)) sample_table = {}"
proof -
  note v = sample_viewD [OF sample_locked(2)] and w = sample_viewD [OF sample_locked(3)]
  show ?thesis
    using no_table_lock_leaks [OF sample_locked(1) sample_pid_inj idle_elsewhere [OF sample_locked(1) v(1) w(1)], of sample_table]
    by (simp add: v w)
qed

text \<open>A strong lock taken and given back.\<close>

definition sample_cycle :: "tl_action list" where
  "sample_cycle = Begin_Lock 1 sample_table DSTORE_SHARE_LOCK False # replicate 10 (Go_On 1) @
     Begin_Unlock 1 sample_table DSTORE_SHARE_LOCK # replicate 3 (Go_On 1)"

theorem strong_counts_return_to_zero_witness:
  "CheckStrongLocksInFastPathLeak (m_strongLocks (sample_state sample_cycle)) = Some ()"
proof -
  have run: "map_option (\<lambda>s. (map (pc s) [1, 2], map (\<lambda>i. LocalLock_IsEmpty (local_lock s i)) [1, 2]))
      (tl_run sample_hash sample_pid [1, 2] sample_cycle (tl_init 16)) = Some ([Idle, Idle], [True, True])"
    by code_simp
  have tags: "list_all (\<lambda>a. action_tag a = None \<or> action_tag a = Some sample_table) sample_cycle"
    by (simp add: sample_cycle_def list_all_iff)
  note reach = sample_reachable(1) [OF run tags] and ok = tl_invD(1) [OF reachable_inv [OF sample_reachable(1) [OF run tags] sample_pid_inj]]
  have "hold_cnt sample_hash (local_lock (sample_state sample_cycle) i) t m = 0" for i t m
  proof (cases "i \<in> set [1, 2]")
    case True
    then have "LocalLock_IsEmpty (local_lock (sample_state sample_cycle) i)" using sample_reachable(2) [OF run tags] by auto
    then show ?thesis using IsEmpty_holds_nothing [OF thread_okD(1) [OF ok]] by simp
  next
    case False
    then show ?thesis using thread_okD(5) [OF ok] by blast
  qed
  moreover have "\<forall>i. pc (sample_state sample_cycle) i = Idle"
    using idle_elsewhere [OF reach] sample_reachable(2) [OF run tags] by simp
  ultimately show ?thesis using strong_counts_return_to_zero [OF reach sample_pid_inj] by simp
qed

text \<open>The strong lock is announced and a weak lock of the second thread is about to be moved.\<close>

definition sample_moving :: "tl_action list" where
  "sample_moving = take 7 sample_schedule"

lemma sample_moving:
  "tl_reachable sample_hash sample_pid [1, 2] 16 (sample_state sample_moving)"
  "call_room sample_hash 1 (sample_state sample_moving)"
  "pc (sample_state sample_moving) 1 = Transferring sample_table DSTORE_SHARE_LOCK False
     [(2, DSTORE_ACCESS_SHARE_LOCK), (2, DSTORE_ROW_SHARE_LOCK), (2, DSTORE_ROW_EXCLUSIVE_LOCK)]"
proof -
  have run: "map_option (\<lambda>s. (call_room sample_hash 1 s, pc s 1)) (tl_run sample_hash sample_pid [1, 2] sample_moving (tl_init 16)) =
      Some (True, Transferring sample_table DSTORE_SHARE_LOCK False
        [(2, DSTORE_ACCESS_SHARE_LOCK), (2, DSTORE_ROW_SHARE_LOCK), (2, DSTORE_ROW_EXCLUSIVE_LOCK)])"
    by code_simp
  have tags: "list_all (\<lambda>a. action_tag a = None \<or> action_tag a = Some sample_table) sample_moving"
    by (simp add: sample_moving_def sample_schedule_def list_all_iff)
  show "tl_reachable sample_hash sample_pid [1, 2] 16 (sample_state sample_moving)"
    "call_room sample_hash 1 (sample_state sample_moving)"
    "pc (sample_state sample_moving) 1 = Transferring sample_table DSTORE_SHARE_LOCK False
       [(2, DSTORE_ACCESS_SHARE_LOCK), (2, DSTORE_ROW_SHARE_LOCK), (2, DSTORE_ROW_EXCLUSIVE_LOCK)]"
    using sample_reachable [OF run tags] by simp_all
qed

theorem calls_never_crash_witness:
  "continue_call sample_hash sample_pid [1, 2] False False None True 1 (sample_state sample_moving) \<noteq> None \<and>
   continue_call_assert sample_hash sample_pid True True None 1 (sample_state sample_moving) \<and>
   Unlock_begin sample_hash 2 sample_table DSTORE_ACCESS_SHARE_LOCK (sample_state sample_moving) \<noteq> None"
proof -
  have "pc (sample_state sample_moving) 2 = Idle \<and> usable_mode DSTORE_ACCESS_SHARE_LOCK \<and>
      GetHoldLockCnt (LockTagCache_new sample_hash sample_table) (local_lock (sample_state sample_moving) 2)
        DSTORE_ACCESS_SHARE_LOCK \<noteq> 0"
    by code_simp
  then show ?thesis
    using calls_never_crash [OF sample_moving(1) sample_pid_inj, of 1 False False None True]
      calls_never_crash [OF sample_moving(1) sample_pid_inj, of 1 True True None]
      calls_never_crash [OF sample_moving(1) sample_pid_inj, of 2 _ _ _ _ DSTORE_ACCESS_SHARE_LOCK sample_table]
      sample_moving(2) table_tag_built [of 7]
    by (simp add: hold_cnt_def)
qed

end
