(* ===== verification/Table_Lock_Progress.thy ===== *)
theory Table_Lock_Progress
  imports Table_Lock_Safety
begin

text \<open>
  What a call on table locks achieves when nothing stands in its way: a thread that runs alone gets an
  uncontended lock, in a number of steps that depends on the number of threads only.
\<close>

text \<open>How far a call is from its end.\<close>

fun steps_left :: "uint32 list \<Rightarrow> tl_pc \<Rightarrow> nat" where
  "steps_left cores Idle = 0"
| "steps_left cores (Marking t m d) = 7 + 3 * length cores"
| "steps_left cores (Transferring t m d todo) = 6 + length todo"
| "steps_left cores (Entering t m d) = 5"
| "steps_left cores (Waiting t m) = 4"
| "steps_left cores (Unmarking t m) = 3"
| "steps_left cores (Recording t m ret) = 2"
| "steps_left cores (Leaving t m) = 3"
| "steps_left cores (LeavingUnmark t m) = 2"
| "steps_left cores (Forgetting t m) = 1"
| "steps_left cores (BatchLeaving t m) = 2"
| "steps_left cores (BatchUnmark t m) = 1"

lemma transfer_pc:
  assumes "TransferAllModesForWeakLock_step hash pid enter_ok dup_ok i t m d j k rest s = Some s'"
  shows "pc s' i = Transferring t m d rest \<or> pc s' i = Unmarking t m"
proof (cases "TransferOneWeakLock hash enter_ok dup_ok t k (pid j) j (main_table s)")
  case (Pair res h)
  then show ?thesis
    using assms by (cases res)
      (auto simp: TransferAllModesForWeakLock_step_def Let_def bind_eq_Some_conv split: option.splits if_splits)
qed

lemma begin_pc:
  "steps_left cores (pc (LockInMainLockTable_begin hash pid enter_ok dup_ok info i t m d s) i) \<le> 4"
  by (auto simp: LockInMainLockTable_begin_def Let_def after_failure_def split: prod.splits sum.splits)

lemmas call_step_defs = unmark_to_def LockTable_end_def Unlock_end_def UnlockInMainLockTable_def WakeUp_def
  LockInMainLockTable_failed_def LockInMainLockTable_woken_def after_failure_def TryMarkStrongLockByFastPath_begin_def

lemma call_step_closer:
  assumes step: "continue_call hash pid cores enter_ok dup_ok info wait_fails i s = Some s'" and busy: "pc s i \<noteq> Idle"
    and wait: "\<forall>t m. pc s i = Waiting t m \<longrightarrow> wait_fails \<or> \<not> isWaiting s i"
  shows "steps_left cores (pc s' i) < steps_left cores (pc s i)"
proof (cases "pc s i")
  case (Transferring t m d todo)
  then show ?thesis
    using step transfer_pc [of hash pid enter_ok dup_ok i t m d _ _ _ s s']
    by (cases todo) (auto simp: continue_call_def, force)
next
  case (Entering t m d)
  then show ?thesis
    using step begin_pc [of cores hash pid enter_ok dup_ok info i t m d s] by (auto simp: continue_call_def)
next
  case (Marking t m d)
  then show ?thesis using step
    by (auto simp: continue_call_def call_step_defs transfer_list_def weak_modes_def length_product)
qed (use step busy wait in \<open>auto simp: continue_call_def call_step_defs bind_eq_Some_conv split: prod.splits if_splits\<close>)

subsection \<open>A thread that runs alone\<close>

text \<open>
  A thread goes on with its call while the others stand still and allocations succeed, for at most
  the given number of steps, until the call is over or a counter it has to increase is at its limit.
\<close>

fun run_call ::
    "(LockTag \<Rightarrow> uint32) \<Rightarrow> (uint32 \<Rightarrow> uint64) \<Rightarrow> uint32 list \<Rightarrow> LockErrorInfo option \<Rightarrow> uint32 \<Rightarrow> nat \<Rightarrow> tl_state
     \<Rightarrow> tl_state option" where
  "run_call hash pid cores info i 0 s = Some s"
| "run_call hash pid cores info i (Suc n) s =
     (if pc s i = Idle \<or> \<not> call_room hash i s then Some s
      else Option.bind (continue_call hash pid cores True True info False i s) (run_call hash pid cores info i n))"

text \<open>Nobody waits for the tag and nobody else has a lock on it that conflicts with the mode.\<close>

definition uncontended :: "(LockTag \<Rightarrow> uint32) \<Rightarrow> tl_state \<Rightarrow> uint32 \<Rightarrow> LockTag \<Rightarrow> LockMode \<Rightarrow> bool" where
  "uncontended hash s i t m \<longleftrightarrow> (\<forall>j n. pc s j \<noteq> Waiting t n) \<and>
     (\<forall>j n. j \<noteq> i \<longrightarrow> owns hash s j t n \<longrightarrow> \<not> HasConflictWithMode m n)"

fun on_way :: "tl_pc \<Rightarrow> LockTag \<Rightarrow> LockMode \<Rightarrow> bool" where
  "on_way (Marking t' m' d) t m \<longleftrightarrow> t' = t \<and> m' = m"
| "on_way (Transferring t' m' d todo) t m \<longleftrightarrow> t' = t \<and> m' = m"
| "on_way (Entering t' m' d) t m \<longleftrightarrow> t' = t \<and> m' = m"
| "on_way (Recording t' m' ret) t m \<longleftrightarrow> t' = t \<and> m' = m \<and> ret = DSTORE_SUCC"
| "on_way p t m \<longleftrightarrow> False"

lemma uncontended_frame:
  assumes "uncontended hash s i t m" and "\<And>j. j \<noteq> i \<Longrightarrow> pc s' j = pc s j \<and> isWaiting s' j = isWaiting s j"
    and "\<And>j. j \<noteq> i \<Longrightarrow> hold_cnt hash (local_lock s' j) = hold_cnt hash (local_lock s j)" and "\<And>n. pc s' i \<noteq> Waiting t n"
  shows "uncontended hash s' i t m"
  unfolding uncontended_def
proof (intro conjI allI impI)
  show "pc s' j \<noteq> Waiting t n" for j n
    using assms(1,2,4) by (cases "j = i") (auto simp: uncontended_def)
  show "\<not> HasConflictWithMode m n" if "j \<noteq> i" "owns hash s' j t n" for j n
    using that assms(1) assms(2,3) [OF that(1)] unfolding uncontended_def owns_def by auto
qed

lemma no_waiter:
  assumes "tl_inv hash pid cores s" and "uncontended hash s i t m"
  shows "wait_keys (main_table s) t = {}"
  using tl_invD(5) [OF assms(1)] assms(2) by (fastforce simp: uncontended_def)

lemma held_owned: "tl_inv hash pid cores s \<Longrightarrow> (j, n) \<in> held_keys (main_table s) t \<Longrightarrow> owns hash s j t n"
  using tl_invD(4) [of hash pid cores s j n t] by (auto simp: owns_def in_main_def)

text \<open>A request that no lock of another thread stands against is granted when nobody waits.\<close>

lemma entry_grants:
  assumes inv: "entry_inv e" and mode: "m_lockMode r \<noteq> DSTORE_LOCK_MODE_MAX"
    and free: "\<forall>h \<in> set (holders e). \<not> blocks h r" and none: "waitingQueue e = []"
  shows "fst (EnqueueLockRequest True e r fl info) = Inr ()"
proof -
  have "\<not> HasConflictWithMask (m_lockMode r) (m_waitMask (lockEntryCore e))"
    using summary_conflict [OF entry_invD(3) [OF inv] mode] none by simp
  moreover obtain fl1 where "PopACopyOf True fl r = (Some r, fl1)"
    by (cases "PopACopyOf True fl r") (auto simp: PopACopyOf_def Let_def split: list.splits)
  ultimately show ?thesis
    using free by (auto simp: EnqueueLockRequest_def HasConflictWithAnyHolder_eq [OF inv mode] split: prod.split)
qed

lemma table_grants:
  assumes inv: "table_inv h" and reg: "all_regular pid h" "regular pid r" and inj: "inj pid"
    and free: "\<forall>(j, n) \<in> held_keys h t. j \<noteq> threadCoreIdx r \<longrightarrow> \<not> HasConflictWithMode (m_lockMode r) n"
    and none: "wait_keys h t = {}"
    and enq: "LockRequestEnqueue True True (LockTagCache_new hash t) r info h = (res, h', info')"
  shows "res = Inr ()"
proof -
  let ?e = "entry_at h t"
  have inv: "entry_inv ?e" using entry_at_good(1) [OF inv, of t] by (simp add: entry_good_def)
  have "\<not> blocks x r" if x: "x \<in> set (holders ?e)" for x
  proof -
    have "regular pid x" "(threadCoreIdx x, m_lockMode x) \<in> held_keys h t"
      using x all_regularD [OF reg(1), of t] unfolding old_keys by (auto simp: req_key_def)
    then show ?thesis using free regular_same(2) [OF inj _ reg(2)] by (auto simp: blocks_def)
  qed
  moreover have "waitingQueue ?e = []" using none by (simp add: old_keys)
  moreover have "m_lockMode r \<noteq> DSTORE_LOCK_MODE_MAX" using reg(2) by (simp add: regular_def)
  ultimately have "fst (EnqueueLockRequest True ?e r fl info) = Inr ()" for fl
    using entry_grants [OF inv] by blast
  then show ?thesis
    using enq by (auto simp: LockRequestEnqueue_def Let_def entry_at_def split: prod.splits option.splits)
      (metis fst_conv)+
qed

lemma transfer_granted:
  assumes inv: "tl_inv hash pid cores s" and inj: "inj pid" and here: "pc s i = Transferring t m d ((j, k) # rest)"
    and free: "uncontended hash s i t m"
    and step: "TransferAllModesForWeakLock_step hash pid True True i t m d j k rest s = Some s'"
  shows "pc s' = (pc s)(i := Transferring t m d rest)" "isWaiting s' = isWaiting s"
    "hold_cnt hash (local_lock s' a) = hold_cnt hash (local_lock s a)"
proof -
  let ?l = "local_lock s j" and ?c = "LockTagCache_new hash t"
  note ok = tl_invD(1) [OF inv, of i, unfolded here] and lok = thread_okD(1) [OF tl_invD(1) [OF inv, of j]]
  have weak: "weak_mode k" using thread_okD(11) [OF ok, of j k t m] by simp
  have t: "built_tag t" using thread_okD(6) [OF ok] by simp
  have "pc s' = (pc s)(i := Transferring t m d rest) \<and> isWaiting s' = isWaiting s \<and>
    hold_cnt hash (local_lock s' a) = hold_cnt hash (local_lock s a)"
  proof (cases "hold_fast hash ?l t k")
    case False
    then have "s' = goto i (Transferring t m d rest) s"
      using step t IsGrantedByFastPath_eq [OF weak]
      by (auto simp: TransferAllModesForWeakLock_step_def LockAndGetLocalLockEntry_def Let_def bind_eq_Some_conv
          hold_fast_def lookup_def split: option.splits)
    then show ?thesis by simp
  next
    case True
    then obtain p e where p: "FindLock ?c ?l = Some p" "deref ?l p = Some e" "fast_granted e k"
      using t by (auto simp: hold_fast_def lookup_def bind_eq_Some_conv split: option.splits)
    obtain e' where e': "ClearGrantedByFastPath k e = Some e'" "hold_cnt hash (store p e' ?l) = hold_cnt hash ?l"
      by (rule moved_entry [OF lok True p(1,2)]) blast
    let ?r = "thread_request pid j k HOLD_BUT_DONT_WAIT"
    obtain res h info where enq: "LockRequestEnqueue True True ?c ?r (Some zero_info) (main_table s) = (res, h, info)"
      by (rule prod_cases3)
    have r: "regular pid ?r" using request_regular(1) weak_usable [OF weak] by blast
    have own: "owns hash s j t k"
      using hold_fastD(2) [OF lok True] thread_okD(7) [OF tl_invD(1) [OF inv, of j], of t k] True
      by (cases "pc s j") (auto simp: owns_def word_gt_0)
    have "\<not> HasConflictWithMode k n" if "(b, n) \<in> held_keys (main_table s) t" "b \<noteq> j" for b n
      using conflicting_owners [OF inv inj own held_owned [OF inv that(1)]] that(2) by blast
    then have "res = Inr ()"
      using table_grants [OF tl_invD(2,3) [OF inv] r inj _ no_waiter [OF inv free] enq] by (auto simp: thread_request_def)
    then have "TransferOneWeakLock hash True True t k (pid j) j (main_table s) = (Inr (), h)"
      using enq by (simp add: TransferOneWeakLock_def thread_request_def)
    then have "s' = goto i (Transferring t m d rest) (set_local j (store p e' ?l) (s\<lparr>main_table := h\<rparr>))"
      using step p e'(1) IsGrantedByFastPath_eq [OF weak]
      by (simp add: TransferAllModesForWeakLock_step_def LockAndGetLocalLockEntry_def Let_def)
    then show ?thesis using e'(2) by simp
  qed
  then show "pc s' = (pc s)(i := Transferring t m d rest)" "isWaiting s' = isWaiting s"
    "hold_cnt hash (local_lock s' a) = hold_cnt hash (local_lock s a)" by blast+
qed

lemma enter_granted:
  assumes inv: "tl_inv hash pid cores s" and inj: "inj pid" and here: "pc s i = Entering t m d"
    and free: "uncontended hash s i t m"
  obtains w h where "LockInMainLockTable_begin hash pid True True info i t m d s =
    goto i (Recording t m DSTORE_SUCC) (s\<lparr>isWaiting := w, main_table := h\<rparr>)" "\<And>j. j \<noteq> i \<Longrightarrow> w j = isWaiting s j"
proof -
  define r where "r = thread_request pid i m (if d then HOLD_BUT_DONT_WAIT else HOLD_OR_WAIT)"
  define w where "w = (if d then isWaiting s else (isWaiting s)(i := True))"
  note old = thread_okD(6) [OF tl_invD(1) [OF inv, of i, unfolded here], of t m]
  have r: "regular pid r" "threadCoreIdx r = i" "m_lockMode r = m"
    using request_regular(1) [of m] old unfolding r_def by (auto simp: thread_request_def)
  obtain res h info' where enq: "LockRequestEnqueue True True (LockTagCache_new hash t) r info (main_table s) = (res, h, info')"
    by (rule prod_cases3)
  have "\<not> HasConflictWithMode m n" if "(b, n) \<in> held_keys (main_table s) t" "b \<noteq> i" for b n
    using held_owned [OF inv that(1)] free that(2) by (simp add: uncontended_def)
  then have "res = Inr ()"
    using table_grants [OF tl_invD(2,3) [OF inv] r(1) inj _ no_waiter [OF inv free] enq] r by auto
  then show ?thesis
    using enq by (intro that [of h w]) (cases d; auto simp: LockInMainLockTable_begin_def Let_def r_def w_def)+
qed

lemma lone_step:
  assumes inv: "tl_inv hash pid cores s" and inj: "inj pid" and way: "on_way (pc s i) t m"
    and free: "uncontended hash s i t m" and room: "call_room hash i s"
  obtains s' where "continue_call hash pid cores True True info False i s = Some s'" "tl_inv hash pid cores s'"
    "uncontended hash s' i t m"
    "on_way (pc s' i) t m \<or> pc s' i = Idle \<and> hold_cnt hash (local_lock s' i) t m = 1"
proof -
  obtain s' where s': "continue_call hash pid cores True True info False i s = Some s'" "tl_inv hash pid cores s'"
    using continue_call_inv [OF inv inj room] by blast
  have "uncontended hash s' i t m \<and> (on_way (pc s' i) t m \<or> pc s' i = Idle \<and> hold_cnt hash (local_lock s' i) t m = 1)"
  proof (cases "pc s i")
    case here: (Marking t' m' d)
    then show ?thesis
      using s'(1) way uncontended_frame [OF free, of s']
      by (auto simp: continue_call_def TryMarkStrongLockByFastPath_begin_def)
  next
    case here: (Transferring t' m' d todo)
    show ?thesis
    proof (cases todo)
      case Nil
      then show ?thesis using here s'(1) way uncontended_frame [OF free, of s'] by (auto simp: continue_call_def)
    next
      case (Cons x rest)
      have "pc s' = (pc s)(i := Transferring t m d rest)" "isWaiting s' = isWaiting s"
        "hold_cnt hash (local_lock s' a) = hold_cnt hash (local_lock s a)" for a
        using transfer_granted [OF inv inj _ free, of d "fst x" "snd x" rest s'] here s'(1) way Cons
        by (cases x; simp add: continue_call_def)+
      then show ?thesis using uncontended_frame [OF free, of s'] by simp
    qed
  next
    case here: (Entering t' m' d)
    then have e: "pc s i = Entering t m d" using way by simp
    obtain h w where "LockInMainLockTable_begin hash pid True True info i t m d s =
      goto i (Recording t m DSTORE_SUCC) (s\<lparr>isWaiting := w, main_table := h\<rparr>)" "\<And>j. j \<noteq> i \<Longrightarrow> w j = isWaiting s j"
      by (rule enter_granted [OF inv inj e free]) blast
    moreover from this have "s' = goto i (Recording t m DSTORE_SUCC) (s\<lparr>isWaiting := w, main_table := h\<rparr>)"
      using s'(1) e by (simp add: continue_call_def)
    ultimately show ?thesis using uncontended_frame [OF free, of s'] by simp
  next
    case (Recording t' m' ret)
    then have here: "pc s i = Recording t m DSTORE_SUCC" using way by simp
    note ok = tl_invD(1) [OF inv, of i, unfolded here]
    have a: "built_tag t" "waits_for_lock hash (local_lock s i) t m" "hold_cnt hash (local_lock s i) t m = 0"
      using thread_okD(6) [OF ok, of t m] by simp_all
    have "grant_room hash (local_lock s i) t" using room here by (simp add: call_room_def)
    then obtain l where "RecordLockResult (LockTagCache_new hash t) m DSTORE_SUCC (local_lock s i) = Some (Inr (), l)"
      "hold_cnt hash l = raise (hold_cnt hash (local_lock s i)) t m (hold_cnt hash (local_lock s i) t m + 1)"
      by (rule RecordLockResult_succ [OF thread_okD(1) [OF ok] a(1,2) thread_okD(3) [OF ok]])
    then show ?thesis
      using s'(1) here a uncontended_frame [OF free, of s'] by (auto simp: continue_call_def LockTable_end_def)
  qed (use way in simp_all)
  then show ?thesis using that s' by blast
qed

lemma lone_run:
  assumes inj: "inj pid" and "tl_inv hash pid cores s" and "on_way (pc s i) t m" and "uncontended hash s i t m"
    and "steps_left cores (pc s i) \<le> n"
  shows "\<exists>s'. run_call hash pid cores info i n s = Some s' \<and>
    (pc s' i = Idle \<and> hold_cnt hash (local_lock s' i) t m = 1 \<or> \<not> call_room hash i s')"
  using assms(2-5)
proof (induction n arbitrary: s)
  case 0
  then show ?case by (cases "pc s i") auto
next
  case (Suc n)
  have busy: "pc s i \<noteq> Idle" "\<forall>t m. pc s i = Waiting t m \<longrightarrow> False \<or> \<not> isWaiting s i" using Suc.prems(2) by auto
  show ?case
  proof (cases "call_room hash i s")
    case True
    obtain s' where s': "continue_call hash pid cores True True info False i s = Some s'" "tl_inv hash pid cores s'"
      "uncontended hash s' i t m" "on_way (pc s' i) t m \<or> pc s' i = Idle \<and> hold_cnt hash (local_lock s' i) t m = 1"
      by (rule lone_step [OF Suc.prems(1) inj Suc.prems(2,3) True])
    have "steps_left cores (pc s' i) \<le> n" using call_step_closer [OF s'(1) busy] Suc.prems(4) by simp
    moreover have "run_call hash pid cores info i n s' = Some s'" if "pc s' i = Idle" using that by (cases n) simp_all
    ultimately show ?thesis using Suc.IH [OF s'(2)] s' True busy(1) by auto
  qed simp
qed

lemma begin_outcome:
  assumes inv: "tl_inv hash pid cores s" and i: "i \<in> set cores" "pc s i = Idle" and t: "built_tag t" and um: "usable_mode m"
    and room: "grant_room hash (local_lock s i) t" and free: "uncontended hash s i t m"
  obtains s' where "LockTable_begin hash True i t m d s = Some s'" "tl_inv hash pid cores s'" "uncontended hash s' i t m"
    "pc s' i = Idle \<and> hold_cnt hash (local_lock s' i) t m = hold_cnt hash (local_lock s i) t m + 1 \<or>
     on_way (pc s' i) t m \<and> hold_cnt hash (local_lock s i) t m = 0 \<and> steps_left cores (pc s' i) \<le> 8 + 3 * length cores"
proof -
  note lok = thread_okD(1) [OF tl_invD(1) [OF inv, of i]]
  obtain s' where s': "LockTable_begin hash True i t m d s = Some s'" "tl_inv hash pid cores s'"
    using LockTable_begin_inv [OF inv i t um room] by blast
  have "uncontended hash s' i t m \<and>
    (pc s' i = Idle \<and> hold_cnt hash (local_lock s' i) t m = hold_cnt hash (local_lock s i) t m + 1 \<or>
     on_way (pc s' i) t m \<and> hold_cnt hash (local_lock s i) t m = 0 \<and> steps_left cores (pc s' i) \<le> 8 + 3 * length cores)"
  proof (cases "weak_mode m")
    case True
    show ?thesis
      using lok t room True
      by (cases rule: TryGrantByFastPath_spec [where ok = True and d = "m_strongLocks s" and mt = TABLE_LOCK_MGR])
        (use s'(1) True uncontended_frame [OF free, of s'] in
          \<open>auto simp: LockTable_begin_def weak_mode_iff [OF um] WeakLockAcquire_begin_def\<close>)
  next
    case False
    show ?thesis
      using lok t room
      by (cases rule: GrantIfAlreadyHold_spec [where ok = True and m = m and mt = TABLE_LOCK_MGR])
        (use s'(1) False uncontended_frame [OF free, of s'] in
          \<open>auto simp: LockTable_begin_def weak_mode_iff [OF um] StrongLockAcquire_begin_def split: if_splits\<close>)
  qed
  then show ?thesis using that s' by blast
qed

text \<open>
  C14. From every reachable state in which nobody waits for a table and no other thread has a lock on it
  that conflicts, a call for a lock that runs alone, with memory at hand, ends within \<open>8 + 3 n\<close> steps for
  \<open>n\<close> threads and the thread then holds the lock once more than before, on the fast path or in the main
  lock table after the weak locks of the others have been moved there; the one way to stop before is a
  counter at its limit.
\<close>

theorem uncontended_lock_is_granted:
  assumes reach: "tl_reachable hash pid cores parts s" and inj: "inj pid" and i: "i \<in> set cores" "pc s i = Idle"
    and t: "built_tag t" and um: "usable_mode m" and room: "grant_room hash (local_lock s i) t"
    and free: "uncontended hash s i t m"
  shows "\<exists>s1 s'. LockTable_begin hash True i t m dontWait s = Some s1 \<and>
    run_call hash pid cores info i (8 + 3 * length cores) s1 = Some s' \<and>
    (pc s' i = Idle \<and> hold_cnt hash (local_lock s' i) t m = hold_cnt hash (local_lock s i) t m + 1 \<or>
     \<not> call_room hash i s')"
proof -
  obtain s1 where s1: "LockTable_begin hash True i t m dontWait s = Some s1" "tl_inv hash pid cores s1"
    "uncontended hash s1 i t m"
    and outcome: "pc s1 i = Idle \<and> hold_cnt hash (local_lock s1 i) t m = hold_cnt hash (local_lock s i) t m + 1 \<or>
      on_way (pc s1 i) t m \<and> hold_cnt hash (local_lock s i) t m = 0 \<and> steps_left cores (pc s1 i) \<le> 8 + 3 * length cores"
    by (rule begin_outcome [OF reachable_inv [OF reach inj] i t um room free])
  show ?thesis
    using outcome
  proof
    assume "pc s1 i = Idle \<and> hold_cnt hash (local_lock s1 i) t m = hold_cnt hash (local_lock s i) t m + 1"
    then show ?thesis using s1(1) by (simp add: numeral_eq_Suc)
  next
    assume way: "on_way (pc s1 i) t m \<and> hold_cnt hash (local_lock s i) t m = 0 \<and>
      steps_left cores (pc s1 i) \<le> 8 + 3 * length cores"
    then show ?thesis using lone_run [OF inj s1(2) _ s1(3)] s1(1) by auto
  qed
qed


text \<open>The first thread asks for a strong lock on a table on which the second has a weak one that does not conflict.\<close>

definition sample_weak :: "tl_action list" where
  "sample_weak = [Begin_Lock 2 sample_table DSTORE_ACCESS_SHARE_LOCK False]"

theorem uncontended_lock_is_granted_witness:
  "\<exists>s1 s'. LockTable_begin sample_hash True 1 sample_table DSTORE_SHARE_LOCK False (sample_state sample_weak) = Some s1 \<and>
    run_call sample_hash sample_pid [1, 2] None 1 14 s1 = Some s' \<and>
    (pc s' 1 = Idle \<and> hold_cnt sample_hash (local_lock s' 1) sample_table DSTORE_SHARE_LOCK = 1 \<or>
     \<not> call_room sample_hash 1 s')"
proof -
  let ?s = "sample_state sample_weak" and ?cnt = "\<lambda>s i. GetHoldLockCnt (LockTagCache_new sample_hash sample_table) (local_lock s i)"
  have run: "map_option (\<lambda>s. (map (pc s) [1, 2], grant_room sample_hash (local_lock s 1) sample_table, ?cnt s 1 DSTORE_SHARE_LOCK,
      map (?cnt s 2) [DSTORE_ROW_EXCLUSIVE_LOCK, DSTORE_SHARE_UPDATE_EXCLUSIVE_LOCK, DSTORE_SHARE_ROW_EXCLUSIVE_LOCK,
        DSTORE_EXCLUSIVE_LOCK, DSTORE_ACCESS_EXCLUSIVE_LOCK]))
      (tl_run sample_hash sample_pid [1, 2] sample_weak (tl_init 16)) = Some ([Idle, Idle], True, 0, [0, 0, 0, 0, 0])"
    by code_simp
  have tags: "list_all (\<lambda>a. action_tag a = None \<or> action_tag a = Some sample_table) sample_weak"
    by (simp add: sample_weak_def)
  note reach = sample_reachable(1) [OF run tags] and view = sample_reachable(2) [OF run tags]
  have idle: "\<forall>i. pc ?s i = Idle" by (rule idle_elsewhere [OF reach]) (use view in simp_all)
  have "\<not> HasConflictWithMode DSTORE_SHARE_LOCK n" if "j \<noteq> 1" "owns sample_hash ?s j sample_table n" for j n
  proof (cases "j = 2")
    case True
    then have "?cnt ?s 2 n \<noteq> 0" using that(2) idle table_tag_built [of 7] by (simp add: owns_def hold_cnt_def)
    then show ?thesis using view by (cases n) (simp_all add: HasConflictWithMode_def GetConflictMask_def lockConflictMap_def GetLockMask_def)
  next
    case False
    then have "hold_cnt sample_hash (local_lock ?s j) sample_table n = 0"
      using thread_okD(5) [OF tl_invD(1) [OF reachable_inv [OF reach sample_pid_inj]]] that(1) by simp
    then show ?thesis using that(2) idle by (simp add: owns_def)
  qed
  then have "uncontended sample_hash ?s 1 sample_table DSTORE_SHARE_LOCK" using idle by (simp add: uncontended_def)
  then show ?thesis
    using uncontended_lock_is_granted [OF reach sample_pid_inj, of 1 sample_table DSTORE_SHARE_LOCK False None]
      table_tag_built [of 7] view idle by (simp add: usable_mode_def hold_cnt_def)
qed

end
