(* ===== verification/Lock_Resource.thy ===== *)
theory Lock_Resource
  imports Lock_Mode Lock_Tag "HOL-Library.Monad_Syntax"
begin

text \<open>
  The locks a transaction remembers (\<open>LockResource\<close> in \<open>src/transaction/dstore_resowner.cpp\<close>). For
  every lock there is a record that counts how often it was acquired in every sub-transaction; the
  counts are stored in blocks of eight, the first of which is part of the record and the others in a
  list with the latest block at its head. The current block is the head of that list, or the first
  block when the list is empty. Rolling back to a savepoint releases what was acquired after it.

  A violated assertion is \<open>None\<close>. The hash table of records is the list of its entries in the order
  of the sequential scan. What an operation hands to the lock managers for release is a result.
  Lazy locks are not modelled: this is the behaviour with \<open>enableLazyLock\<close> off.
\<close>

subsection \<open>Records\<close>

type_synonym SubLockResourceID = uint32
type_synonym SubLockResourceBlock = "(SubLockResourceID \<times> uint32) list"

definition defaultSubResNum :: int where "defaultSubResNum = 8"

record LockResourceTag =
  rt_lockTag :: LockTag
  rt_lockMode :: LockMode
  rt_lockMgrType :: LockMgrType

record LockResourceRecord =
  m_tag :: LockResourceTag
  m_totalLockCnt :: uint32
  m_subResCnt :: uint32
  m_extendSubLockResList :: "SubLockResourceBlock list"
  m_currentSubResIndex :: int
  m_defaultSubLockRes :: SubLockResourceBlock

definition empty_block :: SubLockResourceBlock where
  "empty_block = replicate (nat defaultSubResNum) (0, 0)"

definition InitRecord :: "LockResourceTag \<Rightarrow> LockResourceRecord" where
  "InitRecord tag =
     \<lparr>m_tag = tag, m_totalLockCnt = 0, m_subResCnt = 1, m_extendSubLockResList = [],
      m_currentSubResIndex = -1, m_defaultSubLockRes = empty_block\<rparr>"

definition m_currentSubRes :: "LockResourceRecord \<Rightarrow> SubLockResourceBlock" where
  "m_currentSubRes r = (case m_extendSubLockResList r of [] \<Rightarrow> m_defaultSubLockRes r | b # _ \<Rightarrow> b)"

definition set_current :: "SubLockResourceBlock \<Rightarrow> LockResourceRecord \<Rightarrow> LockResourceRecord" where
  "set_current b r =
     (case m_extendSubLockResList r of
        [] \<Rightarrow> r\<lparr>m_defaultSubLockRes := b\<rparr>
      | _ # bs \<Rightarrow> r\<lparr>m_extendSubLockResList := b # bs\<rparr>)"

definition IsCurrentFull :: "LockResourceRecord \<Rightarrow> bool" where
  "IsCurrentFull r \<longleftrightarrow> m_currentSubResIndex r = defaultSubResNum - 1"

definition IsCurrentEmpty :: "LockResourceRecord \<Rightarrow> bool" where
  "IsCurrentEmpty r \<longleftrightarrow> m_currentSubResIndex r < 0"

definition IsEmpty_record :: "LockResourceRecord \<Rightarrow> bool" where
  "IsEmpty_record r \<longleftrightarrow> m_subResCnt r = 1 \<and> m_currentSubResIndex r = -1"

definition StartNewSubResourceIfNeeded ::
    "bool \<Rightarrow> SubLockResourceID \<Rightarrow> LockResourceRecord \<Rightarrow> RetStatus \<times> LockResourceRecord" where
  "StartNewSubResourceIfNeeded alloc_ok subResId r =
     (if \<not> IsCurrentEmpty r \<and> fst (m_currentSubRes r ! nat (m_currentSubResIndex r)) \<ge> subResId then (DSTORE_SUCC, r)
      else if IsCurrentFull r \<and> \<not> alloc_ok then (DSTORE_FAIL, r)
      else
        let r1 = (if IsCurrentFull r
                  then r\<lparr>m_extendSubLockResList := empty_block # m_extendSubLockResList r,
                         m_currentSubResIndex := -1, m_subResCnt := m_subResCnt r + 1\<rparr>
                  else r);
            r2 = r1\<lparr>m_currentSubResIndex := m_currentSubResIndex r1 + 1\<rparr> in
        (DSTORE_SUCC, set_current ((m_currentSubRes r2)[nat (m_currentSubResIndex r2) := (subResId, 0)]) r2))"

definition AddLock :: "bool \<Rightarrow> SubLockResourceID \<Rightarrow> LockResourceRecord \<Rightarrow> RetStatus \<times> LockResourceRecord" where
  "AddLock alloc_ok subResId r =
     (case StartNewSubResourceIfNeeded alloc_ok subResId r of
        (DSTORE_FAIL, r1) \<Rightarrow> (DSTORE_FAIL, r1)
      | (DSTORE_SUCC, r1) \<Rightarrow>
          let i = nat (m_currentSubResIndex r1); (id, cnt) = m_currentSubRes r1 ! i;
              r2 = set_current ((m_currentSubRes r1)[i := (id, cnt + 1)]) r1 in
          (DSTORE_SUCC, r2\<lparr>m_totalLockCnt := m_totalLockCnt r2 + 1\<rparr>))"

definition RemoveCurrentSubResource :: "LockResourceRecord \<Rightarrow> LockResourceRecord option" where
  "RemoveCurrentSubResource r =
     (if m_subResCnt r > 1 \<and> m_extendSubLockResList r \<noteq> []
      then Some (r\<lparr>m_extendSubLockResList := tl (m_extendSubLockResList r),
                   m_currentSubResIndex := defaultSubResNum - 1, m_subResCnt := m_subResCnt r - 1\<rparr>)
      else None)"

definition RemoveLatestLock :: "LockResourceRecord \<Rightarrow> LockResourceRecord option" where
  "RemoveLatestLock r =
     (if IsCurrentEmpty r then None
      else
        let i = nat (m_currentSubResIndex r); (id, cnt) = m_currentSubRes r ! i in
        if \<not> cnt > 0 then None
        else
          let r1 = set_current ((m_currentSubRes r)[i := (id, cnt - 1)]) r;
              r2 = r1\<lparr>m_totalLockCnt := m_totalLockCnt r1 - 1\<rparr> in
          if cnt - 1 \<noteq> 0 then Some r2
          else
            let r3 = r2\<lparr>m_currentSubResIndex := m_currentSubResIndex r2 - 1\<rparr> in
            if IsCurrentEmpty r3 \<and> m_subResCnt r3 > 1 then RemoveCurrentSubResource r3 else Some r3)"

text \<open>
  The inner loop of \<open>RemoveLocksAfter\<close> and \<open>RemoveAll\<close> over the first \<open>n\<close> entries of the current
  block, from the last one down: what is removed, the new number of entries, and \<open>foundAll\<close>.
  \<open>RemoveAll\<close> removes every entry.
\<close>

fun remove_in_block :: "(SubLockResourceID \<Rightarrow> bool) \<Rightarrow> SubLockResourceBlock \<Rightarrow> nat \<Rightarrow> uint32 \<Rightarrow> uint32 \<times> nat \<times> bool" where
  "remove_in_block remove b 0 removeCnt = (removeCnt, 0, False)"
| "remove_in_block remove b (Suc i) removeCnt =
     (if remove (fst (b ! i)) then remove_in_block remove b i (removeCnt + snd (b ! i))
      else (removeCnt, Suc i, True))"

function remove_loop :: "(SubLockResourceID \<Rightarrow> bool) \<Rightarrow> LockResourceRecord \<Rightarrow> uint32 \<Rightarrow> (uint32 \<times> LockResourceRecord) option" where
  "remove_loop remove r removeCnt =
     (if IsCurrentEmpty r then Some (removeCnt, r)
      else
        let (removeCnt1, n, foundAll) =
              remove_in_block remove (m_currentSubRes r) (nat (m_currentSubResIndex r + 1)) removeCnt;
            r1 = r\<lparr>m_currentSubResIndex := int n - 1\<rparr> in
        if foundAll then Some (removeCnt1, r1)
        else if m_subResCnt r1 > 1
        then (case RemoveCurrentSubResource r1 of None \<Rightarrow> None | Some r2 \<Rightarrow> remove_loop remove r2 removeCnt1)
        else Some (removeCnt1, r1))"
  by pat_completeness auto

termination
  by (relation "measure (\<lambda>(remove, r, removeCnt). length (m_extendSubLockResList r))")
    (auto simp: RemoveCurrentSubResource_def split: if_splits)

declare remove_loop.simps [simp del]

definition RemoveLocksAfter :: "SubLockResourceID \<Rightarrow> LockResourceRecord \<Rightarrow> (uint32 \<times> LockResourceRecord) option" where
  "RemoveLocksAfter subResId r =
     (case remove_loop (\<lambda>id. id \<ge> subResId) r 0 of
        None \<Rightarrow> None
      | Some (removeCnt, r1) \<Rightarrow>
          if m_totalLockCnt r1 \<ge> removeCnt then Some (removeCnt, r1\<lparr>m_totalLockCnt := m_totalLockCnt r1 - removeCnt\<rparr>)
          else None)"

definition RemoveAll :: "LockResourceRecord \<Rightarrow> (uint32 \<times> LockResourceRecord) option" where
  "RemoveAll r =
     (case remove_loop (\<lambda>id. True) r 0 of
        None \<Rightarrow> None
      | Some (removeCnt, r1) \<Rightarrow>
          if m_totalLockCnt r1 = removeCnt then Some (removeCnt, r1\<lparr>m_totalLockCnt := 0\<rparr>) else None)"

definition CleanUp_record :: "LockResourceRecord \<Rightarrow> LockResourceRecord" where
  "CleanUp_record r =
     r\<lparr>m_extendSubLockResList := [], m_totalLockCnt := 0, m_subResCnt := 1, m_currentSubResIndex := -1\<rparr>"

subsection \<open>Iteration and merging\<close>

text \<open>
  An iterator is at a block, 0 for the first one and \<open>k\<close> for the \<open>k\<close>-th from the tail of the list,
  and at an index in it.
\<close>

record SubLockResourceIter =
  it_record :: LockResourceRecord
  it_block :: nat
  m_resIndex :: int

definition iter_init :: "LockResourceRecord \<Rightarrow> SubLockResourceIter" where
  "iter_init r = \<lparr>it_record = r, it_block = 0, m_resIndex = 0\<rparr>"

definition at_current :: "SubLockResourceIter \<Rightarrow> bool" where
  "at_current it \<longleftrightarrow> it_block it = length (m_extendSubLockResList (it_record it))"

definition iter_block :: "SubLockResourceIter \<Rightarrow> SubLockResourceBlock" where
  "iter_block it =
     (if it_block it = 0 then m_defaultSubLockRes (it_record it)
      else rev (m_extendSubLockResList (it_record it)) ! (it_block it - 1))"

definition IsEnd :: "SubLockResourceIter \<Rightarrow> bool" where
  "IsEnd it \<longleftrightarrow> at_current it \<and> m_resIndex it > m_currentSubResIndex (it_record it)"

definition Next :: "SubLockResourceIter \<Rightarrow> SubLockResourceIter option" where
  "Next it =
     (if IsEnd it then None
      else if m_resIndex it \<noteq> defaultSubResNum - 1 \<or> at_current it
      then Some (it\<lparr>m_resIndex := m_resIndex it + 1\<rparr>)
      else if it_block it < length (m_extendSubLockResList (it_record it))
      then Some (it\<lparr>it_block := it_block it + 1, m_resIndex := 0\<rparr>)
      else None)"

definition GetSubResourceID :: "SubLockResourceIter \<Rightarrow> SubLockResourceID" where
  "GetSubResourceID it = fst (iter_block it ! nat (m_resIndex it))"

definition GetSubResourceCnt :: "SubLockResourceIter \<Rightarrow> uint32" where
  "GetSubResourceCnt it = snd (iter_block it ! nat (m_resIndex it))"

text \<open>
  The items collected so far are a list whose end is the tail of the array. The list grows as needed; that
  the array of the source, with room for all entries of the blocks of both records, is long enough, as
  \<open>MergeToTail\<close> asserts, is the lemma \<open>merged_items_fit\<close>.
\<close>

definition MergeToTail :: "(SubLockResourceID \<times> uint32) list \<Rightarrow> SubLockResourceID \<Rightarrow> uint32 \<Rightarrow> (SubLockResourceID \<times> uint32) list" where
  "MergeToTail items resId cnt =
     (let items1 = (if items = [] \<or> fst (last items) \<noteq> resId then items @ [(resId, 0)] else items) in
      butlast items1 @ [(fst (last items1), snd (last items1) + cnt)])"

definition merge_from :: "SubLockResourceIter \<Rightarrow> (SubLockResourceID \<times> uint32) list \<Rightarrow> (SubLockResourceID \<times> uint32) list" where
  "merge_from it items = MergeToTail items (GetSubResourceID it) (GetSubResourceCnt it)"

partial_function (option) merge_loop ::
    "SubLockResourceIter \<Rightarrow> SubLockResourceIter \<Rightarrow> (SubLockResourceID \<times> uint32) list \<Rightarrow> (SubLockResourceID \<times> uint32) list option" where
  "merge_loop it1 it2 items =
     (if IsEnd it1 \<and> IsEnd it2 then Some items
      else if \<not> IsEnd it1 \<and> (IsEnd it2 \<or> GetSubResourceID it1 < GetSubResourceID it2)
      then Option.bind (Next it1) (\<lambda>it. merge_loop it it2 (merge_from it1 items))
      else Option.bind (Next it2) (\<lambda>it. merge_loop it1 it (merge_from it2 items)))"

declare merge_loop.simps [code]

text \<open>
  The allocations of the new record succeed when \<open>alloc_ok\<close> says so for the number of blocks the
  record already has.
\<close>

fun add_times :: "(uint32 \<Rightarrow> bool) \<Rightarrow> SubLockResourceID \<Rightarrow> nat \<Rightarrow> LockResourceRecord \<Rightarrow> RetStatus \<times> LockResourceRecord" where
  "add_times alloc_ok resId 0 r = (DSTORE_SUCC, r)"
| "add_times alloc_ok resId (Suc n) r =
     (case AddLock (alloc_ok (m_subResCnt r)) resId r of
        (DSTORE_FAIL, r1) \<Rightarrow> (DSTORE_FAIL, r1)
      | (DSTORE_SUCC, r1) \<Rightarrow> add_times alloc_ok resId n r1)"

fun add_items :: "(uint32 \<Rightarrow> bool) \<Rightarrow> (SubLockResourceID \<times> uint32) list \<Rightarrow> LockResourceRecord \<Rightarrow> RetStatus \<times> LockResourceRecord" where
  "add_items alloc_ok [] r = (DSTORE_SUCC, r)"
| "add_items alloc_ok ((resId, cnt) # items) r =
     (case add_times alloc_ok resId (unat cnt) r of
        (DSTORE_FAIL, r1) \<Rightarrow> (DSTORE_FAIL, r1)
      | (DSTORE_SUCC, r1) \<Rightarrow> add_items alloc_ok items r1)"

definition MergeRecord ::
    "bool \<Rightarrow> (uint32 \<Rightarrow> bool) \<Rightarrow> LockResourceRecord \<Rightarrow> LockResourceRecord \<Rightarrow> (RetStatus \<times> LockResourceRecord) option" where
  "MergeRecord items_ok alloc_ok r other =
     (if \<not> items_ok then Some (DSTORE_FAIL, r)
      else
        Option.bind (merge_loop (iter_init r) (iter_init other) []) (\<lambda>items.
          case add_items alloc_ok items (InitRecord (m_tag r)) of
            (DSTORE_FAIL, _) \<Rightarrow> Some (DSTORE_FAIL, r)
          | (DSTORE_SUCC, tempRecord) \<Rightarrow> Some (DSTORE_SUCC, tempRecord)))"

subsection \<open>The table of records\<close>

record LockResource =
  m_resTable :: "LockResourceRecord list"
  m_subLockResId :: uint32

definition FIRST_SUB_LOCK_RES_ID :: SubLockResourceID where "FIRST_SUB_LOCK_RES_ID = 1"

definition LockResource_new :: LockResource where
  "LockResource_new = \<lparr>m_resTable = [], m_subLockResId = FIRST_SUB_LOCK_RES_ID\<rparr>"

datatype unlock_call = Unlock LockTag LockMode | BatchUnlock LockTag LockMode uint32

definition BatchReleaseLocks :: "LockResourceTag \<Rightarrow> uint32 \<Rightarrow> unlock_call list option" where
  "BatchReleaseLocks tag releaseCnt =
     (case rt_lockMgrType tag of
        LOCK_MGR \<Rightarrow> Some (replicate (unat releaseCnt) (Unlock (rt_lockTag tag) (rt_lockMode tag)))
      | TABLE_LOCK_MGR \<Rightarrow> Some [BatchUnlock (rt_lockTag tag) (rt_lockMode tag) releaseCnt]
      | XACT_LOCK_MGR \<Rightarrow> None
      | LOCK_MGR_TYPE_MAX \<Rightarrow> None)"

definition FindResource :: "LockResourceTag \<Rightarrow> LockResource \<Rightarrow> LockResourceRecord option" where
  "FindResource tag l = find (\<lambda>r. m_tag r = tag) (m_resTable l)"

text \<open>Entering a new key fails when \<open>enter_ok\<close> says that memory has run out.\<close>

definition FindOrCreateResource ::
    "bool \<Rightarrow> LockResourceTag \<Rightarrow> LockResource \<Rightarrow> LockResourceRecord option \<times> LockResource" where
  "FindOrCreateResource enter_ok tag l =
     (case FindResource tag l of
        Some r \<Rightarrow> (Some r, l)
      | None \<Rightarrow>
          if enter_ok then (Some (InitRecord tag), l\<lparr>m_resTable := m_resTable l @ [InitRecord tag]\<rparr>)
          else (None, l))"

definition DeleteResource :: "LockResourceRecord \<Rightarrow> LockResource \<Rightarrow> LockResource" where
  "DeleteResource resEntry l = l\<lparr>m_resTable := filter (\<lambda>r. m_tag r \<noteq> m_tag resEntry) (m_resTable l)\<rparr>"

text \<open>A record that was changed through its pointer.\<close>

definition put_record :: "LockResourceRecord \<Rightarrow> LockResource \<Rightarrow> LockResource" where
  "put_record r l = l\<lparr>m_resTable := map (\<lambda>x. if m_tag x = m_tag r then r else x) (m_resTable l)\<rparr>"

definition RememberLock :: "bool \<Rightarrow> bool \<Rightarrow> LockResourceTag \<Rightarrow> LockResource \<Rightarrow> RetStatus \<times> LockResource" where
  "RememberLock enter_ok alloc_ok tag l =
     (case FindOrCreateResource enter_ok tag l of
        (None, l1) \<Rightarrow> (DSTORE_FAIL, l1)
      | (Some lock, l1) \<Rightarrow>
          (case AddLock alloc_ok (m_subLockResId l1) lock of
             (DSTORE_FAIL, lock1) \<Rightarrow>
               (DSTORE_FAIL, if IsEmpty_record lock1 then DeleteResource lock1 l1 else put_record lock1 l1)
           | (DSTORE_SUCC, lock1) \<Rightarrow> (DSTORE_SUCC, put_record lock1 l1)))"

definition IsLockExist :: "LockResourceTag \<Rightarrow> LockResource \<Rightarrow> bool" where
  "IsLockExist tag l = (case FindResource tag l of None \<Rightarrow> False | Some lock \<Rightarrow> True)"

definition ForgetLock :: "LockResourceTag \<Rightarrow> LockResource \<Rightarrow> LockResource option" where
  "ForgetLock tag l =
     do {
       lock \<leftarrow> FindResource tag l;
       lock1 \<leftarrow> RemoveLatestLock lock;
       Some (if IsEmpty_record lock1 then DeleteResource lock1 l else put_record lock1 l)
     }"

definition GetLockCnt :: "LockResourceTag \<Rightarrow> LockResource \<Rightarrow> uint32" where
  "GetLockCnt tag l = (case FindResource tag l of None \<Rightarrow> 0 | Some lock \<Rightarrow> m_totalLockCnt lock)"

definition HasRememberedLock :: "LockResource \<Rightarrow> bool" where
  "HasRememberedLock l \<longleftrightarrow> length (m_resTable l) > 0"

definition GenerateSubLockResourceID :: "LockResource \<Rightarrow> SubLockResourceID \<times> LockResource" where
  "GenerateSubLockResourceID l = (m_subLockResId l + 1, l\<lparr>m_subLockResId := m_subLockResId l + 1\<rparr>)"

fun HasLockInMode_loop :: "LockMode \<Rightarrow> LockResourceRecord list \<Rightarrow> bool" where
  "HasLockInMode_loop mode [] = False"
| "HasLockInMode_loop mode (lock # locks) =
     (if rt_lockMode (m_tag lock) = mode then True else HasLockInMode_loop mode locks)"

definition HasLockInMode :: "LockMode \<Rightarrow> LockResource \<Rightarrow> bool" where
  "HasLockInMode mode l = HasLockInMode_loop mode (m_resTable l)"

subsection \<open>Releasing locks\<close>

fun release_after_loop :: "SubLockResourceID \<Rightarrow> LockResourceRecord list \<Rightarrow> (unlock_call list \<times> LockResourceRecord list) option" where
  "release_after_loop resId [] = Some ([], [])"
| "release_after_loop resId (lock # locks) =
     do {
       (releaseCnt, lock1) \<leftarrow> RemoveLocksAfter resId lock;
       calls \<leftarrow> (if releaseCnt > 0 then BatchReleaseLocks (m_tag lock1) releaseCnt else Some []);
       (calls', locks') \<leftarrow> release_after_loop resId locks;
       Some (calls @ calls', if IsEmpty_record lock1 then locks' else lock1 # locks')
     }"

definition ReleaseLocksAcquiredAfter :: "SubLockResourceID \<Rightarrow> LockResource \<Rightarrow> (unlock_call list \<times> LockResource) option" where
  "ReleaseLocksAcquiredAfter resId l =
     do {
       (calls, locks) \<leftarrow> release_after_loop resId (m_resTable l);
       Some (calls, l\<lparr>m_resTable := locks\<rparr>)
     }"

text \<open>The loop of the three operations that release all locks but those they pass over.\<close>

fun release_all_loop :: "(LockTagType \<Rightarrow> bool) \<Rightarrow> LockResourceRecord list \<Rightarrow> (unlock_call list \<times> LockResourceRecord list) option" where
  "release_all_loop pass [] = Some ([], [])"
| "release_all_loop pass (lock # locks) =
     (if pass (lockTagType (rt_lockTag (m_tag lock)))
      then do {
        (calls', locks') \<leftarrow> release_all_loop pass locks;
        Some (calls', lock # locks')
      }
      else do {
        (releaseCnt, lock1) \<leftarrow> RemoveAll lock;
        calls \<leftarrow> BatchReleaseLocks (m_tag lock1) releaseCnt;
        (if IsEmpty_record lock1 then Some () else None);
        (calls', locks') \<leftarrow> release_all_loop pass locks;
        Some (calls @ calls', locks')
      })"

definition ReleaseAllLocks :: "LockResource \<Rightarrow> (unlock_call list \<times> LockResource) option" where
  "ReleaseAllLocks l =
     do {
       (calls, locks) \<leftarrow> release_all_loop (\<lambda>_. False) (m_resTable l);
       Some (calls, l\<lparr>m_resTable := locks, m_subLockResId := FIRST_SUB_LOCK_RES_ID\<rparr>)
     }"

definition ReleaseAllLocksByType :: "LockTagType \<Rightarrow> LockResource \<Rightarrow> (unlock_call list \<times> LockResource) option" where
  "ReleaseAllLocksByType tagType l =
     do {
       (calls, locks) \<leftarrow> release_all_loop (\<lambda>ty. ty \<noteq> tagType) (m_resTable l);
       Some (calls, l\<lparr>m_resTable := locks\<rparr>)
     }"

definition ReleaseAllLocksExceptTypes :: "LockTagType list \<Rightarrow> LockResource \<Rightarrow> (unlock_call list \<times> LockResource) option" where
  "ReleaseAllLocksExceptTypes tagTypes l =
     do {
       (calls, locks) \<leftarrow> release_all_loop (\<lambda>ty. list_ex (\<lambda>t. ty = t) tagTypes) (m_resTable l);
       Some (calls, l\<lparr>m_resTable := locks\<rparr>)
     }"

end
