(* ===== verification/Lock_Resource_Inv.thy ===== *)
theory Lock_Resource_Inv
  imports Lock_Resource
begin

text \<open>
  A record of a lock stands for a stack of pairs of a sub-transaction and a count, with increasing
  numbers and counts that are not zero; the table stands for a map from locks to stacks. Every
  operation keeps that form and acts on the stacks as its specification says, whatever the number
  of blocks the stack is spread over.
\<close>

subsection \<open>The stack a record stands for\<close>

text \<open>The entries of the blocks before the current one, and all entries.\<close>

definition full_entries :: "LockResourceRecord \<Rightarrow> (SubLockResourceID \<times> uint32) list" where
  "full_entries r = (case m_extendSubLockResList r of [] \<Rightarrow> [] | b # bs \<Rightarrow> m_defaultSubLockRes r @ concat (rev bs))"

definition rec_stack :: "LockResourceRecord \<Rightarrow> (SubLockResourceID \<times> uint32) list" where
  "rec_stack r = full_entries r @ take (nat (m_currentSubResIndex r + 1)) (m_currentSubRes r)"

text \<open>The form of the blocks, the index and the number of blocks.\<close>

definition rec_shape :: "LockResourceRecord \<Rightarrow> bool" where
  "rec_shape r \<longleftrightarrow> (\<forall>b \<in> set (m_defaultSubLockRes r # m_extendSubLockResList r). length b = 8) \<and>
     -1 \<le> m_currentSubResIndex r \<and> m_currentSubResIndex r \<le> 7 \<and>
     (m_extendSubLockResList r \<noteq> [] \<longrightarrow> 0 \<le> m_currentSubResIndex r) \<and>
     m_subResCnt r = word_of_nat (Suc (length (m_extendSubLockResList r))) \<and>
     Suc (length (m_extendSubLockResList r)) < 2 ^ 32"

definition stack_cnt :: "(SubLockResourceID \<times> uint32) list \<Rightarrow> nat" where
  "stack_cnt st = sum_list (map (unat \<circ> snd) st)"

definition stack_ok :: "(SubLockResourceID \<times> uint32) list \<Rightarrow> bool" where
  "stack_ok st \<longleftrightarrow> sorted_wrt (<) (map fst st) \<and> (\<forall>e \<in> set st. snd e \<noteq> 0)"

text \<open>A well-formed record: its form, its stack, and the total of the counts without overflow.\<close>

definition rec_ok :: "LockResourceRecord \<Rightarrow> bool" where
  "rec_ok r \<longleftrightarrow> rec_shape r \<and> stack_ok (rec_stack r) \<and> unat (m_totalLockCnt r) = stack_cnt (rec_stack r)"

lemma current_length: "rec_shape r \<Longrightarrow> length (m_currentSubRes r) = 8"
  by (simp add: rec_shape_def m_currentSubRes_def split: list.splits)

lemma set_current_simps [simp]:
  "m_currentSubRes (set_current b r) = b" "full_entries (set_current b r) = full_entries r"
  "m_currentSubResIndex (set_current b r) = m_currentSubResIndex r"
  "m_totalLockCnt (set_current b r) = m_totalLockCnt r" "m_subResCnt (set_current b r) = m_subResCnt r"
  "m_tag (set_current b r) = m_tag r"
  "length (m_extendSubLockResList (set_current b r)) = length (m_extendSubLockResList r)"
  "m_extendSubLockResList (set_current b r) = [] \<longleftrightarrow> m_extendSubLockResList r = []"
  by (simp_all add: set_current_def m_currentSubRes_def full_entries_def split: list.splits)

lemma set_current_shape: "rec_shape r \<Longrightarrow> length b = 8 \<Longrightarrow> rec_shape (set_current b r)"
  by (cases "m_extendSubLockResList r") (simp_all add: rec_shape_def set_current_def)

lemma field_update_simps [simp]:
  "m_currentSubRes (r\<lparr>m_currentSubResIndex := i\<rparr>) = m_currentSubRes r"
  "full_entries (r\<lparr>m_currentSubResIndex := i\<rparr>) = full_entries r"
  "rec_stack (r\<lparr>m_totalLockCnt := n\<rparr>) = rec_stack r" "rec_shape (r\<lparr>m_totalLockCnt := n\<rparr>) = rec_shape r"
  by (simp_all add: m_currentSubRes_def full_entries_def rec_stack_def rec_shape_def split: list.split)

lemma rec_stack_length:
  assumes "rec_shape r"
  shows "int (length (rec_stack r)) = 8 * int (length (m_extendSubLockResList r)) + m_currentSubResIndex r + 1"
proof -
  have "length (full_entries r) = 8 * length (m_extendSubLockResList r)"
  proof (cases "m_extendSubLockResList r")
    case (Cons b bs)
    then have "\<forall>x\<in>set bs. length x = 8" "length (m_defaultSubLockRes r) = 8" using assms by (auto simp: rec_shape_def)
    then have "length (concat (rev bs)) = 8 * length bs" by (induction bs) auto
    then show ?thesis using Cons \<open>length (m_defaultSubLockRes r) = 8\<close> by (simp add: full_entries_def)
  qed (simp add: full_entries_def)
  then show ?thesis using current_length [OF assms] assms by (auto simp: rec_stack_def rec_shape_def min_def)
qed

lemma rec_stack_empty:
  assumes "rec_shape r"
  shows "IsCurrentEmpty r \<longleftrightarrow> rec_stack r = []" "IsEmpty_record r \<longleftrightarrow> rec_stack r = []"
proof -
  have l: "length (rec_stack r) = 0 \<longleftrightarrow> m_extendSubLockResList r = [] \<and> m_currentSubResIndex r = -1"
    using rec_stack_length [OF assms] assms by (auto simp: rec_shape_def)
  then show "IsCurrentEmpty r \<longleftrightarrow> rec_stack r = []"
    using assms by (auto simp: IsCurrentEmpty_def rec_shape_def)
  have "m_subResCnt r = 1 \<longleftrightarrow> m_extendSubLockResList r = []"
    using assms of_nat_word_eq_0_iff [where 'a = 32, of "length (m_extendSubLockResList r)"] by (auto simp: rec_shape_def)
  then show "IsEmpty_record r \<longleftrightarrow> rec_stack r = []"
    using l assms by (auto simp: IsEmpty_record_def rec_shape_def)
qed

lemma rec_stack_last:
  assumes "rec_shape r" "rec_stack r \<noteq> []"
  shows "last (rec_stack r) = m_currentSubRes r ! nat (m_currentSubResIndex r)"
    "rec_stack (set_current ((m_currentSubRes r)[nat (m_currentSubResIndex r) := e]) r) = butlast (rec_stack r) @ [e]"
    "rec_stack (r\<lparr>m_currentSubResIndex := m_currentSubResIndex r - 1\<rparr>) = butlast (rec_stack r)"
proof -
  obtain i where i: "m_currentSubResIndex r = int i" "i < 8"
    using rec_stack_empty(1) [OF assms(1)] assms by (cases "m_currentSubResIndex r") (auto simp: IsCurrentEmpty_def rec_shape_def)
  have t: "take (Suc i) (m_currentSubRes r) = take i (m_currentSubRes r) @ [m_currentSubRes r ! i]"
    using i current_length [OF assms(1)] by (simp add: take_Suc_conv_app_nth)
  have s: "rec_stack r = full_entries r @ take i (m_currentSubRes r) @ [m_currentSubRes r ! i]"
    using i t by (simp add: rec_stack_def nat_add_distrib)
  show "last (rec_stack r) = m_currentSubRes r ! nat (m_currentSubResIndex r)" using s i by simp
  show "rec_stack (set_current ((m_currentSubRes r)[nat (m_currentSubResIndex r) := e]) r) = butlast (rec_stack r) @ [e]"
    using s i current_length [OF assms(1)] by (simp add: rec_stack_def nat_add_distrib take_Suc_conv_app_nth butlast_append)
  show "rec_stack (r\<lparr>m_currentSubResIndex := m_currentSubResIndex r - 1\<rparr>) = butlast (rec_stack r)"
    using s i by (simp add: rec_stack_def butlast_append)
qed

subsection \<open>Adding a lock\<close>

definition stack_add :: "SubLockResourceID \<Rightarrow> (SubLockResourceID \<times> uint32) list \<Rightarrow> (SubLockResourceID \<times> uint32) list" where
  "stack_add sid st =
     (if st \<noteq> [] \<and> sid \<le> fst (last st) then butlast st @ [(fst (last st), snd (last st) + 1)] else st @ [(sid, 1)])"

definition stack_pop :: "(SubLockResourceID \<times> uint32) list \<Rightarrow> (SubLockResourceID \<times> uint32) list" where
  "stack_pop st = (if snd (last st) = 1 then butlast st else butlast st @ [(fst (last st), snd (last st) - 1)])"

definition stack_cut :: "(SubLockResourceID \<Rightarrow> bool) \<Rightarrow> (SubLockResourceID \<times> uint32) list \<Rightarrow> (SubLockResourceID \<times> uint32) list" where
  "stack_cut remove st = rev (dropWhile (\<lambda>e. remove (fst e)) (rev st))"

lemma stack_snocE:
  assumes "st \<noteq> []"
  obtains ys i c where "st = ys @ [(i, c)]"
  using assms by (metis append_butlast_last_id surj_pair)

lemma stack_cnt_simps [simp]:
  "stack_cnt [] = 0" "stack_cnt (e # st) = unat (snd e) + stack_cnt st" "stack_cnt (st @ st') = stack_cnt st + stack_cnt st'"
  by (simp_all add: stack_cnt_def)

lemma stack_ok_simps [simp]:
  "stack_ok []"
  "stack_ok (st @ [e]) \<longleftrightarrow> stack_ok st \<and> snd e \<noteq> 0 \<and> (\<forall>x \<in> set st. fst x < fst e)"
  by (auto simp: stack_ok_def sorted_wrt_append)

lemma stack_ok_length: "stack_ok st \<Longrightarrow> length st \<le> stack_cnt st"
proof (induction st rule: rev_induct)
  case (snoc e st)
  then have "0 < unat (snd e)" using unat_gt_0 by auto
  then show ?case using snoc by simp
qed simp

lemma unat_plus_one: "unat w + 1 < 2 ^ 32 \<Longrightarrow> unat (w + 1) = unat w + 1" for w :: uint32
  by (simp add: unat_word_ariths)

lemma stack_add_ok:
  assumes "stack_ok st" "stack_cnt st + 1 < 2 ^ 32"
  shows "stack_ok (stack_add sid st)" "stack_cnt (stack_add sid st) = stack_cnt st + 1"
proof -
  have "stack_ok (stack_add sid st) \<and> stack_cnt (stack_add sid st) = stack_cnt st + 1"
  proof (cases "st \<noteq> [] \<and> sid \<le> fst (last st)")
    case True
    then obtain ys i c where st: "st = ys @ [(i, c)]" by (meson stack_snocE)
    have u: "unat (c + 1) = unat c + 1" using assms(2) st by (intro unat_plus_one) simp
    then have "c + 1 \<noteq> 0" by auto
    then show ?thesis using assms st True u by (simp add: stack_add_def)
  next
    case False
    have "\<forall>x \<in> set st. fst x < sid"
    proof (cases "st = []")
      case False2: False
      then obtain ys i c where st: "st = ys @ [(i, c)]" by (meson stack_snocE)
      then have "i < sid" using False by simp
      then show ?thesis using st assms(1) by (auto intro: order.strict_trans)
    qed simp
    then show ?thesis using assms(1) False by (auto simp: stack_add_def)
  qed
  then show "stack_ok (stack_add sid st)" "stack_cnt (stack_add sid st) = stack_cnt st + 1" by auto
qed

lemma StartNew_ok:
  assumes "rec_shape r" "length (rec_stack r) + 1 < 2 ^ 32"
    and "StartNewSubResourceIfNeeded ok sid r = (DSTORE_SUCC, r')"
  shows "rec_shape r'" "m_totalLockCnt r' = m_totalLockCnt r" "m_tag r' = m_tag r"
    "rec_stack r' = (if rec_stack r \<noteq> [] \<and> sid \<le> fst (last (rec_stack r)) then rec_stack r else rec_stack r @ [(sid, 0)])"
proof -
  show "m_totalLockCnt r' = m_totalLockCnt r" "m_tag r' = m_tag r"
    using assms(3) by (auto simp: StartNewSubResourceIfNeeded_def Let_def split: if_splits)
  have reuse: "\<not> IsCurrentEmpty r \<and> fst (m_currentSubRes r ! nat (m_currentSubResIndex r)) \<ge> sid
    \<longleftrightarrow> rec_stack r \<noteq> [] \<and> sid \<le> fst (last (rec_stack r))"
    using rec_stack_empty [OF assms(1)] rec_stack_last(1) [OF assms(1)] by auto
  have "rec_shape r' \<and> rec_stack r' = (if rec_stack r \<noteq> [] \<and> sid \<le> fst (last (rec_stack r)) then rec_stack r else rec_stack r @ [(sid, 0)])"
  proof (cases "rec_stack r \<noteq> [] \<and> sid \<le> fst (last (rec_stack r))")
    case True
    then show ?thesis using assms(1,3) reuse by (simp add: StartNewSubResourceIfNeeded_def)
  next
    case False
    note new = this
    show ?thesis
    proof (cases "IsCurrentFull r")
      case True
      let ?r1 = "r\<lparr>m_extendSubLockResList := empty_block # m_extendSubLockResList r, m_subResCnt := m_subResCnt r + 1, m_currentSubResIndex := 0\<rparr>"
      have i7: "m_currentSubResIndex r = 7" using True by (simp add: IsCurrentFull_def defaultSubResNum_def)
      have r': "r' = set_current (empty_block[0 := (sid, 0)]) ?r1"
        using assms(3) True False reuse by (auto simp: StartNewSubResourceIfNeeded_def Let_def m_currentSubRes_def split: if_splits)
      have "Suc (Suc (length (m_extendSubLockResList r))) < 2 ^ 32"
        using rec_stack_length [OF assms(1)] i7 assms(2) by linarith
      then have "rec_shape ?r1" using assms(1) by (auto simp: rec_shape_def empty_block_def defaultSubResNum_def)
      moreover have "full_entries ?r1 = rec_stack r"
        using i7 current_length [OF assms(1)] by (auto simp: full_entries_def rec_stack_def m_currentSubRes_def split: list.splits)
      moreover have "take 1 (empty_block[0 := (sid, 0)]) = [(sid, 0)]" "length empty_block = 8"
        by (simp_all add: empty_block_def defaultSubResNum_def numeral_eq_Suc)
      ultimately show ?thesis using False r' set_current_shape [of ?r1 "empty_block[0 := (sid, 0)]"]
        by (simp add: rec_stack_def)
    next
      case False
      let ?r1 = "r\<lparr>m_currentSubResIndex := m_currentSubResIndex r + 1\<rparr>"
      have r': "r' = set_current ((m_currentSubRes r)[nat (m_currentSubResIndex r + 1) := (sid, 0)]) ?r1"
        using assms(3) False new reuse by (auto simp: StartNewSubResourceIfNeeded_def Let_def split: if_splits)
      have shape: "rec_shape ?r1" using assms(1) False by (auto simp: rec_shape_def IsCurrentFull_def defaultSubResNum_def)
      obtain i where i: "m_currentSubResIndex r + 1 = int i" "i < 8"
        using shape assms(1) by (cases "m_currentSubResIndex r + 1") (auto simp: rec_shape_def)
      have "rec_stack r' = rec_stack r @ [(sid, 0)]"
        using r' i current_length [OF assms(1)] by (simp add: rec_stack_def nat_add_distrib take_Suc_conv_app_nth)
      moreover have "rec_shape r'" using r' set_current_shape [OF shape] current_length [OF assms(1)] by simp
      ultimately show ?thesis using new by auto
    qed
  qed
  then show "rec_shape r'"
    "rec_stack r' = (if rec_stack r \<noteq> [] \<and> sid \<le> fst (last (rec_stack r)) then rec_stack r else rec_stack r @ [(sid, 0)])" by auto
qed

lemma AddLock_fail: "AddLock ok sid r = (DSTORE_FAIL, r') \<Longrightarrow> r' = r \<and> \<not> ok"
  by (auto simp: AddLock_def StartNewSubResourceIfNeeded_def Let_def split: if_splits RetStatus.splits prod.splits)

lemma AddLock_ok:
  assumes "rec_ok r" "unat (m_totalLockCnt r) + 1 < 2 ^ 32" "AddLock ok sid r = (DSTORE_SUCC, r')"
  shows "rec_ok r'" "rec_stack r' = stack_add sid (rec_stack r)" "m_tag r' = m_tag r"
    "unat (m_totalLockCnt r') = unat (m_totalLockCnt r) + 1"
proof -
  have ok: "rec_shape r" "stack_ok (rec_stack r)" "unat (m_totalLockCnt r) = stack_cnt (rec_stack r)"
    using assms(1) by (auto simp: rec_ok_def)
  obtain r1 where r1: "StartNewSubResourceIfNeeded ok sid r = (DSTORE_SUCC, r1)"
    using assms(3) by (auto simp: AddLock_def split: RetStatus.splits prod.splits)
  have "length (rec_stack r) + 1 < 2 ^ 32" using stack_ok_length [OF ok(2)] ok(3) assms(2) by simp
  note s = StartNew_ok [OF ok(1) this r1]
  have ne: "rec_stack r1 \<noteq> []" using s(4) by auto
  let ?i = "nat (m_currentSubResIndex r1)" and ?e = "last (rec_stack r1)"
  have r': "r' = (set_current ((m_currentSubRes r1)[?i := (fst ?e, snd ?e + 1)]) r1)\<lparr>m_totalLockCnt := m_totalLockCnt r + 1\<rparr>"
    using assms(3) r1 s(2) rec_stack_last(1) [OF s(1) ne] by (auto simp: AddLock_def Let_def split: prod.splits)
  have shape: "rec_shape r'"
    using r' set_current_shape [OF s(1)] current_length [OF s(1)] by simp
  have stack: "rec_stack r' = butlast (rec_stack r1) @ [(fst ?e, snd ?e + 1)]"
    using r' rec_stack_last(2) [OF s(1) ne] by simp
  then show st: "rec_stack r' = stack_add sid (rec_stack r)" using s(4) by (auto simp: stack_add_def)
  show tot: "unat (m_totalLockCnt r') = unat (m_totalLockCnt r) + 1" using r' unat_plus_one [OF assms(2)] by simp
  show "m_tag r' = m_tag r" using r' s(3) by simp
  show "rec_ok r'" unfolding rec_ok_def using shape st tot ok stack_add_ok [OF ok(2)] assms(2) by simp
qed

subsection \<open>The removal loop\<close>

lemma stack_cut_append:
  "stack_cut P (xs @ ys) = (if stack_cut P ys = [] then stack_cut P xs else xs @ stack_cut P ys)"
  by (simp add: stack_cut_def dropWhile_append)

lemma stack_cut_snoc: "stack_cut P (xs @ [e]) = (if P (fst e) then stack_cut P xs else xs @ [e])"
  by (simp add: stack_cut_def)

lemma stack_cut_prefix: "\<exists>ys. st = stack_cut P st @ ys \<and> (\<forall>e \<in> set ys. P (fst e))"
proof (induction st rule: rev_induct)
  case (snoc e st)
  then obtain ys where ys: "st = stack_cut P st @ ys" "\<forall>e \<in> set ys. P (fst e)" by blast
  show ?case
  proof (cases "P (fst e)")
    case True
    then show ?thesis using ys by (intro exI [of _ "ys @ [e]"]) (auto simp: stack_cut_snoc)
  qed (simp add: stack_cut_snoc)
qed (simp add: stack_cut_def)

lemma RemoveCurrentSubResource_ok:
  assumes "rec_shape r0" "m_extendSubLockResList r0 \<noteq> []" "r = r0\<lparr>m_currentSubResIndex := -1\<rparr>"
  obtains r' where "RemoveCurrentSubResource r = Some r'" "rec_shape r'" "rec_stack r' = rec_stack r"
    "m_totalLockCnt r' = m_totalLockCnt r" "m_tag r' = m_tag r"
    "length (m_extendSubLockResList r') < length (m_extendSubLockResList r)"
proof -
  obtain b bs where e: "m_extendSubLockResList r0 = b # bs" using assms(2) by (cases "m_extendSubLockResList r0") auto
  have cnt: "unat (m_subResCnt r0) = Suc (Suc (length bs))"
    using assms(1) e by (simp add: rec_shape_def unat_of_nat take_bit_nat_eq_self del: of_nat_Suc)
  then have gt: "1 < m_subResCnt r0" by (simp add: word_less_nat_alt)
  let ?r' = "r\<lparr>m_extendSubLockResList := bs, m_currentSubResIndex := 7, m_subResCnt := m_subResCnt r - 1\<rparr>"
  have "RemoveCurrentSubResource r = Some ?r'"
    using gt e assms(3) by (simp add: RemoveCurrentSubResource_def defaultSubResNum_def)
  moreover have shape: "rec_shape ?r'" using assms e by (auto simp: rec_shape_def)
  moreover have "rec_stack ?r' = rec_stack r"
    using current_length [OF shape] assms(3) e
    by (auto simp: rec_stack_def full_entries_def m_currentSubRes_def split: list.split)
  ultimately show ?thesis using that [of ?r'] e assms(3) by simp
qed

lemma stack_more_blocks:
  assumes "rec_shape r"
  shows "m_subResCnt r > 1 \<longleftrightarrow> m_extendSubLockResList r \<noteq> []"
proof -
  have "unat (m_subResCnt r) = Suc (length (m_extendSubLockResList r))"
    using assms by (simp add: rec_shape_def unat_of_nat take_bit_nat_eq_self del: of_nat_Suc)
  then show ?thesis by (simp add: word_less_nat_alt)
qed

lemma remove_in_block_cut:
  assumes "n \<le> length b" "remove_in_block P b n c = (c', n', found)"
  shows "n' \<le> n" "take n' b = stack_cut P (take n b)" "found \<longleftrightarrow> n' \<noteq> 0"
    "c' + word_of_nat (stack_cnt (take n' b)) = c + word_of_nat (stack_cnt (take n b))"
proof -
  have "n' \<le> n \<and> take n' b = stack_cut P (take n b) \<and> (found \<longleftrightarrow> n' \<noteq> 0) \<and>
    c' + word_of_nat (stack_cnt (take n' b)) = c + word_of_nat (stack_cnt (take n b))"
    using assms
  proof (induction n arbitrary: c)
    case 0
    then show ?case by (simp add: stack_cut_def)
  next
    case (Suc n)
    have t: "take (Suc n) b = take n b @ [b ! n]" using Suc.prems by (simp add: take_Suc_conv_app_nth)
    show ?case
    proof (cases "P (fst (b ! n))")
      case True
      then show ?thesis using Suc.IH [of "c + snd (b ! n)"] Suc.prems t by (auto simp: stack_cut_snoc algebra_simps)
    next
      case False
      then show ?thesis using Suc.prems t by (auto simp: stack_cut_snoc)
    qed
  qed
  then show "n' \<le> n" "take n' b = stack_cut P (take n b)" "found \<longleftrightarrow> n' \<noteq> 0"
    "c' + word_of_nat (stack_cnt (take n' b)) = c + word_of_nat (stack_cnt (take n b))" by auto
qed

lemma remove_loop_cut:
  assumes "rec_shape r"
  shows "\<exists>c' r'. remove_loop P r c = Some (c', r') \<and> rec_shape r' \<and> rec_stack r' = stack_cut P (rec_stack r) \<and>
    c' + word_of_nat (stack_cnt (rec_stack r')) = c + word_of_nat (stack_cnt (rec_stack r)) \<and>
    m_totalLockCnt r' = m_totalLockCnt r \<and> m_tag r' = m_tag r"
  using assms
proof (induction "length (m_extendSubLockResList r)" arbitrary: r c rule: less_induct)
  case less
  show ?case
  proof (cases "IsCurrentEmpty r")
    case True
    then have "rec_stack r = []" using rec_stack_empty(1) [OF less.prems] by simp
    then show ?thesis using True less.prems by (subst remove_loop.simps) (simp add: stack_cut_def)
  next
    case False
    obtain c1 n found where
      b: "remove_in_block P (m_currentSubRes r) (nat (m_currentSubResIndex r + 1)) c = (c1, n, found)"
      by (metis prod_cases3)
    let ?r1 = "r\<lparr>m_currentSubResIndex := int n - 1\<rparr>"
    have i: "0 \<le> m_currentSubResIndex r" "m_currentSubResIndex r \<le> 7"
      using False less.prems by (auto simp: IsCurrentEmpty_def rec_shape_def)
    have "nat (m_currentSubResIndex r + 1) \<le> length (m_currentSubRes r)" using i current_length [OF less.prems] by simp
    note cut = remove_in_block_cut [OF this b]
    have st1: "rec_stack ?r1 = full_entries r @ stack_cut P (take (nat (m_currentSubResIndex r + 1)) (m_currentSubRes r))"
      using cut(2) by (simp add: rec_stack_def)
    have c1: "c1 + word_of_nat (stack_cnt (rec_stack ?r1)) = c + word_of_nat (stack_cnt (rec_stack r))"
      using cut(2,4) by (simp add: rec_stack_def algebra_simps)
    have step: "remove_loop P r c = (if found then Some (c1, ?r1) else if m_subResCnt ?r1 > 1
        then (case RemoveCurrentSubResource ?r1 of None \<Rightarrow> None | Some r2 \<Rightarrow> remove_loop P r2 c1) else Some (c1, ?r1))"
      by (subst remove_loop.simps) (simp add: False b Let_def)
    show ?thesis
    proof (cases found)
      case True
      then have "n \<noteq> 0" using cut(3) by simp
      then have "stack_cut P (take (nat (m_currentSubResIndex r + 1)) (m_currentSubRes r)) \<noteq> []"
        using cut(2) current_length [OF less.prems] by (metis length_0_conv numeral_eq_iff take_eq_Nil zero_neq_numeral)
      then have "rec_stack ?r1 = stack_cut P (rec_stack r)" using st1 by (simp add: rec_stack_def [of r] stack_cut_append)
      moreover have "rec_shape ?r1" using less.prems i cut(1) \<open>n \<noteq> 0\<close> by (auto simp: rec_shape_def)
      ultimately show ?thesis using step True c1 by auto
    next
      case False
      then have n: "n = 0" and cutnil: "stack_cut P (take (nat (m_currentSubResIndex r + 1)) (m_currentSubRes r)) = []"
        using cut by auto
      have st: "stack_cut P (rec_stack r) = stack_cut P (rec_stack ?r1)"
        using st1 cutnil by (simp add: rec_stack_def [of r] stack_cut_append)
      show ?thesis
      proof (cases "m_extendSubLockResList r = []")
        case True
        then have "\<not> m_subResCnt ?r1 > 1" using stack_more_blocks [OF less.prems] by simp
        moreover have "rec_shape ?r1" using less.prems True n by (simp add: rec_shape_def)
        moreover have "rec_stack ?r1 = []" using True n by (simp add: rec_stack_def full_entries_def)
        ultimately show ?thesis using step False c1 st by (auto simp: stack_cut_def)
      next
        case ext: False
        obtain r2 where r2: "RemoveCurrentSubResource ?r1 = Some r2" "rec_shape r2" "rec_stack r2 = rec_stack ?r1"
          "m_totalLockCnt r2 = m_totalLockCnt ?r1" "m_tag r2 = m_tag ?r1"
          "length (m_extendSubLockResList r2) < length (m_extendSubLockResList ?r1)"
          using RemoveCurrentSubResource_ok [OF less.prems ext, of ?r1] n by auto
        have "m_subResCnt ?r1 > 1" using stack_more_blocks [OF less.prems] ext by simp
        then have "remove_loop P r c = remove_loop P r2 c1" using step False r2(1) by simp
        then show ?thesis using less.hyps [of r2 c1] r2 c1 st by auto
      qed
    qed
  qed
qed

subsection \<open>Removing locks\<close>

lemma stack_pop_ok:
  assumes "stack_ok st" "st \<noteq> []"
  shows "stack_ok (stack_pop st)" "stack_cnt (stack_pop st) + 1 = stack_cnt st"
proof -
  obtain ys i c where st: "st = ys @ [(i, c)]" using assms(2) by (rule stack_snocE)
  then have "c \<noteq> 0" using assms(1) by simp
  then have "0 < unat c" by (simp add: unat_gt_0)
  moreover have "unat (c - 1) = unat c - 1" using \<open>c \<noteq> 0\<close> by (simp add: unat_minus_one)
  ultimately show "stack_ok (stack_pop st)" "stack_cnt (stack_pop st) + 1 = stack_cnt st"
    using assms st by (auto simp: stack_pop_def)
qed

lemma RemoveLatestLock_ok:
  assumes "rec_ok r" "rec_stack r \<noteq> []"
  obtains r' where "RemoveLatestLock r = Some r'" "rec_ok r'" "rec_stack r' = stack_pop (rec_stack r)" "m_tag r' = m_tag r"
    "m_totalLockCnt r' = m_totalLockCnt r - 1"
proof -
  have ok: "rec_shape r" "stack_ok (rec_stack r)" "unat (m_totalLockCnt r) = stack_cnt (rec_stack r)"
    using assms(1) by (auto simp: rec_ok_def)
  obtain ys i c where st: "rec_stack r = ys @ [(i, c)]" using assms(2) by (rule stack_snocE)
  then have c: "c \<noteq> 0" using ok(2) by simp
  let ?i = "nat (m_currentSubResIndex r)"
  let ?r2 = "(set_current ((m_currentSubRes r)[?i := (i, c - 1)]) r)\<lparr>m_totalLockCnt := m_totalLockCnt r - 1\<rparr>"
  have cur: "m_currentSubRes r ! ?i = (i, c)" using rec_stack_last(1) [OF ok(1) assms(2)] st by simp
  have s2: "rec_shape ?r2" using set_current_shape [OF ok(1)] current_length [OF ok(1)] by simp
  have st2: "rec_stack ?r2 = ys @ [(i, c - 1)]" using rec_stack_last(2) [OF ok(1) assms(2)] st by simp
  have ne: "\<not> IsCurrentEmpty r" using rec_stack_empty(1) [OF ok(1)] assms(2) by simp
  have run: "RemoveLatestLock r =
      (if c - 1 \<noteq> 0 then Some ?r2
       else if IsCurrentEmpty (?r2\<lparr>m_currentSubResIndex := m_currentSubResIndex ?r2 - 1\<rparr>) \<and> m_subResCnt ?r2 > 1
       then RemoveCurrentSubResource (?r2\<lparr>m_currentSubResIndex := m_currentSubResIndex ?r2 - 1\<rparr>)
       else Some (?r2\<lparr>m_currentSubResIndex := m_currentSubResIndex ?r2 - 1\<rparr>))"
    using ne c cur by (simp add: RemoveLatestLock_def Let_def word_gt_0)
  have "unat (m_totalLockCnt r) \<noteq> 0" using ok(3) st c by (simp add: unat_eq_0)
  then have total: "unat (m_totalLockCnt r - 1) = stack_cnt (stack_pop (rec_stack r))"
    using stack_pop_ok(2) [OF ok(2) assms(2)] ok(3) by (metis add_diff_cancel_right' unat_0 unat_minus_one)
  have fin: "rec_ok r'" if "rec_shape r'" "rec_stack r' = stack_pop (rec_stack r)" "m_totalLockCnt r' = m_totalLockCnt r - 1" for r'
    using that total stack_pop_ok(1) [OF ok(2) assms(2)] by (simp add: rec_ok_def)
  show ?thesis
  proof (cases "c - 1 = 0")
    case False
    then have "rec_stack ?r2 = stack_pop (rec_stack r)" using st2 st by (auto simp: stack_pop_def)
    then show ?thesis using that [of ?r2] run False fin [OF s2] by simp
  next
    case True
    then have one: "\<not> c - 1 \<noteq> 0" by simp
    let ?r3 = "?r2\<lparr>m_currentSubResIndex := m_currentSubResIndex ?r2 - 1\<rparr>"
    have st3: "rec_stack ?r3 = stack_pop (rec_stack r)"
      using rec_stack_last(3) [OF s2] st2 st True by (simp add: stack_pop_def)
    have i: "0 \<le> m_currentSubResIndex r" "m_currentSubResIndex r \<le> 7" using ne ok(1) by (auto simp: IsCurrentEmpty_def rec_shape_def)
    have more: "m_subResCnt ?r2 > 1 \<longleftrightarrow> m_extendSubLockResList ?r2 \<noteq> []" by (rule stack_more_blocks [OF s2])
    show ?thesis
    proof (cases "IsCurrentEmpty ?r3 \<and> m_subResCnt ?r2 > 1")
      case drop: True
      then have m1: "m_currentSubResIndex r - 1 = -1" using i by (auto simp: IsCurrentEmpty_def)
      obtain r' where "RemoveCurrentSubResource ?r3 = Some r'" "rec_shape r'" "rec_stack r' = rec_stack ?r3"
        "m_totalLockCnt r' = m_totalLockCnt ?r3" "m_tag r' = m_tag ?r3"
        by (rule RemoveCurrentSubResource_ok [OF s2, of ?r3]) (use drop more m1 in simp_all)
      moreover have "RemoveLatestLock r = RemoveCurrentSubResource ?r3"
        unfolding run if_not_P [OF one] if_P [OF drop] by (rule refl)
      ultimately show ?thesis using that [of r'] st3 fin [of r'] by simp
    next
      case keep: False
      then have s3: "rec_shape ?r3" using s2 i more by (auto simp: rec_shape_def IsCurrentEmpty_def)
      have "RemoveLatestLock r = Some ?r3" unfolding run if_not_P [OF one] if_not_P [OF keep] by (rule refl)
      then show ?thesis by (rule that [OF _ fin [OF s3 st3] st3]) simp_all
    qed
  qed
qed

lemma stack_cut_filter:
  assumes "stack_ok st" "\<And>a b. P a \<Longrightarrow> a \<le> b \<Longrightarrow> P b"
  shows "stack_cut P st = filter (\<lambda>e. \<not> P (fst e)) st"
  using assms(1)
proof (induction st rule: rev_induct)
  case (snoc e st)
  show ?case
  proof (cases "P (fst e)")
    case False
    then have "\<forall>x\<in>set st. \<not> P (fst x)" using snoc.prems assms(2) by (meson less_imp_le stack_ok_simps(2))
    then show ?thesis using False by (simp add: stack_cut_snoc)
  qed (use snoc in \<open>simp add: stack_cut_snoc\<close>)
qed (simp add: stack_cut_def)

lemma stack_ok_filter: "stack_ok st \<Longrightarrow> stack_ok (filter Q st)"
  by (auto simp: stack_ok_def sorted_wrt_map sorted_wrt_filter)

lemma stack_cnt_filter: "stack_cnt (filter Q st) + stack_cnt (filter (\<lambda>e. \<not> Q e) st) = stack_cnt st"
  by (induction st) auto

lemma stack_cnt_zero: "stack_ok st \<Longrightarrow> stack_cnt st = 0 \<longleftrightarrow> st = []"
  using stack_ok_length [of st] by auto

lemma remove_loop_ok:
  assumes "rec_ok r" "\<And>a b. P a \<Longrightarrow> a \<le> b \<Longrightarrow> P b"
  obtains c r' where "remove_loop P r 0 = Some (c, r')" "rec_shape r'" "rec_stack r' = filter (\<lambda>e. \<not> P (fst e)) (rec_stack r)"
    "unat c = stack_cnt (filter (\<lambda>e. P (fst e)) (rec_stack r))" "m_totalLockCnt r' = m_totalLockCnt r" "m_tag r' = m_tag r"
proof -
  have ok: "rec_shape r" "stack_ok (rec_stack r)" "unat (m_totalLockCnt r) = stack_cnt (rec_stack r)"
    using assms(1) by (auto simp: rec_ok_def)
  obtain c r' where c: "remove_loop P r 0 = Some (c, r')" "rec_shape r'" "rec_stack r' = stack_cut P (rec_stack r)"
    "c + word_of_nat (stack_cnt (rec_stack r')) = 0 + word_of_nat (stack_cnt (rec_stack r))"
    "m_totalLockCnt r' = m_totalLockCnt r" "m_tag r' = m_tag r"
    using remove_loop_cut [OF ok(1), of P 0] by blast
  have st: "rec_stack r' = filter (\<lambda>e. \<not> P (fst e)) (rec_stack r)"
    using c(3) stack_cut_filter [OF ok(2) assms(2)] by simp
  let ?n = "stack_cnt (filter (\<lambda>e. P (fst e)) (rec_stack r))"
  have "stack_cnt (rec_stack r) = ?n + stack_cnt (rec_stack r')"
    using st stack_cnt_filter [of "\<lambda>e. P (fst e)" "rec_stack r"] by simp
  then have "c = word_of_nat ?n" using c(4) by simp
  moreover have "?n < 2 ^ 32"
    using stack_cnt_filter [of "\<lambda>e. P (fst e)" "rec_stack r"] ok(3) unsigned_less [where 'a = nat, of "m_totalLockCnt r"] by simp
  ultimately have "unat c = ?n" by (simp add: unat_of_nat take_bit_nat_eq_self)
  then show ?thesis using that c st by blast
qed

text \<open>The contract of an operation that removes the locks of some sub-transactions from a record.\<close>

locale record_remover =
  fixes remover :: "LockResourceRecord \<Rightarrow> (uint32 \<times> LockResourceRecord) option"
    and drops :: "SubLockResourceID \<Rightarrow> bool"
  assumes removes: "rec_ok r \<Longrightarrow> \<exists>c r'. remover r = Some (c, r') \<and> rec_ok r' \<and> m_tag r' = m_tag r \<and>
      rec_stack r' = filter (\<lambda>e. \<not> drops (fst e)) (rec_stack r) \<and>
      unat c = stack_cnt (filter (\<lambda>e. drops (fst e)) (rec_stack r))"
begin

lemma removesE:
  assumes "rec_ok r"
  obtains c r' where "remover r = Some (c, r')" "rec_ok r'" "m_tag r' = m_tag r"
    "rec_stack r' = filter (\<lambda>e. \<not> drops (fst e)) (rec_stack r)"
    "unat c = stack_cnt (filter (\<lambda>e. drops (fst e)) (rec_stack r))"
  using removes [OF assms] by blast

lemma removed_nothing:
  assumes "rec_ok r" "remover r = Some (c, r')"
  shows "c = 0 \<longleftrightarrow> rec_stack r' = rec_stack r"
proof -
  have st: "rec_stack r' = filter (\<lambda>e. \<not> drops (fst e)) (rec_stack r)"
    and c: "unat c = stack_cnt (filter (\<lambda>e. drops (fst e)) (rec_stack r))" using removes [OF assms(1)] assms(2) by auto
  have "c = 0 \<longleftrightarrow> filter (\<lambda>e. drops (fst e)) (rec_stack r) = []"
    using c stack_cnt_zero [OF stack_ok_filter] assms(1) by (metis rec_ok_def unat_eq_zero)
  then show ?thesis using st by (auto simp: filter_id_conv filter_empty_conv)
qed

lemma removed_everything:
  assumes "rec_ok r" "remover r = Some (c, r')"
  shows "IsEmpty_record r' \<longleftrightarrow> (\<forall>e \<in> set (rec_stack r). drops (fst e))"
  using removes [OF assms(1)] assms(2) rec_stack_empty(2) [of r'] by (auto simp: rec_ok_def filter_empty_conv)

end

interpretation after: record_remover "RemoveLocksAfter sid" "\<lambda>i. sid \<le> i" for sid
proof
  fix r assume r: "rec_ok r"
  obtain c r' where c: "remove_loop (\<lambda>i. sid \<le> i) r 0 = Some (c, r')" "rec_shape r'"
    "rec_stack r' = filter (\<lambda>e. \<not> sid \<le> fst e) (rec_stack r)"
    "unat c = stack_cnt (filter (\<lambda>e. sid \<le> fst e) (rec_stack r))" "m_totalLockCnt r' = m_totalLockCnt r" "m_tag r' = m_tag r"
    by (rule remove_loop_ok [OF r, of "\<lambda>i. sid \<le> i"]) (auto intro: order.trans)
  have le: "unat c + stack_cnt (rec_stack r') = unat (m_totalLockCnt r)"
    using r c stack_cnt_filter [of "\<lambda>e. sid \<le> fst e" "rec_stack r"] by (simp add: rec_ok_def)
  then have "c \<le> m_totalLockCnt r" by (simp add: word_le_nat_alt)
  moreover from this le have "unat (m_totalLockCnt r - c) = stack_cnt (rec_stack r')" by (simp add: unat_sub)
  moreover have "stack_ok (rec_stack r')" using r c(3) by (simp add: rec_ok_def stack_ok_filter)
  ultimately show "\<exists>c r'. RemoveLocksAfter sid r = Some (c, r') \<and> rec_ok r' \<and> m_tag r' = m_tag r \<and>
      rec_stack r' = filter (\<lambda>e. \<not> sid \<le> fst e) (rec_stack r) \<and>
      unat c = stack_cnt (filter (\<lambda>e. sid \<le> fst e) (rec_stack r))"
    using c by (simp add: RemoveLocksAfter_def rec_ok_def)
qed

interpretation everything: record_remover RemoveAll "\<lambda>_. True"
proof
  fix r assume r: "rec_ok r"
  obtain c r' where c: "remove_loop (\<lambda>_. True) r 0 = Some (c, r')" "rec_shape r'" "rec_stack r' = []"
    "unat c = stack_cnt (rec_stack r)" "m_totalLockCnt r' = m_totalLockCnt r" "m_tag r' = m_tag r"
    by (rule remove_loop_ok [OF r, of "\<lambda>_. True"]) auto
  then have "m_totalLockCnt r = c" using r by (simp add: rec_ok_def word_unat_eq_iff)
  then show "\<exists>c r'. RemoveAll r = Some (c, r') \<and> rec_ok r' \<and> m_tag r' = m_tag r \<and>
      rec_stack r' = filter (\<lambda>e. \<not> True) (rec_stack r) \<and> unat c = stack_cnt (filter (\<lambda>e. True) (rec_stack r))"
    using c by (simp add: RemoveAll_def rec_ok_def)
qed

subsection \<open>The map of stacks a table stands for\<close>

definition table_stack :: "LockResourceRecord list \<Rightarrow> LockResourceTag \<Rightarrow> (SubLockResourceID \<times> uint32) list" where
  "table_stack tbl tag = (case find (\<lambda>r. m_tag r = tag) tbl of None \<Rightarrow> [] | Some r \<Rightarrow> rec_stack r)"

abbreviation held :: "LockResource \<Rightarrow> LockResourceTag \<Rightarrow> (SubLockResourceID \<times> uint32) list" where
  "held l \<equiv> table_stack (m_resTable l)"

definition known_mgr :: "LockResourceTag \<Rightarrow> bool" where
  "known_mgr tag \<longleftrightarrow> rt_lockMgrType tag = LOCK_MGR \<or> rt_lockMgrType tag = TABLE_LOCK_MGR"

definition entry_ok :: "SubLockResourceID \<Rightarrow> LockResourceRecord \<Rightarrow> bool" where
  "entry_ok sid r \<longleftrightarrow> rec_ok r \<and> rec_stack r \<noteq> [] \<and> known_mgr (m_tag r) \<and> (\<forall>e \<in> set (rec_stack r). fst e \<le> sid)"

definition res_ok :: "LockResource \<Rightarrow> bool" where
  "res_ok l \<longleftrightarrow> distinct (map m_tag (m_resTable l)) \<and> (\<forall>r \<in> set (m_resTable l). entry_ok (m_subLockResId l) r)"

lemma find_record:
  "distinct (map m_tag tbl) \<Longrightarrow> find (\<lambda>r. m_tag r = tag) tbl = Some r \<longleftrightarrow> r \<in> set tbl \<and> m_tag r = tag"
  by (induction tbl) (auto simp: image_iff)

lemma find_record_none: "find (\<lambda>r. m_tag r = tag) tbl = None \<longleftrightarrow> tag \<notin> m_tag ` set tbl"
  by (auto simp: find_None_iff)

lemma table_stack_simps [simp]:
  "table_stack [] = (\<lambda>_. [])"
  "table_stack (r # tbl) = (table_stack tbl)(m_tag r := rec_stack r)"
  by (auto simp: table_stack_def fun_eq_iff)

lemma table_stack_absent: "tag \<notin> m_tag ` set tbl \<Longrightarrow> table_stack tbl tag = []"
  using find_record_none [of tag tbl] by (simp add: table_stack_def)

lemma table_stack_append_new:
  "m_tag r \<notin> m_tag ` set tbl \<Longrightarrow> table_stack (tbl @ [r]) = (table_stack tbl)(m_tag r := rec_stack r)"
  by (induction tbl) auto

lemma put_absent: "m_tag r \<notin> m_tag ` set tbl \<Longrightarrow> map (\<lambda>x. if m_tag x = m_tag r then r else x) tbl = tbl"
  by (induction tbl) auto

lemma table_stack_put:
  assumes "m_tag r \<in> m_tag ` set tbl"
  shows "table_stack (map (\<lambda>x. if m_tag x = m_tag r then r else x) tbl) = (table_stack tbl)(m_tag r := rec_stack r)"
  using assms
proof (induction tbl)
  case (Cons x tbl)
  show ?case
  proof (cases "m_tag r \<in> m_tag ` set tbl")
    case False
    then show ?thesis using Cons.prems put_absent [of r tbl] by auto
  qed (use Cons.IH in auto)
qed simp

lemma table_stack_delete: "table_stack (filter (\<lambda>x. m_tag x \<noteq> tag) tbl) = (table_stack tbl)(tag := [])"
  by (induction tbl) auto

lemma put_tags: "map m_tag (map (\<lambda>x. if m_tag x = m_tag r then r else x) tbl) = map m_tag tbl"
  by (induction tbl) auto

lemma InitRecord_ok: "rec_ok (InitRecord tag)" "rec_stack (InitRecord tag) = []" "m_tag (InitRecord tag) = tag"
  by (simp_all add: InitRecord_def rec_ok_def rec_shape_def rec_stack_def full_entries_def m_currentSubRes_def
      empty_block_def defaultSubResNum_def)

lemma FindResource_held:
  assumes "res_ok l" "FindResource tag l = Some r"
  shows "r \<in> set (m_resTable l)" "m_tag r = tag" "entry_ok (m_subLockResId l) r" "held l tag = rec_stack r"
proof -
  have "r \<in> set (m_resTable l) \<and> m_tag r = tag"
    using assms by (subst find_record [symmetric]) (simp_all add: res_ok_def FindResource_def)
  then show "r \<in> set (m_resTable l)" "m_tag r = tag" "entry_ok (m_subLockResId l) r" using assms(1) by (simp_all add: res_ok_def)
  show "held l tag = rec_stack r" using assms(2) by (simp add: FindResource_def table_stack_def)
qed

lemma FindResource_none:
  "FindResource tag l = None \<longleftrightarrow> tag \<notin> m_tag ` set (m_resTable l)"
  by (simp add: FindResource_def find_record_none)

lemma FindResource_held_iff:
  assumes "res_ok l"
  shows "(FindResource tag l = None) = (held l tag = [])"
proof (cases "FindResource tag l")
  case None
  then show ?thesis by (simp add: FindResource_def table_stack_def)
next
  case (Some r)
  then show ?thesis using FindResource_held(3,4) [OF assms Some] by (simp add: entry_ok_def)
qed

lemma GetLockCnt_held:
  assumes "res_ok l"
  shows "unat (GetLockCnt tag l) = stack_cnt (held l tag)"
proof (cases "FindResource tag l")
  case None
  then have "held l tag = []" using FindResource_held_iff [OF assms] by blast
  then show ?thesis using None by (simp add: GetLockCnt_def)
next
  case (Some r)
  then show ?thesis using FindResource_held(3,4) [OF assms Some] by (simp add: GetLockCnt_def entry_ok_def rec_ok_def)
qed

lemma put_record_ok:
  assumes "res_ok l" "m_tag r \<in> m_tag ` set (m_resTable l)" "entry_ok (m_subLockResId l) r"
  shows "res_ok (put_record r l)" "held (put_record r l) = (held l)(m_tag r := rec_stack r)"
proof -
  show "held (put_record r l) = (held l)(m_tag r := rec_stack r)"
    using table_stack_put [OF assms(2)] by (simp add: put_record_def)
  have "distinct (map m_tag (m_resTable (put_record r l)))"
    using assms(1) put_tags [of r "m_resTable l"] by (simp add: put_record_def res_ok_def del: map_map list.map_comp)
  then show "res_ok (put_record r l)" using assms(1,3) by (auto simp: res_ok_def put_record_def)
qed

lemma DeleteResource_ok:
  assumes "res_ok l"
  shows "res_ok (DeleteResource r l)" "held (DeleteResource r l) = (held l)(m_tag r := [])"
  using assms by (auto simp: res_ok_def DeleteResource_def table_stack_delete distinct_map_filter)

lemma stack_add_bound: "(\<forall>e \<in> set st. fst e \<le> sid) \<Longrightarrow> \<forall>e \<in> set (stack_add sid st). fst e \<le> sid"
  by (cases "st = []") (auto simp: stack_add_def dest: in_set_butlastD last_in_set)

lemma stack_add_nonempty: "stack_add sid st \<noteq> []"
  by (simp add: stack_add_def)

lemma AddLock_entry:
  assumes "rec_ok r" "known_mgr (m_tag r)" "\<forall>e \<in> set (rec_stack r). fst e \<le> sid"
    "stack_cnt (rec_stack r) + 1 < 2 ^ 32" "AddLock ok sid r = (DSTORE_SUCC, r')"
  shows "entry_ok sid r'" "rec_stack r' = stack_add sid (rec_stack r)" "m_tag r' = m_tag r"
proof -
  have "unat (m_totalLockCnt r) + 1 < 2 ^ 32" using assms(1,4) by (simp add: rec_ok_def)
  note a = AddLock_ok [OF assms(1) this assms(5)]
  show "rec_stack r' = stack_add sid (rec_stack r)" "m_tag r' = m_tag r" using a by auto
  show "entry_ok sid r'" using a assms(2) stack_add_bound [OF assms(3)] by (simp add: entry_ok_def stack_add_nonempty)
qed

lemma RememberLock_ok:
  assumes "res_ok l" "known_mgr tag" "stack_cnt (held l tag) + 1 < 2 ^ 32" "RememberLock eok aok tag l = (st, l')"
  shows "res_ok l'" "m_subLockResId l' = m_subLockResId l"
    "held l' = (if st = DSTORE_SUCC then (held l)(tag := stack_add (m_subLockResId l) (held l tag)) else held l)"
proof -
  have "res_ok l' \<and> m_subLockResId l' = m_subLockResId l \<and>
    held l' = (if st = DSTORE_SUCC then (held l)(tag := stack_add (m_subLockResId l) (held l tag)) else held l)"
  proof (cases "FindResource tag l")
    case (Some r)
    note f = FindResource_held [OF assms(1) Some]
    obtain s r' where a: "AddLock aok (m_subLockResId l) r = (s, r')" by fastforce
    have r: "rec_ok r" "known_mgr (m_tag r)" "\<forall>e\<in>set (rec_stack r). fst e \<le> m_subLockResId l" "rec_stack r \<noteq> []"
      using f(3) by (auto simp: entry_ok_def)
    show ?thesis
    proof (cases s)
      case DSTORE_SUCC
      have "stack_cnt (rec_stack r) + 1 < 2 ^ 32" using assms(3) f(4) by simp
      note e = AddLock_entry [OF r(1-3) this a [unfolded DSTORE_SUCC]]
      have "m_tag r' \<in> m_tag ` set (m_resTable l)" using e(3) f(1) by simp
      note p = put_record_ok [OF assms(1) this e(1)]
      have "st = DSTORE_SUCC" "l' = put_record r' l"
        using assms(4) Some a DSTORE_SUCC by (simp_all add: RememberLock_def FindOrCreateResource_def)
      then show ?thesis using p e f by (simp add: put_record_def)
    next
      case DSTORE_FAIL
      then have "r' = r" using AddLock_fail a by blast
      moreover have "\<not> IsEmpty_record r" using rec_stack_empty(2) [of r] r(1,4) by (simp add: rec_ok_def)
      ultimately have l': "st = DSTORE_FAIL" "l' = put_record r l"
        using assms(4) Some a DSTORE_FAIL by (simp_all add: RememberLock_def FindOrCreateResource_def)
      have "m_tag r \<in> m_tag ` set (m_resTable l)" using f(1) by simp
      note p = put_record_ok [OF assms(1) this f(3)]
      then show ?thesis using l' f by (simp add: put_record_def fun_upd_idem)
    qed
  next
    case None
    then have new: "tag \<notin> m_tag ` set (m_resTable l)" "held l tag = []"
      by (simp_all add: FindResource_none table_stack_absent)
    show ?thesis
    proof (cases eok)
      case False
      then show ?thesis using assms(1,4) None by (auto simp: RememberLock_def FindOrCreateResource_def)
    next
      case True
      let ?l1 = "l\<lparr>m_resTable := m_resTable l @ [InitRecord tag]\<rparr>"
      obtain s r' where a: "AddLock aok (m_subLockResId l) (InitRecord tag) = (s, r')" by fastforce
      have "s = DSTORE_SUCC" using a
        by (auto simp: AddLock_def StartNewSubResourceIfNeeded_def InitRecord_def IsCurrentEmpty_def IsCurrentFull_def
            defaultSubResNum_def Let_def split: prod.splits)
      note a = a [unfolded this]
      have e: "entry_ok (m_subLockResId l) r'" "rec_stack r' = stack_add (m_subLockResId l) []" "m_tag r' = tag"
        using AddLock_entry [OF InitRecord_ok(1) _ _ _ a] InitRecord_ok assms(2) by simp_all
      have l': "st = DSTORE_SUCC" "l' = put_record r' ?l1"
        using assms(4) None True a by (simp_all add: RememberLock_def FindOrCreateResource_def)
      have tbl: "m_resTable l' = m_resTable l @ [r']"
        using l' e(3) new(1) InitRecord_ok(3) put_absent [of r' "m_resTable l"] by (simp add: put_record_def)
      have "held l' = (held l)(tag := rec_stack r')"
        unfolding tbl using table_stack_append_new [of r' "m_resTable l"] new e(3) by simp
      moreover have "res_ok l'" using assms(1) e(1,3) new(1) tbl l'(2) by (simp add: res_ok_def put_record_def)
      ultimately show ?thesis using l' e(2) new(2) by (simp add: put_record_def)
    qed
  qed
  then show "res_ok l'" "m_subLockResId l' = m_subLockResId l"
    "held l' = (if st = DSTORE_SUCC then (held l)(tag := stack_add (m_subLockResId l) (held l tag)) else held l)" by auto
qed

lemma ForgetLock_ok:
  assumes "res_ok l" "held l tag \<noteq> []"
  obtains l' where "ForgetLock tag l = Some l'" "res_ok l'" "m_subLockResId l' = m_subLockResId l"
    "held l' = (held l)(tag := stack_pop (held l tag))"
proof -
  obtain r where r: "FindResource tag l = Some r" using FindResource_held_iff [OF assms(1)] assms(2) by fastforce
  note f = FindResource_held [OF assms(1) r]
  have ok: "rec_ok r" "rec_stack r \<noteq> []" "known_mgr tag" "\<forall>e\<in>set (rec_stack r). fst e \<le> m_subLockResId l"
    using f by (auto simp: entry_ok_def)
  obtain r' where r': "RemoveLatestLock r = Some r'" "rec_ok r'" "rec_stack r' = stack_pop (rec_stack r)" "m_tag r' = m_tag r"
    using RemoveLatestLock_ok [OF ok(1,2)] by blast
  have empty: "IsEmpty_record r' \<longleftrightarrow> stack_pop (rec_stack r) = []"
    using rec_stack_empty(2) [of r'] r' by (simp add: rec_ok_def)
  have bound: "\<forall>e\<in>set (rec_stack r'). fst e \<le> m_subLockResId l"
    using ok(2,4) r'(3) by (auto simp: stack_pop_def split: if_splits dest: in_set_butlastD last_in_set)
  have run: "ForgetLock tag l = Some (if IsEmpty_record r' then DeleteResource r' l else put_record r' l)"
    by (simp add: ForgetLock_def r r'(1))
  show ?thesis
  proof (cases "IsEmpty_record r'")
    case True
    then show ?thesis using that [OF run] DeleteResource_ok [OF assms(1), of r'] empty r' f
      by (simp add: DeleteResource_def)
  next
    case False
    then have "entry_ok (m_subLockResId l) r'" using r' f ok bound empty by (simp add: entry_ok_def)
    moreover have "m_tag r' \<in> m_tag ` set (m_resTable l)" using r'(4) f(1) by simp
    ultimately show ?thesis using that [OF run] put_record_ok [OF assms(1), of r'] False r' f by (simp add: put_record_def)
  qed
qed

subsection \<open>Releasing locks\<close>

fun unlock_of :: "unlock_call \<Rightarrow> LockResourceTag \<times> nat" where
  "unlock_of (Unlock tag mode) = (\<lparr>rt_lockTag = tag, rt_lockMode = mode, rt_lockMgrType = LOCK_MGR\<rparr>, 1)"
| "unlock_of (BatchUnlock tag mode n) = (\<lparr>rt_lockTag = tag, rt_lockMode = mode, rt_lockMgrType = TABLE_LOCK_MGR\<rparr>, unat n)"

text \<open>How often a lock is released by the calls made to the lock managers.\<close>

definition released :: "unlock_call list \<Rightarrow> LockResourceTag \<Rightarrow> nat" where
  "released calls tag = sum_list (map (\<lambda>c. if fst (unlock_of c) = tag then snd (unlock_of c) else 0) calls)"

lemma released_simps [simp]: "released [] tag = 0" "released (c @ c') tag = released c tag + released c' tag"
  by (simp_all add: released_def)

lemma BatchReleaseLocks_released:
  assumes "known_mgr tag"
  obtains calls where "BatchReleaseLocks tag n = Some calls" "released calls = (\<lambda>_. 0)(tag := unat n)"
proof -
  have rep: "released (replicate k (Unlock t m)) = (\<lambda>_. 0)(\<lparr>rt_lockTag = t, rt_lockMode = m, rt_lockMgrType = LOCK_MGR\<rparr> := k)" for k t m
    by (induction k) (auto simp: released_def fun_eq_iff)
  have one: "released [BatchUnlock t m n] = (\<lambda>_. 0)(\<lparr>rt_lockTag = t, rt_lockMode = m, rt_lockMgrType = TABLE_LOCK_MGR\<rparr> := unat n)" for t m
    by (auto simp: released_def fun_eq_iff)
  show ?thesis
    using assms that rep [of "unat n" "rt_lockTag tag" "rt_lockMode tag"] one [of "rt_lockTag tag" "rt_lockMode tag"]
    by (cases tag) (auto simp: known_mgr_def BatchReleaseLocks_def)
qed

definition table_ok :: "SubLockResourceID \<Rightarrow> LockResourceRecord list \<Rightarrow> bool" where
  "table_ok sid tbl \<longleftrightarrow> distinct (map m_tag tbl) \<and> (\<forall>r \<in> set tbl. entry_ok sid r)"

lemma table_ok_simps [simp]:
  "table_ok sid []"
  "table_ok sid (r # tbl) \<longleftrightarrow> m_tag r \<notin> m_tag ` set tbl \<and> entry_ok sid r \<and> table_ok sid tbl"
  by (auto simp: table_ok_def)

lemma release_after_loop_ok:
  assumes "table_ok sid' tbl"
  shows "\<exists>calls tbl'. release_after_loop sid tbl = Some (calls, tbl') \<and> table_ok sid' tbl' \<and> m_tag ` set tbl' \<subseteq> m_tag ` set tbl \<and>
    (\<forall>tag. table_stack tbl' tag = filter (\<lambda>e. \<not> sid \<le> fst e) (table_stack tbl tag)) \<and>
    (\<forall>tag. released calls tag = stack_cnt (filter (\<lambda>e. sid \<le> fst e) (table_stack tbl tag)))"
  using assms
proof (induction tbl)
  case (Cons r tbl)
  then have r: "rec_ok r" "known_mgr (m_tag r)" "m_tag r \<notin> m_tag ` set tbl" "\<forall>e\<in>set (rec_stack r). fst e \<le> sid'"
    by (auto simp: entry_ok_def)
  obtain calls' tbl' where IH: "release_after_loop sid tbl = Some (calls', tbl')" "table_ok sid' tbl'"
    "m_tag ` set tbl' \<subseteq> m_tag ` set tbl" "\<forall>tag. table_stack tbl' tag = filter (\<lambda>e. \<not> sid \<le> fst e) (table_stack tbl tag)"
    "\<forall>tag. released calls' tag = stack_cnt (filter (\<lambda>e. sid \<le> fst e) (table_stack tbl tag))"
    using Cons by auto
  obtain c r' where c: "RemoveLocksAfter sid r = Some (c, r')" "rec_ok r'" "m_tag r' = m_tag r"
    "rec_stack r' = filter (\<lambda>e. \<not> sid \<le> fst e) (rec_stack r)"
    "unat c = stack_cnt (filter (\<lambda>e. sid \<le> fst e) (rec_stack r))"
    by (rule after.removesE [OF r(1), of sid])
  obtain calls where calls: "(if c > 0 then BatchReleaseLocks (m_tag r') c else Some []) = Some calls"
    "released calls = (\<lambda>_. 0)(m_tag r := unat c)"
  proof (cases "c > 0")
    case True
    then show ?thesis using BatchReleaseLocks_released [of "m_tag r'" c] r(2) c(3) that by metis
  next
    case False
    then show ?thesis using that [of "[]"] by (auto simp: word_gt_0 fun_eq_iff)
  qed
  have run: "release_after_loop sid (r # tbl) = Some (calls @ calls', if IsEmpty_record r' then tbl' else r' # tbl')"
    using c(1) calls(1) IH(1) by simp
  have empty: "IsEmpty_record r' \<longleftrightarrow> rec_stack r' = []" using rec_stack_empty(2) [of r'] c(2) by (simp add: rec_ok_def)
  have absent: "table_stack tbl (m_tag r) = []" by (rule table_stack_absent [OF r(3)])
  have rel: "released (calls @ calls') tag = stack_cnt (filter (\<lambda>e. sid \<le> fst e) (table_stack (r # tbl) tag))" for tag
    using calls(2) IH(5) c(5) absent by auto
  have entry: "entry_ok sid' r'" if "rec_stack r' \<noteq> []" using that c r by (auto simp: entry_ok_def)
  show ?case
  proof (cases "IsEmpty_record r'")
    case True
    then have "table_stack tbl' tag = filter (\<lambda>e. \<not> sid \<le> fst e) (table_stack (r # tbl) tag)" for tag
      using IH(4) absent empty c(4) by auto
    then show ?thesis using run True IH(2,3) rel by auto
  next
    case False
    then show ?thesis using run IH(2-4) rel empty entry c(3,4) r(3) by auto
  qed
qed simp

lemma release_all_loop_ok:
  assumes "table_ok sid' tbl"
  shows "\<exists>calls tbl'. release_all_loop pass tbl = Some (calls, tbl') \<and> table_ok sid' tbl' \<and> m_tag ` set tbl' \<subseteq> m_tag ` set tbl \<and>
    (\<forall>tag. table_stack tbl' tag = (if pass (lockTagType (rt_lockTag tag)) then table_stack tbl tag else [])) \<and>
    (\<forall>tag. released calls tag = (if pass (lockTagType (rt_lockTag tag)) then 0 else stack_cnt (table_stack tbl tag)))"
  using assms
proof (induction tbl)
  case (Cons r tbl)
  then have r: "rec_ok r" "known_mgr (m_tag r)" "m_tag r \<notin> m_tag ` set tbl" "entry_ok sid' r" by (auto simp: entry_ok_def)
  obtain calls' tbl' where IH: "release_all_loop pass tbl = Some (calls', tbl')" "table_ok sid' tbl'"
    "m_tag ` set tbl' \<subseteq> m_tag ` set tbl"
    "\<forall>tag. table_stack tbl' tag = (if pass (lockTagType (rt_lockTag tag)) then table_stack tbl tag else [])"
    "\<forall>tag. released calls' tag = (if pass (lockTagType (rt_lockTag tag)) then 0 else stack_cnt (table_stack tbl tag))"
    using Cons by auto
  have absent: "table_stack tbl (m_tag r) = []" by (rule table_stack_absent [OF r(3)])
  show ?case
  proof (cases "pass (lockTagType (rt_lockTag (m_tag r)))")
    case True
    then have "release_all_loop pass (r # tbl) = Some (calls', r # tbl')" using IH(1) by simp
    then show ?thesis using True IH(2-5) r by auto
  next
    case False
    obtain c r' where c: "RemoveAll r = Some (c, r')" "rec_ok r'" "m_tag r' = m_tag r" "rec_stack r' = []" "unat c = stack_cnt (rec_stack r)"
      by (rule everything.removesE [OF r(1)]) simp
    obtain calls where calls: "BatchReleaseLocks (m_tag r') c = Some calls" "released calls = (\<lambda>_. 0)(m_tag r := unat c)"
      using BatchReleaseLocks_released [of "m_tag r'" c] r(2) c(3) by metis
    have "IsEmpty_record r'" using rec_stack_empty(2) [of r'] c(2,4) by (simp add: rec_ok_def)
    then have "release_all_loop pass (r # tbl) = Some (calls @ calls', tbl')" using False c(1) calls(1) IH(1) by simp
    moreover have "released (calls @ calls') tag =
        (if pass (lockTagType (rt_lockTag tag)) then 0 else stack_cnt (table_stack (r # tbl) tag))" for tag
      using calls(2) IH(5) c(5) absent False by auto
    ultimately show ?thesis using IH(2-4) False by auto
  qed
qed simp

lemma res_ok_table: "res_ok l \<longleftrightarrow> table_ok (m_subLockResId l) (m_resTable l)"
  by (simp add: res_ok_def table_ok_def)

lemma ReleaseLocksAcquiredAfter_ok:
  assumes "res_ok l"
  obtains calls l' where "ReleaseLocksAcquiredAfter sid l = Some (calls, l')" "res_ok l'" "m_subLockResId l' = m_subLockResId l"
    "held l' = (\<lambda>tag. filter (\<lambda>e. \<not> sid \<le> fst e) (held l tag))"
    "released calls = (\<lambda>tag. stack_cnt (filter (\<lambda>e. sid \<le> fst e) (held l tag)))"
proof -
  obtain calls tbl' where t: "release_after_loop sid (m_resTable l) = Some (calls, tbl')" "table_ok (m_subLockResId l) tbl'"
    "\<forall>tag. table_stack tbl' tag = filter (\<lambda>e. \<not> sid \<le> fst e) (held l tag)"
    "\<forall>tag. released calls tag = stack_cnt (filter (\<lambda>e. sid \<le> fst e) (held l tag))"
    using release_after_loop_ok [of "m_subLockResId l" "m_resTable l" sid] assms by (auto simp: res_ok_table)
  then show ?thesis
    using that [of calls "l\<lparr>m_resTable := tbl'\<rparr>"] by (simp add: ReleaseLocksAcquiredAfter_def res_ok_table fun_eq_iff)
qed

lemma ReleaseAllLocks_ok:
  assumes "res_ok l"
  obtains calls l' where "ReleaseAllLocks l = Some (calls, l')" "l' = LockResource_new" "released calls = (\<lambda>tag. stack_cnt (held l tag))"
proof -
  obtain calls tbl' where t: "release_all_loop (\<lambda>_. False) (m_resTable l) = Some (calls, tbl')" "table_ok (m_subLockResId l) tbl'"
    "\<forall>tag. table_stack tbl' tag = []" "\<forall>tag. released calls tag = stack_cnt (held l tag)"
    using release_all_loop_ok [of "m_subLockResId l" "m_resTable l" "\<lambda>_. False"] assms by (auto simp: res_ok_table)
  have "tbl' = []"
  proof (cases tbl')
    case (Cons r tbl)
    then show ?thesis using t(2) t(3) [rule_format, of "m_tag r"] by (simp add: entry_ok_def)
  qed
  then show ?thesis using that [of calls] t by (simp add: ReleaseAllLocks_def LockResource_new_def fun_eq_iff)
qed

lemma release_by_type_ok:
  assumes "res_ok l"
  shows "\<exists>calls l'. ReleaseAllLocksByType ty l = Some (calls, l') \<and> res_ok l' \<and> m_subLockResId l' = m_subLockResId l \<and>
      held l' = (\<lambda>tag. if lockTagType (rt_lockTag tag) = ty then [] else held l tag) \<and>
      released calls = (\<lambda>tag. if lockTagType (rt_lockTag tag) = ty then stack_cnt (held l tag) else 0)"
    "\<exists>calls l'. ReleaseAllLocksExceptTypes tys l = Some (calls, l') \<and> res_ok l' \<and> m_subLockResId l' = m_subLockResId l \<and>
      held l' = (\<lambda>tag. if lockTagType (rt_lockTag tag) \<in> set tys then held l tag else []) \<and>
      released calls = (\<lambda>tag. if lockTagType (rt_lockTag tag) \<in> set tys then 0 else stack_cnt (held l tag))"
  using release_all_loop_ok [of "m_subLockResId l" "m_resTable l" "\<lambda>t. t \<noteq> ty"]
    release_all_loop_ok [of "m_subLockResId l" "m_resTable l" "\<lambda>t. list_ex (\<lambda>x. t = x) tys"] assms
  by (auto simp: res_ok_table ReleaseAllLocksByType_def ReleaseAllLocksExceptTypes_def list_ex_iff fun_eq_iff)

subsection \<open>Iterating over a record\<close>

definition iter_valid :: "SubLockResourceIter \<Rightarrow> bool" where
  "iter_valid it \<longleftrightarrow> rec_shape (it_record it) \<and> it_block it \<le> length (m_extendSubLockResList (it_record it)) \<and>
     0 \<le> m_resIndex it \<and> (if at_current it then m_resIndex it \<le> m_currentSubResIndex (it_record it) + 1 else m_resIndex it \<le> 7)"

definition iter_pos :: "SubLockResourceIter \<Rightarrow> nat" where
  "iter_pos it = 8 * it_block it + nat (m_resIndex it)"

definition iter_rest :: "SubLockResourceIter \<Rightarrow> (SubLockResourceID \<times> uint32) list" where
  "iter_rest it = drop (iter_pos it) (rec_stack (it_record it))"

lemma concat_blocks_nth:
  assumes "\<forall>b \<in> set bs. length b = 8" "k < length bs" "i < 8"
  shows "concat bs ! (8 * k + i) = bs ! k ! i"
  using assms by (induction bs arbitrary: k) (auto simp: nth_append less_Suc_eq_0_disj)

lemma take_whole_prefix: "xs @ take n b = take (length (xs @ take n b)) (xs @ b)"
  by (simp add: min_def)

lemma rec_stack_blocks:
  "rec_stack r = take (length (rec_stack r)) (concat (m_defaultSubLockRes r # rev (m_extendSubLockResList r)))"
proof (cases "m_extendSubLockResList r")
  case Nil
  then show ?thesis by (simp add: rec_stack_def full_entries_def m_currentSubRes_def min_def)
next
  case (Cons b bs)
  have "rec_stack r = (m_defaultSubLockRes r @ concat (rev bs)) @ take (nat (m_currentSubResIndex r + 1)) b"
    using Cons by (simp add: rec_stack_def full_entries_def m_currentSubRes_def)
  moreover have "concat (m_defaultSubLockRes r # rev (m_extendSubLockResList r)) = (m_defaultSubLockRes r @ concat (rev bs)) @ b"
    using Cons by simp
  ultimately show ?thesis by (simp only: take_whole_prefix [symmetric])
qed

lemma iter_at:
  assumes "iter_valid it"
  shows "IsEnd it \<longleftrightarrow> iter_pos it = length (rec_stack (it_record it))"
    "\<not> IsEnd it \<Longrightarrow> iter_pos it < length (rec_stack (it_record it))"
    "\<not> IsEnd it \<Longrightarrow> rec_stack (it_record it) ! iter_pos it = (GetSubResourceID it, GetSubResourceCnt it)"
proof -
  let ?r = "it_record it"
  have shape: "rec_shape ?r" using assms by (simp add: iter_valid_def)
  have len: "int (length (rec_stack ?r)) = 8 * int (length (m_extendSubLockResList ?r)) + m_currentSubResIndex ?r + 1"
    by (rule rec_stack_length [OF shape])
  have pos: "int (iter_pos it) = 8 * int (it_block it) + m_resIndex it" using assms by (simp add: iter_pos_def iter_valid_def)
  have ext: "m_extendSubLockResList ?r \<noteq> [] \<Longrightarrow> 0 \<le> m_currentSubResIndex ?r" using shape by (simp add: rec_shape_def)
  have below: "iter_pos it < length (rec_stack ?r)" if "it_block it < length (m_extendSubLockResList ?r)"
  proof -
    have "m_resIndex it \<le> 7" using that assms by (simp add: iter_valid_def at_current_def)
    moreover have "0 \<le> m_currentSubResIndex ?r" using that by (intro ext) auto
    ultimately show ?thesis using pos len that by linarith
  qed
  show "IsEnd it \<longleftrightarrow> iter_pos it = length (rec_stack ?r)"
    using below assms len pos by (cases "at_current it") (auto simp: IsEnd_def iter_valid_def at_current_def)
  show lt: "iter_pos it < length (rec_stack ?r)" if "\<not> IsEnd it"
    using that below assms len pos by (cases "at_current it") (auto simp: IsEnd_def iter_valid_def at_current_def)
  show "rec_stack ?r ! iter_pos it = (GetSubResourceID it, GetSubResourceCnt it)" if "\<not> IsEnd it"
  proof -
    let ?bs = "m_defaultSubLockRes ?r # rev (m_extendSubLockResList ?r)"
    have i: "nat (m_resIndex it) < 8"
      using that assms shape by (auto simp: IsEnd_def iter_valid_def rec_shape_def split: if_splits)
    have "rec_stack ?r ! iter_pos it = concat ?bs ! iter_pos it"
      by (rule trans [OF arg_cong [OF rec_stack_blocks, of "\<lambda>xs. xs ! iter_pos it"] nth_take [OF lt [OF that]]])
    also have "\<dots> = ?bs ! it_block it ! nat (m_resIndex it)"
      unfolding iter_pos_def using shape assms i by (intro concat_blocks_nth) (auto simp: rec_shape_def iter_valid_def)
    also have "?bs ! it_block it = iter_block it" by (simp add: iter_block_def nth_Cons')
    finally show ?thesis by (simp add: GetSubResourceID_def GetSubResourceCnt_def)
  qed
qed

lemma iter_step:
  assumes "iter_valid it"
  shows "IsEnd it \<longleftrightarrow> iter_rest it = []"
    "\<not> IsEnd it \<Longrightarrow> \<exists>it'. Next it = Some it' \<and> iter_valid it' \<and> it_record it' = it_record it \<and>
      iter_rest it = (GetSubResourceID it, GetSubResourceCnt it) # iter_rest it'"
proof -
  show "IsEnd it \<longleftrightarrow> iter_rest it = []" using iter_at(1,2) [OF assms] by (fastforce simp: iter_rest_def)
  assume n: "\<not> IsEnd it"
  have cons: "iter_rest it = (GetSubResourceID it, GetSubResourceCnt it) # drop (Suc (iter_pos it)) (rec_stack (it_record it))"
    unfolding iter_rest_def using iter_at(2,3) [OF assms n] by (metis Cons_nth_drop_Suc)
  have shape: "rec_shape (it_record it)" using assms by (simp add: iter_valid_def)
  show "\<exists>it'. Next it = Some it' \<and> iter_valid it' \<and> it_record it' = it_record it \<and>
      iter_rest it = (GetSubResourceID it, GetSubResourceCnt it) # iter_rest it'"
  proof (cases "m_resIndex it \<noteq> 7 \<or> at_current it")
    case True
    let ?it = "it\<lparr>m_resIndex := m_resIndex it + 1\<rparr>"
    have "Next it = Some ?it" using True n by (simp add: Next_def defaultSubResNum_def)
    moreover have "iter_valid ?it" using assms True n by (auto simp: iter_valid_def at_current_def IsEnd_def)
    moreover have "iter_pos ?it = Suc (iter_pos it)" using assms by (simp add: iter_pos_def iter_valid_def nat_add_distrib)
    ultimately show ?thesis using cons by (auto simp: iter_rest_def)
  next
    case False
    let ?it = "it\<lparr>it_block := it_block it + 1, m_resIndex := 0\<rparr>"
    have b: "it_block it < length (m_extendSubLockResList (it_record it))" "m_resIndex it = 7"
      using False assms by (auto simp: iter_valid_def at_current_def)
    then have "Next it = Some ?it" using False n by (simp add: Next_def defaultSubResNum_def)
    moreover have "iter_valid ?it" using shape b by (auto simp: iter_valid_def at_current_def rec_shape_def)
    moreover have "iter_pos ?it = Suc (iter_pos it)" using b by (simp add: iter_pos_def)
    ultimately show ?thesis using cons by (auto simp: iter_rest_def)
  qed
qed

lemma iter_init_rest:
  assumes "rec_shape r"
  shows "iter_valid (iter_init r)" "iter_rest (iter_init r) = rec_stack r"
  using assms by (auto simp: iter_valid_def iter_rest_def iter_pos_def iter_init_def at_current_def rec_shape_def)

fun merge_stacks :: "(SubLockResourceID \<times> uint32) list \<Rightarrow> (SubLockResourceID \<times> uint32) list \<Rightarrow> (SubLockResourceID \<times> uint32) list" where
  "merge_stacks [] ys = ys"
| "merge_stacks xs [] = xs"
| "merge_stacks (x # xs) (y # ys) =
     (if fst x < fst y then x # merge_stacks xs (y # ys) else y # merge_stacks (x # xs) ys)"

lemma merge_stacks_Nil [simp]: "merge_stacks xs [] = xs"
  by (cases xs) simp_all

definition tail_add :: "(SubLockResourceID \<times> uint32) \<Rightarrow> (SubLockResourceID \<times> uint32) list \<Rightarrow> (SubLockResourceID \<times> uint32) list" where
  "tail_add e items = MergeToTail items (fst e) (snd e)"

lemma merge_loop_merges:
  assumes "iter_valid it1" "iter_valid it2"
  shows "merge_loop it1 it2 items = Some (fold tail_add (merge_stacks (iter_rest it1) (iter_rest it2)) items)"
  using assms
proof (induction "length (iter_rest it1) + length (iter_rest it2)" arbitrary: it1 it2 items rule: less_induct)
  case less
  note s1 = iter_step [OF less.prems(1)] and s2 = iter_step [OF less.prems(2)]
  consider (both) "IsEnd it1" "IsEnd it2"
    | (first) "\<not> IsEnd it1" "IsEnd it2 \<or> GetSubResourceID it1 < GetSubResourceID it2"
    | (second) "\<not> IsEnd it2" "IsEnd it1 \<or> \<not> GetSubResourceID it1 < GetSubResourceID it2"
    by blast
  then show ?case
  proof cases
    case both
    then show ?thesis using s1(1) s2(1) by (subst merge_loop.simps) simp
  next
    case first
    obtain it where it: "Next it1 = Some it" "iter_valid it" "iter_rest it1 = (GetSubResourceID it1, GetSubResourceCnt it1) # iter_rest it"
      using s1(2) [OF first(1)] by blast
    have "merge_stacks (iter_rest it1) (iter_rest it2) =
        (GetSubResourceID it1, GetSubResourceCnt it1) # merge_stacks (iter_rest it) (iter_rest it2)"
      using it(3) first(2) s2 by (cases "IsEnd it2") auto
    moreover have "merge_loop it1 it2 items = merge_loop it it2 (merge_from it1 items)"
      using first it(1) by (subst merge_loop.simps) auto
    ultimately show ?thesis using less.hyps [of it it2 "merge_from it1 items"] it less.prems(2)
      by (simp add: merge_from_def tail_add_def)
  next
    case second
    obtain it where it: "Next it2 = Some it" "iter_valid it" "iter_rest it2 = (GetSubResourceID it2, GetSubResourceCnt it2) # iter_rest it"
      using s2(2) [OF second(1)] by blast
    have "merge_stacks (iter_rest it1) (iter_rest it2) =
        (GetSubResourceID it2, GetSubResourceCnt it2) # merge_stacks (iter_rest it1) (iter_rest it)"
      using it(3) second(2) s1 by (cases "IsEnd it1") auto
    moreover have "merge_loop it1 it2 items = merge_loop it1 it (merge_from it2 items)"
      using second it(1) by (subst merge_loop.simps) auto
    ultimately show ?thesis using less.hyps [of it1 it "merge_from it2 items"] it less.prems(1)
      by (simp add: merge_from_def tail_add_def)
  qed
qed

subsection \<open>Merging two records\<close>

definition stack_at :: "(SubLockResourceID \<times> uint32) list \<Rightarrow> SubLockResourceID \<Rightarrow> nat" where
  "stack_at st i = stack_cnt (filter (\<lambda>e. fst e = i) st)"

lemma stack_at_simps [simp]:
  "stack_at [] i = 0" "stack_at (e # st) i = (if fst e = i then unat (snd e) else 0) + stack_at st i"
  "stack_at (st @ st') i = stack_at st i + stack_at st' i"
  by (simp_all add: stack_at_def)

lemma merge_stacks_facts:
  "set (merge_stacks xs ys) = set xs \<union> set ys" "stack_cnt (merge_stacks xs ys) = stack_cnt xs + stack_cnt ys"
  "stack_at (merge_stacks xs ys) i = stack_at xs i + stack_at ys i"
  by (induction xs ys rule: merge_stacks.induct) auto

lemma merge_stacks_sorted:
  "sorted (map fst xs) \<Longrightarrow> sorted (map fst ys) \<Longrightarrow> sorted (map fst (merge_stacks xs ys))"
  by (induction xs ys rule: merge_stacks.induct) (auto simp: merge_stacks_facts)

lemma tail_add_ok:
  assumes "stack_ok items" "\<forall>e \<in> set items. fst e \<le> i" "c \<noteq> 0" "stack_cnt items + unat c < 2 ^ 32"
  shows "stack_ok (tail_add (i, c) items)" "stack_cnt (tail_add (i, c) items) = stack_cnt items + unat c"
    "\<forall>e \<in> set (tail_add (i, c) items). fst e \<le> i"
    "stack_at (tail_add (i, c) items) j = stack_at items j + (if j = i then unat c else 0)"
proof -
  have "stack_ok (tail_add (i, c) items) \<and> stack_cnt (tail_add (i, c) items) = stack_cnt items + unat c \<and>
    (\<forall>e \<in> set (tail_add (i, c) items). fst e \<le> i) \<and>
    stack_at (tail_add (i, c) items) j = stack_at items j + (if j = i then unat c else 0)"
  proof (cases "items = [] \<or> fst (last items) \<noteq> i")
    case True
    then have t: "tail_add (i, c) items = items @ [(i, c)]" by (auto simp: tail_add_def MergeToTail_def Let_def)
    have "\<forall>e \<in> set items. fst e < i"
    proof (cases "items = []")
      case False
      then obtain ys k d where it: "items = ys @ [(k, d)]" by (rule stack_snocE)
      then have "k < i" using True assms(2) by auto
      then show ?thesis using it assms(1) by (auto intro: order.strict_trans)
    qed simp
    then show ?thesis using t assms by auto
  next
    case False
    then obtain ys d where it: "items = ys @ [(i, d)]" by (metis append_butlast_last_id prod.collapse)
    then have t: "tail_add (i, c) items = ys @ [(i, d + c)]" by (simp add: tail_add_def MergeToTail_def Let_def)
    have u: "unat (d + c) = unat d + unat c" using assms(4) it by (simp add: unat_word_ariths)
    have "unat (d + c) \<noteq> 0" using u assms(3) by (simp add: unat_eq_zero)
    then have "d + c \<noteq> 0" by auto
    then show ?thesis using t u it assms by auto
  qed
  then show "stack_ok (tail_add (i, c) items)" "stack_cnt (tail_add (i, c) items) = stack_cnt items + unat c"
    "\<forall>e \<in> set (tail_add (i, c) items). fst e \<le> i"
    "stack_at (tail_add (i, c) items) j = stack_at items j + (if j = i then unat c else 0)" by auto
qed

lemma fold_tail_add_ok:
  assumes "stack_ok items" "sorted (map fst xs)" "\<forall>e \<in> set xs. snd e \<noteq> 0" "\<forall>e \<in> set items. \<forall>x \<in> set xs. fst e \<le> fst x"
    "stack_cnt items + stack_cnt xs < 2 ^ 32"
  shows "stack_ok (fold tail_add xs items) \<and> stack_cnt (fold tail_add xs items) = stack_cnt items + stack_cnt xs \<and>
    (\<forall>i. stack_at (fold tail_add xs items) i = stack_at items i + stack_at xs i)"
  using assms
proof (induction xs arbitrary: items)
  case (Cons x xs)
  obtain i c where x: "x = (i, c)" by fastforce
  have "stack_cnt items + unat c < 2 ^ 32" "c \<noteq> 0" "\<forall>e \<in> set items. fst e \<le> i" using Cons.prems x by auto
  note t = tail_add_ok [OF Cons.prems(1) this(3,2,1)]
  have "\<forall>e \<in> set (tail_add (i, c) items). \<forall>y \<in> set xs. fst e \<le> fst y"
    using t(3) Cons.prems(2) x by (auto intro: order.trans)
  then show ?case using Cons.IH [OF t(1)] t(2,4) Cons.prems x by auto
qed simp

text \<open>
  The assertion of \<open>MergeToTail\<close>: at no time are there more items than the array has places. A prefix of the
  merge is what has been collected so far.
\<close>

lemma tail_add_length: "length (fold tail_add xs items) \<le> length items + length xs"
proof (induction xs arbitrary: items)
  case (Cons x xs)
  have "length (tail_add x items) \<le> Suc (length items)"
    by (cases items rule: rev_cases) (auto simp: tail_add_def MergeToTail_def Let_def)
  then show ?case using Cons.IH [of "tail_add x items"] by simp
qed simp

lemma rec_stack_fits:
  assumes "rec_shape r"
  shows "length (rec_stack r) \<le> 8 * unat (m_subResCnt r)"
proof -
  have "unat (m_subResCnt r) = Suc (length (m_extendSubLockResList r))"
    using assms by (simp add: rec_shape_def unat_of_nat_small del: of_nat_Suc)
  then show ?thesis using rec_stack_length [OF assms] assms by (simp add: rec_shape_def)
qed

lemma merged_items_fit:
  assumes "rec_shape r" "rec_shape other" "8 * (unat (m_subResCnt r) + unat (m_subResCnt other)) < 2 ^ 32"
  shows "length (fold tail_add (take k (merge_stacks (rec_stack r) (rec_stack other))) []) \<le>
    unat ((m_subResCnt r + m_subResCnt other) * 8)"
proof -
  have "unat ((m_subResCnt r + m_subResCnt other) * 8) = 8 * (unat (m_subResCnt r) + unat (m_subResCnt other))"
    using assms(3) by (simp add: unat_word_ariths)
  moreover have "length (merge_stacks xs ys) = length xs + length ys" for xs ys
    by (induction xs ys rule: merge_stacks.induct) auto
  ultimately show ?thesis
    using tail_add_length [of "take k (merge_stacks (rec_stack r) (rec_stack other))" "[]"]
      rec_stack_fits [OF assms(1)] rec_stack_fits [OF assms(2)] by simp
qed

lemma add_times_ok:
  assumes "rec_ok r" "stack_cnt (rec_stack r) + n < 2 ^ 32" "rec_stack r \<noteq> []" "fst (last (rec_stack r)) = sid"
    "add_times aok sid n r = (DSTORE_SUCC, r')"
  shows "rec_ok r' \<and> m_tag r' = m_tag r \<and>
    rec_stack r' = butlast (rec_stack r) @ [(sid, snd (last (rec_stack r)) + word_of_nat n)]"
  using assms
proof (induction n arbitrary: r)
  case 0
  then show ?case by (cases "rec_stack r" rule: rev_cases) auto
next
  case (Suc n)
  obtain r1 where r1: "AddLock (aok (m_subResCnt r)) sid r = (DSTORE_SUCC, r1)" "add_times aok sid n r1 = (DSTORE_SUCC, r')"
    using Suc.prems(5) by (auto split: prod.splits RetStatus.splits)
  have "unat (m_totalLockCnt r) + 1 < 2 ^ 32" using Suc.prems(1,2) by (simp add: rec_ok_def)
  note a = AddLock_ok [OF Suc.prems(1) this r1(1)]
  have st: "rec_stack r1 = butlast (rec_stack r) @ [(sid, snd (last (rec_stack r)) + 1)]"
    using a(2) Suc.prems(3,4) by (auto simp: stack_add_def)
  have "stack_cnt (rec_stack r1) = stack_cnt (rec_stack r) + 1" using a(1,4) Suc.prems(1) by (simp add: rec_ok_def)
  then show ?case using Suc.IH [OF a(1) _ _ _ r1(2)] st a(3) Suc.prems(2) by (simp add: algebra_simps)
qed

lemma add_times_new:
  assumes "rec_ok r" "stack_cnt (rec_stack r) + unat c < 2 ^ 32" "\<forall>e \<in> set (rec_stack r). fst e < sid" "c \<noteq> 0"
    "add_times aok sid (unat c) r = (DSTORE_SUCC, r')"
  shows "rec_ok r' \<and> m_tag r' = m_tag r \<and> rec_stack r' = rec_stack r @ [(sid, c)]"
proof -
  obtain n where n: "unat c = Suc n" using assms(4) by (metis not0_implies_Suc unat_eq_zero)
  obtain r1 where r1: "AddLock (aok (m_subResCnt r)) sid r = (DSTORE_SUCC, r1)" "add_times aok sid n r1 = (DSTORE_SUCC, r')"
    using assms(5) n by (auto split: prod.splits RetStatus.splits)
  have "unat (m_totalLockCnt r) + 1 < 2 ^ 32" using assms(1,2) n by (simp add: rec_ok_def)
  note a = AddLock_ok [OF assms(1) this r1(1)]
  have "\<not> (rec_stack r \<noteq> [] \<and> sid \<le> fst (last (rec_stack r)))" using assms(3) by (meson last_in_set not_less)
  then have st: "rec_stack r1 = rec_stack r @ [(sid, 1)]" using a(2) by (auto simp: stack_add_def)
  have "1 + word_of_nat n = c" using arg_cong [OF n, of "word_of_nat :: nat \<Rightarrow> uint32"] by simp
  then show ?thesis using add_times_ok [OF a(1) _ _ _ r1(2)] st a(3) assms(2) n by simp
qed

lemma add_items_ok:
  assumes "rec_ok r" "stack_ok (rec_stack r @ items)" "stack_cnt (rec_stack r @ items) < 2 ^ 32"
    "add_items aok items r = (DSTORE_SUCC, r')"
  shows "rec_ok r' \<and> m_tag r' = m_tag r \<and> rec_stack r' = rec_stack r @ items"
  using assms
proof (induction items arbitrary: r)
  case (Cons e items)
  obtain i c where e: "e = (i, c)" by fastforce
  obtain r1 where r1: "add_times aok i (unat c) r = (DSTORE_SUCC, r1)" "add_items aok items r1 = (DSTORE_SUCC, r')"
    using Cons.prems(4) e by (auto split: prod.splits RetStatus.splits)
  have "\<forall>x \<in> set (rec_stack r). fst x < i" "c \<noteq> 0" using Cons.prems(2) e by (auto simp: stack_ok_def sorted_wrt_append)
  then have t: "rec_ok r1 \<and> m_tag r1 = m_tag r \<and> rec_stack r1 = rec_stack r @ [(i, c)]"
    using add_times_new [OF Cons.prems(1) _ _ _ r1(1)] Cons.prems(3) e by simp
  then show ?case using Cons.IH [OF _ _ _ r1(2)] Cons.prems(2,3) e by simp
qed simp

lemma add_times_succeeds: "(\<And>n. aok n) \<Longrightarrow> fst (add_times aok sid n r) = DSTORE_SUCC"
proof (induction n arbitrary: r)
  case (Suc n)
  obtain s r1 where a: "AddLock (aok (m_subResCnt r)) sid r = (s, r1)" by fastforce
  then have "s = DSTORE_SUCC" using AddLock_fail [of "aok (m_subResCnt r)" sid r r1] Suc.prems by (cases s) auto
  then show ?case using a Suc by simp
qed simp

lemma add_items_succeeds: "(\<And>n. aok n) \<Longrightarrow> fst (add_items aok items r) = DSTORE_SUCC"
proof (induction items arbitrary: r)
  case (Cons e items)
  obtain r1 where "add_times aok (fst e) (unat (snd e)) r = (DSTORE_SUCC, r1)"
    using add_times_succeeds [of aok "fst e" "unat (snd e)" r] Cons.prems by (metis prod.collapse)
  then show ?case using Cons.IH [of r1, OF Cons.prems] by (cases e) simp
qed simp

lemma MergeRecord_ok:
  assumes "rec_ok r" "rec_ok other" "unat (m_totalLockCnt r) + unat (m_totalLockCnt other) < 2 ^ 32"
  obtains st r' where "MergeRecord iok aok r other = Some (st, r')" "m_tag r' = m_tag r" "rec_ok r'"
    "st = DSTORE_FAIL \<Longrightarrow> r' = r \<and> (iok \<longrightarrow> (\<exists>n. \<not> aok n))"
    "st = DSTORE_SUCC \<Longrightarrow> \<forall>i. stack_at (rec_stack r') i = stack_at (rec_stack r) i + stack_at (rec_stack other) i"
proof (cases iok)
  case False
  then show ?thesis using that [of DSTORE_FAIL r] assms(1) by (simp add: MergeRecord_def)
next
  case True
  have ok: "rec_shape r" "stack_ok (rec_stack r)" "rec_shape other" "stack_ok (rec_stack other)"
    "stack_cnt (rec_stack r) + stack_cnt (rec_stack other) < 2 ^ 32" using assms by (auto simp: rec_ok_def)
  let ?m = "merge_stacks (rec_stack r) (rec_stack other)"
  let ?items = "fold tail_add ?m []"
  have items: "merge_loop (iter_init r) (iter_init other) [] = Some ?items"
    using merge_loop_merges iter_init_rest ok(1,3) by simp
  have "sorted (map fst ?m)"
    using ok(2,4) by (intro merge_stacks_sorted) (simp_all add: stack_ok_def strict_sorted_imp_sorted)
  moreover have "\<forall>e \<in> set ?m. snd e \<noteq> 0" using ok(2,4) by (auto simp: merge_stacks_facts(1) stack_ok_def)
  ultimately have f: "stack_ok ?items" "stack_cnt ?items < 2 ^ 32"
      "\<forall>i. stack_at ?items i = stack_at (rec_stack r) i + stack_at (rec_stack other) i"
    using fold_tail_add_ok [of "[]" ?m] ok(5) by (simp_all add: merge_stacks_facts)
  obtain st r' where a: "add_items aok ?items (InitRecord (m_tag r)) = (st, r')" by fastforce
  show ?thesis
  proof (cases st)
    case DSTORE_SUCC
    have "rec_ok r' \<and> m_tag r' = m_tag r \<and> rec_stack r' = ?items"
      using add_items_ok [OF InitRecord_ok(1) _ _ a [unfolded DSTORE_SUCC]] f InitRecord_ok by simp
    then show ?thesis using that [of DSTORE_SUCC r'] True items a DSTORE_SUCC f(3) by (simp add: MergeRecord_def)
  next
    case DSTORE_FAIL
    then have "\<exists>n. \<not> aok n" using add_items_succeeds [of aok ?items "InitRecord (m_tag r)"] a by auto
    then show ?thesis using that [of DSTORE_FAIL r] True items a DSTORE_FAIL assms(1) by (simp add: MergeRecord_def)
  qed
qed

subsection \<open>The operations on the stacks\<close>

text \<open>
  C12. The locks a transaction remembers behave as a map from locks to stacks of counts per
  sub-transaction. \<open>RememberLock\<close> adds one to the stack of its lock, or fails and changes nothing;
  \<open>ForgetLock\<close> takes one from the top; \<open>GetLockCnt\<close> is the sum of the counts.
  \<open>ReleaseLocksAcquiredAfter\<close> removes exactly the counts of the given sub-transaction and later ones, and
  calls the lock managers exactly that often; the three operations that release all locks, or those
  of some types, do the same with the locks concerned. None of them violates an assertion, and all
  keep the table well-formed.
\<close>

theorem LockResource_refines_stacks:
  assumes "res_ok l" "known_mgr tag" "stack_cnt (held l tag) + 1 < 2 ^ 32"
  shows "(case RememberLock enter_ok alloc_ok tag l of (st, l') \<Rightarrow>
      res_ok l' \<and> held l' = (if st = DSTORE_SUCC then (held l)(tag := stack_add (m_subLockResId l) (held l tag)) else held l)) \<and>
    (held l tag \<noteq> [] \<longrightarrow> (\<exists>l'. ForgetLock tag l = Some l' \<and> res_ok l' \<and> held l' = (held l)(tag := stack_pop (held l tag)))) \<and>
    unat (GetLockCnt tag l) = stack_cnt (held l tag) \<and>
    (\<exists>calls l'. ReleaseLocksAcquiredAfter sid l = Some (calls, l') \<and> res_ok l' \<and>
      held l' = (\<lambda>tag. filter (\<lambda>e. \<not> sid \<le> fst e) (held l tag)) \<and>
      released calls = (\<lambda>tag. stack_cnt (filter (\<lambda>e. sid \<le> fst e) (held l tag)))) \<and>
    (\<exists>calls. ReleaseAllLocks l = Some (calls, LockResource_new) \<and> released calls = (\<lambda>tag. stack_cnt (held l tag))) \<and>
    (\<exists>calls l'. ReleaseAllLocksByType ty l = Some (calls, l') \<and> res_ok l' \<and>
      held l' = (\<lambda>tag. if lockTagType (rt_lockTag tag) = ty then [] else held l tag) \<and>
      released calls = (\<lambda>tag. if lockTagType (rt_lockTag tag) = ty then stack_cnt (held l tag) else 0)) \<and>
    (\<exists>calls l'. ReleaseAllLocksExceptTypes tys l = Some (calls, l') \<and> res_ok l' \<and>
      held l' = (\<lambda>tag. if lockTagType (rt_lockTag tag) \<in> set tys then held l tag else []) \<and>
      released calls = (\<lambda>tag. if lockTagType (rt_lockTag tag) \<in> set tys then 0 else stack_cnt (held l tag)))"
proof (intro conjI)
  obtain st l' where r: "RememberLock enter_ok alloc_ok tag l = (st, l')" by fastforce
  show "case RememberLock enter_ok alloc_ok tag l of (st, l') \<Rightarrow>
      res_ok l' \<and> held l' = (if st = DSTORE_SUCC then (held l)(tag := stack_add (m_subLockResId l) (held l tag)) else held l)"
    using RememberLock_ok(1,3) [OF assms r] unfolding r by simp
  show "held l tag \<noteq> [] \<longrightarrow> (\<exists>l'. ForgetLock tag l = Some l' \<and> res_ok l' \<and> held l' = (held l)(tag := stack_pop (held l tag)))"
    using ForgetLock_ok [OF assms(1)] by blast
  show "unat (GetLockCnt tag l) = stack_cnt (held l tag)" by (rule GetLockCnt_held [OF assms(1)])
  show "\<exists>calls l'. ReleaseLocksAcquiredAfter sid l = Some (calls, l') \<and> res_ok l' \<and>
      held l' = (\<lambda>tag. filter (\<lambda>e. \<not> sid \<le> fst e) (held l tag)) \<and>
      released calls = (\<lambda>tag. stack_cnt (filter (\<lambda>e. sid \<le> fst e) (held l tag)))"
    using ReleaseLocksAcquiredAfter_ok [OF assms(1), of sid] by blast
  show "\<exists>calls. ReleaseAllLocks l = Some (calls, LockResource_new) \<and> released calls = (\<lambda>tag. stack_cnt (held l tag))"
    using ReleaseAllLocks_ok [OF assms(1)] by blast
qed (use release_by_type_ok [OF assms(1)] in blast)+

theorem LockResource_refines_stacks_witness:
  "\<exists>calls. ReleaseAllLocks LockResource_new = Some (calls, LockResource_new) \<and>
     held (snd (RememberLock True True
       \<lparr>rt_lockTag = LockTag_default, rt_lockMode = DSTORE_ROW_EXCLUSIVE_LOCK, rt_lockMgrType = TABLE_LOCK_MGR\<rparr> LockResource_new))
       \<lparr>rt_lockTag = LockTag_default, rt_lockMode = DSTORE_ROW_EXCLUSIVE_LOCK, rt_lockMgrType = TABLE_LOCK_MGR\<rparr> = [(1, 1)]"
proof -
  let ?tag = "\<lparr>rt_lockTag = LockTag_default, rt_lockMode = DSTORE_ROW_EXCLUSIVE_LOCK, rt_lockMgrType = TABLE_LOCK_MGR\<rparr>"
  have "res_ok LockResource_new" "known_mgr ?tag" "stack_cnt (held LockResource_new ?tag) + 1 < 2 ^ 32"
    by (simp_all add: res_ok_def LockResource_new_def known_mgr_def)
  note r = LockResource_refines_stacks [OF this, of True True 0 LOCKTAG_TABLE "[]"]
  have "fst (RememberLock True True ?tag LockResource_new) = DSTORE_SUCC" by code_simp
  moreover have "stack_add (m_subLockResId LockResource_new) (held LockResource_new ?tag) = [(1, 1)]" by code_simp
  ultimately have "held (snd (RememberLock True True ?tag LockResource_new)) = (held LockResource_new)(?tag := [(1, 1)])"
    using r [THEN conjunct1] by (simp add: case_prod_unfold)
  moreover have "\<exists>calls. ReleaseAllLocks LockResource_new = Some (calls, LockResource_new)" using r by blast
  ultimately show ?thesis by simp
qed

text \<open>
  C27. Merging two records adds their counts for every sub-transaction, however the two are spread over
  blocks, and leaves the record as it was when memory runs out.
\<close>

theorem MergeRecord_adds_counts:
  assumes "rec_ok r" "rec_ok other" "unat (m_totalLockCnt r) + unat (m_totalLockCnt other) < 2 ^ 32"
  shows "\<exists>st r'. MergeRecord items_ok alloc_ok r other = Some (st, r') \<and> rec_ok r' \<and> m_tag r' = m_tag r \<and>
    (st = DSTORE_FAIL \<longrightarrow> r' = r) \<and> (items_ok \<and> (\<forall>n. alloc_ok n) \<longrightarrow> st = DSTORE_SUCC) \<and>
    (st = DSTORE_SUCC \<longrightarrow> (\<forall>i. stack_at (rec_stack r') i = stack_at (rec_stack r) i + stack_at (rec_stack other) i))"
proof (rule MergeRecord_ok [OF assms, of items_ok alloc_ok], goal_cases)
  case (1 st r')
  then show ?case by (intro exI [of _ st] exI [of _ r']) (cases st; blast)
qed

theorem MergeRecord_adds_counts_witness:
  "\<exists>r'. MergeRecord True (\<lambda>_. True)
      (snd (AddLock True 4 (snd (AddLock True 2 (InitRecord
        \<lparr>rt_lockTag = LockTag_default, rt_lockMode = DSTORE_ROW_EXCLUSIVE_LOCK, rt_lockMgrType = TABLE_LOCK_MGR\<rparr>)))))
      (snd (AddLock True 2 (InitRecord
        \<lparr>rt_lockTag = LockTag_default, rt_lockMode = DSTORE_ROW_EXCLUSIVE_LOCK, rt_lockMgrType = TABLE_LOCK_MGR\<rparr>))) =
      Some (DSTORE_SUCC, r') \<and> stack_at (rec_stack r') 2 = 2"
proof -
  let ?tag = "\<lparr>rt_lockTag = LockTag_default, rt_lockMode = DSTORE_ROW_EXCLUSIVE_LOCK, rt_lockMgrType = TABLE_LOCK_MGR\<rparr>"
  let ?r1 = "snd (AddLock True 2 (InitRecord ?tag))" and ?r2 = "snd (AddLock True 4 (snd (AddLock True 2 (InitRecord ?tag))))"
  have a1: "AddLock True 2 (InitRecord ?tag) = (DSTORE_SUCC, ?r1)" by code_simp
  have a2: "AddLock True 4 ?r1 = (DSTORE_SUCC, ?r2)" by code_simp
  have z: "unat (m_totalLockCnt (InitRecord ?tag)) + 1 < 2 ^ 32" "m_totalLockCnt (InitRecord ?tag) = 0" by (simp_all add: InitRecord_def)
  note k1 = AddLock_ok [OF InitRecord_ok(1) z(1) a1]
  have t1: "unat (m_totalLockCnt ?r1) = 1" using k1(4) z(2) by simp
  then have "unat (m_totalLockCnt ?r1) + 1 < 2 ^ 32" by simp
  note k2 = AddLock_ok [OF k1(1) this a2]
  have "unat (m_totalLockCnt ?r2) + unat (m_totalLockCnt ?r1) < 2 ^ 32" using k2(4) t1 by simp
  from MergeRecord_adds_counts [OF k2(1) k1(1) this, of True "\<lambda>_. True"]
  obtain r' where "MergeRecord True (\<lambda>_. True) ?r2 ?r1 = Some (DSTORE_SUCC, r')"
    "\<forall>i. stack_at (rec_stack r') i = stack_at (rec_stack ?r2) i + stack_at (rec_stack ?r1) i" by blast
  moreover have "stack_at (rec_stack ?r2) 2 + stack_at (rec_stack ?r1) 2 = 2" by code_simp
  ultimately show ?thesis by (intro exI [of _ r']) simp
qed

end
