(* ===== verification/Savepoint.thy ===== *)
theory Savepoint
  imports Lock_Resource
begin

text \<open>
  Savepoints (\<open>src/transaction/dstore_savepoint.cpp\<close>). A savepoint remembers the last undo record of
  its transaction and the number from which the locks acquired later are counted. The list of
  savepoints has the latest one at its head; a savepoint without a name is an internal one.

  What the code asks of the active transaction is an argument: its last undo record and its locks.
  Rolling back undo records is code of the transaction manager, so its result for an undo pointer is
  an argument too. A panic and a violated assertion are \<open>None\<close>.
\<close>

type_synonym UndoRecPtr = uint64
type_synonym int16 = "16 word"

definition INVALID_UNDO_RECORD_PTR :: UndoRecPtr where "INVALID_UNDO_RECORD_PTR = -1"

record Savepoint =
  m_name :: "string option"
  m_lastUndoPtr :: UndoRecPtr
  m_lastLockPos :: SubLockResourceID
  m_extra_res :: uint64

definition Savepoint_new :: Savepoint where
  "Savepoint_new = \<lparr>m_name = None, m_lastUndoPtr = INVALID_UNDO_RECORD_PTR, m_lastLockPos = 0, m_extra_res = 0\<rparr>"

text \<open>
  \<open>Savepoint::Create\<close> on a savepoint. The number of the next locks is taken before the name is
  copied, which fails when memory runs out.
\<close>

definition Savepoint_Create ::
    "bool \<Rightarrow> string option \<Rightarrow> UndoRecPtr \<Rightarrow> LockResource \<Rightarrow> Savepoint \<Rightarrow> RetStatus \<times> Savepoint \<times> LockResource" where
  "Savepoint_Create name_ok name lastUndo locks sp =
     (case GenerateSubLockResourceID locks of (pos, locks1) \<Rightarrow>
        let sp1 = sp\<lparr>m_lastUndoPtr := lastUndo, m_lastLockPos := pos\<rparr> in
        case name of
          None \<Rightarrow> (DSTORE_SUCC, sp1, locks1)
        | Some n \<Rightarrow>
            if \<not> name_ok then (DSTORE_FAIL, sp1, locks1)
            else (DSTORE_SUCC, sp1\<lparr>m_name := Some n\<rparr>, locks1))"

text \<open>
  \<open>Savepoint::Rollback\<close>. The undo records are rolled back when the transaction has a valid number;
  \<open>undo_ok\<close> tells whether that succeeds, which the code asserts. Then the locks acquired after the
  savepoint are released. The database and its transaction manager exist.
\<close>

definition Savepoint_Rollback ::
    "bool \<Rightarrow> (UndoRecPtr \<Rightarrow> bool) \<Rightarrow> LockResource \<Rightarrow> Savepoint \<Rightarrow> (RetStatus \<times> unlock_call list \<times> LockResource) option" where
  "Savepoint_Rollback xid_valid undo_ok locks sp =
     (if xid_valid \<and> \<not> undo_ok (m_lastUndoPtr sp) then None
      else do {
        (calls, locks1) \<leftarrow> ReleaseLocksAcquiredAfter (m_lastLockPos sp) locks;
        Some (DSTORE_SUCC, calls, locks1)
      })"

definition Savepoint_Release :: "Savepoint \<Rightarrow> Savepoint" where
  "Savepoint_Release sp = sp\<lparr>m_name := None\<rparr>"

definition HasSavepointName :: "Savepoint \<Rightarrow> bool" where
  "HasSavepointName sp \<longleftrightarrow> m_name sp \<noteq> None"

definition HasSameName :: "string option \<Rightarrow> Savepoint \<Rightarrow> bool" where
  "HasSameName name sp \<longleftrightarrow>
     (case (name, m_name sp) of
        (Some n, Some m) \<Rightarrow> n = m
      | (None, None) \<Rightarrow> True
      | _ \<Rightarrow> False)"

subsection \<open>The list of savepoints\<close>

record SavepointList =
  m_savepointList :: "Savepoint list"
  m_nestLevel :: int16

definition SavepointList_Init :: SavepointList where
  "SavepointList_Init = \<lparr>m_savepointList = [], m_nestLevel = 0\<rparr>"

definition AddSavepoint ::
    "bool \<Rightarrow> bool \<Rightarrow> string option \<Rightarrow> UndoRecPtr \<Rightarrow> LockResource \<Rightarrow> SavepointList
     \<Rightarrow> RetStatus \<times> SavepointList \<times> LockResource" where
  "AddSavepoint alloc_ok name_ok name lastUndo locks sl =
     (if \<not> alloc_ok then (DSTORE_FAIL, sl, locks)
      else case Savepoint_Create name_ok name lastUndo locks Savepoint_new of
        (DSTORE_FAIL, sp, locks1) \<Rightarrow> (DSTORE_FAIL, sl, locks1)
      | (DSTORE_SUCC, sp, locks1) \<Rightarrow>
          (DSTORE_SUCC,
           sl\<lparr>m_savepointList := sp # m_savepointList sl, m_nestLevel := m_nestLevel sl + 1\<rparr>, locks1))"

text \<open>The two counters behind pointers that may be null, and the update for one savepoint.\<close>

type_synonym counters = "int16 option \<times> int16 option"

fun count_savepoint :: "Savepoint \<Rightarrow> counters \<Rightarrow> counters" where
  "count_savepoint sp (Some user, exc) =
     (if HasSavepointName sp then (Some (user + 1), exc)
      else case exc of Some e \<Rightarrow> (Some user, Some (e + 1)) | None \<Rightarrow> (Some user, None))"
| "count_savepoint sp (None, exc) =
     (case exc of Some e \<Rightarrow> (None, Some (e + 1)) | None \<Rightarrow> (None, None))"

definition IsSavepointExist :: "string option \<Rightarrow> SavepointList \<Rightarrow> bool" where
  "IsSavepointExist name sl = list_ex (HasSameName name) (m_savepointList sl)"

text \<open>The loop of \<open>ReleaseSavepoint\<close>; \<open>None\<close> is the panic after the last savepoint.\<close>

fun release_savepoints :: "string option \<Rightarrow> counters \<Rightarrow> Savepoint list \<Rightarrow> int16 \<Rightarrow> (counters \<times> Savepoint list \<times> int16) option" where
  "release_savepoints name cnts [] level = None"
| "release_savepoints name cnts (sp # sps) level =
     (let cnts1 = count_savepoint sp cnts in
      if HasSameName name sp then Some (cnts1, sps, level - 1)
      else release_savepoints name cnts1 sps (level - 1))"

definition ReleaseSavepoint_list :: "string option \<Rightarrow> counters \<Rightarrow> SavepointList \<Rightarrow> (RetStatus \<times> counters \<times> SavepointList) option" where
  "ReleaseSavepoint_list name cnts sl =
     (if \<not> IsSavepointExist name sl then None
      else do {
        (cnts1, sps, level) \<leftarrow> release_savepoints name cnts (m_savepointList sl) (m_nestLevel sl);
        Some (DSTORE_SUCC, cnts1, sl\<lparr>m_savepointList := sps, m_nestLevel := level\<rparr>)
      })"

text \<open>
  The loop of \<open>RollbackToSavepoint\<close> up to the matching savepoint, which stays in the list.
\<close>

fun skip_savepoints :: "string option \<Rightarrow> counters \<Rightarrow> Savepoint list \<Rightarrow> int16 \<Rightarrow> (Savepoint \<times> counters \<times> Savepoint list \<times> int16) option" where
  "skip_savepoints name cnts [] level = None"
| "skip_savepoints name cnts (sp # sps) level =
     (if HasSameName name sp then Some (sp, cnts, sp # sps, level)
      else skip_savepoints name (count_savepoint sp cnts) sps (level - 1))"

definition RollbackToSavepoint_list ::
    "bool \<Rightarrow> (UndoRecPtr \<Rightarrow> bool) \<Rightarrow> string option \<Rightarrow> counters \<Rightarrow> LockResource \<Rightarrow> SavepointList
     \<Rightarrow> (RetStatus \<times> unlock_call list \<times> counters \<times> LockResource \<times> SavepointList) option" where
  "RollbackToSavepoint_list xid_valid undo_ok name cnts locks sl =
     (if \<not> IsSavepointExist name sl then None
      else do {
        (sp, cnts1, sps, level) \<leftarrow> skip_savepoints name cnts (m_savepointList sl) (m_nestLevel sl);
        (st, calls, locks1) \<leftarrow> Savepoint_Rollback xid_valid undo_ok locks sp;
        Some (st, calls, cnts1, locks1, sl\<lparr>m_savepointList := sps, m_nestLevel := level\<rparr>)
      })"

fun set_extra_res :: "string option \<Rightarrow> uint64 \<Rightarrow> Savepoint list \<Rightarrow> RetStatus \<times> Savepoint list" where
  "set_extra_res name data [] = (DSTORE_FAIL, [])"
| "set_extra_res name data (sp # sps) =
     (if HasSameName name sp then (DSTORE_SUCC, sp\<lparr>m_extra_res := data\<rparr> # sps)
      else case set_extra_res name data sps of (st, sps1) \<Rightarrow> (st, sp # sps1))"

definition SaveExtraResPtrToSavepoint_list :: "string option \<Rightarrow> uint64 \<Rightarrow> SavepointList \<Rightarrow> RetStatus \<times> SavepointList" where
  "SaveExtraResPtrToSavepoint_list name data sl =
     (case set_extra_res name data (m_savepointList sl) of (st, sps) \<Rightarrow> (st, sl\<lparr>m_savepointList := sps\<rparr>))"

definition GetExtraResPtrFromSavepoint_list :: "string option \<Rightarrow> SavepointList \<Rightarrow> uint64" where
  "GetExtraResPtrFromSavepoint_list name sl =
     (case find (HasSameName name) (m_savepointList sl) of None \<Rightarrow> 0 | Some sp \<Rightarrow> m_extra_res sp)"

text \<open>\<open>IsEmpty\<close> asserts that the level, a signed number, agrees with the list.\<close>

definition IsEmpty_savepoints :: "SavepointList \<Rightarrow> bool option" where
  "IsEmpty_savepoints sl =
     (if m_savepointList sl = [] then (if m_nestLevel sl = 0 then Some True else None)
      else if sint (m_nestLevel sl) > 0 then Some False else None)"

definition GetExtraResPtrFromCurrentSavepoint_list :: "SavepointList \<Rightarrow> uint64 option" where
  "GetExtraResPtrFromCurrentSavepoint_list sl =
     (if IsEmpty_savepoints sl = Some False then Some (m_extra_res (hd (m_savepointList sl))) else None)"

definition HasCurrentSavepointName :: "SavepointList \<Rightarrow> bool option" where
  "HasCurrentSavepointName sl =
     (if IsEmpty_savepoints sl = Some False then Some (HasSavepointName (hd (m_savepointList sl))) else None)"

definition GetCurrentSavepointName :: "SavepointList \<Rightarrow> string option option" where
  "GetCurrentSavepointName sl =
     (case IsEmpty_savepoints sl of
        None \<Rightarrow> None
      | Some True \<Rightarrow> Some None
      | Some False \<Rightarrow> Some (m_name (hd (m_savepointList sl))))"

fun delete_savepoints :: "Savepoint list \<Rightarrow> int16 \<Rightarrow> int16" where
  "delete_savepoints [] level = level"
| "delete_savepoints (sp # sps) level = delete_savepoints sps (level - 1)"

definition DeleteAll_savepoints :: "SavepointList \<Rightarrow> SavepointList option" where
  "DeleteAll_savepoints sl =
     (let level = delete_savepoints (m_savepointList sl) (m_nestLevel sl) in
      if level = 0 then Some (sl\<lparr>m_savepointList := [], m_nestLevel := level\<rparr>) else None)"

end
