(* ===== verification/Csn_Mgr.thy ===== *)
theory Csn_Mgr
  imports Prelude
begin

text \<open>
  Commit sequence numbers (\<open>src/transaction/dstore_csn_mgr.cpp\<close>) and the record of the highest
  reserved number in the control file (\<open>src/control/dstore_control_csninfo.cpp\<close>). The manager
  hands out numbers from an atomic counter and reserves them in the control file a block at a
  time, so that none is handed out again after a crash.

  The first part translates the functions as one thread runs them. The second part is the
  interleaving of any number of threads, with a step per atomic access, and of crashes.
\<close>

subsection \<open>Numbers\<close>

type_synonym CommitSeqNo = uint64

definition INVALID_CSN :: CommitSeqNo where "INVALID_CSN = 0"
definition COMMITSEQNO_FIRST_NORMAL :: CommitSeqNo where "COMMITSEQNO_FIRST_NORMAL = 1"
definition MAX_COMMITSEQNO :: CommitSeqNo where "MAX_COMMITSEQNO = NOT INVALID_CSN"

definition DstoreCsnIsValid :: "CommitSeqNo \<Rightarrow> bool" where
  "DstoreCsnIsValid csn \<longleftrightarrow> csn \<noteq> INVALID_CSN"

subsection \<open>The number in the control file\<close>

text \<open>
  How the accesses to the control file turn out: the lock or the page cannot be had; the page is
  changed but writing it fails, and the flag says whether the new page reached the disk; success.
\<close>

datatype control_io = Load_Fails | Post_Fails bool | Io_Ok

text \<open>
  \<open>ControlCsnInfo::SetMaxReservedCSN\<close>: the status, the value of the reference parameter, and
  the number on disk. The parameter is the caller's own variable, which holds \<open>csn\<close>.
\<close>

fun SetMaxReservedCSN :: "control_io \<Rightarrow> CommitSeqNo \<Rightarrow> CommitSeqNo \<Rightarrow> RetStatus \<times> CommitSeqNo \<times> CommitSeqNo" where
  "SetMaxReservedCSN Load_Fails csn disk = (DSTORE_FAIL, csn, disk)"
| "SetMaxReservedCSN (Post_Fails reached) csn disk =
     (if csn \<le> disk then (DSTORE_SUCC, disk, disk)
      else (DSTORE_FAIL, csn, if reached then csn else disk))"
| "SetMaxReservedCSN Io_Ok csn disk =
     (if csn \<le> disk then (DSTORE_SUCC, disk, disk) else (DSTORE_SUCC, csn, csn))"

text \<open>\<open>ControlCsnInfo::GetMaxReservedCSN\<close>; \<open>None\<close> when it fails.\<close>

definition GetMaxReservedCSN :: "bool \<Rightarrow> CommitSeqNo \<Rightarrow> CommitSeqNo option" where
  "GetMaxReservedCSN load_ok disk = (if load_ok then Some disk else None)"

subsection \<open>The manager\<close>

record CsnMgr =
  m_localCsnMin :: CommitSeqNo
  m_flashbackCsnMin :: CommitSeqNo
  m_backupRestoreCsnMin :: CommitSeqNo
  m_csnAssignmentIncrement :: CommitSeqNo
  m_nextCsn :: CommitSeqNo
  m_maxReservedCsn :: CommitSeqNo

definition CsnMgr_new :: "CommitSeqNo \<Rightarrow> CsnMgr" where
  "CsnMgr_new csnAssignmentIncrement =
     \<lparr>m_localCsnMin = COMMITSEQNO_FIRST_NORMAL, m_flashbackCsnMin = INVALID_CSN,
      m_backupRestoreCsnMin = INVALID_CSN, m_csnAssignmentIncrement = csnAssignmentIncrement,
      m_nextCsn = COMMITSEQNO_FIRST_NORMAL, m_maxReservedCsn = COMMITSEQNO_FIRST_NORMAL\<rparr>"

text \<open>
  \<open>Initialize\<close> and \<open>PromoteInitialize\<close> set the counters in the same way. The first argument is
  the answer of the control file; \<open>tracker_ok\<close> says whether the tracker of orphan transactions
  could be allocated when one is wanted.
\<close>

definition PromoteInitialize :: "CommitSeqNo option \<Rightarrow> CsnMgr \<Rightarrow> RetStatus \<times> CsnMgr" where
  "PromoteInitialize control m =
     (case control of
        None \<Rightarrow> (DSTORE_FAIL, m)
      | Some oldMaxReservedCsn \<Rightarrow>
          (DSTORE_SUCC,
           m\<lparr>m_nextCsn := oldMaxReservedCsn + 1, m_maxReservedCsn := oldMaxReservedCsn,
             m_localCsnMin := oldMaxReservedCsn + 1\<rparr>))"

definition Initialize_csn :: "CommitSeqNo option \<Rightarrow> bool \<Rightarrow> CsnMgr \<Rightarrow> RetStatus \<times> CsnMgr" where
  "Initialize_csn control tracker_ok m =
     (case control of
        None \<Rightarrow> (DSTORE_FAIL, m)
      | Some oldMaxReservedCsn \<Rightarrow>
          (if tracker_ok then DSTORE_SUCC else DSTORE_FAIL,
           m\<lparr>m_nextCsn := oldMaxReservedCsn + 1, m_maxReservedCsn := oldMaxReservedCsn,
             m_localCsnMin := oldMaxReservedCsn + 1\<rparr>))"

definition UpdateMaxReservedCsn ::
    "control_io \<Rightarrow> CommitSeqNo \<Rightarrow> CsnMgr \<Rightarrow> CommitSeqNo \<Rightarrow> RetStatus \<times> CsnMgr \<times> CommitSeqNo" where
  "UpdateMaxReservedCsn io newMaxReservedCsn m disk =
     (if newMaxReservedCsn > m_maxReservedCsn m
      then case SetMaxReservedCSN io newMaxReservedCsn disk of
        (DSTORE_FAIL, _, disk') \<Rightarrow> (DSTORE_FAIL, m, disk')
      | (DSTORE_SUCC, newMax, disk') \<Rightarrow> (DSTORE_SUCC, m\<lparr>m_maxReservedCsn := newMax\<rparr>, disk')
      else (DSTORE_SUCC, m, disk))"

text \<open>The number \<open>UpdateMaxReservedCsnIfNecessary\<close> wants to reserve up to, if any.\<close>

definition reserve_target :: "CommitSeqNo \<Rightarrow> CommitSeqNo \<Rightarrow> CommitSeqNo \<Rightarrow> CommitSeqNo option" where
  "reserve_target increment oldMaxReservedCsn curCsn =
     (if oldMaxReservedCsn \<le> curCsn then Some ((curCsn div increment + 1) * increment + increment)
      else if oldMaxReservedCsn - curCsn \<le> increment then Some (oldMaxReservedCsn + increment)
      else None)"

definition UpdateMaxReservedCsnIfNecessary ::
    "control_io \<Rightarrow> CommitSeqNo \<Rightarrow> CsnMgr \<Rightarrow> CommitSeqNo \<Rightarrow> RetStatus \<times> CsnMgr \<times> CommitSeqNo" where
  "UpdateMaxReservedCsnIfNecessary io curCsn m disk =
     (case reserve_target (m_csnAssignmentIncrement m) (m_maxReservedCsn m) curCsn of
        None \<Rightarrow> (DSTORE_SUCC, m, disk)
      | Some newMaxReservedCsn \<Rightarrow> UpdateMaxReservedCsn io newMaxReservedCsn m disk)"

text \<open>
  \<open>GetNextCsn\<close> when no other thread runs. The loop at its end waits for another thread to raise
  the reserved maximum, so \<open>None\<close> means that the call never returns.
\<close>

definition GetNextCsn ::
    "control_io \<Rightarrow> bool \<Rightarrow> CsnMgr \<Rightarrow> CommitSeqNo \<Rightarrow> (RetStatus \<times> CommitSeqNo \<times> CsnMgr \<times> CommitSeqNo) option" where
  "GetNextCsn io advance m disk =
     (if \<not> advance then Some (DSTORE_SUCC, m_nextCsn m, m, disk)
      else
        let curCsn = m_nextCsn m; m1 = m\<lparr>m_nextCsn := m_nextCsn m + 1\<rparr> in
        case (if curCsn mod m_csnAssignmentIncrement m = COMMITSEQNO_FIRST_NORMAL
              then UpdateMaxReservedCsnIfNecessary io curCsn m1 disk else (DSTORE_SUCC, m1, disk)) of
          (DSTORE_FAIL, m2, disk2) \<Rightarrow> Some (DSTORE_FAIL, INVALID_CSN, m2, disk2)
        | (DSTORE_SUCC, m2, disk2) \<Rightarrow>
            if curCsn > m_maxReservedCsn m2 then None else Some (DSTORE_SUCC, curCsn, m2, disk2))"

text \<open>
  The minimum of the numbers that running threads still need. \<open>threadMin\<close> is the minimum over
  the threads, \<open>orphanMin\<close> the smallest number in the tracker of orphan transactions, if there
  is a tracker. \<open>None\<close> is the panic of the source.
\<close>

definition UpdateLocalCsnMin :: "CommitSeqNo \<Rightarrow> CommitSeqNo option \<Rightarrow> CsnMgr \<Rightarrow> CsnMgr option" where
  "UpdateLocalCsnMin threadMin orphanMin m =
     (let nextCsn = m_nextCsn m;
          new0 = (if threadMin < nextCsn then threadMin else nextCsn);
          new1 = (case orphanMin of
                    None \<Rightarrow> new0
                  | Some tacCsnMin \<Rightarrow>
                      if DstoreCsnIsValid tacCsnMin \<and> tacCsnMin < new0 then tacCsnMin else new0) in
      if new1 < m_localCsnMin m then None
      else Some (if m_localCsnMin m < new1 then m\<lparr>m_localCsnMin := new1\<rparr> else m))"

definition GetRecycleCsnMin :: "CsnMgr \<Rightarrow> CommitSeqNo" where
  "GetRecycleCsnMin m =
     (let recycle0 = m_localCsnMin m;
          recycle1 = (if DstoreCsnIsValid (m_flashbackCsnMin m) \<and> m_flashbackCsnMin m < recycle0
                      then m_flashbackCsnMin m else recycle0) in
      if DstoreCsnIsValid (m_backupRestoreCsnMin m) \<and> m_backupRestoreCsnMin m < recycle1
      then m_backupRestoreCsnMin m else recycle1)"

subsection \<open>Threads and crashes\<close>

text \<open>
  Where a thread is in \<open>GetNextCsn\<close>: outside; behind the fetch-and-add, about to reserve; with
  the number to reserve computed; behind the first test of \<open>UpdateMaxReservedCsn\<close>, waiting for
  the lock; inside the lock; with the number written to the control file; in the final loop.
\<close>

datatype csn_pc =
    Outside
  | Fetched CommitSeqNo
  | Reserving CommitSeqNo CommitSeqNo
  | Acquiring CommitSeqNo CommitSeqNo
  | Locked CommitSeqNo CommitSeqNo
  | Persisted CommitSeqNo CommitSeqNo
  | Spinning CommitSeqNo

text \<open>
  The counters in memory, the number on disk, the lock \<open>m_maxReservedCsnLock\<close>, the position of
  every thread, and the numbers handed out so far.
\<close>

record csn_sys =
  sys_mgr :: CsnMgr
  sys_disk :: CommitSeqNo
  sys_lock :: "nat option"
  sys_pc :: "nat \<Rightarrow> csn_pc"
  sys_issued :: "CommitSeqNo list"

definition csn_boot :: "CommitSeqNo \<Rightarrow> CommitSeqNo \<Rightarrow> CommitSeqNo list \<Rightarrow> csn_sys" where
  "csn_boot increment disk issued =
     \<lparr>sys_mgr = snd (Initialize_csn (Some disk) True (CsnMgr_new increment)), sys_disk = disk,
      sys_lock = None, sys_pc = (\<lambda>_. Outside), sys_issued = issued\<rparr>"

text \<open>
  The steps. The two counters must not overflow: a number is only fetched while the counter is
  below the largest 64-bit number, and a restart needs one more number than was reserved. The
  source divides by the increment, so there is no step when it is zero. A promotion of a standby
  (\<open>PromoteInitialize\<close>) and the redo of a commit (which calls \<open>UpdateMaxReservedCsnIfNecessary\<close>) happen
  before the instance hands out numbers; they are not steps.
\<close>

inductive csn_step :: "csn_sys \<Rightarrow> csn_sys \<Rightarrow> bool" where
  fetch: "sys_pc s t = Outside \<Longrightarrow> cur = m_nextCsn (sys_mgr s) \<Longrightarrow> cur \<noteq> MAX_COMMITSEQNO \<Longrightarrow>
    m_csnAssignmentIncrement (sys_mgr s) \<noteq> 0 \<Longrightarrow>
    csn_step s (s\<lparr>sys_mgr := (sys_mgr s)\<lparr>m_nextCsn := cur + 1\<rparr>,
      sys_pc := (sys_pc s)(t := if cur mod m_csnAssignmentIncrement (sys_mgr s) = COMMITSEQNO_FIRST_NORMAL
        then Fetched cur else Spinning cur)\<rparr>)"
| target: "sys_pc s t = Fetched cur \<Longrightarrow>
    csn_step s (s\<lparr>sys_pc := (sys_pc s)(t :=
      case reserve_target (m_csnAssignmentIncrement (sys_mgr s)) (m_maxReservedCsn (sys_mgr s)) cur of
        None \<Rightarrow> Spinning cur | Some new \<Rightarrow> Reserving cur new)\<rparr>)"
| test: "sys_pc s t = Reserving cur new \<Longrightarrow>
    csn_step s (s\<lparr>sys_pc := (sys_pc s)(t :=
      if new > m_maxReservedCsn (sys_mgr s) then Acquiring cur new else Spinning cur)\<rparr>)"
| acquire: "sys_pc s t = Acquiring cur new \<Longrightarrow> sys_lock s = None \<Longrightarrow>
    csn_step s (s\<lparr>sys_lock := Some t, sys_pc := (sys_pc s)(t := Locked cur new)\<rparr>)"
| redundant: "sys_pc s t = Locked cur new \<Longrightarrow> \<not> new > m_maxReservedCsn (sys_mgr s) \<Longrightarrow>
    csn_step s (s\<lparr>sys_lock := None, sys_pc := (sys_pc s)(t := Spinning cur)\<rparr>)"
| persist: "sys_pc s t = Locked cur new \<Longrightarrow> new > m_maxReservedCsn (sys_mgr s) \<Longrightarrow>
    SetMaxReservedCSN io new (sys_disk s) = (DSTORE_SUCC, new', disk') \<Longrightarrow>
    csn_step s (s\<lparr>sys_disk := disk', sys_pc := (sys_pc s)(t := Persisted cur new')\<rparr>)"
| persist_fail: "sys_pc s t = Locked cur new \<Longrightarrow> new > m_maxReservedCsn (sys_mgr s) \<Longrightarrow>
    SetMaxReservedCSN io new (sys_disk s) = (DSTORE_FAIL, new', disk') \<Longrightarrow>
    csn_step s (s\<lparr>sys_disk := disk', sys_lock := None, sys_pc := (sys_pc s)(t := Outside)\<rparr>)"
| publish: "sys_pc s t = Persisted cur new \<Longrightarrow>
    csn_step s (s\<lparr>sys_mgr := (sys_mgr s)\<lparr>m_maxReservedCsn := new\<rparr>, sys_lock := None,
      sys_pc := (sys_pc s)(t := Spinning cur)\<rparr>)"
| issue: "sys_pc s t = Spinning cur \<Longrightarrow> \<not> cur > m_maxReservedCsn (sys_mgr s) \<Longrightarrow>
    csn_step s (s\<lparr>sys_issued := cur # sys_issued s, sys_pc := (sys_pc s)(t := Outside)\<rparr>)"
| crash: "sys_disk s \<noteq> MAX_COMMITSEQNO \<Longrightarrow>
    csn_step s (csn_boot increment (sys_disk s) (sys_issued s))"

inductive csn_reachable :: "csn_sys \<Rightarrow> bool" where
  start: "disk \<noteq> MAX_COMMITSEQNO \<Longrightarrow> csn_reachable (csn_boot increment disk [])"
| step: "csn_reachable s \<Longrightarrow> csn_step s s' \<Longrightarrow> csn_reachable s'"

subsection \<open>No number is handed out twice\<close>

text \<open>The number a thread holds between the fetch-and-add and the return.\<close>

definition csn_pending :: "csn_pc \<Rightarrow> CommitSeqNo option" where
  "csn_pending pc = (case pc of Outside \<Rightarrow> None | Fetched c \<Rightarrow> Some c | Reserving c _ \<Rightarrow> Some c
     | Acquiring c _ \<Rightarrow> Some c | Locked c _ \<Rightarrow> Some c | Persisted c _ \<Rightarrow> Some c | Spinning c \<Rightarrow> Some c)"

lemma csn_pending_simps [simp]:
  "csn_pending Outside = None" "csn_pending (Fetched c) = Some c"
  "csn_pending (Reserving c n) = Some c" "csn_pending (Acquiring c n) = Some c"
  "csn_pending (Locked c n) = Some c" "csn_pending (Persisted c n) = Some c"
  "csn_pending (Spinning c) = Some c"
  by (simp_all add: csn_pending_def)

fun in_lock :: "csn_pc \<Rightarrow> bool" where
  "in_lock (Locked _ _) = True"
| "in_lock (Persisted _ _) = True"
| "in_lock _ = False"

text \<open>
  The invariant has two halves: the numbers handed out and those held by threads are distinct and
  below the counter; the maximum in memory never exceeds the one on disk, and one thread at a time
  changes both.
\<close>

definition csn_numbers :: "(nat \<Rightarrow> csn_pc) \<Rightarrow> CommitSeqNo list \<Rightarrow> CommitSeqNo \<Rightarrow> CommitSeqNo \<Rightarrow> bool" where
  "csn_numbers pc issued mx nx \<longleftrightarrow> distinct issued \<and> (\<forall>c\<in>set issued. c \<le> mx \<and> c < nx) \<and>
     (\<forall>t c. csn_pending (pc t) = Some c \<longrightarrow> c < nx \<and> c \<notin> set issued) \<and>
     (\<forall>t u c. csn_pending (pc t) = Some c \<longrightarrow> csn_pending (pc u) = Some c \<longrightarrow> t = u)"

definition csn_reserved :: "(nat \<Rightarrow> csn_pc) \<Rightarrow> nat option \<Rightarrow> CommitSeqNo \<Rightarrow> CommitSeqNo \<Rightarrow> bool" where
  "csn_reserved pc lck mx disk \<longleftrightarrow> mx \<le> disk \<and> (\<forall>t. in_lock (pc t) \<longrightarrow> lck = Some t) \<and>
     (\<forall>t c n. pc t = Persisted c n \<longrightarrow> mx < n \<and> n \<le> disk)"

definition csn_inv :: "csn_sys \<Rightarrow> bool" where
  "csn_inv s \<longleftrightarrow>
     csn_numbers (sys_pc s) (sys_issued s) (m_maxReservedCsn (sys_mgr s)) (m_nextCsn (sys_mgr s)) \<and>
     csn_reserved (sys_pc s) (sys_lock s) (m_maxReservedCsn (sys_mgr s)) (sys_disk s)"

lemma csn_less_next:
  assumes "c \<noteq> MAX_COMMITSEQNO"
  shows "c < c + 1"
proof -
  have "c + 1 \<noteq> 0"
    using assms unfolding MAX_COMMITSEQNO_def INVALID_CSN_def
    by (metis add.commute add_eq_0_iff bit.compl_zero)
  then show ?thesis by (simp add: word_less_nat_alt unatSuc add.commute [of c])
qed

text \<open>A thread that moves without changing the number it holds keeps the invariant of the numbers.\<close>

lemma csn_numbers_move:
  assumes "csn_numbers pc issued mx nx" "csn_pending p = csn_pending (pc t) \<or> p = Outside" "mx \<le> mx'"
  shows "csn_numbers (pc(t := p)) issued mx' nx"
proof -
  have pend: "csn_pending ((pc(t := p)) u) = Some c \<Longrightarrow> csn_pending (pc u) = Some c" for u c
    using assms(2) by (auto split: if_splits)
  show ?thesis using assms(1,3) unfolding csn_numbers_def
    by (meson pend order.trans)
qed

lemma csn_numbers_fetch:
  assumes "csn_numbers pc issued mx nx" "pc t = Outside" "nx \<noteq> MAX_COMMITSEQNO" "csn_pending p = Some nx"
  shows "csn_numbers (pc(t := p)) issued mx (nx + 1)"
proof -
  have lt: "nx < nx + 1"
    using assms(3) by (rule csn_less_next)
  show ?thesis
    using assms(1,2,4) lt unfolding csn_numbers_def
    by (auto split: if_splits intro: less_trans [OF _ lt])
qed

lemma csn_numbers_issue:
  assumes "csn_numbers pc issued mx nx" "pc t = Spinning c" "\<not> c > mx"
  shows "csn_numbers (pc(t := Outside)) (c # issued) mx nx"
  using assms unfolding csn_numbers_def
  by (auto split: if_splits simp: not_less) (metis csn_pending_simps(7))+

lemma csn_numbers_boot:
  assumes "csn_numbers pc issued mx nx" "mx \<le> disk" "disk \<noteq> MAX_COMMITSEQNO"
  shows "csn_numbers (\<lambda>_. Outside) issued disk (disk + 1)"
proof -
  have "disk < disk + 1"
    using assms(3) by (rule csn_less_next)
  then show ?thesis using assms(1,2) unfolding csn_numbers_def by (auto intro: order.trans dest: le_less_trans)
qed

lemma csn_reservedD:
  assumes "csn_reserved pc lck mx disk"
  shows "mx \<le> disk" "in_lock (pc t) \<Longrightarrow> lck = Some t"
    "pc t = Persisted c n \<Longrightarrow> mx < n" "pc t = Persisted c n \<Longrightarrow> n \<le> disk"
  using assms by (simp_all add: csn_reserved_def)

lemma csn_reservedI:
  assumes "mx \<le> disk" "\<And>t. in_lock (pc t) \<Longrightarrow> lck = Some t"
    "\<And>t c n. pc t = Persisted c n \<Longrightarrow> mx < n \<and> n \<le> disk"
  shows "csn_reserved pc lck mx disk"
  using assms by (simp add: csn_reserved_def)

lemma csn_reserved_move:
  assumes res: "csn_reserved pc lck mx disk" and p: "\<not> in_lock p" and disk: "disk \<le> disk'"
    and lck: "lck' = lck \<or> lck' = None \<and> in_lock (pc t)"
  shows "csn_reserved (pc(t := p)) lck' mx disk'"
proof (rule csn_reservedI)
  show "mx \<le> disk'" using csn_reservedD(1) [OF res] disk by (rule order.trans)
next
  fix u assume "in_lock ((pc(t := p)) u)"
  then have u: "in_lock (pc u)" "u \<noteq> t" using p by (auto split: if_splits)
  then have "\<not> in_lock (pc t)" using csn_reservedD(2) [OF res, of u] csn_reservedD(2) [OF res, of t] by auto
  then show "lck' = Some u" using csn_reservedD(2) [OF res u(1)] lck by simp
next
  fix u c n assume "(pc(t := p)) u = Persisted c n"
  then have "pc u = Persisted c n" using p by (auto split: if_splits)
  then show "mx < n \<and> n \<le> disk'" using csn_reservedD(3,4) [OF res] order.trans [OF _ disk] by blast
qed

lemma csn_reserved_persisted:
  assumes res: "csn_reserved pc lck mx disk" and t: "pc t = Locked c n" and n': "mx < n'" "n' \<le> disk'"
    and disk: "disk \<le> disk'"
  shows "csn_reserved (pc(t := Persisted c n')) lck mx disk'"
proof (rule csn_reservedI)
  show "mx \<le> disk'" using csn_reservedD(1) [OF res] disk by (rule order.trans)
next
  fix u assume "in_lock ((pc(t := Persisted c n')) u)"
  then have "in_lock (pc u)" using t by (auto split: if_splits)
  then show "lck = Some u" by (rule csn_reservedD(2) [OF res])
next
  fix u d m assume "(pc(t := Persisted c n')) u = Persisted d m"
  then show "mx < m \<and> m \<le> disk'"
    using csn_reservedD(3,4) [OF res] order.trans [OF _ disk] n' by (auto split: if_splits)
qed

lemma csn_reserved_publish:
  assumes "csn_reserved pc lck mx disk" "pc t = Persisted c n"
  shows "csn_reserved (pc(t := Spinning c)) None n disk" "mx \<le> n"
proof -
  have "in_lock (pc u) \<Longrightarrow> u = t" for u
    using assms unfolding csn_reserved_def by (metis in_lock.simps(2) option.inject)
  then show "csn_reserved (pc(t := Spinning c)) None n disk"
    using assms unfolding csn_reserved_def by (auto split: if_splits)
  show "mx \<le> n" using assms unfolding csn_reserved_def by (meson less_imp_le)
qed

lemma SetMaxReservedCSN_raises:
  assumes "SetMaxReservedCSN io n disk = (st, n', disk')"
  shows "disk \<le> disk'" "st = DSTORE_SUCC \<Longrightarrow> n \<le> n' \<and> n' \<le> disk'"
  using assms by (cases io; auto split: if_splits)+

lemma csn_boot_simps [simp]:
  "m_nextCsn (sys_mgr (csn_boot i disk issued)) = disk + 1"
  "m_maxReservedCsn (sys_mgr (csn_boot i disk issued)) = disk"
  "sys_disk (csn_boot i disk issued) = disk" "sys_lock (csn_boot i disk issued) = None"
  "sys_pc (csn_boot i disk issued) = (\<lambda>_. Outside)" "sys_issued (csn_boot i disk issued) = issued"
  by (simp_all add: csn_boot_def Initialize_csn_def CsnMgr_new_def)

lemma csn_invD:
  assumes "csn_inv s"
  shows "csn_numbers (sys_pc s) (sys_issued s) (m_maxReservedCsn (sys_mgr s)) (m_nextCsn (sys_mgr s))"
    "csn_reserved (sys_pc s) (sys_lock s) (m_maxReservedCsn (sys_mgr s)) (sys_disk s)"
  using assms by (simp_all add: csn_inv_def)

text \<open>A thread that neither enters the critical section nor changes its number.\<close>

lemma csn_inv_move:
  assumes "csn_inv s" "csn_pending p = csn_pending (sys_pc s t) \<or> p = Outside" "\<not> in_lock p"
    "sys_disk s \<le> disk'" "lck' = sys_lock s \<or> lck' = None \<and> in_lock (sys_pc s t)"
  shows "csn_inv (s\<lparr>sys_disk := disk', sys_lock := lck', sys_pc := (sys_pc s)(t := p)\<rparr>)"
  unfolding csn_inv_def
  using csn_numbers_move [OF csn_invD(1) [OF assms(1)] assms(2) order_refl]
    csn_reserved_move [OF csn_invD(2) [OF assms(1)] assms(3,4,5)] by simp

lemma csn_inv_move_pc:
  assumes "csn_inv s" "csn_pending p = csn_pending (sys_pc s t)" "\<not> in_lock p"
  shows "csn_inv (s\<lparr>sys_pc := (sys_pc s)(t := p)\<rparr>)"
  using csn_inv_move [of s p t "sys_disk s" "sys_lock s"] assms by simp

lemma csn_step_inv:
  assumes "csn_step s s'" "csn_inv s"
  shows "csn_inv s'"
  using assms
proof (induction rule: csn_step.induct)
  case (fetch s t cur)
  show ?case
    using csn_numbers_fetch [OF csn_invD(1) [OF fetch(5)] fetch(1)] csn_reserved_move [OF csn_invD(2) [OF fetch(5)]]
      fetch(2,3) by (simp add: csn_inv_def)
next
  case (target s t cur)
  then show ?case by (intro csn_inv_move_pc) (simp_all split: option.split)
next
  case (test s t cur new)
  then show ?case by (intro csn_inv_move_pc) simp_all
next
  case (acquire s t cur new)
  have "csn_reserved ((sys_pc s)(t := Locked cur new)) (Some t) (m_maxReservedCsn (sys_mgr s)) (sys_disk s)"
    using csn_invD(2) [OF acquire(3)] acquire(2) by (simp add: csn_reserved_def)
  then show ?case
    using csn_numbers_move [OF csn_invD(1) [OF acquire(3)], of "Locked cur new" t] acquire(1)
    by (simp add: csn_inv_def)
next
  case (redundant s t cur new)
  then show ?case using csn_inv_move [of s "Spinning cur" t "sys_disk s" None] by simp
next
  case (persist s t cur new io new' disk')
  then show ?case
    using SetMaxReservedCSN_raises [OF persist(3)] csn_numbers_move [OF csn_invD(1) [OF persist(4)], of "Persisted cur new'" t]
      csn_reserved_persisted [OF csn_invD(2) [OF persist(4)] persist(1), of new' disk']
      less_le_trans [OF persist(2), of new'] by (simp add: csn_inv_def)
next
  case (persist_fail s t cur new io new' disk')
  then show ?case
    using SetMaxReservedCSN_raises(1) [OF persist_fail(3)] csn_inv_move [of s Outside t disk' None] by simp
next
  case (publish s t cur new)
  then show ?case
    using csn_reserved_publish [OF csn_invD(2) [OF publish(2)] publish(1)]
      csn_numbers_move [OF csn_invD(1) [OF publish(2)], of "Spinning cur" t] by (simp add: csn_inv_def)
next
  case (issue s t cur)
  then show ?case
    using csn_numbers_issue [OF csn_invD(1) [OF issue(3)] issue(1,2)]
      csn_reserved_move [OF csn_invD(2) [OF issue(3)], of Outside] by (simp add: csn_inv_def)
next
  case (crash s increment)
  then show ?case
    using csn_numbers_boot [OF csn_invD(1) [OF crash(2)] _ crash(1)] csn_invD(2) [OF crash(2)]
    by (simp add: csn_inv_def csn_reserved_def)
qed

lemma csn_reachable_inv: "csn_reachable s \<Longrightarrow> csn_inv s"
proof (induction rule: csn_reachable.induct)
  case (start disk increment)
  then show ?case by (simp add: csn_inv_def csn_numbers_def csn_reserved_def)
next
  case (step s s')
  then show ?case by (blast intro: csn_step_inv)
qed

subsection \<open>A single thread makes progress\<close>

text \<open>
  The reserved maximum in memory and on disk is a multiple of the increment, as \<open>UpdateMaxReservedCsnIfNecessary\<close>
  leaves it, and the increment is larger than one.
\<close>

definition csn_aligned :: "CsnMgr \<Rightarrow> CommitSeqNo \<Rightarrow> bool" where
  "csn_aligned m disk \<longleftrightarrow>
     1 < unat (m_csnAssignmentIncrement m) \<and>
     unat (m_csnAssignmentIncrement m) dvd unat (m_maxReservedCsn m) \<and>
     unat (m_csnAssignmentIncrement m) dvd unat disk \<and>
     unat (m_maxReservedCsn m) \<le> unat disk"


lemma csn_unat_next: "unat (c :: CommitSeqNo) + 1 < 2 ^ 64 \<Longrightarrow> unat (c + 1) = unat c + 1"
  by (simp add: unat_word_ariths)


lemma csn_mod_first: 
  "cur mod inc = COMMITSEQNO_FIRST_NORMAL \<longleftrightarrow> unat cur mod unat inc = 1"
  by (simp add: COMMITSEQNO_FIRST_NORMAL_def word_unat_eq_iff unat_mod)





text \<open>
  The number whose reservation failed is not given back: when the first call after the reserved numbers
  are used up fails because the control file cannot be written, the counter has moved past it, the next
  call does not try to reserve, and it waits for ever, even once the control file can be written again.
\<close>

lemma failed_reservation_blocks_next_call:
  assumes "csn_aligned m disk" "m_nextCsn m = m_maxReservedCsn m + 1" "unat (m_maxReservedCsn m) + 2 < 2 ^ 64"
    and "GetNextCsn io True m disk = Some (DSTORE_FAIL, csn, m', disk')"
  shows "GetNextCsn Io_Ok True m' disk' = None"
proof -
  let ?i = "unat (m_csnAssignmentIncrement m)" and ?mx = "unat (m_maxReservedCsn m)"
  have m': "m' = m\<lparr>m_nextCsn := m_nextCsn m + 1\<rparr>"
    using assms(4) by (auto simp: GetNextCsn_def Let_def UpdateMaxReservedCsnIfNecessary_def UpdateMaxReservedCsn_def
        split: if_splits option.splits prod.splits RetStatus.splits)
  have nx: "unat (m_nextCsn m') = ?mx + 2"
    using csn_unat_next [of "m_maxReservedCsn m"] csn_unat_next [of "m_nextCsn m"] assms(2,3) m' by simp
  have "(?mx + 2) mod ?i \<noteq> 1"
    using assms(1) by (auto simp: csn_aligned_def dvd_def mod_Suc)
  then have "\<not> m_nextCsn m' mod m_csnAssignmentIncrement m' = COMMITSEQNO_FIRST_NORMAL"
    using nx m' by (simp add: csn_mod_first)
  moreover have "m_maxReservedCsn m' < m_nextCsn m'"
    using nx m' by (simp add: word_less_nat_alt)
  ultimately show ?thesis using m' by (simp add: GetNextCsn_def Let_def)
qed

text \<open>
  C35. With an increment of one, the first call after start-up never returns: \<open>curCsn % 1\<close> is never
  \<open>COMMITSEQNO_FIRST_NORMAL\<close>, so nothing is reserved and the final loop waits for ever.
\<close>

theorem GetNextCsn_increment_one:
  "disk \<noteq> MAX_COMMITSEQNO \<Longrightarrow>
   GetNextCsn io True (snd (Initialize_csn (Some disk) tracker_ok (CsnMgr_new 1))) disk = None"
  using csn_less_next [of disk]
  by (simp add: GetNextCsn_def Initialize_csn_def CsnMgr_new_def COMMITSEQNO_FIRST_NORMAL_def Let_def)

text \<open>
  C3. Whatever the interleaving of the threads, and across crashes at any point, failed writes of the control
  file and restarts with another increment: no commit sequence number is handed out twice, every number
  handed out is covered by the control file, and it is smaller than every number still to come.
\<close>

theorem csn_never_reissued:
  assumes "csn_reachable s"
  shows "distinct (sys_issued s) \<and>
    (\<forall>c\<in>set (sys_issued s). c \<le> sys_disk s \<and> c < m_nextCsn (sys_mgr s))"
  using csn_invD [OF csn_reachable_inv [OF assms]]
  by (auto simp: csn_numbers_def csn_reserved_def intro: order.trans)

lemma csn_spin_issue:
  assumes "sys_pc s t = Outside" "cur \<le> m_maxReservedCsn m"
  shows "csn_step\<^sup>*\<^sup>* (s\<lparr>sys_mgr := m, sys_disk := d, sys_pc := (sys_pc s)(t := Spinning cur)\<rparr>)
    (s\<lparr>sys_mgr := m, sys_disk := d, sys_issued := cur # sys_issued s\<rparr>)"
  using csn_step.issue [of "s\<lparr>sys_mgr := m, sys_disk := d, sys_pc := (sys_pc s)(t := Spinning cur)\<rparr>" t cur] assms
  by (simp add: not_less fun_upd_idem r_into_rtranclp)

lemma csn_reserve_steps:
  assumes pc: "sys_pc s t = Outside" and lck: "sys_lock s = None"
    and upd: "UpdateMaxReservedCsnIfNecessary io cur m (sys_disk s) = (DSTORE_SUCC, m', d')"
  shows "csn_step\<^sup>*\<^sup>* (s\<lparr>sys_mgr := m, sys_pc := (sys_pc s)(t := Fetched cur)\<rparr>)
    (s\<lparr>sys_mgr := m', sys_disk := d', sys_pc := (sys_pc s)(t := Spinning cur)\<rparr>)"
proof (cases "reserve_target (m_csnAssignmentIncrement m) (m_maxReservedCsn m) cur")
  case None
  then show ?thesis
    using csn_step.target [of "s\<lparr>sys_mgr := m, sys_pc := (sys_pc s)(t := Fetched cur)\<rparr>" t cur] upd
    by (auto simp: UpdateMaxReservedCsnIfNecessary_def)
next
  case (Some new)
  let ?at = "\<lambda>p l m d. s\<lparr>sys_mgr := m, sys_lock := l, sys_disk := d, sys_pc := (sys_pc s)(t := p)\<rparr>"
  have s0: "s\<lparr>sys_mgr := m, sys_pc := (sys_pc s)(t := p)\<rparr> = ?at p None m (sys_disk s)"
    "s\<lparr>sys_mgr := m, sys_disk := d, sys_pc := (sys_pc s)(t := p)\<rparr> = ?at p None m d" for m d p
    using lck by simp_all
  have u: "UpdateMaxReservedCsn io new m (sys_disk s) = (DSTORE_SUCC, m', d')"
    using upd Some by (simp add: UpdateMaxReservedCsnIfNecessary_def)
  have tgt: "csn_step (?at (Fetched cur) None m (sys_disk s)) (?at (Reserving cur new) None m (sys_disk s))"
    using csn_step.target [of "?at (Fetched cur) None m (sys_disk s)" t cur] Some by simp
  show ?thesis
  proof (cases "new > m_maxReservedCsn m")
    case False
    then have "csn_step (?at (Reserving cur new) None m (sys_disk s)) (?at (Spinning cur) None m (sys_disk s))"
      using csn_step.test [of "?at (Reserving cur new) None m (sys_disk s)" t cur new] by simp
    then have "csn_step\<^sup>*\<^sup>* (?at (Fetched cur) None m (sys_disk s)) (?at (Spinning cur) None m (sys_disk s))"
      using tgt by (meson converse_rtranclp_into_rtranclp rtranclp.rtrancl_refl)
    moreover have "m' = m" "d' = sys_disk s" using u False by (simp_all add: UpdateMaxReservedCsn_def)
    ultimately show ?thesis unfolding s0 by simp
  next
    case True
    then obtain new' where w: "SetMaxReservedCSN io new (sys_disk s) = (DSTORE_SUCC, new', d')"
      and m': "m' = m\<lparr>m_maxReservedCsn := new'\<rparr>"
      using u by (auto simp: UpdateMaxReservedCsn_def split: prod.splits RetStatus.splits)
    have "csn_step (?at (Reserving cur new) None m (sys_disk s)) (?at (Acquiring cur new) None m (sys_disk s))"
      using csn_step.test [of "?at (Reserving cur new) None m (sys_disk s)" t cur new] True by simp
    moreover have "csn_step (?at (Acquiring cur new) None m (sys_disk s)) (?at (Locked cur new) (Some t) m (sys_disk s))"
      using csn_step.acquire [of "?at (Acquiring cur new) None m (sys_disk s)" t cur new] by simp
    moreover have "csn_step (?at (Locked cur new) (Some t) m (sys_disk s)) (?at (Persisted cur new') (Some t) m d')"
      using csn_step.persist [of "?at (Locked cur new) (Some t) m (sys_disk s)" t cur new io new' d'] True w by simp
    moreover have "csn_step (?at (Persisted cur new') (Some t) m d') (?at (Spinning cur) None m' d')"
      using csn_step.publish [of "?at (Persisted cur new') (Some t) m d'" t cur new'] m' by (cases s) simp
    ultimately have "csn_step\<^sup>*\<^sup>* (?at (Fetched cur) None m (sys_disk s)) (?at (Spinning cur) None m' d')"
      using tgt by (meson converse_rtranclp_into_rtranclp rtranclp.rtrancl_refl)
    then show ?thesis unfolding s0 .
  qed
qed

lemma GetNextCsn_steps:
  assumes "sys_pc s t = Outside" "sys_lock s = None" "m_nextCsn (sys_mgr s) \<noteq> MAX_COMMITSEQNO"
    "m_csnAssignmentIncrement (sys_mgr s) \<noteq> 0"
    and get: "GetNextCsn io True (sys_mgr s) (sys_disk s) = Some (DSTORE_SUCC, c, m', d')"
  shows "csn_step\<^sup>*\<^sup>* s (s\<lparr>sys_mgr := m', sys_disk := d', sys_issued := c # sys_issued s\<rparr>)"
proof -
  let ?m = "(sys_mgr s)\<lparr>m_nextCsn := m_nextCsn (sys_mgr s) + 1\<rparr>"
  note fetch = csn_step.fetch [OF assms(1) refl assms(3,4)]
  show ?thesis
  proof (cases "m_nextCsn (sys_mgr s) mod m_csnAssignmentIncrement (sys_mgr s) = COMMITSEQNO_FIRST_NORMAL")
    case True
    with get have c: "c = m_nextCsn (sys_mgr s)" "c \<le> m_maxReservedCsn m'"
      and upd: "UpdateMaxReservedCsnIfNecessary io c ?m (sys_disk s) = (DSTORE_SUCC, m', d')"
      by (auto simp: GetNextCsn_def Let_def not_less split: prod.splits RetStatus.splits if_splits)
    show ?thesis
      using converse_rtranclp_into_rtranclp [OF fetch [unfolded if_P [OF True], folded c(1)]
          rtranclp_trans [OF csn_reserve_steps [OF assms(1,2) upd, folded c(1)] csn_spin_issue [OF assms(1) c(2)]]] .
  next
    case False
    with get have c: "c = m_nextCsn (sys_mgr s)" "c \<le> m_maxReservedCsn m'" "m' = ?m" "d' = sys_disk s"
      by (auto simp: GetNextCsn_def Let_def not_less split: if_splits)
    then have "s\<lparr>sys_mgr := m', sys_disk := d', sys_pc := p\<rparr> = s\<lparr>sys_mgr := ?m, sys_pc := p\<rparr>" for p by simp
    then show ?thesis
      using converse_rtranclp_into_rtranclp [of csn_step, OF fetch [unfolded if_not_P [OF False]]]
        csn_spin_issue [OF assms(1) c(2), of d'] c(1) by simp
  qed
qed


text \<open>
  The sequential \<open>GetNextCsn\<close> is a run of the interleaved system: a successful call by a thread that
  is not interrupted is a sequence of steps that hands out its result.
\<close>

lemma GetNextCsn_is_run:
  assumes "sys_pc s t = Outside" "sys_lock s = None" "m_nextCsn (sys_mgr s) \<noteq> MAX_COMMITSEQNO"
    "m_csnAssignmentIncrement (sys_mgr s) \<noteq> 0"
    "GetNextCsn io True (sys_mgr s) (sys_disk s) = Some (DSTORE_SUCC, c, m', d')"
  shows "csn_step\<^sup>*\<^sup>* s (s\<lparr>sys_mgr := m', sys_disk := d', sys_issued := c # sys_issued s\<rparr>)"
  using assms by (rule GetNextCsn_steps)

text \<open>One commit, a crash, and another commit.\<close>

lemma csn_reachable_run: "csn_step\<^sup>*\<^sup>* s s' \<Longrightarrow> csn_reachable s \<Longrightarrow> csn_reachable s'"
  by (induction rule: rtranclp_induct) (auto intro: csn_reachable.step)

lemma csn_sample_get:
  "GetNextCsn Io_Ok True (sys_mgr (csn_boot 10 20 [])) 20 =
     Some (DSTORE_SUCC, 21, (sys_mgr (csn_boot 10 20 []))\<lparr>m_nextCsn := 22, m_maxReservedCsn := 40\<rparr>, 40)"
  by code_simp

lemma csn_sample_reachable: "\<exists>s. csn_reachable s \<and> sys_issued s = [41, 21]"
proof -
  have boot: "sys_mgr (csn_boot 10 d l) = snd (Initialize_csn (Some d) True (CsnMgr_new 10))" for d l
    by (simp add: csn_boot_def)
  have get: "\<exists>m. GetNextCsn Io_Ok True (sys_mgr (csn_boot 10 20 [])) 20 = Some (DSTORE_SUCC, 21, m, 40)"
    "\<exists>m. GetNextCsn Io_Ok True (sys_mgr (csn_boot 10 40 [21])) 40 = Some (DSTORE_SUCC, 41, m, 60)"
    unfolding boot by (rule exI, code_simp)+
  have inc: "m_csnAssignmentIncrement (sys_mgr (csn_boot 10 d l)) = 10" for d l
    by (simp add: boot Initialize_csn_def CsnMgr_new_def)
  note run = csn_reachable_run [OF GetNextCsn_steps [where s = "csn_boot 10 _ _" and t = 0 and io = Io_Ok]]
  have mx: "c \<noteq> MAX_COMMITSEQNO" if "c < 100" for c
    using that by (auto simp: MAX_COMMITSEQNO_def INVALID_CSN_def)
  from get(1) obtain m where m: "GetNextCsn Io_Ok True (sys_mgr (csn_boot 10 20 [])) 20 = Some (DSTORE_SUCC, 21, m, 40)" ..
  have "csn_reachable (csn_boot 10 20 [])" by (rule csn_reachable.start) (rule mx, simp)
  then have "csn_reachable ((csn_boot 10 20 [])\<lparr>sys_mgr := m, sys_disk := 40, sys_issued := [21]\<rparr>)"
    using run [of 20 "[]" 21 m 40] m by (simp add: inc mx)
  from csn_reachable.step [OF this csn_step.crash [of _ 10]]
  have r: "csn_reachable (csn_boot 10 40 [21])" by (simp add: mx)
  from get(2) obtain m' where m': "GetNextCsn Io_Ok True (sys_mgr (csn_boot 10 40 [21])) 40 = Some (DSTORE_SUCC, 41, m', 60)" ..
  have "csn_reachable ((csn_boot 10 40 [21])\<lparr>sys_mgr := m', sys_disk := 60, sys_issued := [41, 21]\<rparr>)"
    using run [of 40 "[21]" 41 m' 60] m' r by (simp add: inc mx)
  then show ?thesis by (intro exI conjI, assumption, simp)
qed

theorem csn_never_reissued_witness:
  "\<exists>s. csn_reachable s \<and> sys_issued s = [41, 21] \<and> (21 :: CommitSeqNo) < m_nextCsn (sys_mgr s)"
  using csn_sample_reachable csn_never_reissued by fastforce


lemma failed_reservation_blocks_next_call_sample:
  "GetNextCsn Io_Ok True ((snd (Initialize_csn (Some 40) True (CsnMgr_new 10)))\<lparr>m_nextCsn := 42\<rparr>) 40 = None"
proof -
  let ?m = "snd (Initialize_csn (Some 40) True (CsnMgr_new 10))"
  have a: "csn_aligned ?m 40" by code_simp
  have f: "GetNextCsn Load_Fails True ?m 40 = Some (DSTORE_FAIL, 0, ?m\<lparr>m_nextCsn := 42\<rparr>, 40)" by code_simp
  show ?thesis
    by (rule failed_reservation_blocks_next_call [OF a _ _ f]) (simp_all add: Initialize_csn_def CsnMgr_new_def)
qed

theorem GetNextCsn_increment_one_witness:
  "GetNextCsn Io_Ok True (snd (Initialize_csn (Some 7) True (CsnMgr_new 1))) 7 = None"
  by (rule GetNextCsn_increment_one) (simp add: MAX_COMMITSEQNO_def INVALID_CSN_def)

subsection \<open>The smallest number still needed\<close>

lemma UpdateLocalCsnMin_le:
  assumes "UpdateLocalCsnMin threadMin orphanMin m = Some m'"
  shows "m_localCsnMin m' \<le> threadMin" "m_localCsnMin m' \<le> m_nextCsn m" "m_localCsnMin m \<le> m_localCsnMin m'"
    "orphanMin = Some c \<Longrightarrow> DstoreCsnIsValid c \<Longrightarrow> m_localCsnMin m' \<le> c"
  using assms by (auto simp: UpdateLocalCsnMin_def Let_def split: if_splits option.splits)

lemma GetRecycleCsnMin_le:
  "GetRecycleCsnMin m \<le> m_localCsnMin m"
  "DstoreCsnIsValid (m_flashbackCsnMin m) \<Longrightarrow> GetRecycleCsnMin m \<le> m_flashbackCsnMin m"
  "DstoreCsnIsValid (m_backupRestoreCsnMin m) \<Longrightarrow> GetRecycleCsnMin m \<le> m_backupRestoreCsnMin m"
  by (auto simp: GetRecycleCsnMin_def Let_def)

text \<open>
  C38. The minimum that \<open>UpdateLocalCsnMin\<close> computes never moves backwards, and \<open>GetRecycleCsnMin\<close>,
  below which data may be recycled, exceeds neither the numbers the running threads need, nor the next
  number, nor the smallest number in the tracker of orphan transactions when there is one, nor the valid
  minima of flashback and of backup and restore.
\<close>

theorem recycle_min_is_safe:
  assumes "UpdateLocalCsnMin threadMin orphanMin m = Some m'"
  shows "m_localCsnMin m \<le> m_localCsnMin m' \<and> GetRecycleCsnMin m' \<le> threadMin \<and> GetRecycleCsnMin m' \<le> m_nextCsn m \<and>
    (\<forall>c. orphanMin = Some c \<and> DstoreCsnIsValid c \<longrightarrow> GetRecycleCsnMin m' \<le> c) \<and>
    (DstoreCsnIsValid (m_flashbackCsnMin m') \<longrightarrow> GetRecycleCsnMin m' \<le> m_flashbackCsnMin m') \<and>
    (DstoreCsnIsValid (m_backupRestoreCsnMin m') \<longrightarrow> GetRecycleCsnMin m' \<le> m_backupRestoreCsnMin m')"
  using UpdateLocalCsnMin_le(1,2,3) [OF assms] GetRecycleCsnMin_le [of m']
    order.trans [OF GetRecycleCsnMin_le(1) UpdateLocalCsnMin_le(4) [OF assms]] by (auto intro: order.trans)

theorem recycle_min_is_safe_witness:
  "GetRecycleCsnMin ((CsnMgr_new 10)\<lparr>m_nextCsn := 30, m_localCsnMin := 9\<rparr>) \<le> 9"
proof -
  have "UpdateLocalCsnMin 12 (Some 9) ((CsnMgr_new 10)\<lparr>m_nextCsn := 30\<rparr>) =
      Some ((CsnMgr_new 10)\<lparr>m_nextCsn := 30, m_localCsnMin := 9\<rparr>)" by code_simp
  from recycle_min_is_safe [OF this] show ?thesis by (simp add: DstoreCsnIsValid_def INVALID_CSN_def)
qed

end
