(* ===== verification/Snapshot.thy ===== *)
theory Snapshot
  imports Csn_Mgr "HOL-Library.Monad_Syntax"
begin

text \<open>
  Snapshots, the snapshots of open cursors (\<open>src/transaction/dstore_cursor.cpp\<close>) and the test
  whether a transaction is visible to a snapshot (\<open>XidStatus\<close> and \<open>XidVisibleToSnapshot\<close> in
  \<open>src/transaction/dstore_transaction.cpp\<close>). The slot a transaction manager returns for a number is
  an argument, as is what waiting for the end of a transaction that is being committed yields. A
  panic and a violated assertion are \<open>None\<close>.
\<close>

type_synonym CommandId = uint32

definition FIRST_CID :: CommandId where "FIRST_CID = 0"
definition INVALID_CID :: CommandId where "INVALID_CID = NOT 0"

datatype SnapshotType = SNAPSHOT_MVCC | SNAPSHOT_NOW | SNAPSHOT_DIRTY

record SnapshotData =
  snapshotType :: SnapshotType
  snapshotCsn :: CommitSeqNo
  currentCid :: CommandId

definition SnapshotData_Init :: SnapshotData where
  "SnapshotData_Init = \<lparr>snapshotType = SNAPSHOT_MVCC, snapshotCsn = INVALID_CSN, currentCid = FIRST_CID\<rparr>"

definition GetCsn :: "SnapshotData \<Rightarrow> CommitSeqNo" where
  "GetCsn s = (if snapshotType s = SNAPSHOT_MVCC then snapshotCsn s else MAX_COMMITSEQNO)"

subsection \<open>Cursors\<close>

record CursorSnapshot =
  m_cursorName :: string
  m_cursorSnapshot :: SnapshotData

text \<open>\<open>CursorSnapshot::Init\<close> copies the number and the command of the snapshot, not its type.\<close>

definition CursorSnapshot_Init :: "bool \<Rightarrow> string \<Rightarrow> SnapshotData \<Rightarrow> CursorSnapshot option" where
  "CursorSnapshot_Init name_ok name snapshot =
     (if \<not> name_ok then None
      else Some \<lparr>m_cursorName = name,
             m_cursorSnapshot = SnapshotData_Init
               \<lparr>snapshotCsn := GetCsn snapshot, currentCid := currentCid snapshot\<rparr>\<rparr>)"

definition CheckCursorSnapshotExists :: "string \<Rightarrow> CursorSnapshot list \<Rightarrow> bool" where
  "CheckCursorSnapshotExists name cursors = list_ex (\<lambda>c. name = m_cursorName c) cursors"

definition AddCursorSnapshot_list ::
    "bool \<Rightarrow> bool \<Rightarrow> string \<Rightarrow> SnapshotData \<Rightarrow> CursorSnapshot list \<Rightarrow> RetStatus \<times> CursorSnapshot list" where
  "AddCursorSnapshot_list alloc_ok name_ok name snapshot cursors =
     (if CheckCursorSnapshotExists name cursors then (DSTORE_FAIL, cursors)
      else if \<not> alloc_ok then (DSTORE_FAIL, cursors)
      else case CursorSnapshot_Init name_ok name snapshot of
        None \<Rightarrow> (DSTORE_FAIL, cursors)
      | Some c \<Rightarrow> (DSTORE_SUCC, cursors @ [c]))"

fun delete_cursor :: "string \<Rightarrow> CursorSnapshot list \<Rightarrow> CursorSnapshot list" where
  "delete_cursor name [] = []"
| "delete_cursor name (c # cs) = (if name = m_cursorName c then cs else c # delete_cursor name cs)"

definition DeleteCursorSnapshot_list :: "string \<Rightarrow> CursorSnapshot list \<Rightarrow> RetStatus \<times> CursorSnapshot list" where
  "DeleteCursorSnapshot_list name cursors = (DSTORE_SUCC, delete_cursor name cursors)"

definition GetCursorSnapshotMinCsn :: "CursorSnapshot list \<Rightarrow> CommitSeqNo" where
  "GetCursorSnapshotMinCsn cursors =
     (case cursors of [] \<Rightarrow> INVALID_CSN | c # _ \<Rightarrow> GetCsn (m_cursorSnapshot c))"

subsection \<open>Visibility\<close>

datatype TrxSlotStatus = TXN_STATUS_UNKNOWN | TXN_STATUS_FROZEN | TXN_STATUS_IN_PROGRESS | TXN_STATUS_PENDING_COMMIT
  | TXN_STATUS_COMMITTED | TXN_STATUS_ABORTED | TXN_STATUS_FAILED | TXN_STATUS_PREPARED









definition CidVisibleToSnapshot :: "bool \<Rightarrow> CommandId \<Rightarrow> SnapshotData \<Rightarrow> CommandId \<Rightarrow> bool" where
  "CidVisibleToSnapshot curCidUsed curCid snapshot cid \<longleftrightarrow>
     \<not> curCidUsed \<and> curCid = currentCid snapshot \<or> cid < currentCid snapshot"

subsection \<open>What is visible\<close>



end
