(* ===== verification/Transaction.thy ===== *)
theory Transaction
  imports Savepoint Snapshot
begin

text \<open>
  Transactions and transaction blocks (\<open>src/transaction/dstore_transaction.cpp\<close>). A transaction has a
  low-level state, a high-level state of the transaction block, the stage an abort has reached, its
  savepoints, cursors, locks and snapshot. With it the model keeps what its operations change
  outside of it: the snapshot number and the transaction number published by the thread, the number
  of active transactions of the database, and a log of the callbacks fired and of what was asked of
  the transaction manager and the lock managers, in order.

  What other components answer during a call is in the record \<open>trx_env\<close>: the transaction manager
  (slots, undo records), the memory allocator, and the role of the database. A panic and a violated
  assertion are \<open>None\<close>. Statistics, tracing, timers and memory contexts are not modelled.
\<close>

subsection \<open>State\<close>

datatype TBlockState = TBLOCK_DEFAULT | TBLOCK_STARTED | TBLOCK_BEGIN | TBLOCK_INPROGRESS | TBLOCK_END
  | TBLOCK_ABORT | TBLOCK_ABORT_END | TBLOCK_ABORT_PENDING

datatype TransState = TRANS_DEFAULT | TRANS_START | TRANS_INPROGRESS | TRANS_COMMIT | TRANS_ABORT

datatype TransAbortStage = AbortNotStart | PreAbortDone | RecordAbortDone | PostAbortDone | CleanUpResourceDone
  | DecreasePdbTransCountDone | DstoreAbortCompleted | SqlAbortCompleted

datatype TrxEvent = TRX_EVENT_START | TRX_EVENT_PRE_COMMIT | TRX_EVENT_POST_COMMIT | TRX_EVENT_PRE_ABORT
  | TRX_EVENT_POST_ABORT | TRX_EVENT_PREPARE | TRX_EVENT_COMMIT_PREPARED | TRX_EVENT_ROLLBACK_PREPARED
  | TRX_EVENT_PREROLLBACK_CLEANUP | TRX_EVENT_PRE_STP_TRX_STATEMENT | TRX_EVENT_POST_TERMINATE

datatype TrxIsolationType = XACT_READ_UNCOMMITTED | XACT_READ_COMMITTED | XACT_TRANSACTION_SNAPSHOT | XACT_SERIALIZABLE

type_synonym Xid = uint64

definition INVALID_XID :: Xid where "INVALID_XID = -1"

record TransactionStateData =
  xid :: Xid
  trx_state :: TransState
  blockState :: TBlockState
  readOnly :: bool
  tacXidSent :: bool
  holdXactLock :: bool
  abortStage :: TransAbortStage

text \<open>The actions of the log.\<close>

datatype trx_action = Fired TrxEvent | Slot_Committed Xid | Slot_Rolled_Back Xid | Undo_Rolled_Back UndoRecPtr
  | Undo_Inserted Xid UndoRecPtr | Locks_Released "unlock_call list" | Active_Added | Active_Removed

record Transaction =
  m_currTransState :: TransactionStateData
  m_cursorSnapshotList :: "CursorSnapshot list"
  m_savepoints :: SavepointList
  m_innerSavepoint :: Savepoint
  m_lockResource :: LockResource
  m_isolationLevel :: TrxIsolationType
  m_snapshot :: SnapshotData
  m_currentCommandIdUsed :: bool
  m_currentCommandId :: CommandId
  m_trxLastUndoPtr :: UndoRecPtr
  m_isTop :: bool
  thrd_localCsn :: CommitSeqNo
  thrd_localXid :: Xid
  pdb_activeTransactionNum :: uint32
  trx_log :: "trx_action list"

record trx_env =
  env_disabled_at_start :: bool
  env_disabled_inside :: bool
  env_primary :: bool
  env_standby :: bool
  env_new_slot :: "RetStatus \<times> Xid"
  env_commit_ok :: bool
  env_rollback_slot_ok :: bool
  env_undo_ok :: "UndoRecPtr \<Rightarrow> bool"
  env_undo_ptr :: UndoRecPtr
  env_last_undo :: "UndoRecPtr option"
  env_alloc_ok :: bool
  env_name_ok :: bool
  env_next_csn :: "CommitSeqNo option"

definition set_state :: "TransState \<Rightarrow> Transaction \<Rightarrow> Transaction" where
  "set_state s t = t\<lparr>m_currTransState := (m_currTransState t)\<lparr>trx_state := s\<rparr>\<rparr>"

definition set_block :: "TBlockState \<Rightarrow> Transaction \<Rightarrow> Transaction" where
  "set_block b t = t\<lparr>m_currTransState := (m_currTransState t)\<lparr>blockState := b\<rparr>\<rparr>"

definition set_stage :: "TransAbortStage \<Rightarrow> Transaction \<Rightarrow> Transaction" where
  "set_stage g t = t\<lparr>m_currTransState := (m_currTransState t)\<lparr>abortStage := g\<rparr>\<rparr>"

definition set_xid :: "Xid \<Rightarrow> Transaction \<Rightarrow> Transaction" where
  "set_xid x t = t\<lparr>m_currTransState := (m_currTransState t)\<lparr>xid := x\<rparr>\<rparr>"

definition log_action :: "trx_action \<Rightarrow> Transaction \<Rightarrow> Transaction" where
  "log_action a t = t\<lparr>trx_log := trx_log t @ [a]\<rparr>"

definition FireCallback :: "TrxEvent \<Rightarrow> Transaction \<Rightarrow> Transaction" where
  "FireCallback e = log_action (Fired e)"

definition AddActiveTransaction :: "Transaction \<Rightarrow> Transaction" where
  "AddActiveTransaction t = log_action Active_Added (t\<lparr>pdb_activeTransactionNum := pdb_activeTransactionNum t + 1\<rparr>)"

definition SubActiveTransaction :: "Transaction \<Rightarrow> Transaction" where
  "SubActiveTransaction t = log_action Active_Removed (t\<lparr>pdb_activeTransactionNum := pdb_activeTransactionNum t - 1\<rparr>)"

definition IsValid_xid :: "Transaction \<Rightarrow> bool" where
  "IsValid_xid t \<longleftrightarrow> xid (m_currTransState t) \<noteq> INVALID_XID"

definition InTransaction :: "Transaction \<Rightarrow> bool" where
  "InTransaction t \<longleftrightarrow> trx_state (m_currTransState t) = TRANS_INPROGRESS"

definition IsTransactionRunning :: "Transaction \<Rightarrow> bool" where
  "IsTransactionRunning t \<longleftrightarrow> trx_state (m_currTransState t) \<noteq> TRANS_DEFAULT"

definition SetThrdLocalCsn :: "CommitSeqNo \<Rightarrow> Transaction \<Rightarrow> Transaction" where
  "SetThrdLocalCsn csn t =
     (if m_isTop t \<and> m_cursorSnapshotList t = [] \<or> thrd_localCsn t = INVALID_CSN \<or> thrd_localCsn t = MAX_COMMITSEQNO
      then t\<lparr>thrd_localCsn := csn\<rparr> else t)"

definition InitInfoForNewTrx :: "Transaction \<Rightarrow> Transaction" where
  "InitInfoForNewTrx t =
     t\<lparr>m_currTransState := \<lparr>xid = INVALID_XID, trx_state = TRANS_DEFAULT, blockState = TBLOCK_DEFAULT, readOnly = True,
         tacXidSent = False, holdXactLock = False, abortStage = AbortNotStart\<rparr>,
       m_trxLastUndoPtr := INVALID_UNDO_RECORD_PTR, m_isolationLevel := XACT_READ_COMMITTED,
       m_currentCommandId := FIRST_CID, m_currentCommandIdUsed := False, m_snapshot := SnapshotData_Init\<rparr>"

text \<open>
  A new transaction of a thread, beside \<open>others\<close> active transactions of the database; \<open>isTop\<close> tells
  whether it is the outermost transaction of its thread.
\<close>

definition Transaction_new :: "bool \<Rightarrow> uint32 \<Rightarrow> Transaction" where
  "Transaction_new isTop others =
     InitInfoForNewTrx
       \<lparr>m_currTransState = \<lparr>xid = INVALID_XID, trx_state = TRANS_DEFAULT, blockState = TBLOCK_DEFAULT, readOnly = True,
          tacXidSent = False, holdXactLock = False, abortStage = AbortNotStart\<rparr>,
        m_cursorSnapshotList = [], m_savepoints = SavepointList_Init, m_innerSavepoint = Savepoint_new,
        m_lockResource = LockResource_new, m_isolationLevel = XACT_READ_COMMITTED, m_snapshot = SnapshotData_Init,
        m_currentCommandIdUsed = False, m_currentCommandId = FIRST_CID, m_trxLastUndoPtr = INVALID_UNDO_RECORD_PTR,
        m_isTop = isTop, thrd_localCsn = INVALID_CSN, thrd_localXid = INVALID_XID, pdb_activeTransactionNum = others,
        trx_log = []\<rparr>"

definition IncreaseCommandCounter :: "Transaction \<Rightarrow> Transaction option" where
  "IncreaseCommandCounter t =
     (if \<not> m_currentCommandIdUsed t then Some t
      else
        let cid = m_currentCommandId t + 1 in
        if cid = INVALID_CID then None
        else Some (t\<lparr>m_currentCommandId := cid, m_currentCommandIdUsed := False,
                      m_snapshot := (m_snapshot t)\<lparr>currentCid := cid\<rparr>\<rparr>))"

subsection \<open>Starting, committing and aborting\<close>

type_synonym trx_result = "(RetStatus \<times> Transaction) option"

definition RecordCommit :: "trx_env \<Rightarrow> Transaction \<Rightarrow> trx_result" where
  "RecordCommit env t =
     (if readOnly (m_currTransState t) then Some (DSTORE_SUCC, t)
      else if \<not> IsValid_xid t then None
      else Some (if env_commit_ok env then (DSTORE_SUCC, log_action (Slot_Committed (xid (m_currTransState t))) t)
                 else (DSTORE_FAIL, t)))"

definition RecordAbort :: "trx_env \<Rightarrow> Transaction \<Rightarrow> trx_result" where
  "RecordAbort env t =
     (if readOnly (m_currTransState t) then Some (DSTORE_SUCC, t)
      else if \<not> IsValid_xid t then None
      else Some (if env_rollback_slot_ok env then (DSTORE_SUCC, log_action (Slot_Rolled_Back (xid (m_currTransState t))) t)
                 else (DSTORE_FAIL, t)))"

definition StartInternal :: "trx_env \<Rightarrow> Transaction \<Rightarrow> trx_result" where
  "StartInternal env t =
     (let t1 = AddActiveTransaction t in
      if env_disabled_inside env then Some (DSTORE_FAIL, t1)
      else
        let t2 = FireCallback TRX_EVENT_START (set_state TRANS_START (InitInfoForNewTrx t1));
            t3 = set_state TRANS_INPROGRESS ((SetThrdLocalCsn INVALID_CSN t2)\<lparr>thrd_localXid := INVALID_XID\<rparr>) in
        if IsEmpty_savepoints (m_savepoints t3) = Some True then Some (DSTORE_SUCC, t3) else None)"

definition CleanupResource :: "Transaction \<Rightarrow> Transaction option" where
  "CleanupResource t =
     do {
       sl \<leftarrow> DeleteAll_savepoints (m_savepoints t);
       (calls, locks) \<leftarrow> ReleaseAllLocks (m_lockResource t);
       Some (log_action (Locks_Released calls)
         (t\<lparr>m_innerSavepoint := Savepoint_Release (m_innerSavepoint t), m_cursorSnapshotList := [],
            m_savepoints := sl, m_lockResource := locks\<rparr>))
     }"

definition CommitInternal :: "trx_env \<Rightarrow> bool \<Rightarrow> Transaction \<Rightarrow> trx_result" where
  "CommitInternal env cleanUpResource t =
     (if \<not> InTransaction t then Some (DSTORE_FAIL, SubActiveTransaction t)
      else do {
        (status, t1) \<leftarrow> RecordCommit env (set_state TRANS_COMMIT (FireCallback TRX_EVENT_PRE_COMMIT t));
        let t2 = (SetThrdLocalCsn INVALID_CSN t1)\<lparr>thrd_localXid := INVALID_XID\<rparr>;
        let t3 = FireCallback TRX_EVENT_POST_COMMIT (set_xid INVALID_XID t2);
        t4 \<leftarrow> (if cleanUpResource then CleanupResource t3 else Some t3);
        Some (status, SubActiveTransaction (set_state TRANS_DEFAULT t4))
      })"

text \<open>
  \<open>AbortInternal\<close> enters a \<open>switch\<close> at the stage a former attempt has reached and falls through
  the later cases: every case runs when the stage is the one it is labelled with.
\<close>

definition abort_start :: "Transaction \<Rightarrow> RetStatus \<times> Transaction" where
  "abort_start t =
     (if abortStage (m_currTransState t) \<noteq> AbortNotStart then (DSTORE_SUCC, t)
      else if \<not> InTransaction t then (DSTORE_FAIL, t)
      else (DSTORE_SUCC, set_stage PreAbortDone (FireCallback TRX_EVENT_PRE_ABORT t)))"

definition abort_record :: "trx_env \<Rightarrow> Transaction \<Rightarrow> trx_result" where
  "abort_record env t =
     (if abortStage (m_currTransState t) \<noteq> PreAbortDone then Some (DSTORE_SUCC, t)
      else
        let t1 = set_state TRANS_ABORT t in
        if \<not> IsValid_xid t1 then Some (DSTORE_SUCC, set_stage RecordAbortDone t1)
        else do {
          (status, t2) \<leftarrow> RecordAbort env t1;
          Some (if status = DSTORE_FAIL then (DSTORE_FAIL, t2) else (DSTORE_SUCC, set_stage RecordAbortDone t2))
        })"

definition abort_post :: "Transaction \<Rightarrow> Transaction" where
  "abort_post t =
     (if abortStage (m_currTransState t) \<noteq> RecordAbortDone then t
      else set_stage PostAbortDone (FireCallback TRX_EVENT_POST_ABORT
             ((SetThrdLocalCsn INVALID_CSN t)\<lparr>thrd_localXid := INVALID_XID\<rparr>)))"

definition abort_cleanup :: "bool \<Rightarrow> Transaction \<Rightarrow> Transaction option" where
  "abort_cleanup cleanUpResource t =
     (if abortStage (m_currTransState t) \<noteq> PostAbortDone then Some t
      else do {
        t1 \<leftarrow> (if cleanUpResource then CleanupResource t else Some t);
        Some (set_stage CleanUpResourceDone t1)
      })"

definition abort_decrease :: "Transaction \<Rightarrow> Transaction" where
  "abort_decrease t =
     (if abortStage (m_currTransState t) \<noteq> CleanUpResourceDone then t
      else set_stage DecreasePdbTransCountDone (SubActiveTransaction t))"

definition abort_finish :: "Transaction \<Rightarrow> RetStatus \<times> Transaction" where
  "abort_finish t =
     (case abortStage (m_currTransState t) of
        DecreasePdbTransCountDone \<Rightarrow> (DSTORE_SUCC, set_stage DstoreAbortCompleted t)
      | DstoreAbortCompleted \<Rightarrow> (DSTORE_SUCC, t)
      | _ \<Rightarrow> (DSTORE_FAIL, t))"

definition AbortInternal :: "trx_env \<Rightarrow> bool \<Rightarrow> Transaction \<Rightarrow> trx_result" where
  "AbortInternal env cleanUpResource t =
     (case abort_start t of
        (DSTORE_FAIL, t1) \<Rightarrow> Some (DSTORE_FAIL, t1)
      | (DSTORE_SUCC, t1) \<Rightarrow>
          do {
            (status, t2) \<leftarrow> abort_record env t1;
            (if status = DSTORE_FAIL then Some (DSTORE_FAIL, t2)
             else do {
               t3 \<leftarrow> abort_cleanup cleanUpResource (abort_post t2);
               Some (abort_finish (abort_decrease t3))
             })
          })"

definition Cleanup :: "Transaction \<Rightarrow> RetStatus \<times> Transaction" where
  "Cleanup t =
     (if trx_state (m_currTransState t) \<noteq> TRANS_ABORT then (DSTORE_FAIL, t)
      else (DSTORE_SUCC, set_state TRANS_DEFAULT (set_xid INVALID_XID (FireCallback TRX_EVENT_PREROLLBACK_CLEANUP t))))"

text \<open>
  The sequence by which \<open>Commit\<close> and \<open>Abort\<close> leave a transaction: the abort, on success followed by
  the clean-up and the return to the idle block state.
\<close>

definition abort_and_leave :: "trx_env \<Rightarrow> bool \<Rightarrow> Transaction \<Rightarrow> trx_result" where
  "abort_and_leave env cleanUpResource t =
     do {
       (status, t1) \<leftarrow> AbortInternal env cleanUpResource t;
       (if status = DSTORE_FAIL then Some (DSTORE_FAIL, t1)
        else let (status2, t2) = Cleanup t1 in Some (status2, set_block TBLOCK_DEFAULT t2))
     }"

subsection \<open>Commands and transaction blocks\<close>

definition reset_snapshot :: "Transaction \<Rightarrow> Transaction" where
  "reset_snapshot t =
     (let s = (if m_isolationLevel t = XACT_READ_COMMITTED then (m_snapshot t)\<lparr>snapshotCsn := INVALID_CSN\<rparr> else m_snapshot t) in
      t\<lparr>m_snapshot := s\<lparr>currentCid := m_currentCommandId t\<rparr>\<rparr>)"

definition create_inner_savepoint :: "trx_env \<Rightarrow> Transaction \<Rightarrow> RetStatus \<times> Transaction" where
  "create_inner_savepoint env t =
     (case Savepoint_Create (env_name_ok env) None (m_trxLastUndoPtr t) (m_lockResource t) (m_innerSavepoint t) of
        (status, sp, locks) \<Rightarrow> (status, t\<lparr>m_innerSavepoint := sp, m_lockResource := locks\<rparr>))"

definition Start :: "trx_env \<Rightarrow> Transaction \<Rightarrow> trx_result" where
  "Start env t =
     (if env_disabled_at_start env then Some (DSTORE_FAIL, t)
      else
        let t0 = reset_snapshot t in
        case blockState (m_currTransState t0) of
          TBLOCK_DEFAULT \<Rightarrow>
            do {
              (status, t1) \<leftarrow> StartInternal env t0;
              Some (status, if status = DSTORE_SUCC \<or> IsTransactionRunning t1 then set_block TBLOCK_STARTED t1 else t1)
            }
        | TBLOCK_INPROGRESS \<Rightarrow> Some (create_inner_savepoint env t0)
        | TBLOCK_ABORT \<Rightarrow> Some (DSTORE_SUCC, t0)
        | _ \<Rightarrow> Some (DSTORE_FAIL, t0))"

definition commit_and_leave :: "trx_env \<Rightarrow> bool \<Rightarrow> Transaction \<Rightarrow> trx_result" where
  "commit_and_leave env cleanUpResource t =
     do {
       (status, t1) \<leftarrow> CommitInternal env cleanUpResource t;
       Some (status, set_block TBLOCK_DEFAULT t1)
     }"

definition Commit :: "trx_env \<Rightarrow> bool \<Rightarrow> Transaction \<Rightarrow> trx_result" where
  "Commit env cleanUpResource t =
     (let t0 = reset_snapshot t in
      case blockState (m_currTransState t0) of
        TBLOCK_DEFAULT \<Rightarrow> Some (DSTORE_FAIL, t0)
      | TBLOCK_STARTED \<Rightarrow> commit_and_leave env cleanUpResource t0
      | TBLOCK_BEGIN \<Rightarrow> Some (DSTORE_SUCC, set_block TBLOCK_INPROGRESS t0)
      | TBLOCK_INPROGRESS \<Rightarrow>
          do {
            t1 \<leftarrow> IncreaseCommandCounter (t0\<lparr>m_innerSavepoint := Savepoint_Release (m_innerSavepoint t0)\<rparr>);
            Some (DSTORE_SUCC, t1)
          }
      | TBLOCK_END \<Rightarrow> commit_and_leave env cleanUpResource t0
      | TBLOCK_ABORT \<Rightarrow> Some (DSTORE_SUCC, t0)
      | TBLOCK_ABORT_END \<Rightarrow> abort_and_leave env cleanUpResource t0
      | TBLOCK_ABORT_PENDING \<Rightarrow> abort_and_leave env cleanUpResource t0)"

definition CleanUpResourceAfterCommit :: "Transaction \<Rightarrow> Transaction option" where
  "CleanUpResourceAfterCommit t = CleanupResource t"

definition CleanUpResourceAfterAbort :: "Transaction \<Rightarrow> Transaction option" where
  "CleanUpResourceAfterAbort t = CleanupResource t"

definition post_terminate :: "bool \<Rightarrow> Transaction \<Rightarrow> Transaction" where
  "post_terminate terminateCurrTrx t = (if terminateCurrTrx then FireCallback TRX_EVENT_POST_TERMINATE t else t)"

text \<open>An abort in the idle block state cleans up after a start that failed half-way.\<close>

definition abort_idle :: "trx_env \<Rightarrow> bool \<Rightarrow> Transaction \<Rightarrow> trx_result" where
  "abort_idle env cleanUpResource t =
     (if trx_state (m_currTransState t) = TRANS_DEFAULT then Some (DSTORE_FAIL, t)
      else
        let t1 = (if trx_state (m_currTransState t) = TRANS_START then set_state TRANS_INPROGRESS t else t) in
        do {
          (status, t2) \<leftarrow> AbortInternal env cleanUpResource t1;
          Some (if status = DSTORE_FAIL then (DSTORE_FAIL, t2) else Cleanup t2)
        })"

definition Abort :: "trx_env \<Rightarrow> bool \<Rightarrow> bool \<Rightarrow> Transaction \<Rightarrow> trx_result" where
  "Abort env terminateCurrTrx cleanUpResource t =
     (case blockState (m_currTransState t) of
        TBLOCK_DEFAULT \<Rightarrow> abort_idle env cleanUpResource (post_terminate terminateCurrTrx t)
      | TBLOCK_STARTED \<Rightarrow> abort_and_leave env cleanUpResource (post_terminate terminateCurrTrx t)
      | TBLOCK_BEGIN \<Rightarrow> abort_and_leave env cleanUpResource t
      | TBLOCK_INPROGRESS \<Rightarrow>
          if terminateCurrTrx then abort_and_leave env cleanUpResource (post_terminate True t)
          else Some (DSTORE_SUCC, set_block TBLOCK_ABORT t)
      | TBLOCK_END \<Rightarrow> abort_and_leave env cleanUpResource (post_terminate terminateCurrTrx t)
      | TBLOCK_ABORT \<Rightarrow> if terminateCurrTrx then abort_and_leave env cleanUpResource t else Some (DSTORE_SUCC, t)
      | TBLOCK_ABORT_PENDING \<Rightarrow> abort_and_leave env cleanUpResource (post_terminate terminateCurrTrx t)
      | TBLOCK_ABORT_END \<Rightarrow> abort_and_leave env cleanUpResource t)"

definition IsTxnBlock :: "Transaction \<Rightarrow> bool" where
  "IsTxnBlock t \<longleftrightarrow> blockState (m_currTransState t) \<noteq> TBLOCK_DEFAULT \<and> blockState (m_currTransState t) \<noteq> TBLOCK_STARTED"

definition BeginTransactionBlock :: "Transaction \<Rightarrow> RetStatus \<times> Transaction" where
  "BeginTransactionBlock t =
     (case blockState (m_currTransState t) of
        TBLOCK_STARTED \<Rightarrow> (DSTORE_SUCC, set_block TBLOCK_BEGIN t)
      | _ \<Rightarrow> (DSTORE_FAIL, t))"

definition EndTransactionBlock :: "Transaction \<Rightarrow> RetStatus \<times> Transaction" where
  "EndTransactionBlock t =
     (case blockState (m_currTransState t) of
        TBLOCK_INPROGRESS \<Rightarrow> (DSTORE_SUCC, set_block TBLOCK_END t)
      | TBLOCK_ABORT \<Rightarrow> (DSTORE_SUCC, set_block TBLOCK_ABORT_END t)
      | _ \<Rightarrow> (DSTORE_FAIL, t))"

definition UserAbortTransactionBlock :: "Transaction \<Rightarrow> RetStatus \<times> Transaction" where
  "UserAbortTransactionBlock t =
     (case blockState (m_currTransState t) of
        TBLOCK_INPROGRESS \<Rightarrow> (DSTORE_SUCC, set_block TBLOCK_ABORT_PENDING t)
      | TBLOCK_ABORT \<Rightarrow> (DSTORE_SUCC, set_block TBLOCK_ABORT_END t)
      | TBLOCK_STARTED \<Rightarrow> (DSTORE_FAIL, set_block TBLOCK_ABORT_PENDING t)
      | _ \<Rightarrow> (DSTORE_FAIL, t))"

text \<open>What a rollback to a savepoint asked of the managers, in the log.\<close>

definition log_rollback :: "UndoRecPtr \<Rightarrow> unlock_call list \<Rightarrow> LockResource \<Rightarrow> Transaction \<Rightarrow> Transaction" where
  "log_rollback ptr calls locks t =
     log_action (Locks_Released calls)
       ((if IsValid_xid t then log_action (Undo_Rolled_Back ptr) t else t)\<lparr>m_lockResource := locks\<rparr>)"

definition RollbackLastSQLCmd :: "trx_env \<Rightarrow> Transaction \<Rightarrow> trx_result" where
  "RollbackLastSQLCmd env t =
     (case blockState (m_currTransState t) of
        TBLOCK_INPROGRESS \<Rightarrow>
          do {
            (status, calls, locks) \<leftarrow> Savepoint_Rollback (IsValid_xid t) (env_undo_ok env) (m_lockResource t) (m_innerSavepoint t);
            let t1 = (if status = DSTORE_FAIL then t else log_rollback (m_lastUndoPtr (m_innerSavepoint t)) calls locks t);
            Some (status, t1\<lparr>m_innerSavepoint := Savepoint_Release (m_innerSavepoint t1)\<rparr>)
          }
      | _ \<Rightarrow> Some (DSTORE_FAIL, t))"

definition StatusCode :: "Transaction \<Rightarrow> char" where
  "StatusCode t =
     (case blockState (m_currTransState t) of
        TBLOCK_DEFAULT \<Rightarrow> CHR ''I''
      | TBLOCK_STARTED \<Rightarrow> CHR ''I''
      | TBLOCK_BEGIN \<Rightarrow> CHR ''T''
      | TBLOCK_INPROGRESS \<Rightarrow> CHR ''T''
      | TBLOCK_END \<Rightarrow> CHR ''T''
      | TBLOCK_ABORT \<Rightarrow> CHR ''E''
      | TBLOCK_ABORT_END \<Rightarrow> CHR ''E''
      | TBLOCK_ABORT_PENDING \<Rightarrow> CHR ''E'')"

definition BlockStateAsString :: "TBlockState \<Rightarrow> string" where
  "BlockStateAsString b =
     (case b of
        TBLOCK_DEFAULT \<Rightarrow> ''DEFAULT''
      | TBLOCK_STARTED \<Rightarrow> ''STARTED''
      | TBLOCK_BEGIN \<Rightarrow> ''BEGIN''
      | TBLOCK_INPROGRESS \<Rightarrow> ''INPROGRESS''
      | TBLOCK_END \<Rightarrow> ''END''
      | TBLOCK_ABORT \<Rightarrow> ''ABORT''
      | TBLOCK_ABORT_END \<Rightarrow> ''ABORT END''
      | TBLOCK_ABORT_PENDING \<Rightarrow> ''ABORT PEND'')"

definition TransStateAsString :: "TransState \<Rightarrow> string" where
  "TransStateAsString s =
     (case s of
        TRANS_DEFAULT \<Rightarrow> ''DEFAULT''
      | TRANS_START \<Rightarrow> ''START''
      | TRANS_INPROGRESS \<Rightarrow> ''INPROGR''
      | TRANS_COMMIT \<Rightarrow> ''COMMIT''
      | TRANS_ABORT \<Rightarrow> ''ABORT'')"

text \<open>
  The states can be saved in two variables of the thread, restored from them, and set, by code that
  knows what it is doing.
\<close>

definition SaveCurTransactionState :: "Transaction \<Rightarrow> TBlockState \<times> TransState" where
  "SaveCurTransactionState t = (blockState (m_currTransState t), trx_state (m_currTransState t))"

definition RestoreCurTransactionState ::
    "TBlockState \<times> TransState \<Rightarrow> Transaction \<Rightarrow> (Transaction \<times> TBlockState \<times> TransState) option" where
  "RestoreCurTransactionState saved t =
     (if fst saved = TBLOCK_DEFAULT then None
      else Some (set_state (snd saved) (set_block (fst saved) t), TBLOCK_DEFAULT, TRANS_DEFAULT))"

definition SetCurTxnBlockState :: "TBlockState \<Rightarrow> Transaction \<Rightarrow> Transaction" where
  "SetCurTxnBlockState b t = set_block b t"

definition SetCurAbortStage :: "TransAbortStage \<Rightarrow> Transaction \<Rightarrow> Transaction" where
  "SetCurAbortStage g t = set_stage g t"

definition CommitRollbackAndRestoreTrxState :: "(nat \<Rightarrow> trx_env) \<Rightarrow> bool \<Rightarrow> Transaction \<Rightarrow> trx_result" where
  "CommitRollbackAndRestoreTrxState env isRollback t =
     (if \<not> InTransaction t then Some (DSTORE_FAIL, t)
      else if blockState (m_currTransState t) \<noteq> TBLOCK_STARTED \<and> blockState (m_currTransState t) \<noteq> TBLOCK_INPROGRESS then None
      else
        let t0 = FireCallback TRX_EVENT_PRE_STP_TRX_STATEMENT t;
            saved_state = trx_state (m_currTransState t); saved_block = blockState (m_currTransState t);
            (status1, t1) = (if saved_block \<noteq> TBLOCK_INPROGRESS then (DSTORE_SUCC, t0)
              else if isRollback then UserAbortTransactionBlock t0 else EndTransactionBlock t0) in
        if status1 = DSTORE_FAIL then Some (DSTORE_FAIL, t1)
        else do {
          (status2, t2) \<leftarrow> (if isRollback then Abort (env 0) False True t1 else Commit (env 0) True t1);
          (if status2 = DSTORE_FAIL then Some (DSTORE_FAIL, t2)
           else do {
             (status3, t3) \<leftarrow> Start (env 1) t2;
             (if status3 = DSTORE_FAIL then Some (DSTORE_FAIL, t3)
              else if blockState (m_currTransState t3) \<noteq> TBLOCK_STARTED \<and> blockState (m_currTransState t3) \<noteq> TBLOCK_INPROGRESS
              then None
              else Some (DSTORE_SUCC, set_block saved_block (set_state saved_state t3)))
           })
        })"

subsection \<open>Transaction slots, undo records and locks\<close>

text \<open>
  The transaction manager returns a status and writes the number through a reference, which it may
  leave invalid when it fails. The transaction is no longer read-only in either case.
\<close>

definition AllocTransactionSlot :: "trx_env \<Rightarrow> Transaction \<Rightarrow> RetStatus \<times> Transaction" where
  "AllocTransactionSlot env t =
     (if \<not> env_primary env then (DSTORE_FAIL, t)
      else if \<not> InTransaction t then (DSTORE_FAIL, t)
      else
        let (status, t1) =
              (if IsValid_xid t then (DSTORE_SUCC, t)
               else case env_new_slot env of (status, x) \<Rightarrow>
                 (status, set_xid x (t\<lparr>m_trxLastUndoPtr := INVALID_UNDO_RECORD_PTR\<rparr>))) in
        (status, t1\<lparr>thrd_localXid := xid (m_currTransState t1),
           m_currTransState := (m_currTransState t1)\<lparr>readOnly := False\<rparr>, m_currentCommandIdUsed := True\<rparr>))"

text \<open>An undo record is given the last one of its transaction as predecessor.\<close>

definition InsertUndoRecord :: "trx_env \<Rightarrow> Transaction \<Rightarrow> (UndoRecPtr \<times> Transaction) option" where
  "InsertUndoRecord env t =
     (if \<not> InTransaction t then Some (INVALID_UNDO_RECORD_PTR, t)
      else if \<not> IsValid_xid t then None
      else
        let t1 = log_action (Undo_Inserted (xid (m_currTransState t)) (m_trxLastUndoPtr t)) t in
        Some (env_undo_ptr env, t1\<lparr>m_trxLastUndoPtr := env_undo_ptr env\<rparr>))"

definition Remember2PLock :: "trx_env \<Rightarrow> LockResourceTag \<Rightarrow> Transaction \<Rightarrow> RetStatus \<times> Transaction" where
  "Remember2PLock env tag t =
     (case RememberLock (env_alloc_ok env) (env_alloc_ok env) tag (m_lockResource t) of
        (status, locks) \<Rightarrow> (status, t\<lparr>m_lockResource := locks\<rparr>))"

definition Forget2PLock :: "LockResourceTag \<Rightarrow> Transaction \<Rightarrow> trx_result" where
  "Forget2PLock tag t =
     do {
       locks \<leftarrow> ForgetLock tag (m_lockResource t);
       Some (DSTORE_SUCC, t\<lparr>m_lockResource := locks\<rparr>)
     }"

definition Has2PLock :: "LockResourceTag \<Rightarrow> Transaction \<Rightarrow> bool" where
  "Has2PLock tag t = IsLockExist tag (m_lockResource t)"

definition HasAny2PLockInMode :: "LockMode \<Rightarrow> Transaction \<Rightarrow> bool" where
  "HasAny2PLockInMode mode t = HasLockInMode mode (m_lockResource t)"

definition GetHold2PLockCnt :: "LockResourceTag \<Rightarrow> Transaction \<Rightarrow> uint32" where
  "GetHold2PLockCnt tag t = GetLockCnt tag (m_lockResource t)"

definition Generate2PLockSubResourceID :: "Transaction \<Rightarrow> SubLockResourceID \<times> Transaction" where
  "Generate2PLockSubResourceID t =
     (case GenerateSubLockResourceID (m_lockResource t) of (sid, locks) \<Rightarrow> (sid, t\<lparr>m_lockResource := locks\<rparr>))"

definition Release2PLocksAcquiredAfter :: "SubLockResourceID \<Rightarrow> Transaction \<Rightarrow> Transaction option" where
  "Release2PLocksAcquiredAfter subResId t =
     do {
       (calls, locks) \<leftarrow> ReleaseLocksAcquiredAfter subResId (m_lockResource t);
       Some (log_action (Locks_Released calls) (t\<lparr>m_lockResource := locks\<rparr>))
     }"

subsection \<open>Savepoints\<close>

text \<open>
  \<open>Transaction::CreateSavepoint\<close>. The status of \<open>AddSavepoint\<close> is logged but not returned.
\<close>

definition CreateSavepoint :: "trx_env \<Rightarrow> string option \<Rightarrow> Transaction \<Rightarrow> RetStatus \<times> Transaction" where
  "CreateSavepoint env name t =
     (case AllocTransactionSlot env t of
        (DSTORE_FAIL, t1) \<Rightarrow> (DSTORE_FAIL, t1)
      | (DSTORE_SUCC, t1) \<Rightarrow>
          (case AddSavepoint (env_alloc_ok env) (env_name_ok env) name (m_trxLastUndoPtr t1) (m_lockResource t1) (m_savepoints t1) of
             (status, sl, locks) \<Rightarrow> (DSTORE_SUCC, t1\<lparr>m_savepoints := sl, m_lockResource := locks\<rparr>)))"

definition SaveExtraResPtrToSavepoint :: "string option \<Rightarrow> uint64 \<Rightarrow> Transaction \<Rightarrow> RetStatus \<times> Transaction" where
  "SaveExtraResPtrToSavepoint name data t =
     (if \<not> IsSavepointExist name (m_savepoints t) then (DSTORE_FAIL, t)
      else case SaveExtraResPtrToSavepoint_list name data (m_savepoints t) of (status, sl) \<Rightarrow> (status, t\<lparr>m_savepoints := sl\<rparr>))"

definition GetExtraResPtrFromSavepoint :: "string option \<Rightarrow> Transaction \<Rightarrow> uint64" where
  "GetExtraResPtrFromSavepoint name t =
     (if \<not> IsSavepointExist name (m_savepoints t) then 0 else GetExtraResPtrFromSavepoint_list name (m_savepoints t))"

definition GetExtraResPtrFromCurrentSavepoint :: "Transaction \<Rightarrow> uint64 option" where
  "GetExtraResPtrFromCurrentSavepoint t =
     (case IsEmpty_savepoints (m_savepoints t) of
        None \<Rightarrow> None
      | Some True \<Rightarrow> Some 0
      | Some False \<Rightarrow> GetExtraResPtrFromCurrentSavepoint_list (m_savepoints t))"

definition ReleaseSavepoint :: "string option \<Rightarrow> counters \<Rightarrow> Transaction \<Rightarrow> (RetStatus \<times> counters \<times> Transaction) option" where
  "ReleaseSavepoint name cnts t =
     (if \<not> IsSavepointExist name (m_savepoints t) then Some (DSTORE_FAIL, cnts, t)
      else do {
        (status, cnts1, sl) \<leftarrow> ReleaseSavepoint_list name cnts (m_savepoints t);
        Some (status, cnts1, t\<lparr>m_savepoints := sl\<rparr>)
      })"

definition RollbackToSavepoint :: "trx_env \<Rightarrow> string option \<Rightarrow> counters \<Rightarrow> Transaction \<Rightarrow> (RetStatus \<times> counters \<times> Transaction) option" where
  "RollbackToSavepoint env name cnts t =
     (if \<not> IsSavepointExist name (m_savepoints t) then Some (DSTORE_FAIL, cnts, t)
      else do {
        (status, calls, cnts1, locks, sl) \<leftarrow>
          RollbackToSavepoint_list (IsValid_xid t) (env_undo_ok env) name cnts (m_lockResource t) (m_savepoints t);
        let t1 = (if status = DSTORE_FAIL then t else log_rollback (m_lastUndoPtr (hd (m_savepointList sl))) calls locks t)
          \<lparr>m_savepoints := sl\<rparr>;
        (if status = DSTORE_FAIL then Some (DSTORE_FAIL, cnts1, t1)
         else if \<not> IsValid_xid t1 then Some (DSTORE_SUCC, cnts1, t1)
         else case env_last_undo env of
           None \<Rightarrow> Some (DSTORE_FAIL, cnts1, t1)
         | Some ptr \<Rightarrow>
             let t2 = t1\<lparr>m_trxLastUndoPtr := ptr\<rparr> in
             Some (DSTORE_SUCC, cnts1,
               if blockState (m_currTransState t2) = TBLOCK_ABORT then set_block TBLOCK_INPROGRESS t2 else t2))
      })"

definition CheckSavepointCounter :: "counters \<Rightarrow> RetStatus \<times> counters" where
  "CheckSavepointCounter cnts =
     (case cnts of
        (Some _, Some _) \<Rightarrow> (DSTORE_SUCC, (Some 0, Some 0))
      | (None, None) \<Rightarrow> (DSTORE_SUCC, cnts)
      | _ \<Rightarrow> (DSTORE_FAIL, cnts))"

subsection \<open>Snapshots and cursors\<close>

definition SetSnapshotCsn :: "trx_env \<Rightarrow> bool \<Rightarrow> Transaction \<Rightarrow> trx_result" where
  "SetSnapshotCsn env useSnapshotNow t =
     (if \<not> InTransaction t then Some (DSTORE_FAIL, SetThrdLocalCsn INVALID_CSN t)
      else if env_standby env
      then Some (DSTORE_SUCC, t\<lparr>m_snapshot := (m_snapshot t)\<lparr>snapshotType := SNAPSHOT_MVCC, snapshotCsn := -1\<rparr>\<rparr>)
      else if useSnapshotNow
      then Some (DSTORE_SUCC, t\<lparr>m_snapshot := (m_snapshot t)\<lparr>snapshotType := SNAPSHOT_NOW\<rparr>\<rparr>)
      else
        let t1 = t\<lparr>m_snapshot := (m_snapshot t)\<lparr>snapshotType := SNAPSHOT_MVCC\<rparr>\<rparr> in
        if GetCsn (m_snapshot t1) \<noteq> INVALID_CSN then Some (DSTORE_SUCC, t1)
        else
          let t2 = SetThrdLocalCsn MAX_COMMITSEQNO t1 in
          case env_next_csn env of
            None \<Rightarrow> Some (DSTORE_FAIL, SetThrdLocalCsn INVALID_CSN t2)
          | Some csn \<Rightarrow>
              let minCursor = GetCursorSnapshotMinCsn (m_cursorSnapshotList t2) in
              if \<not> (minCursor = INVALID_CSN \<or> minCursor \<le> csn) then None
              else
                let t3 = SetThrdLocalCsn (if minCursor = INVALID_CSN then csn else minCursor) t2 in
                Some (DSTORE_SUCC, t3\<lparr>m_snapshot := (m_snapshot t3)\<lparr>snapshotCsn := csn\<rparr>\<rparr>))"

definition SetTransactionSnapshotCid :: "CommandId \<Rightarrow> Transaction \<Rightarrow> RetStatus \<times> Transaction" where
  "SetTransactionSnapshotCid cid t =
     (if \<not> InTransaction t then (DSTORE_FAIL, t)
      else (DSTORE_SUCC, t\<lparr>m_snapshot := (m_snapshot t)\<lparr>currentCid := cid\<rparr>\<rparr>))"

definition SetTransactionSnapshotCsn :: "CommitSeqNo \<Rightarrow> Transaction \<Rightarrow> RetStatus \<times> Transaction" where
  "SetTransactionSnapshotCsn csn t =
     (if \<not> InTransaction t then (DSTORE_FAIL, t)
      else (DSTORE_SUCC, t\<lparr>m_snapshot := (m_snapshot t)\<lparr>snapshotType := SNAPSHOT_MVCC, snapshotCsn := csn\<rparr>\<rparr>))"

definition SetSnapshotCsnForFlashback :: "CommitSeqNo \<Rightarrow> Transaction \<Rightarrow> Transaction option" where
  "SetSnapshotCsnForFlashback csn t =
     (if \<not> DstoreCsnIsValid csn \<or> \<not> InTransaction t \<or> m_isolationLevel t \<noteq> XACT_READ_COMMITTED then None
      else Some (t\<lparr>m_snapshot := (m_snapshot t)\<lparr>snapshotType := SNAPSHOT_MVCC, snapshotCsn := csn\<rparr>\<rparr>))"

definition SetSnapshotCsnForTac :: "CommitSeqNo \<Rightarrow> Transaction \<Rightarrow> Transaction option" where
  "SetSnapshotCsnForTac csn t =
     (if \<not> DstoreCsnIsValid csn \<or> \<not> InTransaction t then None
      else Some (t\<lparr>m_snapshot := (m_snapshot t)\<lparr>snapshotType := SNAPSHOT_MVCC, snapshotCsn := csn\<rparr>\<rparr>))"

definition IsCurrent :: "Xid \<Rightarrow> Transaction \<Rightarrow> bool" where
  "IsCurrent x t \<longleftrightarrow> x \<noteq> INVALID_XID \<and> x = xid (m_currTransState t)"

definition AddCursorSnapshot :: "trx_env \<Rightarrow> string \<Rightarrow> Transaction \<Rightarrow> RetStatus \<times> Transaction" where
  "AddCursorSnapshot env name t =
     (if \<not> InTransaction t then (DSTORE_FAIL, t)
      else case AddCursorSnapshot_list (env_alloc_ok env) (env_name_ok env) name (m_snapshot t) (m_cursorSnapshotList t) of
        (status, cursors) \<Rightarrow> (status, t\<lparr>m_cursorSnapshotList := cursors\<rparr>))"

definition DeleteCursorSnapshot :: "string \<Rightarrow> Transaction \<Rightarrow> RetStatus \<times> Transaction" where
  "DeleteCursorSnapshot name t =
     (case DeleteCursorSnapshot_list name (m_cursorSnapshotList t) of
        (status, cursors) \<Rightarrow> (status, t\<lparr>m_cursorSnapshotList := cursors\<rparr>))"

end
