(* ===== verification/Transaction_Inv.thy ===== *)
theory Transaction_Inv
  imports Lock_Resource_Inv Transaction
begin

text \<open>
  What the operations of a transaction keep. The first part is about the state of the transaction and
  of its block, the stage of an abort, the callbacks fired and the number of active transactions; the
  second about its savepoints and locks. \<open>Transaction_Steps\<close> puts them together for any sequence of
  operations.
\<close>

section \<open>States, callbacks and the number of active transactions\<close>

text \<open>
  A transaction in an idle block is idle itself; in any other block it is running, or its abort got
  as far as the rollback of the slot, which failed and is to be tried again.
\<close>

lemmas trx_updates = set_state_def set_block_def set_stage_def set_xid_def log_action_def FireCallback_def
  AddActiveTransaction_def SubActiveTransaction_def InTransaction_def IsTransactionRunning_def

abbreviation trx_block :: "Transaction \<Rightarrow> TBlockState" where "trx_block t \<equiv> blockState (m_currTransState t)"
abbreviation trx_low :: "Transaction \<Rightarrow> TransState" where "trx_low t \<equiv> trx_state (m_currTransState t)"
abbreviation trx_stage :: "Transaction \<Rightarrow> TransAbortStage" where "trx_stage t \<equiv> abortStage (m_currTransState t)"

text \<open>The running state and the state of an abort to be tried again.\<close>

definition live :: "Transaction \<Rightarrow> bool" where
  "live t \<longleftrightarrow> trx_low t = TRANS_INPROGRESS \<and> trx_stage t = AbortNotStart"

definition aborting :: "Transaction \<Rightarrow> bool" where
  "aborting t \<longleftrightarrow> trx_low t = TRANS_ABORT \<and> trx_stage t = PreAbortDone"

definition state_ok :: "Transaction \<Rightarrow> bool" where
  "state_ok t \<longleftrightarrow> (if trx_block t = TBLOCK_DEFAULT then trx_low t = TRANS_DEFAULT else live t \<or> aborting t)"

abbreviation occurs :: "Transaction \<Rightarrow> trx_action \<Rightarrow> nat" where
  "occurs t a \<equiv> count_list (trx_log t) a"

definition log_ok :: "uint32 \<Rightarrow> Transaction \<Rightarrow> bool" where
  "log_ok n t \<longleftrightarrow>
     (let running = (if trx_block t = TBLOCK_DEFAULT then 0 else 1) in
      occurs t (Fired TRX_EVENT_START) = occurs t (Fired TRX_EVENT_POST_COMMIT) + occurs t (Fired TRX_EVENT_POST_ABORT) + running \<and>
      occurs t (Fired TRX_EVENT_PRE_ABORT) = occurs t (Fired TRX_EVENT_POST_ABORT) + (if trx_low t = TRANS_ABORT then 1 else 0) \<and>
      occurs t (Fired TRX_EVENT_PREROLLBACK_CLEANUP) = occurs t (Fired TRX_EVENT_POST_ABORT) \<and>
      occurs t Active_Added = occurs t Active_Removed + running \<and>
      pdb_activeTransactionNum t = n + word_of_nat running)"

lemma CleanupResource_frame:
  assumes "CleanupResource t = Some t'"
  obtains calls where "m_currTransState t' = m_currTransState t" "trx_log t' = trx_log t @ [Locks_Released calls]"
    "pdb_activeTransactionNum t' = pdb_activeTransactionNum t"
  using assms by (auto simp: CleanupResource_def log_action_def bind_eq_Some_conv)

lemma SetThrdLocalCsn_frame [simp]:
  "m_currTransState (SetThrdLocalCsn c t) = m_currTransState t" "trx_log (SetThrdLocalCsn c t) = trx_log t"
  "pdb_activeTransactionNum (SetThrdLocalCsn c t) = pdb_activeTransactionNum t"
  "m_savepoints (SetThrdLocalCsn c t) = m_savepoints t" "m_lockResource (SetThrdLocalCsn c t) = m_lockResource t"
  "m_innerSavepoint (SetThrdLocalCsn c t) = m_innerSavepoint t"
  by (simp_all add: SetThrdLocalCsn_def)

definition abort_log :: "Transaction \<Rightarrow> trx_action list" where
  "abort_log t = (if live t then [Fired TRX_EVENT_PRE_ABORT] else [])"

lemma abort_start_run:
  assumes "live t \<or> aborting t"
  obtains t1 where "abort_start t = (DSTORE_SUCC, t1)" "trx_stage t1 = PreAbortDone" "trx_block t1 = trx_block t"
    "trx_log t1 = trx_log t @ abort_log t" "pdb_activeTransactionNum t1 = pdb_activeTransactionNum t"
    "xid (m_currTransState t1) = xid (m_currTransState t)"
proof (cases "live t")
  case True
  then show ?thesis using that [of "set_stage PreAbortDone (FireCallback TRX_EVENT_PRE_ABORT t)"]
    by (simp add: abort_start_def live_def abort_log_def trx_updates)
next
  case False
  then show ?thesis using that [of t] assms by (simp add: abort_start_def aborting_def abort_log_def)
qed

lemma abort_record_run:
  assumes "abort_record env t = Some (st, t')" "trx_stage t = PreAbortDone"
  shows "trx_low t' = TRANS_ABORT" "trx_block t' = trx_block t" "pdb_activeTransactionNum t' = pdb_activeTransactionNum t"
    "st = DSTORE_FAIL \<Longrightarrow> trx_stage t' = PreAbortDone \<and> trx_log t' = trx_log t"
    "st = DSTORE_SUCC \<Longrightarrow> trx_stage t' = RecordAbortDone \<and>
      (trx_log t' = trx_log t \<or> trx_log t' = trx_log t @ [Slot_Rolled_Back (xid (m_currTransState t))])"
  using assms by (auto simp: abort_record_def RecordAbort_def trx_updates Let_def split: if_splits)

lemma abort_rest_run:
  assumes "abort_cleanup clean (abort_post t) = Some t3" "trx_stage t = RecordAbortDone" "trx_low t = TRANS_ABORT"
  obtains locks t' where "abort_finish (abort_decrease t3) = (DSTORE_SUCC, t')" "trx_low t' = TRANS_ABORT"
    "trx_block t' = trx_block t" "pdb_activeTransactionNum t' = pdb_activeTransactionNum t - 1"
    "trx_log t' = trx_log t @ [Fired TRX_EVENT_POST_ABORT] @ locks @ [Active_Removed]"
    "locks = [] \<or> (\<exists>calls. locks = [Locks_Released calls])"
proof -
  let ?t2 = "abort_post t"
  have t2: "trx_stage ?t2 = PostAbortDone" "trx_low ?t2 = TRANS_ABORT" "trx_block ?t2 = trx_block t"
    "trx_log ?t2 = trx_log t @ [Fired TRX_EVENT_POST_ABORT]" "pdb_activeTransactionNum ?t2 = pdb_activeTransactionNum t"
    using assms(2,3) by (simp_all add: abort_post_def trx_updates)
  obtain t4 where t4: "(if clean then CleanupResource ?t2 else Some ?t2) = Some t4" "t3 = set_stage CleanUpResourceDone t4"
    using assms(1) t2(1) by (auto simp: abort_cleanup_def bind_eq_Some_conv)
  obtain locks where l: "m_currTransState t4 = m_currTransState ?t2" "trx_log t4 = trx_log ?t2 @ locks"
    "pdb_activeTransactionNum t4 = pdb_activeTransactionNum ?t2" "locks = [] \<or> (\<exists>calls. locks = [Locks_Released calls])"
  proof (cases clean)
    case True
    then have "CleanupResource ?t2 = Some t4" using t4(1) by simp
    then show ?thesis by (rule CleanupResource_frame) (use that in blast)
  next
    case False
    then show ?thesis using t4(1) that [of "[]"] by simp
  qed
  show ?thesis
    by (rule that [of "set_stage DstoreAbortCompleted (set_stage DecreasePdbTransCountDone (SubActiveTransaction t3))" locks])
      (use l t2 t4(2) in \<open>simp_all add: abort_finish_def abort_decrease_def trx_updates\<close>)
qed

lemma AbortInternal_run:
  assumes "AbortInternal env clean t = Some (st, t')" "live t \<or> aborting t"
  shows "trx_block t' = trx_block t" "trx_low t' = TRANS_ABORT"
    "st = DSTORE_FAIL \<Longrightarrow> trx_stage t' = PreAbortDone \<and> pdb_activeTransactionNum t' = pdb_activeTransactionNum t \<and>
      trx_log t' = trx_log t @ abort_log t"
    "st = DSTORE_SUCC \<Longrightarrow> pdb_activeTransactionNum t' = pdb_activeTransactionNum t - 1 \<and>
      (\<exists>slot locks. trx_log t' = trx_log t @ abort_log t @ slot @ [Fired TRX_EVENT_POST_ABORT] @ locks @ [Active_Removed] \<and>
         (slot = [] \<or> slot = [Slot_Rolled_Back (xid (m_currTransState t))]) \<and> (locks = [] \<or> (\<exists>calls. locks = [Locks_Released calls])))"
proof -
  obtain t1 where t1: "abort_start t = (DSTORE_SUCC, t1)" "trx_stage t1 = PreAbortDone" "trx_block t1 = trx_block t"
    "trx_log t1 = trx_log t @ abort_log t" "pdb_activeTransactionNum t1 = pdb_activeTransactionNum t"
    "xid (m_currTransState t1) = xid (m_currTransState t)"
    by (rule abort_start_run [OF assms(2)])
  obtain s2 t2 where t2: "abort_record env t1 = Some (s2, t2)"
    using assms(1) t1(1) by (auto simp: AbortInternal_def bind_eq_Some_conv)
  note r = abort_record_run [OF t2 t1(2)]
  have "trx_block t' = trx_block t \<and> trx_low t' = TRANS_ABORT \<and>
    (st = DSTORE_FAIL \<longrightarrow> trx_stage t' = PreAbortDone \<and> pdb_activeTransactionNum t' = pdb_activeTransactionNum t \<and>
      trx_log t' = trx_log t @ abort_log t) \<and>
    (st = DSTORE_SUCC \<longrightarrow> pdb_activeTransactionNum t' = pdb_activeTransactionNum t - 1 \<and>
      (\<exists>slot locks. trx_log t' = trx_log t @ abort_log t @ slot @ [Fired TRX_EVENT_POST_ABORT] @ locks @ [Active_Removed] \<and>
         (slot = [] \<or> slot = [Slot_Rolled_Back (xid (m_currTransState t))]) \<and> (locks = [] \<or> (\<exists>calls. locks = [Locks_Released calls]))))"
  proof (cases s2)
    case DSTORE_FAIL
    then have "st = DSTORE_FAIL" "t' = t2" using assms(1) t1(1) t2 by (simp_all add: AbortInternal_def)
    then show ?thesis using r t1 DSTORE_FAIL by simp
  next
    case DSTORE_SUCC
    obtain t3 where t3: "abort_cleanup clean (abort_post t2) = Some t3" "(st, t') = abort_finish (abort_decrease t3)"
      using assms(1) t1(1) t2 DSTORE_SUCC by (auto simp: AbortInternal_def bind_eq_Some_conv)
    have stage: "trx_stage t2 = RecordAbortDone" using r(5) DSTORE_SUCC by simp
    obtain slot where slot: "trx_log t2 = trx_log t @ abort_log t @ slot" "slot = [] \<or> slot = [Slot_Rolled_Back (xid (m_currTransState t))]"
      using r(5) [OF DSTORE_SUCC] t1(4,6) by auto
    obtain locks t4 where l: "abort_finish (abort_decrease t3) = (DSTORE_SUCC, t4)" "trx_low t4 = TRANS_ABORT"
      "trx_block t4 = trx_block t2" "pdb_activeTransactionNum t4 = pdb_activeTransactionNum t2 - 1"
      "trx_log t4 = trx_log t2 @ [Fired TRX_EVENT_POST_ABORT] @ locks @ [Active_Removed]"
      "locks = [] \<or> (\<exists>calls. locks = [Locks_Released calls])"
      by (rule abort_rest_run [OF t3(1) stage r(1)])
    have "trx_log t' = trx_log t @ abort_log t @ slot @ [Fired TRX_EVENT_POST_ABORT] @ locks @ [Active_Removed]"
      using l(1,5) t3(2) slot(1) by simp
    then show ?thesis using l t3(2) r(2,3) t1(3,5) slot(2) by auto
  qed
  then show "trx_block t' = trx_block t" "trx_low t' = TRANS_ABORT"
    "st = DSTORE_FAIL \<Longrightarrow> trx_stage t' = PreAbortDone \<and> pdb_activeTransactionNum t' = pdb_activeTransactionNum t \<and>
      trx_log t' = trx_log t @ abort_log t"
    "st = DSTORE_SUCC \<Longrightarrow> pdb_activeTransactionNum t' = pdb_activeTransactionNum t - 1 \<and>
      (\<exists>slot locks. trx_log t' = trx_log t @ abort_log t @ slot @ [Fired TRX_EVENT_POST_ABORT] @ locks @ [Active_Removed] \<and>
         (slot = [] \<or> slot = [Slot_Rolled_Back (xid (m_currTransState t))]) \<and> (locks = [] \<or> (\<exists>calls. locks = [Locks_Released calls])))"
    by blast+
qed

subsection \<open>Operations that change neither state nor callbacks\<close>

text \<open>Steps that leave the states, the stage and the tracked actions alone.\<close>

definition tracked :: "trx_action list" where
  "tracked = [Fired TRX_EVENT_START, Fired TRX_EVENT_POST_COMMIT, Fired TRX_EVENT_PRE_ABORT, Fired TRX_EVENT_POST_ABORT,
     Fired TRX_EVENT_PREROLLBACK_CLEANUP, Active_Added, Active_Removed]"

definition quiet :: "Transaction \<Rightarrow> Transaction \<Rightarrow> bool" where
  "quiet t t' \<longleftrightarrow> trx_low t' = trx_low t \<and> trx_block t' = trx_block t \<and> trx_stage t' = trx_stage t \<and>
     pdb_activeTransactionNum t' = pdb_activeTransactionNum t \<and> (\<forall>a \<in> set tracked. occurs t' a = occurs t a)"

lemma quiet_refl [simp]: "quiet t t"
  by (simp add: quiet_def)

lemma quiet_keeps: "quiet t t' \<Longrightarrow> state_ok t \<Longrightarrow> log_ok n t \<Longrightarrow> state_ok t' \<and> log_ok n t'"
  by (auto simp: quiet_def state_ok_def log_ok_def live_def aborting_def tracked_def Let_def)

lemma quiet_trans: "quiet t t' \<Longrightarrow> quiet t' t'' \<Longrightarrow> quiet t t''"
  by (simp add: quiet_def)

lemma quietI:
  assumes "trx_low t' = trx_low t" "trx_block t' = trx_block t" "trx_stage t' = trx_stage t"
    "pdb_activeTransactionNum t' = pdb_activeTransactionNum t" "trx_log t' = trx_log t @ xs" "set xs \<inter> set tracked = {}"
  shows "quiet t t'"
proof -
  have "count_list xs a = 0" if "a \<in> set tracked" for a using that assms(6) by (auto simp: count_list_0_iff)
  then show ?thesis using assms(1-5) by (simp add: quiet_def)
qed

lemma set_block_keeps:
  assumes "state_ok t" "log_ok n t" "trx_block t \<noteq> TBLOCK_DEFAULT" "b \<noteq> TBLOCK_DEFAULT"
  shows "state_ok (set_block b t)" "log_ok n (set_block b t)"
  using assms by (simp_all add: state_ok_def log_ok_def live_def aborting_def set_block_def Let_def)

lemma running_state:
  assumes "state_ok t" "trx_block t \<noteq> TBLOCK_DEFAULT"
  shows "live t \<or> aborting t"
  using assms by (simp add: state_ok_def)

lemma abort_and_leave_keeps:
  assumes "abort_and_leave env clean t = Some (st, t')" "state_ok t" "log_ok n t" "trx_block t \<noteq> TBLOCK_DEFAULT"
  shows "state_ok t'" "log_ok n t'" "st = DSTORE_SUCC \<longleftrightarrow> trx_block t' = TBLOCK_DEFAULT"
    "trx_block t' \<noteq> TBLOCK_DEFAULT \<Longrightarrow> trx_block t' = trx_block t"
proof -
  obtain s1 t1 where r: "AbortInternal env clean t = Some (s1, t1)"
    and t': "(st, t') = (if s1 = DSTORE_FAIL then (DSTORE_FAIL, t1) else (case Cleanup t1 of (s2, t2) \<Rightarrow> (s2, set_block TBLOCK_DEFAULT t2)))"
    using assms(1) by (auto simp: abort_and_leave_def bind_eq_Some_conv Let_def split: if_splits prod.splits)
  note run = running_state [OF assms(2,4)]
  note a = AbortInternal_run [OF r run]
  have b: "trx_block t1 \<noteq> TBLOCK_DEFAULT" using a(1) assms(4) by simp
  have pre: "occurs t (Fired TRX_EVENT_PRE_ABORT) + count_list (abort_log t) (Fired TRX_EVENT_PRE_ABORT) = occurs t (Fired TRX_EVENT_POST_ABORT) + 1"
    using assms(3) run by (auto simp: log_ok_def abort_log_def live_def aborting_def Let_def)
  have other: "count_list (abort_log t) x = 0" if "x \<noteq> Fired TRX_EVENT_PRE_ABORT" for x using that by (simp add: abort_log_def)
  have "state_ok t' \<and> log_ok n t' \<and> (st = DSTORE_SUCC \<longleftrightarrow> trx_block t' = TBLOCK_DEFAULT) \<and>
    (trx_block t' \<noteq> TBLOCK_DEFAULT \<longrightarrow> trx_block t' = trx_block t)"
  proof (cases s1)
    case DSTORE_FAIL
    then show ?thesis using t' a b assms(3,4) pre other by (auto simp: state_ok_def log_ok_def aborting_def Let_def)
  next
    case DSTORE_SUCC
    then obtain slot locks where l: "trx_log t1 = trx_log t @ abort_log t @ slot @ [Fired TRX_EVENT_POST_ABORT] @ locks @ [Active_Removed]"
      "slot = [] \<or> slot = [Slot_Rolled_Back (xid (m_currTransState t))]" "locks = [] \<or> (\<exists>calls. locks = [Locks_Released calls])"
      "pdb_activeTransactionNum t1 = pdb_activeTransactionNum t - 1" using a(4) by blast
    have st: "st = DSTORE_SUCC" "t' = set_block TBLOCK_DEFAULT (set_state TRANS_DEFAULT (set_xid INVALID_XID (FireCallback TRX_EVENT_PREROLLBACK_CLEANUP t1)))"
      using t' DSTORE_SUCC a(2) by (simp_all add: Cleanup_def)
    have z: "count_list slot (Fired e) = 0" "count_list locks (Fired e) = 0" "count_list slot Active_Removed = 0"
      "count_list locks Active_Removed = 0" "count_list slot Active_Added = 0" "count_list locks Active_Added = 0" for e
      using l(2,3) by auto
    show ?thesis using st l(1,4) assms(3,4) pre other z by (auto simp: state_ok_def log_ok_def trx_updates Let_def)
  qed
  then show "state_ok t'" "log_ok n t'" "st = DSTORE_SUCC \<longleftrightarrow> trx_block t' = TBLOCK_DEFAULT"
    "trx_block t' \<noteq> TBLOCK_DEFAULT \<Longrightarrow> trx_block t' = trx_block t" by blast+
qed

lemma commit_and_leave_keeps:
  assumes "commit_and_leave env clean t = Some (st, t')" "live t" "log_ok n t" "trx_block t \<noteq> TBLOCK_DEFAULT"
  shows "state_ok t'" "log_ok n t'" "trx_block t' = TBLOCK_DEFAULT"
proof -
  obtain t1 where c: "CommitInternal env clean t = Some (st, t1)" and t': "t' = set_block TBLOCK_DEFAULT t1"
    using assms(1) by (auto simp: commit_and_leave_def bind_eq_Some_conv)
  have inT: "InTransaction t" using assms(2) by (simp add: live_def InTransaction_def)
  obtain t2 where t2: "RecordCommit env (set_state TRANS_COMMIT (FireCallback TRX_EVENT_PRE_COMMIT t)) = Some (st, t2)"
    and rest: "Option.bind (let t2 = (SetThrdLocalCsn INVALID_CSN t2)\<lparr>thrd_localXid := INVALID_XID\<rparr>; t3 = FireCallback TRX_EVENT_POST_COMMIT (set_xid INVALID_XID t2)
        in (if clean then CleanupResource t3 else Some t3)) (\<lambda>t4. Some (SubActiveTransaction (set_state TRANS_DEFAULT t4))) = Some t1"
    using c inT by (auto simp: CommitInternal_def bind_eq_Some_conv Let_def)
  have r: "pdb_activeTransactionNum t2 = pdb_activeTransactionNum t"
    "trx_log t2 = trx_log t @ [Fired TRX_EVENT_PRE_COMMIT] \<or> trx_log t2 = trx_log t @ [Fired TRX_EVENT_PRE_COMMIT, Slot_Committed (xid (m_currTransState t))]"
    using t2 by (auto simp: RecordCommit_def trx_updates IsValid_xid_def split: if_splits)
  let ?t3 = "FireCallback TRX_EVENT_POST_COMMIT (set_xid INVALID_XID ((SetThrdLocalCsn INVALID_CSN t2)\<lparr>thrd_localXid := INVALID_XID\<rparr>))"
  obtain t4 where t4: "(if clean then CleanupResource ?t3 else Some ?t3) = Some t4" "t1 = SubActiveTransaction (set_state TRANS_DEFAULT t4)"
    using rest by (auto simp: bind_eq_Some_conv Let_def)
  obtain locks where l: "trx_log t4 = trx_log ?t3 @ locks" "pdb_activeTransactionNum t4 = pdb_activeTransactionNum ?t3"
    "locks = [] \<or> (\<exists>calls. locks = [Locks_Released calls])"
  proof (cases clean)
    case True
    then have "CleanupResource ?t3 = Some t4" using t4(1) by simp
    then show ?thesis by (rule CleanupResource_frame) (use that in blast)
  qed (use t4(1) that [of "[]"] in simp)
  show "trx_block t' = TBLOCK_DEFAULT" "state_ok t'" using t' t4(2) by (simp_all add: state_ok_def trx_updates)
  show "log_ok n t'"
    using t' t4(2) l r assms(2-4) by (auto simp: log_ok_def live_def trx_updates Let_def)
qed

subsection \<open>Start, commit and abort\<close>

lemma reset_snapshot_quiet: "quiet t (reset_snapshot t)"
  by (rule quietI [where xs = "[]"]) (simp_all add: reset_snapshot_def Let_def)

lemma StartInternal_keeps:
  assumes "StartInternal env t = Some (st, t')" "state_ok t" "log_ok n t" "trx_block t = TBLOCK_DEFAULT" "\<not> env_disabled_inside env"
  shows "st = DSTORE_SUCC" "state_ok (set_block TBLOCK_STARTED t')" "log_ok n (set_block TBLOCK_STARTED t')"
proof -
  have t': "st = DSTORE_SUCC" "t' = set_state TRANS_INPROGRESS ((SetThrdLocalCsn INVALID_CSN (FireCallback TRX_EVENT_START
      (set_state TRANS_START (InitInfoForNewTrx (AddActiveTransaction t)))))\<lparr>thrd_localXid := INVALID_XID\<rparr>)"
    using assms(1,5) by (auto simp: StartInternal_def Let_def split: if_splits)
  then show "st = DSTORE_SUCC" "state_ok (set_block TBLOCK_STARTED t')"
    by (simp_all add: state_ok_def live_def trx_updates InitInfoForNewTrx_def)
  have "trx_low t = TRANS_DEFAULT" using assms(2,4) by (simp add: state_ok_def)
  then show "log_ok n (set_block TBLOCK_STARTED t')"
    using t' assms(3,4) by (simp add: log_ok_def trx_updates InitInfoForNewTrx_def Let_def)
qed

lemma create_inner_quiet: "quiet t (snd (create_inner_savepoint env t))"
  by (rule quietI [where xs = "[]"]) (simp_all add: create_inner_savepoint_def split: prod.splits)

lemma Start_keeps:
  assumes "Start env t = Some (st, t')" "state_ok t" "log_ok n t" "env_disabled_inside env \<longrightarrow> env_disabled_at_start env"
  shows "state_ok t' \<and> log_ok n t'"
proof (cases "env_disabled_at_start env")
  case True
  then show ?thesis using assms by (simp add: Start_def)
next
  case False
  let ?t0 = "reset_snapshot t"
  have t0: "state_ok ?t0" "log_ok n ?t0" "trx_block ?t0 = trx_block t"
    using quiet_keeps [OF reset_snapshot_quiet assms(2,3)] reset_snapshot_quiet [of t] by (simp_all add: quiet_def)
  consider (idle) "trx_block t = TBLOCK_DEFAULT" | (block) "trx_block t = TBLOCK_INPROGRESS"
    | (rest) "trx_block t \<noteq> TBLOCK_DEFAULT" "trx_block t \<noteq> TBLOCK_INPROGRESS" by blast
  then show ?thesis
  proof cases
    case idle
    then obtain s1 t1 where s: "StartInternal env ?t0 = Some (s1, t1)"
      and t': "t' = (if s1 = DSTORE_SUCC \<or> IsTransactionRunning t1 then set_block TBLOCK_STARTED t1 else t1)"
      using assms(1) False t0(3) by (auto simp: Start_def Let_def bind_eq_Some_conv)
    show ?thesis using StartInternal_keeps [OF s t0(1,2)] t' idle t0(3) False assms(4) by auto
  next
    case block
    then have "t' = snd (create_inner_savepoint env ?t0)" using assms(1) False t0(3) by (simp add: Start_def Let_def)
    then show ?thesis using quiet_keeps [OF create_inner_quiet t0(1,2)] by simp
  next
    case rest
    then have "t' = ?t0" using assms(1) False t0(3) by (auto simp: Start_def Let_def split: TBlockState.splits)
    then show ?thesis using t0 by simp
  qed
qed

text \<open>
  A commit is not allowed after an abort of the same transaction has failed half-way: its error path
  would count the transaction out a second time.
\<close>

definition commit_allowed :: "Transaction \<Rightarrow> bool" where
  "commit_allowed t \<longleftrightarrow> (trx_block t = TBLOCK_STARTED \<or> trx_block t = TBLOCK_END \<longrightarrow> trx_stage t = AbortNotStart)"

lemma commit_in_block_quiet:
  "IncreaseCommandCounter (t\<lparr>m_innerSavepoint := sp\<rparr>) = Some t' \<Longrightarrow> quiet t t'"
  by (rule quietI [where xs = "[]"]) (auto simp: IncreaseCommandCounter_def Let_def split: if_splits)

lemma Commit_keeps:
  assumes "Commit env clean t = Some (st, t')" "state_ok t" "log_ok n t" "commit_allowed t"
  shows "state_ok t' \<and> log_ok n t'"
proof -
  let ?t0 = "reset_snapshot t"
  have q: "quiet t ?t0" by (rule reset_snapshot_quiet)
  have t0: "state_ok ?t0" "log_ok n ?t0" "trx_block ?t0 = trx_block t" "trx_stage ?t0 = trx_stage t"
    using quiet_keeps [OF q assms(2,3)] q by (simp_all add: quiet_def)
  have lv: "live ?t0" if "trx_block t = TBLOCK_STARTED \<or> trx_block t = TBLOCK_END"
    using that t0 assms(4) by (auto simp: state_ok_def commit_allowed_def live_def aborting_def)
  show ?thesis
  proof (cases "trx_block t")
    case TBLOCK_STARTED
    then have "commit_and_leave env clean ?t0 = Some (st, t')" using assms(1) t0(3) by (simp add: Commit_def Let_def)
    from commit_and_leave_keeps [OF this _ t0(2)] show ?thesis using TBLOCK_STARTED lv t0(3) by simp
  next
    case TBLOCK_END
    then have "commit_and_leave env clean ?t0 = Some (st, t')" using assms(1) t0(3) by (simp add: Commit_def Let_def)
    from commit_and_leave_keeps [OF this _ t0(2)] show ?thesis using TBLOCK_END lv t0(3) by simp
  next
    case TBLOCK_ABORT_END
    then have "abort_and_leave env clean ?t0 = Some (st, t')" using assms(1) t0(3) by (simp add: Commit_def Let_def)
    from abort_and_leave_keeps(1,2) [OF this t0(1,2)] show ?thesis using TBLOCK_ABORT_END t0(3) by simp
  next
    case TBLOCK_ABORT_PENDING
    then have "abort_and_leave env clean ?t0 = Some (st, t')" using assms(1) t0(3) by (simp add: Commit_def Let_def)
    from abort_and_leave_keeps(1,2) [OF this t0(1,2)] show ?thesis using TBLOCK_ABORT_PENDING t0(3) by simp
  next
    case TBLOCK_BEGIN
    then have "t' = set_block TBLOCK_INPROGRESS ?t0" using assms(1) t0(3) by (simp add: Commit_def Let_def)
    then show ?thesis using set_block_keeps [OF t0(1,2), of TBLOCK_INPROGRESS] t0(3) TBLOCK_BEGIN by simp
  next
    case TBLOCK_INPROGRESS
    then have "quiet ?t0 t'" using assms(1) t0(3) commit_in_block_quiet [of "Savepoint_Release (m_innerSavepoint ?t0)" ?t0 t']
      by (auto simp: Commit_def Let_def bind_eq_Some_conv)
    then show ?thesis using quiet_keeps t0(1,2) by blast
  qed (use assms(1) t0 in \<open>simp_all add: Commit_def Let_def\<close>)
qed

lemma post_terminate_quiet: "quiet t (post_terminate b t)"
  by (rule quietI [where xs = "if b then [Fired TRX_EVENT_POST_TERMINATE] else []"])
    (simp_all add: post_terminate_def trx_updates tracked_def)

lemma abort_idle_keeps:
  assumes "abort_idle env clean t = Some (st, t')" "state_ok t" "trx_block t = TBLOCK_DEFAULT"
  shows "t' = t"
  using assms by (auto simp: abort_idle_def state_ok_def split: if_splits)

lemma Abort_keeps:
  assumes "Abort env stop clean t = Some (st, t')" "state_ok t" "log_ok n t"
  shows "state_ok t' \<and> log_ok n t'"
proof -
  let ?p = "post_terminate stop t"
  have q: "quiet t ?p" by (rule post_terminate_quiet)
  have p: "state_ok ?p" "log_ok n ?p" "trx_block ?p = trx_block t" using quiet_keeps [OF q assms(2,3)] q by (simp_all add: quiet_def)
  have left: "state_ok t' \<and> log_ok n t'" if "trx_block t \<noteq> TBLOCK_DEFAULT"
    "abort_and_leave env clean ?p = Some (st, t') \<or> abort_and_leave env clean t = Some (st, t')"
    using that abort_and_leave_keeps(1,2) [of env clean ?p st t' n] abort_and_leave_keeps(1,2) [of env clean t st t' n] p assms(2,3) by auto
  consider (idle) "trx_block t = TBLOCK_DEFAULT" | (block) "trx_block t = TBLOCK_INPROGRESS" "\<not> stop"
    | (failed) "trx_block t = TBLOCK_ABORT" "\<not> stop"
    | (leave) "trx_block t \<noteq> TBLOCK_DEFAULT" "abort_and_leave env clean ?p = Some (st, t') \<or> abort_and_leave env clean t = Some (st, t')"
    using assms(1) by (cases "trx_block t"; cases "stop") (auto simp: Abort_def post_terminate_def)
  then show ?thesis
  proof cases
    case idle
    then have "abort_idle env clean ?p = Some (st, t')" using assms(1) by (simp add: Abort_def)
    from abort_idle_keeps [OF this p(1)] show ?thesis using p idle by simp
  next
    case block
    then have "t' = set_block TBLOCK_ABORT t" using assms(1) by (simp add: Abort_def)
    then show ?thesis using set_block_keeps [OF assms(2,3)] block by simp
  next
    case failed
    then show ?thesis using assms by (simp add: Abort_def)
  next
    case leave
    then show ?thesis by (rule left)
  qed
qed

section \<open>Savepoints and locks\<close>

text \<open>
  The level counts the savepoints, and each savepoint starts later than the ones below it in the
  list. \<open>room\<close> says that the number given to the next locks does not wrap around.
\<close>

definition sp_ok :: "SavepointList \<Rightarrow> LockResource \<Rightarrow> bool" where
  "sp_ok sl l \<longleftrightarrow> res_ok l \<and> m_nestLevel sl = word_of_nat (length (m_savepointList sl)) \<and>
     sorted_wrt (>) (map m_lastLockPos (m_savepointList sl)) \<and>
     (\<forall>sp \<in> set (m_savepointList sl). m_lastLockPos sp \<le> m_subLockResId l)"

abbreviation res_inv :: "Transaction \<Rightarrow> bool" where
  "res_inv t \<equiv> sp_ok (m_savepoints t) (m_lockResource t)"

definition room :: "LockResource \<Rightarrow> bool" where
  "room l \<longleftrightarrow> unat (m_subLockResId l) + 1 < 2 ^ 32"

lemma res_ok_next_id:
  assumes "res_ok l" "room l"
  shows "res_ok (l\<lparr>m_subLockResId := m_subLockResId l + 1\<rparr>)" "m_subLockResId l < m_subLockResId l + 1"
proof -
  have "unat (m_subLockResId l + 1) = unat (m_subLockResId l) + 1" using assms(2) by (simp add: room_def unat_plus_one)
  then show lt: "m_subLockResId l < m_subLockResId l + 1" by (simp add: word_less_nat_alt)
  show "res_ok (l\<lparr>m_subLockResId := m_subLockResId l + 1\<rparr>)"
    using assms(1) lt by (auto simp: res_ok_def entry_ok_def dest!: bspec intro: order.trans [OF _ less_imp_le])
qed

lemma sp_ok_locks:
  assumes "sp_ok sl l" "res_ok l'" "m_subLockResId l \<le> m_subLockResId l'"
  shows "sp_ok sl l'"
  using assms by (auto simp: sp_ok_def intro: order.trans)

lemma Savepoint_Create_locks:
  assumes "Savepoint_Create ok name ptr l sp = (st, sp', l')"
  shows "l' = l\<lparr>m_subLockResId := m_subLockResId l + 1\<rparr>" "m_lastLockPos sp' = m_subLockResId l + 1" "m_lastUndoPtr sp' = ptr"
    "name = None \<or> ok \<longleftrightarrow> st = DSTORE_SUCC" "st = DSTORE_SUCC \<Longrightarrow> name \<noteq> None \<Longrightarrow> m_name sp' = name" "name = None \<Longrightarrow> m_name sp' = m_name sp"
  using assms by (auto simp: Savepoint_Create_def GenerateSubLockResourceID_def Let_def split: option.splits if_splits)

lemma AddSavepoint_ok:
  assumes "sp_ok sl l" "room l" "AddSavepoint aok nok name ptr l sl = (st, sl', l')"
  shows "sp_ok sl' l'" "st = DSTORE_FAIL \<Longrightarrow> sl' = sl" "l' = l \<or> l' = l\<lparr>m_subLockResId := m_subLockResId l + 1\<rparr>"
    "st = DSTORE_SUCC \<Longrightarrow> \<exists>sp. m_savepointList sl' = sp # m_savepointList sl \<and> m_name sp = name \<and> m_lastUndoPtr sp = ptr \<and>
      m_lastLockPos sp = m_subLockResId l + 1 \<and> l' = l\<lparr>m_subLockResId := m_subLockResId l + 1\<rparr>"
proof -
  obtain s sp l1 where c: "Savepoint_Create nok name ptr l Savepoint_new = (s, sp, l1)" by (metis prod_cases3)
  note k = Savepoint_Create_locks [OF c]
  note id = res_ok_next_id [OF _ assms(2)]
  have res: "res_ok l1" "m_subLockResId l < m_subLockResId l1" using id k(1) assms(1) by (simp_all add: sp_ok_def)
  have "sp_ok sl' l' \<and> (st = DSTORE_FAIL \<longrightarrow> sl' = sl) \<and> (l' = l \<or> l' = l\<lparr>m_subLockResId := m_subLockResId l + 1\<rparr>) \<and>
    (st = DSTORE_SUCC \<longrightarrow> (\<exists>sp. m_savepointList sl' = sp # m_savepointList sl \<and> m_name sp = name \<and> m_lastUndoPtr sp = ptr \<and>
      m_lastLockPos sp = m_subLockResId l + 1 \<and> l' = l\<lparr>m_subLockResId := m_subLockResId l + 1\<rparr>))"
  proof (cases "aok \<and> s = DSTORE_SUCC")
    case True
    then have r: "st = DSTORE_SUCC" "l' = l1" "sl' = sl\<lparr>m_savepointList := sp # m_savepointList sl, m_nestLevel := m_nestLevel sl + 1\<rparr>"
      using assms(3) c by (simp_all add: AddSavepoint_def)
    have "\<forall>x \<in> set (m_savepointList sl). m_lastLockPos x < m_lastLockPos sp"
      using assms(1) res(2) k(1,2) by (auto simp: sp_ok_def)
    then have "sp_ok sl' l'" using assms(1) r res k(1,2) by (auto simp: sp_ok_def)
    moreover have "m_name sp = name" using k(5,6) True by (cases name) (auto simp: Savepoint_new_def)
    ultimately show ?thesis using r k by auto
  next
    case False
    then have "st = DSTORE_FAIL" "sl' = sl" "l' = l \<or> l' = l1"
      using assms(3) c by (auto simp: AddSavepoint_def split: if_splits RetStatus.splits)
    then show ?thesis using assms(1) sp_ok_locks [OF assms(1) res(1)] res(2) k(1) by auto
  qed
  then show "sp_ok sl' l'" "st = DSTORE_FAIL \<Longrightarrow> sl' = sl" "l' = l \<or> l' = l\<lparr>m_subLockResId := m_subLockResId l + 1\<rparr>"
    "st = DSTORE_SUCC \<Longrightarrow> \<exists>sp. m_savepointList sl' = sp # m_savepointList sl \<and> m_name sp = name \<and> m_lastUndoPtr sp = ptr \<and>
      m_lastLockPos sp = m_subLockResId l + 1 \<and> l' = l\<lparr>m_subLockResId := m_subLockResId l + 1\<rparr>" by blast+
qed

lemma list_ex_split:
  assumes "list_ex P xs"
  obtains ys x zs where "xs = ys @ x # zs" "P x" "\<forall>y \<in> set ys. \<not> P y"
  using assms split_list_first_prop [of xs P] by (auto simp: list_ex_iff)

lemma release_savepoints_run:
  "P = HasSameName name \<Longrightarrow> P sp \<Longrightarrow> \<forall>y \<in> set ys. \<not> P y \<Longrightarrow>
   release_savepoints name cnts (ys @ sp # zs) level =
     Some (fold count_savepoint (ys @ [sp]) cnts, zs, level - word_of_nat (Suc (length ys)))"
  by (induction ys arbitrary: cnts level) (simp_all add: Let_def algebra_simps)

lemma skip_savepoints_run:
  "P = HasSameName name \<Longrightarrow> P sp \<Longrightarrow> \<forall>y \<in> set ys. \<not> P y \<Longrightarrow>
   skip_savepoints name cnts (ys @ sp # zs) level =
     Some (sp, fold count_savepoint ys cnts, sp # zs, level - word_of_nat (length ys))"
  by (induction ys arbitrary: cnts level) (simp_all add: algebra_simps)

lemma ReleaseSavepoint_list_run:
  assumes "m_savepointList sl = ys @ sp # zs" "HasSameName name sp" "\<forall>y \<in> set ys. \<not> HasSameName name y"
  shows "ReleaseSavepoint_list name cnts sl = Some (DSTORE_SUCC, fold count_savepoint (ys @ [sp]) cnts,
      sl\<lparr>m_savepointList := zs, m_nestLevel := m_nestLevel sl - word_of_nat (Suc (length ys))\<rparr>)"
  using assms release_savepoints_run [OF refl assms(2,3)] by (simp add: ReleaseSavepoint_list_def IsSavepointExist_def)

lemma RollbackToSavepoint_list_run:
  assumes "m_savepointList sl = ys @ sp # zs" "HasSameName name sp" "\<forall>y \<in> set ys. \<not> HasSameName name y"
  shows "RollbackToSavepoint_list valid uok name cnts l sl =
    map_option (\<lambda>(st, calls, l1). (st, calls, fold count_savepoint ys cnts, l1,
      sl\<lparr>m_savepointList := sp # zs, m_nestLevel := m_nestLevel sl - word_of_nat (length ys)\<rparr>)) (Savepoint_Rollback valid uok l sp)"
  using assms skip_savepoints_run [OF refl assms(2,3)]
  by (auto simp: RollbackToSavepoint_list_def IsSavepointExist_def split: option.splits bind_splits)

lemma sp_ok_suffix:
  assumes "sp_ok sl l" "m_savepointList sl = ys @ zs"
  shows "sp_ok (sl\<lparr>m_savepointList := zs, m_nestLevel := m_nestLevel sl - word_of_nat (length ys)\<rparr>) l"
  using assms by (auto simp: sp_ok_def sorted_wrt_append)

lemma Savepoint_Rollback_run:
  assumes "res_ok l" "valid \<longrightarrow> uok (m_lastUndoPtr sp)"
  obtains calls l' where "Savepoint_Rollback valid uok l sp = Some (DSTORE_SUCC, calls, l')" "res_ok l'"
    "m_subLockResId l' = m_subLockResId l"
    "held l' = (\<lambda>tag. filter (\<lambda>e. \<not> m_lastLockPos sp \<le> fst e) (held l tag))"
    "released calls = (\<lambda>tag. stack_cnt (filter (\<lambda>e. m_lastLockPos sp \<le> fst e) (held l tag)))"
proof -
  obtain calls l' where "ReleaseLocksAcquiredAfter (m_lastLockPos sp) l = Some (calls, l')" "res_ok l'" "m_subLockResId l' = m_subLockResId l"
    "held l' = (\<lambda>tag. filter (\<lambda>e. \<not> m_lastLockPos sp \<le> fst e) (held l tag))"
    "released calls = (\<lambda>tag. stack_cnt (filter (\<lambda>e. m_lastLockPos sp \<le> fst e) (held l tag)))"
    by (rule ReleaseLocksAcquiredAfter_ok [OF assms(1)])
  then show ?thesis using that [of calls l'] assms(2) by (auto simp: Savepoint_Rollback_def)
qed

lemma Savepoint_Rollback_undone:
  "Savepoint_Rollback valid uok l sp \<noteq> None \<Longrightarrow> valid \<longrightarrow> uok (m_lastUndoPtr sp)"
  by (auto simp: Savepoint_Rollback_def split: if_splits)

lemma CleanupResource_run:
  assumes "res_inv t"
  obtains calls t' where "CleanupResource t = Some t'" "m_savepoints t' = SavepointList_Init" "m_lockResource t' = LockResource_new"
    "m_cursorSnapshotList t' = []" "trx_log t' = trx_log t @ [Locks_Released calls]" "released calls = (\<lambda>tag. stack_cnt (held (m_lockResource t) tag))"
    "thrd_localCsn t' = thrd_localCsn t" "m_currTransState t' = m_currTransState t"
proof -
  have del: "delete_savepoints sps level = level - word_of_nat (length sps)" for sps level
    by (induction sps arbitrary: level) simp_all
  have sl: "DeleteAll_savepoints (m_savepoints t) = Some SavepointList_Init"
    using assms by (simp add: DeleteAll_savepoints_def sp_ok_def del SavepointList_Init_def)
  have "res_ok (m_lockResource t)" using assms by (simp add: sp_ok_def)
  then obtain calls where "ReleaseAllLocks (m_lockResource t) = Some (calls, LockResource_new)"
    "released calls = (\<lambda>tag. stack_cnt (held (m_lockResource t) tag))" using ReleaseAllLocks_ok by blast
  then show ?thesis using that [of _ calls] sl by (simp add: CleanupResource_def log_action_def)
qed

lemma fresh_resources: "sp_ok SavepointList_Init LockResource_new"
  by (simp add: sp_ok_def SavepointList_Init_def LockResource_new_def res_ok_def)

definition same_res :: "Transaction \<Rightarrow> Transaction \<Rightarrow> bool" where
  "same_res t t' \<longleftrightarrow> m_savepoints t' = m_savepoints t \<and> m_lockResource t' = m_lockResource t"

lemma update_res [simp]:
  "m_savepoints (set_state s t) = m_savepoints t" "m_lockResource (set_state s t) = m_lockResource t"
  "m_savepoints (set_block b t) = m_savepoints t" "m_lockResource (set_block b t) = m_lockResource t"
  "m_savepoints (set_stage g t) = m_savepoints t" "m_lockResource (set_stage g t) = m_lockResource t"
  "m_savepoints (set_xid x t) = m_savepoints t" "m_lockResource (set_xid x t) = m_lockResource t"
  "m_savepoints (log_action a t) = m_savepoints t" "m_lockResource (log_action a t) = m_lockResource t"
  "m_savepoints (FireCallback e t) = m_savepoints t" "m_lockResource (FireCallback e t) = m_lockResource t"
  "m_savepoints (AddActiveTransaction t) = m_savepoints t" "m_lockResource (AddActiveTransaction t) = m_lockResource t"
  "m_savepoints (SubActiveTransaction t) = m_savepoints t" "m_lockResource (SubActiveTransaction t) = m_lockResource t"
  "m_savepoints (InitInfoForNewTrx t) = m_savepoints t" "m_lockResource (InitInfoForNewTrx t) = m_lockResource t"
  "m_savepoints (reset_snapshot t) = m_savepoints t" "m_lockResource (reset_snapshot t) = m_lockResource t"
  "m_savepoints (post_terminate c t) = m_savepoints t" "m_lockResource (post_terminate c t) = m_lockResource t"
  by (simp_all add: trx_updates InitInfoForNewTrx_def reset_snapshot_def post_terminate_def Let_def)

lemma CleanupResource_res:
  assumes "CleanupResource t = Some t'" "res_inv t"
  shows "m_savepoints t' = SavepointList_Init" "m_lockResource t' = LockResource_new"
proof -
  obtain t2 where "CleanupResource t = Some t2" "m_savepoints t2 = SavepointList_Init" "m_lockResource t2 = LockResource_new"
    by (rule CleanupResource_run [OF assms(2)])
  then show "m_savepoints t' = SavepointList_Init" "m_lockResource t' = LockResource_new" using assms(1) by auto
qed

text \<open>An operation either leaves the resources alone or releases all of them.\<close>

definition res_step :: "Transaction \<Rightarrow> Transaction \<Rightarrow> bool" where
  "res_step t t' \<longleftrightarrow> same_res t t' \<or> m_savepoints t' = SavepointList_Init \<and> m_lockResource t' = LockResource_new"

lemma res_step_inv: "res_step t t' \<Longrightarrow> res_inv t \<Longrightarrow> res_inv t'"
  by (auto simp: res_step_def same_res_def fresh_resources)

lemma same_res_step: "same_res t t1 \<Longrightarrow> res_step t1 t2 \<Longrightarrow> res_step t t2"
  by (simp add: same_res_def res_step_def)

lemma abort_record_res: "abort_record env t = Some (st, t') \<Longrightarrow> same_res t t'"
  by (auto simp: abort_record_def RecordAbort_def same_res_def Let_def split: if_splits)

lemma abort_cleanup_res:
  assumes "abort_cleanup clean t = Some t'" "res_inv t"
  shows "res_step t t'"
  using assms CleanupResource_res [of t]
  by (auto simp: abort_cleanup_def res_step_def same_res_def bind_eq_Some_conv split: if_splits)

lemma AbortInternal_res:
  assumes "AbortInternal env clean t = Some (st, t')" "res_inv t"
  shows "res_step t t'"
proof -
  obtain s1 t1 where t1: "abort_start t = (s1, t1)" by fastforce
  have same1: "same_res t t1" using t1 by (auto simp: abort_start_def same_res_def split: if_splits)
  show ?thesis
  proof (cases s1)
    case DSTORE_FAIL
    then show ?thesis using assms(1) t1 same1 by (simp add: AbortInternal_def res_step_def)
  next
    case DSTORE_SUCC
    obtain s2 t2 where t2: "abort_record env t1 = Some (s2, t2)"
      using assms(1) t1 DSTORE_SUCC by (auto simp: AbortInternal_def bind_eq_Some_conv)
    have same2: "same_res t t2" using abort_record_res [OF t2] same1 by (simp add: same_res_def)
    show ?thesis
    proof (cases s2)
      case DSTORE_FAIL
      then show ?thesis using assms(1) t1 \<open>s1 = DSTORE_SUCC\<close> t2 same2 by (simp add: AbortInternal_def res_step_def)
    next
      case DSTORE_SUCC
      obtain t3 where t3: "abort_cleanup clean (abort_post t2) = Some t3" "(st, t') = abort_finish (abort_decrease t3)"
        using assms(1) t1 \<open>s1 = DSTORE_SUCC\<close> t2 DSTORE_SUCC by (auto simp: AbortInternal_def bind_eq_Some_conv)
      have p: "same_res t (abort_post t2)" using same2 by (simp add: same_res_def abort_post_def)
      then have "res_step (abort_post t2) t3" using abort_cleanup_res [OF t3(1)] assms(2) by (simp add: same_res_def)
      moreover have "same_res t3 t'" using t3(2)
        by (auto simp: abort_finish_def abort_decrease_def same_res_def split: TransAbortStage.splits if_splits)
      ultimately show ?thesis using p by (simp add: res_step_def same_res_def)
    qed
  qed
qed

lemma abort_and_leave_res:
  assumes "abort_and_leave env clean t = Some (st, t')" "res_inv t"
  shows "res_step t t'"
proof -
  obtain s1 t1 where r: "AbortInternal env clean t = Some (s1, t1)"
    and t': "(st, t') = (if s1 = DSTORE_FAIL then (DSTORE_FAIL, t1) else (case Cleanup t1 of (s2, t2) \<Rightarrow> (s2, set_block TBLOCK_DEFAULT t2)))"
    using assms(1) by (auto simp: abort_and_leave_def bind_eq_Some_conv Let_def split: if_splits prod.splits)
  have "same_res t1 t'" using t' by (auto simp: Cleanup_def same_res_def split: if_splits)
  then show ?thesis using AbortInternal_res [OF r assms(2)] by (simp add: res_step_def same_res_def)
qed

lemma RecordCommit_res: "RecordCommit env t = Some (st, t') \<Longrightarrow> same_res t t'"
  by (auto simp: RecordCommit_def same_res_def split: if_splits)

lemma CommitInternal_res:
  assumes "CommitInternal env clean t = Some (st, t')" "res_inv t"
  shows "res_step t t'"
proof (cases "InTransaction t")
  case False
  then show ?thesis using assms(1) by (auto simp: CommitInternal_def res_step_def same_res_def)
next
  case True
  obtain t1 where t1: "RecordCommit env (set_state TRANS_COMMIT (FireCallback TRX_EVENT_PRE_COMMIT t)) = Some (st, t1)"
    using assms(1) True by (auto simp: CommitInternal_def bind_eq_Some_conv Let_def)
  let ?t3 = "FireCallback TRX_EVENT_POST_COMMIT (set_xid INVALID_XID ((SetThrdLocalCsn INVALID_CSN t1)\<lparr>thrd_localXid := INVALID_XID\<rparr>))"
  obtain t4 where t4: "(if clean then CleanupResource ?t3 else Some ?t3) = Some t4" "t' = SubActiveTransaction (set_state TRANS_DEFAULT t4)"
    using assms(1) True t1 by (auto simp: CommitInternal_def bind_eq_Some_conv Let_def)
  have s: "same_res t ?t3" using RecordCommit_res [OF t1] by (simp add: same_res_def)
  then have "res_step ?t3 t4" using t4(1) CleanupResource_res [of ?t3 t4] assms(2)
    by (auto simp: res_step_def same_res_def split: if_splits)
  then show ?thesis using s t4(2) by (simp add: res_step_def same_res_def)
qed

lemma commit_and_leave_res:
  assumes "commit_and_leave env clean t = Some (st, t')" "res_inv t"
  shows "res_step t t'"
proof -
  obtain t1 where "CommitInternal env clean t = Some (st, t1)" "t' = set_block TBLOCK_DEFAULT t1"
    using assms(1) by (auto simp: commit_and_leave_def bind_eq_Some_conv)
  then show ?thesis using CommitInternal_res assms(2) by (fastforce simp: res_step_def same_res_def)
qed

lemma IncreaseCommandCounter_res: "IncreaseCommandCounter t = Some t' \<Longrightarrow> same_res t t'"
  by (auto simp: IncreaseCommandCounter_def same_res_def Let_def split: if_splits)

lemma Commit_res:
  assumes "Commit env clean t = Some (st, t')" "res_inv t"
  shows "res_step t t'"
proof -
  have inv: "res_inv (reset_snapshot t)" using assms(2) by simp
  show ?thesis
    using assms(1) commit_and_leave_res [OF _ inv, of env clean st t'] abort_and_leave_res [OF _ inv, of env clean st t']
      IncreaseCommandCounter_res [of "reset_snapshot t\<lparr>m_innerSavepoint := Savepoint_Release (m_innerSavepoint (reset_snapshot t))\<rparr>" t']
    by (cases "trx_block (reset_snapshot t)") (auto simp: Commit_def Let_def bind_eq_Some_conv res_step_def same_res_def)
qed

lemma abort_idle_res:
  assumes "abort_idle env clean t = Some (st, t')" "res_inv t"
  shows "res_step t t'"
proof (cases "trx_low t = TRANS_DEFAULT")
  case True
  then show ?thesis using assms(1) by (simp add: abort_idle_def res_step_def same_res_def)
next
  case False
  let ?t1 = "if trx_low t = TRANS_START then set_state TRANS_INPROGRESS t else t"
  obtain s2 t2 where r: "AbortInternal env clean ?t1 = Some (s2, t2)" and t': "(st, t') = (if s2 = DSTORE_FAIL then (DSTORE_FAIL, t2) else Cleanup t2)"
    using assms(1) False by (auto simp: abort_idle_def Let_def bind_eq_Some_conv)
  have "same_res t2 t'" using t' by (auto simp: Cleanup_def same_res_def split: if_splits)
  moreover have "res_step ?t1 t2" using AbortInternal_res [OF r] assms(2) by simp
  ultimately show ?thesis by (auto simp: res_step_def same_res_def split: if_splits)
qed

lemma Abort_res:
  assumes "Abort env stop clean t = Some (st, t')" "res_inv t"
  shows "res_step t t'"
  using assms abort_and_leave_res [of env clean t st t'] abort_and_leave_res [of env clean "post_terminate stop t" st t']
    abort_and_leave_res [of env clean "post_terminate True t" st t'] abort_idle_res [of env clean "post_terminate stop t" st t']
  by (cases "trx_block t") (auto simp: Abort_def res_step_def same_res_def split: if_splits)

lemma create_inner_res:
  assumes "res_inv t" "room (m_lockResource t)" "create_inner_savepoint env t = (st, t')"
  shows "res_inv t'" "m_savepoints t' = m_savepoints t"
    "m_lockResource t' = (m_lockResource t)\<lparr>m_subLockResId := m_subLockResId (m_lockResource t) + 1\<rparr>"
proof -
  obtain s sp l where c: "Savepoint_Create (env_name_ok env) None (m_trxLastUndoPtr t) (m_lockResource t) (m_innerSavepoint t) = (s, sp, l)"
    by (metis prod_cases3)
  have t': "t' = t\<lparr>m_innerSavepoint := sp, m_lockResource := l\<rparr>" using assms(3) c by (simp add: create_inner_savepoint_def)
  note k = Savepoint_Create_locks(1) [OF c]
  show "m_savepoints t' = m_savepoints t"
    "m_lockResource t' = (m_lockResource t)\<lparr>m_subLockResId := m_subLockResId (m_lockResource t) + 1\<rparr>" using t' k by simp_all
  have "res_ok (m_lockResource t)" using assms(1) by (simp add: sp_ok_def)
  from res_ok_next_id [OF this assms(2)] show "res_inv t'" using t' k sp_ok_locks [OF assms(1), of l] by simp
qed

lemma Start_res:
  assumes "Start env t = Some (st, t')" "res_inv t" "room (m_lockResource t)"
  shows "res_inv t'"
proof (cases "env_disabled_at_start env")
  case True
  then show ?thesis using assms by (simp add: Start_def)
next
  case False
  let ?t0 = "reset_snapshot t"
  consider (idle) s1 t1 where "StartInternal env ?t0 = Some (s1, t1)" "same_res t1 t'"
    | (block) "t' = snd (create_inner_savepoint env ?t0)" | (rest) "t' = ?t0"
    using assms(1) False by (cases "trx_block ?t0") (auto simp: Start_def Let_def bind_eq_Some_conv same_res_def split: if_splits)
  then show ?thesis
  proof cases
    case idle
    have "same_res ?t0 t1" using idle(1) by (auto simp: StartInternal_def same_res_def Let_def split: if_splits)
    then show ?thesis using idle(2) assms(2) by (simp add: same_res_def)
  next
    case block
    then show ?thesis using create_inner_res(1) [of ?t0 env] assms(2,3) by (metis prod.collapse update_res(19,20))
  qed (use assms in simp)
qed

end
