(* ===== verification/Transaction_Steps.thy ===== *)
theory Transaction_Steps
  imports Transaction_Inv
begin

text \<open>
  The operations of a transaction as a step relation, labelled with the operation, and what holds after
  any sequence of steps: the state is well-formed, the callbacks are paired, a savepoint protects the
  locks held when it was created, and commit and abort end the transaction.

  The rules of \<open>trx_step\<close> have as premises what the callers of the operations see to: the database does not
  stop accepting transactions while one starts, the numbers of the locks and the counts of a lock do not
  wrap around, a lock is given back only when it is held, a transaction is not committed after its
  abort has failed half-way, and nobody sets the states behind its back. The relation \<open>trx_call\<close> has no such
  premises on starts, commits and the states: the locks and savepoints stay well-formed under it, and the two
  ways in which the count of active transactions goes wrong are theorems.
\<close>

section \<open>Steps\<close>

datatype trx_op = Op_Start | Op_Commit | Op_Abort | Op_Cleanup | Op_Restore | Op_Block | Op_Rollback_Command
  | Op_Slot | Op_Undo | Op_Remember LockResourceTag | Op_Forget LockResourceTag
  | Op_Create_Savepoint "string option" | Op_Release_Savepoint "string option" | Op_Rollback_To "string option"
  | Op_Release_After SubLockResourceID | Op_Next_Id | Op_Extra_Res | Op_Snapshot | Op_Cursor

definition start_checked :: "trx_env \<Rightarrow> bool" where
  "start_checked env \<longleftrightarrow> (env_disabled_inside env \<longrightarrow> env_disabled_at_start env)"

inductive trx_step :: "trx_op \<Rightarrow> Transaction \<Rightarrow> Transaction \<Rightarrow> bool" where
  start: "start_checked env \<Longrightarrow> room (m_lockResource t) \<Longrightarrow> Start env t = Some (st, t') \<Longrightarrow> trx_step Op_Start t t'"
| commit: "commit_allowed t \<Longrightarrow> Commit env clean t = Some (st, t') \<Longrightarrow> trx_step Op_Commit t t'"
| abort: "Abort env stop clean t = Some (st, t') \<Longrightarrow> trx_step Op_Abort t t'"
| after_commit: "CleanUpResourceAfterCommit t = Some t' \<Longrightarrow> trx_step Op_Cleanup t t'"
| after_abort: "CleanUpResourceAfterAbort t = Some t' \<Longrightarrow> trx_step Op_Cleanup t t'"
| restore: "start_checked (envs 1) \<Longrightarrow> room (m_lockResource t) \<Longrightarrow>
    CommitRollbackAndRestoreTrxState envs isRollback t = Some (st, t') \<Longrightarrow> trx_step Op_Restore t t'"
| begin_block: "BeginTransactionBlock t = (st, t') \<Longrightarrow> trx_step Op_Block t t'"
| end_block: "EndTransactionBlock t = (st, t') \<Longrightarrow> trx_step Op_Block t t'"
| user_abort: "UserAbortTransactionBlock t = (st, t') \<Longrightarrow> trx_step Op_Block t t'"
| rollback_command: "RollbackLastSQLCmd env t = Some (st, t') \<Longrightarrow> trx_step Op_Rollback_Command t t'"
| slot: "AllocTransactionSlot env t = (st, t') \<Longrightarrow> trx_step Op_Slot t t'"
| undo: "InsertUndoRecord env t = Some (ptr, t') \<Longrightarrow> trx_step Op_Undo t t'"
| remember: "known_mgr tag \<Longrightarrow> stack_cnt (held (m_lockResource t) tag) + 1 < 2 ^ 32 \<Longrightarrow>
    Remember2PLock env tag t = (st, t') \<Longrightarrow> trx_step (Op_Remember tag) t t'"
| forget: "held (m_lockResource t) tag \<noteq> [] \<Longrightarrow> Forget2PLock tag t = Some (st, t') \<Longrightarrow> trx_step (Op_Forget tag) t t'"
| create_savepoint: "room (m_lockResource t) \<Longrightarrow> CreateSavepoint env name t = (st, t') \<Longrightarrow> trx_step (Op_Create_Savepoint name) t t'"
| release_savepoint: "ReleaseSavepoint name cnts t = Some (st, cnts', t') \<Longrightarrow> trx_step (Op_Release_Savepoint name) t t'"
| rollback_to: "RollbackToSavepoint env name cnts t = Some (st, cnts', t') \<Longrightarrow> trx_step (Op_Rollback_To name) t t'"
| release_after: "Release2PLocksAcquiredAfter sid t = Some t' \<Longrightarrow> trx_step (Op_Release_After sid) t t'"
| next_id: "room (m_lockResource t) \<Longrightarrow> Generate2PLockSubResourceID t = (sid, t') \<Longrightarrow> trx_step Op_Next_Id t t'"
| extra_res: "SaveExtraResPtrToSavepoint name data t = (st, t') \<Longrightarrow> trx_step Op_Extra_Res t t'"
| snapshot: "SetSnapshotCsn env now t = Some (st, t') \<Longrightarrow> trx_step Op_Snapshot t t'"
| snapshot_cid: "SetTransactionSnapshotCid cid t = (st, t') \<Longrightarrow> trx_step Op_Snapshot t t'"
| snapshot_csn: "SetTransactionSnapshotCsn csn t = (st, t') \<Longrightarrow> trx_step Op_Snapshot t t'"
| snapshot_flashback: "SetSnapshotCsnForFlashback csn t = Some t' \<Longrightarrow> trx_step Op_Snapshot t t'"
| snapshot_tac: "SetSnapshotCsnForTac csn t = Some t' \<Longrightarrow> trx_step Op_Snapshot t t'"
| add_cursor: "AddCursorSnapshot env cursor t = (st, t') \<Longrightarrow> trx_step Op_Cursor t t'"
| delete_cursor: "DeleteCursorSnapshot cursor t = (st, t') \<Longrightarrow> trx_step Op_Cursor t t'"

subsection \<open>States under each operation\<close>

lemma SetThrdLocalCsn_quiet: "quiet t (SetThrdLocalCsn c t)" "same_res t (SetThrdLocalCsn c t)"
  by (rule quietI [where xs = "[]"]) (simp_all add: same_res_def)

definition calm :: "Transaction \<Rightarrow> Transaction \<Rightarrow> bool" where
  "calm t t' \<longleftrightarrow> m_currTransState t' = m_currTransState t \<and> trx_log t' = trx_log t \<and>
     pdb_activeTransactionNum t' = pdb_activeTransactionNum t"

lemma calm_quiet: "calm t t' \<Longrightarrow> quiet t t'"
  by (simp add: calm_def quiet_def)

lemma snapshot_calm:
  "SetSnapshotCsn env now t = Some (st, t') \<Longrightarrow> calm t t' \<and> same_res t t'"
  by (auto simp: SetSnapshotCsn_def calm_def same_res_def Let_def split: if_splits option.splits)

lemma other_calm:
  "SetTransactionSnapshotCid cid t = (st, t') \<Longrightarrow> calm t t' \<and> same_res t t'"
  "SetTransactionSnapshotCsn csn t = (st, t') \<Longrightarrow> calm t t' \<and> same_res t t'"
  "AddCursorSnapshot env cursor t = (st, t') \<Longrightarrow> calm t t' \<and> same_res t t'"
  "DeleteCursorSnapshot cursor t = (st, t') \<Longrightarrow> calm t t' \<and> same_res t t'"
  "SetSnapshotCsnForFlashback csn t = Some t' \<Longrightarrow> calm t t' \<and> same_res t t'"
  "SetSnapshotCsnForTac csn t = Some t' \<Longrightarrow> calm t t' \<and> same_res t t'"
  by (auto simp: SetTransactionSnapshotCid_def SetTransactionSnapshotCsn_def AddCursorSnapshot_def DeleteCursorSnapshot_def
      SetSnapshotCsnForFlashback_def SetSnapshotCsnForTac_def calm_def same_res_def split: if_splits prod.splits)

lemma undo_quiet: "InsertUndoRecord env t = Some (ptr, t') \<Longrightarrow> quiet t t' \<and> same_res t t'"
  by (auto simp: InsertUndoRecord_def quiet_def same_res_def log_action_def tracked_def Let_def split: if_splits)

lemma numbers_quiet:
  "Release2PLocksAcquiredAfter sid t = Some t' \<Longrightarrow> quiet t t'" "Generate2PLockSubResourceID t = (sid, t') \<Longrightarrow> quiet t t'"
  by (auto simp: Release2PLocksAcquiredAfter_def Generate2PLockSubResourceID_def quiet_def log_action_def tracked_def bind_eq_Some_conv
      split: prod.splits)

lemma slot_quiet: "AllocTransactionSlot env t = (st, t') \<Longrightarrow> quiet t t' \<and> same_res t t'"
  by (auto simp: AllocTransactionSlot_def quiet_def same_res_def set_xid_def Let_def split: if_splits prod.splits)

lemma locks_calm:
  "Remember2PLock env tag t = (st, t') \<Longrightarrow> calm t t' \<and> m_savepoints t' = m_savepoints t"
  "Forget2PLock tag t = Some (st, t') \<Longrightarrow> calm t t' \<and> m_savepoints t' = m_savepoints t"
  by (auto simp: Remember2PLock_def Forget2PLock_def calm_def bind_eq_Some_conv split: prod.splits)

lemma savepoints_quiet:
  "CreateSavepoint env name t = (st, t') \<Longrightarrow> quiet t t'"
  "ReleaseSavepoint name cnts t = Some (st, cnts', t') \<Longrightarrow> quiet t t' \<and> m_lockResource t' = m_lockResource t"
  "SaveExtraResPtrToSavepoint name data t = (st, t') \<Longrightarrow> calm t t' \<and> m_lockResource t' = m_lockResource t"
proof -
  show "quiet t t'" if c: "CreateSavepoint env name t = (st, t')"
  proof -
    obtain s t1 where a: "AllocTransactionSlot env t = (s, t1)" by fastforce
    have "quiet t1 t'" using c a by (cases s) (auto simp: CreateSavepoint_def quiet_def split: prod.splits)
    then show ?thesis using slot_quiet [OF a] quiet_trans by blast
  qed
qed (auto simp: ReleaseSavepoint_def SaveExtraResPtrToSavepoint_def quiet_def calm_def bind_eq_Some_conv split: if_splits prod.splits)

lemma block_keeps:
  assumes "BeginTransactionBlock t = (st, t') \<or> EndTransactionBlock t = (st, t') \<or> UserAbortTransactionBlock t = (st, t')"
    "state_ok t" "log_ok n t"
  shows "state_ok t' \<and> log_ok n t'" "same_res t t'"
proof -
  have "t' = t \<or> trx_block t \<noteq> TBLOCK_DEFAULT \<and> (\<exists>b. b \<noteq> TBLOCK_DEFAULT \<and> t' = set_block b t)"
    using assms(1) by (auto simp: BeginTransactionBlock_def EndTransactionBlock_def UserAbortTransactionBlock_def split: TBlockState.splits)
  then show "state_ok t' \<and> log_ok n t'" "same_res t t'" using assms(2,3) set_block_keeps by (auto simp: same_res_def)
qed

lemma log_rollback_quiet: "quiet t (log_rollback ptr calls locks t)"
  by (auto simp: quiet_def log_rollback_def log_action_def tracked_def)

lemma rollback_command_quiet: "RollbackLastSQLCmd env t = Some (st, t') \<Longrightarrow> quiet t t'"
  using log_rollback_quiet [of t]
  by (auto simp: RollbackLastSQLCmd_def bind_eq_Some_conv Let_def quiet_def split: TBlockState.splits)

lemma rollback_to_shape:
  assumes "RollbackToSavepoint env name cnts t = Some (st, cnts', t')"
  obtains t1 where "quiet t t1" "m_savepoints t1 = m_savepoints t'" "m_lockResource t1 = m_lockResource t'"
    "t' = t1 \<or> trx_block t1 = TBLOCK_ABORT \<and> t' = set_block TBLOCK_INPROGRESS t1"
proof (cases "IsSavepointExist name (m_savepoints t)")
  case False
  then show ?thesis using assms that [of t] by (simp add: RollbackToSavepoint_def)
next
  case True
  obtain s calls cnts1 locks sl where r: "RollbackToSavepoint_list (IsValid_xid t) (env_undo_ok env) name cnts (m_lockResource t) (m_savepoints t) =
      Some (s, calls, cnts1, locks, sl)"
    using assms True by (auto simp: RollbackToSavepoint_def bind_eq_Some_conv)
  let ?t1 = "(if s = DSTORE_FAIL then t else log_rollback (m_lastUndoPtr (hd (m_savepointList sl))) calls locks t)\<lparr>m_savepoints := sl\<rparr>"
  have q: "quiet t ?t1" "quiet t (?t1\<lparr>m_trxLastUndoPtr := ptr\<rparr>)" for ptr
    using log_rollback_quiet [of t "m_lastUndoPtr (hd (m_savepointList sl))" calls locks] by (auto simp: quiet_def)
  have "t' = ?t1 \<or> (\<exists>ptr. t' = ?t1\<lparr>m_trxLastUndoPtr := ptr\<rparr> \<or>
      trx_block (?t1\<lparr>m_trxLastUndoPtr := ptr\<rparr>) = TBLOCK_ABORT \<and> t' = set_block TBLOCK_INPROGRESS (?t1\<lparr>m_trxLastUndoPtr := ptr\<rparr>))"
    using assms True r by (auto simp: RollbackToSavepoint_def Let_def split: if_splits option.splits)
  then show ?thesis using q that by fastforce
qed

lemma rollback_to_keeps:
  assumes "RollbackToSavepoint env name cnts t = Some (st, cnts', t')" "state_ok t" "log_ok n t"
  shows "state_ok t' \<and> log_ok n t'"
proof -
  obtain t1 where "quiet t t1" "t' = t1 \<or> trx_block t1 = TBLOCK_ABORT \<and> t' = set_block TBLOCK_INPROGRESS t1"
    by (rule rollback_to_shape [OF assms(1)])
  then show ?thesis using quiet_keeps [of t t1, OF _ assms(2,3)] set_block_keeps [of t1 n TBLOCK_INPROGRESS] by auto
qed

text \<open>Leaving a block and entering it again.\<close>

lemma set_state_same: "trx_low t = s \<Longrightarrow> set_state s t = t"
  by (simp add: set_state_def)

lemma Start_idle_run:
  assumes "Start env t = Some (DSTORE_SUCC, t')" "trx_block t = TBLOCK_DEFAULT"
  shows "trx_low t' = TRANS_INPROGRESS" "trx_block t' = TBLOCK_STARTED"
  using assms by (auto simp: Start_def StartInternal_def reset_snapshot_def trx_updates Let_def bind_eq_Some_conv split: if_splits)

lemma leave_block_run:
  assumes "(if isRollback then Abort env False True t else Commit env True t) = Some (st, t')"
    "trx_block t \<in> {TBLOCK_STARTED, if isRollback then TBLOCK_ABORT_PENDING else TBLOCK_END}" "live t" "log_ok n t" "res_inv t"
  shows "state_ok t' \<and> log_ok n t'" "res_step t t'" "st = DSTORE_SUCC \<Longrightarrow> trx_block t' = TBLOCK_DEFAULT"
proof -
  have s: "state_ok t" using assms(2,3) by (auto simp: state_ok_def split: if_splits)
  have c: "commit_allowed t" using assms(3) by (simp add: commit_allowed_def live_def)
  show "state_ok t' \<and> log_ok n t'"
    using assms(1) Abort_keeps [OF _ s assms(4)] Commit_keeps [OF _ s assms(4) c] by (cases isRollback) auto
  show "res_step t t'" using assms(1) Abort_res [OF _ assms(5)] Commit_res [OF _ assms(5)] by (cases isRollback) auto
  show "trx_block t' = TBLOCK_DEFAULT" if "st = DSTORE_SUCC"
  proof (cases isRollback)
    case True
    then have "abort_and_leave env True t = Some (st, t')" using assms(1,2) by (auto simp: Abort_def post_terminate_def)
    moreover have "trx_block t \<noteq> TBLOCK_DEFAULT" using assms(2) by (auto split: if_splits)
    ultimately show ?thesis using abort_and_leave_keeps(3) [of env True t st t' n] s assms(4) that by simp
  next
    case False
    then have "commit_and_leave env True (reset_snapshot t) = Some (st, t')" using assms(1,2) by (auto simp: Commit_def reset_snapshot_def Let_def)
    then show ?thesis by (auto simp: commit_and_leave_def bind_eq_Some_conv set_block_def)
  qed
qed

text \<open>The state in which the block is left, and the ways the whole operation ends.\<close>

definition leaving :: "bool \<Rightarrow> Transaction \<Rightarrow> Transaction" where
  "leaving isRollback t =
     (let t0 = FireCallback TRX_EVENT_PRE_STP_TRX_STATEMENT t in
      if trx_block t \<noteq> TBLOCK_INPROGRESS then t0 else set_block (if isRollback then TBLOCK_ABORT_PENDING else TBLOCK_END) t0)"

lemma leaving_keeps:
  assumes "live t" "log_ok n t" "trx_block t = TBLOCK_STARTED \<or> trx_block t = TBLOCK_INPROGRESS"
  shows "live (leaving isRollback t)" "log_ok n (leaving isRollback t)" "same_res t (leaving isRollback t)"
    "trx_block (leaving isRollback t) \<in> {TBLOCK_STARTED, if isRollback then TBLOCK_ABORT_PENDING else TBLOCK_END}"
proof -
  let ?t0 = "FireCallback TRX_EVENT_PRE_STP_TRX_STATEMENT t"
  have q0: "quiet t ?t0" by (rule quietI [where xs = "[Fired TRX_EVENT_PRE_STP_TRX_STATEMENT]"]) (simp_all add: trx_updates tracked_def)
  have b0: "trx_block ?t0 = trx_block t" by (simp add: trx_updates)
  have s: "state_ok t" using assms(1,3) by (auto simp: state_ok_def)
  note k0 = quiet_keeps [OF q0 s assms(2)]
  show "live (leaving isRollback t)" using assms(1) by (auto simp: leaving_def live_def trx_updates Let_def)
  show "log_ok n (leaving isRollback t)" using k0 b0 set_block_keeps(2) [of ?t0 n] by (auto simp: leaving_def Let_def)
  show "same_res t (leaving isRollback t)" by (simp add: leaving_def same_res_def Let_def)
  show "trx_block (leaving isRollback t) \<in> {TBLOCK_STARTED, if isRollback then TBLOCK_ABORT_PENDING else TBLOCK_END}"
    using assms(3) by (auto simp: leaving_def trx_updates Let_def)
qed

lemma restore_run:
  assumes "CommitRollbackAndRestoreTrxState envs isRollback t = Some (st, t')" "InTransaction t"
  obtains s2 t2 where "trx_block t = TBLOCK_STARTED \<or> trx_block t = TBLOCK_INPROGRESS"
    "(if isRollback then Abort (envs 0) False True (leaving isRollback t) else Commit (envs 0) True (leaving isRollback t)) = Some (s2, t2)"
    "s2 = DSTORE_FAIL \<and> t' = t2 \<or> (\<exists>t3. s2 = DSTORE_SUCC \<and> (Start (envs 1) t2 = Some (DSTORE_FAIL, t3) \<and> t' = t3 \<or>
      Start (envs 1) t2 = Some (DSTORE_SUCC, t3) \<and> t' = set_block (trx_block t) (set_state (trx_low t) t3)))"
proof -
  let ?t0 = "FireCallback TRX_EVENT_PRE_STP_TRX_STATEMENT t"
  have b: "trx_block t = TBLOCK_STARTED \<or> trx_block t = TBLOCK_INPROGRESS"
    using assms by (auto simp: CommitRollbackAndRestoreTrxState_def split: if_splits)
  have "(if trx_block t \<noteq> TBLOCK_INPROGRESS then (DSTORE_SUCC, ?t0)
    else if isRollback then UserAbortTransactionBlock ?t0 else EndTransactionBlock ?t0) = (DSTORE_SUCC, leaving isRollback t)"
    using b by (auto simp: UserAbortTransactionBlock_def EndTransactionBlock_def leaving_def trx_updates)
  then have r: "CommitRollbackAndRestoreTrxState envs isRollback t = do {
      (status2, t2) \<leftarrow> (if isRollback then Abort (envs 0) False True (leaving isRollback t) else Commit (envs 0) True (leaving isRollback t));
      (if status2 = DSTORE_FAIL then Some (DSTORE_FAIL, t2)
       else do {
         (status3, t3) \<leftarrow> Start (envs 1) t2;
         (if status3 = DSTORE_FAIL then Some (DSTORE_FAIL, t3)
          else if trx_block t3 \<noteq> TBLOCK_STARTED \<and> trx_block t3 \<noteq> TBLOCK_INPROGRESS then None
          else Some (DSTORE_SUCC, set_block (trx_block t) (set_state (trx_low t) t3)))
       })
    }" (is "_ = Option.bind ?m _")
    using b assms(2) by (auto simp: CommitRollbackAndRestoreTrxState_def Let_def)
  obtain s2 t2 where m: "?m = Some (s2, t2)" using assms(1) by (auto simp: r bind_eq_Some_conv)
  show ?thesis
    by (rule that [OF b m]) (use assms(1) m in \<open>cases s2; auto simp: r bind_eq_Some_conv split: if_splits intro: RetStatus.exhaust\<close>)
qed

lemma restore_keeps:
  assumes "CommitRollbackAndRestoreTrxState envs isRollback t = Some (st, t')" "state_ok t" "log_ok n t" "res_inv t"
    "room (m_lockResource t)" "start_checked (envs 1)"
  shows "state_ok t' \<and> log_ok n t'" "res_inv t'"
proof -
  have "(state_ok t' \<and> log_ok n t') \<and> res_inv t'"
  proof (cases "InTransaction t")
    case False
    then show ?thesis using assms by (simp add: CommitRollbackAndRestoreTrxState_def)
  next
    case True
    obtain s2 t2 where b: "trx_block t = TBLOCK_STARTED \<or> trx_block t = TBLOCK_INPROGRESS"
      and t2: "(if isRollback then Abort (envs 0) False True (leaving isRollback t) else Commit (envs 0) True (leaving isRollback t)) = Some (s2, t2)"
      and t': "s2 = DSTORE_FAIL \<and> t' = t2 \<or> (\<exists>t3. s2 = DSTORE_SUCC \<and> (Start (envs 1) t2 = Some (DSTORE_FAIL, t3) \<and> t' = t3 \<or>
        Start (envs 1) t2 = Some (DSTORE_SUCC, t3) \<and> t' = set_block (trx_block t) (set_state (trx_low t) t3)))"
      by (rule restore_run [OF assms(1) True])
    have live: "live t" using assms(2) True b by (auto simp: state_ok_def aborting_def InTransaction_def)
    note l1 = leaving_keeps [OF live assms(3) b, of isRollback]
    have "res_inv (leaving isRollback t)" using l1(3) assms(4) by (simp add: same_res_def)
    note l2 = leave_block_run [OF t2 l1(4,1,2) this]
    note r2 = same_res_step [OF l1(3) l2(2)]
    have room2: "room (m_lockResource t2)"
      using r2 assms(5) by (auto simp: res_step_def same_res_def room_def LockResource_new_def FIRST_SUB_LOCK_RES_ID_def)
    have s3: "(state_ok t3 \<and> log_ok n t3) \<and> res_inv t3" if "Start (envs 1) t2 = Some (s3, t3)" for s3 t3
      using Start_keeps [OF that, of n] l2(1) assms(6) Start_res [OF that res_step_inv [OF r2 assms(4)] room2] by (simp add: start_checked_def)
    from t' consider "t' = t2" | s3 where "Start (envs 1) t2 = Some (s3, t')"
      | t3 where "s2 = DSTORE_SUCC" "Start (envs 1) t2 = Some (DSTORE_SUCC, t3)" "t' = set_block (trx_block t) (set_state (trx_low t) t3)" by blast
    then show ?thesis
    proof cases
      case 1
      then show ?thesis using l2(1) res_step_inv [OF r2 assms(4)] by simp
    next
      case 2
      then show ?thesis by (rule s3)
    next
      case 3
      note e = Start_idle_run [OF 3(2) l2(3) [OF 3(1)]]
      have "t' = set_block (trx_block t) t3" using 3(3) e(1) True by (simp add: set_state_same InTransaction_def)
      then show ?thesis using s3 [OF 3(2)] e(2) b set_block_keeps [of t3 n "trx_block t"] by auto
    qed
  qed
  then show "state_ok t' \<and> log_ok n t'" "res_inv t'" by auto
qed

subsection \<open>Savepoints and the locks held before them\<close>

definition sp_mark :: "Savepoint \<Rightarrow> string option \<times> UndoRecPtr \<times> SubLockResourceID" where
  "sp_mark sp = (m_name sp, m_lastUndoPtr sp, m_lastLockPos sp)"

definition marks :: "Transaction \<Rightarrow> (string option \<times> UndoRecPtr \<times> SubLockResourceID) list" where
  "marks t = map sp_mark (m_savepointList (m_savepoints t))"

definition held_before :: "SubLockResourceID \<Rightarrow> Transaction \<Rightarrow> LockResourceTag \<Rightarrow> (SubLockResourceID \<times> uint32) list" where
  "held_before p t = (\<lambda>tag. filter (\<lambda>e. \<not> p \<le> fst e) (held (m_lockResource t) tag))"

lemma held_bound: "res_ok l \<Longrightarrow> e \<in> set (held l tag) \<Longrightarrow> fst e \<le> m_subLockResId l"
  by (cases "find (\<lambda>r. m_tag r = tag) (m_resTable l)") (auto simp: table_stack_def res_ok_def entry_ok_def find_record)

lemma mark_bound: "res_inv t \<Longrightarrow> (a, b, p) \<in> set (marks t) \<Longrightarrow> p \<le> m_subLockResId (m_lockResource t)"
  by (auto simp: marks_def sp_mark_def sp_ok_def)

lemma stack_add_before:
  "p \<le> sid \<Longrightarrow> \<forall>e \<in> set st. fst e \<le> sid \<Longrightarrow> filter (\<lambda>e. \<not> p \<le> fst e) (stack_add sid st) = filter (\<lambda>e. \<not> p \<le> fst e) st"
  by (cases st rule: rev_cases) (auto simp: stack_add_def)

lemma stack_pop_before:
  "st \<noteq> [] \<Longrightarrow> p \<le> fst (last st) \<Longrightarrow> filter (\<lambda>e. \<not> p \<le> fst e) (stack_pop st) = filter (\<lambda>e. \<not> p \<le> fst e) st"
  by (cases st rule: rev_cases) (auto simp: stack_pop_def)

lemma filter_before:
  fixes p :: SubLockResourceID
  shows "p \<le> q \<Longrightarrow> filter (\<lambda>e. \<not> p \<le> fst e) (filter (\<lambda>e. \<not> q \<le> fst e) st) = filter (\<lambda>e. \<not> p \<le> fst e) st"
  by (induction st) auto

lemma held_cut_before:
  "p \<le> q \<Longrightarrow> held (m_lockResource t') = (\<lambda>tag. filter (\<lambda>e. \<not> q \<le> fst e) (held (m_lockResource t) tag)) \<Longrightarrow>
   held_before p t' = held_before p t"
  by (simp add: held_before_def filter_before del: filter_filter)

lemma held_update_before:
  "held (m_lockResource t') = (held (m_lockResource t))(tag := st) \<Longrightarrow>
   filter (\<lambda>e. \<not> p \<le> fst e) st = filter (\<lambda>e. \<not> p \<le> fst e) (held (m_lockResource t) tag) \<Longrightarrow> held_before p t' = held_before p t"
  by (simp add: held_before_def fun_eq_iff)

subsection \<open>The resources under each operation\<close>

lemma remember_res:
  assumes "known_mgr tag" "stack_cnt (held (m_lockResource t) tag) + 1 < 2 ^ 32" "Remember2PLock env tag t = (st, t')" "res_inv t"
  shows "res_inv t'" "p \<le> m_subLockResId (m_lockResource t) \<Longrightarrow> held_before p t' = held_before p t"
proof -
  let ?l = "m_lockResource t"
  obtain l' where r: "RememberLock (env_alloc_ok env) (env_alloc_ok env) tag ?l = (st, l')" and t': "t' = t\<lparr>m_lockResource := l'\<rparr>"
    using assms(3) by (auto simp: Remember2PLock_def split: prod.splits)
  have ok: "res_ok ?l" using assms(4) by (simp add: sp_ok_def)
  note k = RememberLock_ok [OF ok assms(1,2) r]
  show "res_inv t'" using sp_ok_locks [OF assms(4) k(1)] k(2) t' by simp
  show "held_before p t' = held_before p t" if "p \<le> m_subLockResId ?l"
  proof (cases st)
    case DSTORE_SUCC
    have b: "\<forall>e\<in>set (held ?l tag). fst e \<le> m_subLockResId ?l" using held_bound [OF ok] by blast
    show ?thesis by (rule held_update_before [OF _ stack_add_before [OF that b]]) (use k(3) t' DSTORE_SUCC in simp)
  next
    case DSTORE_FAIL
    then show ?thesis using k(3) t' by (simp add: held_before_def)
  qed
qed

lemma forget_res:
  assumes "held (m_lockResource t) tag \<noteq> []" "Forget2PLock tag t = Some (st, t')" "res_inv t"
  shows "res_inv t'" "p \<le> fst (last (held (m_lockResource t) tag)) \<Longrightarrow> held_before p t' = held_before p t"
proof -
  let ?l = "m_lockResource t"
  have ok: "res_ok ?l" using assms(3) by (simp add: sp_ok_def)
  obtain l' where r: "ForgetLock tag ?l = Some l'" "res_ok l'" "m_subLockResId l' = m_subLockResId ?l"
    "held l' = (held ?l)(tag := stack_pop (held ?l tag))"
    by (rule ForgetLock_ok [OF ok assms(1)])
  have t': "t' = t\<lparr>m_lockResource := l'\<rparr>" using assms(2) r(1) by (simp add: Forget2PLock_def)
  show "res_inv t'" using sp_ok_locks [OF assms(3) r(2)] r(3) t' by simp
  show "held_before p t' = held_before p t" if "p \<le> fst (last (held ?l tag))"
    by (rule held_update_before [OF _ stack_pop_before [OF assms(1) that]]) (use r(4) t' in simp)
qed

lemma create_res:
  assumes "CreateSavepoint env name t = (st, t')" "res_inv t" "room (m_lockResource t)"
  shows "res_inv t'" "held (m_lockResource t') = held (m_lockResource t)"
proof -
  obtain s t1 where a: "AllocTransactionSlot env t = (s, t1)" by fastforce
  have same: "same_res t t1" using slot_quiet [OF a] by simp
  obtain s2 sl l where c: "AddSavepoint (env_alloc_ok env) (env_name_ok env) name (m_trxLastUndoPtr t1) (m_lockResource t1) (m_savepoints t1) = (s2, sl, l)"
    by (metis prod_cases3)
  have t': "t' = t1 \<or> t' = t1\<lparr>m_savepoints := sl, m_lockResource := l\<rparr>"
    using assms(1) a c by (cases s) (auto simp: CreateSavepoint_def)
  have "sp_ok (m_savepoints t1) (m_lockResource t1)" "room (m_lockResource t1)" using assms(2,3) same by (simp_all add: same_res_def)
  note k = AddSavepoint_ok [OF this c]
  show "res_inv t'" using t' k(1) assms(2) same by (auto simp: same_res_def)
  show "held (m_lockResource t') = held (m_lockResource t)" using t' k(3) same by (auto simp: same_res_def)
qed

lemma release_savepoint_res:
  assumes "ReleaseSavepoint name cnts t = Some (st, cnts', t')" "res_inv t"
  shows "res_inv t'" "m_lockResource t' = m_lockResource t"
proof -
  show "m_lockResource t' = m_lockResource t" using savepoints_quiet(2) [OF assms(1)] by simp
  show "res_inv t'"
  proof (cases "IsSavepointExist name (m_savepoints t)")
    case False
    then show ?thesis using assms by (simp add: ReleaseSavepoint_def)
  next
    case True
    obtain ys sp zs where s: "m_savepointList (m_savepoints t) = ys @ sp # zs" "HasSameName name sp" "\<forall>y\<in>set ys. \<not> HasSameName name y"
      using True unfolding IsSavepointExist_def by (rule list_ex_split)
    show ?thesis
      using assms(1) True ReleaseSavepoint_list_run [OF s, of cnts] sp_ok_suffix [OF assms(2), of "ys @ [sp]" zs] s(1)
      by (auto simp: ReleaseSavepoint_def)
  qed
qed

lemma set_extra_res_marks: "set_extra_res name data sps = (st, sps') \<Longrightarrow> map sp_mark sps' = map sp_mark sps"
  by (induction sps arbitrary: sps') (force simp: sp_mark_def split: if_splits prod.splits)+

lemma mark_positions: "map m_lastLockPos sps = map (\<lambda>k. snd (snd k)) (map sp_mark sps)"
  by (simp add: sp_mark_def comp_def)

lemma sp_ok_positions:
  "sp_ok sl l \<longleftrightarrow> res_ok l \<and> m_nestLevel sl = word_of_nat (length (map m_lastLockPos (m_savepointList sl))) \<and>
     sorted_wrt (>) (map m_lastLockPos (m_savepointList sl)) \<and> (\<forall>p \<in> set (map m_lastLockPos (m_savepointList sl)). p \<le> m_subLockResId l)"
  by (auto simp: sp_ok_def)

lemma extra_res_res:
  assumes "SaveExtraResPtrToSavepoint name data t = (st, t')" "res_inv t"
  shows "res_inv t'" "m_lockResource t' = m_lockResource t" "marks t' = marks t"
proof -
  obtain s sps where e: "set_extra_res name data (m_savepointList (m_savepoints t)) = (s, sps)" by fastforce
  have t': "t' = t \<or> t' = t\<lparr>m_savepoints := (m_savepoints t)\<lparr>m_savepointList := sps\<rparr>\<rparr>"
    using assms(1) e by (auto simp: SaveExtraResPtrToSavepoint_def SaveExtraResPtrToSavepoint_list_def split: if_splits)
  note m = set_extra_res_marks [OF e]
  show "m_lockResource t' = m_lockResource t" "marks t' = marks t" using t' m by (auto simp: marks_def)
  have pos: "map m_lastLockPos sps = map m_lastLockPos (m_savepointList (m_savepoints t))" by (simp only: mark_positions m)
  show "res_inv t'" using t' assms(2) unfolding sp_ok_positions by (auto simp del: set_map length_map simp: pos)
qed

lemma log_rollback_res [simp]:
  "m_lockResource (log_rollback ptr calls locks t) = locks" "m_savepoints (log_rollback ptr calls locks t) = m_savepoints t"
  by (simp_all add: log_rollback_def log_action_def)

lemma rollback_command_res:
  assumes "RollbackLastSQLCmd env t = Some (st, t')" "res_inv t"
  shows "res_inv t'" "m_savepoints t' = m_savepoints t" "p \<le> m_lastLockPos (m_innerSavepoint t) \<Longrightarrow> held_before p t' = held_before p t"
proof -
  let ?l = "m_lockResource t"
  have ok: "res_ok ?l" using assms(2) by (simp add: sp_ok_def)
  have "res_inv t' \<and> m_savepoints t' = m_savepoints t \<and>
    (p \<le> m_lastLockPos (m_innerSavepoint t) \<longrightarrow> held_before p t' = held_before p t)"
  proof (cases "trx_block t = TBLOCK_INPROGRESS")
    case True
    then have "IsValid_xid t \<longrightarrow> env_undo_ok env (m_lastUndoPtr (m_innerSavepoint t))"
      using assms(1) by (intro Savepoint_Rollback_undone [of _ _ ?l]) (auto simp: RollbackLastSQLCmd_def bind_eq_Some_conv)
    then obtain calls l' where r: "Savepoint_Rollback (IsValid_xid t) (env_undo_ok env) ?l (m_innerSavepoint t) = Some (DSTORE_SUCC, calls, l')"
      "res_ok l'" "m_subLockResId l' = m_subLockResId ?l"
      "held l' = (\<lambda>tag. filter (\<lambda>e. \<not> m_lastLockPos (m_innerSavepoint t) \<le> fst e) (held ?l tag))"
      using Savepoint_Rollback_run [OF ok] by blast
    have t': "m_savepoints t' = m_savepoints t" "m_lockResource t' = l'"
      using assms(1) r(1) True by (auto simp: RollbackLastSQLCmd_def Let_def)
    then show ?thesis using sp_ok_locks [OF assms(2) r(2)] r(3,4) held_cut_before [of p _ t' t] by auto
  next
    case False
    then have "t' = t" using assms(1) by (auto simp: RollbackLastSQLCmd_def split: TBlockState.splits)
    then show ?thesis using assms(2) by simp
  qed
  then show "res_inv t'" "m_savepoints t' = m_savepoints t"
    "p \<le> m_lastLockPos (m_innerSavepoint t) \<Longrightarrow> held_before p t' = held_before p t" by auto
qed

lemma release_after_res:
  assumes "Release2PLocksAcquiredAfter sid t = Some t'" "res_inv t"
  shows "res_inv t'" "p \<le> sid \<Longrightarrow> held_before p t' = held_before p t"
proof -
  let ?l = "m_lockResource t"
  have ok: "res_ok ?l" using assms(2) by (simp add: sp_ok_def)
  obtain calls l' where r: "ReleaseLocksAcquiredAfter sid ?l = Some (calls, l')" "res_ok l'" "m_subLockResId l' = m_subLockResId ?l"
    "held l' = (\<lambda>tag. filter (\<lambda>e. \<not> sid \<le> fst e) (held ?l tag))"
    by (rule ReleaseLocksAcquiredAfter_ok [OF ok, of sid]) blast
  have t': "m_savepoints t' = m_savepoints t" "m_lockResource t' = l'"
    using assms(1) r(1) by (auto simp: Release2PLocksAcquiredAfter_def log_action_def)
  show "res_inv t'" using t' sp_ok_locks [OF assms(2) r(2)] r(3) by simp
  show "held_before p t' = held_before p t" if "p \<le> sid" by (rule held_cut_before [OF that]) (use r(4) t'(2) in simp)
qed

lemma next_id_res:
  assumes "Generate2PLockSubResourceID t = (sid, t')" "res_inv t" "room (m_lockResource t)"
  shows "res_inv t'" "held_before p t' = held_before p t"
proof -
  have t': "t' = t\<lparr>m_lockResource := (m_lockResource t)\<lparr>m_subLockResId := m_subLockResId (m_lockResource t) + 1\<rparr>\<rparr>"
    using assms(1) by (auto simp: Generate2PLockSubResourceID_def GenerateSubLockResourceID_def)
  have "res_ok (m_lockResource t)" using assms(2) by (simp add: sp_ok_def)
  from res_ok_next_id [OF this assms(3)] show "res_inv t'" using t' sp_ok_locks [OF assms(2)] by simp
  show "held_before p t' = held_before p t" using t' by (simp add: held_before_def)
qed

lemma rollback_to_res:
  assumes "RollbackToSavepoint env name cnts t = Some (st, cnts', t')" "res_inv t"
  shows "res_inv t'" "(a, b, p) \<in> set (marks t') \<Longrightarrow> held_before p t' = held_before p t"
proof -
  let ?l = "m_lockResource t"
  have ok: "res_ok ?l" using assms(2) by (simp add: sp_ok_def)
  have "res_inv t' \<and> ((a, b, p) \<in> set (marks t') \<longrightarrow> held_before p t' = held_before p t)"
  proof (cases "IsSavepointExist name (m_savepoints t)")
    case False
    then show ?thesis using assms by (simp add: RollbackToSavepoint_def)
  next
    case True
    obtain ys sp zs where s: "m_savepointList (m_savepoints t) = ys @ sp # zs" "HasSameName name sp" "\<forall>y\<in>set ys. \<not> HasSameName name y"
      using True unfolding IsSavepointExist_def by (rule list_ex_split)
    have "IsValid_xid t \<longrightarrow> env_undo_ok env (m_lastUndoPtr sp)"
      using assms(1) True RollbackToSavepoint_list_run [OF s, of "IsValid_xid t" "env_undo_ok env" cnts ?l]
      by (intro Savepoint_Rollback_undone [of _ _ ?l]) (auto simp: RollbackToSavepoint_def bind_eq_Some_conv)
    then obtain calls l' where r: "Savepoint_Rollback (IsValid_xid t) (env_undo_ok env) ?l sp = Some (DSTORE_SUCC, calls, l')" "res_ok l'"
      "m_subLockResId l' = m_subLockResId ?l" "held l' = (\<lambda>tag. filter (\<lambda>e. \<not> m_lastLockPos sp \<le> fst e) (held ?l tag))"
      using Savepoint_Rollback_run [OF ok] by blast
    let ?sl = "(m_savepoints t)\<lparr>m_savepointList := sp # zs, m_nestLevel := m_nestLevel (m_savepoints t) - word_of_nat (length ys)\<rparr>"
    have t': "m_savepoints t' = ?sl" "m_lockResource t' = l'"
      using assms(1) True r(1) RollbackToSavepoint_list_run [OF s, of "IsValid_xid t" "env_undo_ok env" cnts ?l]
      by (auto simp: RollbackToSavepoint_def Let_def split: if_splits option.splits)
    have ok': "sp_ok ?sl ?l" by (rule sp_ok_suffix [OF assms(2) s(1)])
    moreover have "held_before p t' = held_before p t" if "(a, b, p) \<in> set (marks t')"
    proof -
      have "p \<in> set (map m_lastLockPos (sp # zs))" using that t'(1) by (auto simp: marks_def sp_mark_def)
      then have "p \<le> m_lastLockPos sp" using ok' by (auto simp: sp_ok_def intro: less_imp_le)
      from held_cut_before [OF this, of t' t] show ?thesis using t'(2) r(4) by simp
    qed
    ultimately show ?thesis using t' sp_ok_locks [OF ok' r(2)] r(3) by simp
  qed
  then show "res_inv t'" "(a, b, p) \<in> set (marks t') \<Longrightarrow> held_before p t' = held_before p t" by auto
qed

subsection \<open>Invariants of a transaction\<close>

lemma cleanup_keeps:
  assumes "CleanupResource t = Some t'" "state_ok t" "log_ok n t" "res_inv t"
  shows "state_ok t' \<and> log_ok n t'" "res_inv t'" "marks t' = []"
proof -
  obtain calls where "m_currTransState t' = m_currTransState t" "trx_log t' = trx_log t @ [Locks_Released calls]"
    "pdb_activeTransactionNum t' = pdb_activeTransactionNum t" by (rule CleanupResource_frame [OF assms(1)])
  then have "quiet t t'" by (intro quietI [where xs = "[Locks_Released calls]"]) (simp_all add: tracked_def)
  then show "state_ok t' \<and> log_ok n t'" by (rule quiet_keeps [OF _ assms(2,3)])
  note r = CleanupResource_res [OF assms(1,4)]
  show "res_inv t'" using r by (simp add: fresh_resources)
  show "marks t' = []" using r(1) by (simp add: marks_def SavepointList_Init_def)
qed

lemma same_res_inv: "same_res t t' \<Longrightarrow> res_inv t \<Longrightarrow> res_inv t'"
  by (simp add: same_res_def)

lemmas step_quiet = rollback_command_quiet savepoints_quiet(1) numbers_quiet undo_quiet [THEN conjunct1] slot_quiet [THEN conjunct1] savepoints_quiet(2) [THEN conjunct1]
  snapshot_calm [THEN conjunct1, THEN calm_quiet] other_calm [THEN conjunct1, THEN calm_quiet]
  locks_calm [THEN conjunct1, THEN calm_quiet] savepoints_quiet(3) [THEN conjunct1, THEN calm_quiet]

lemmas step_same_res = snapshot_calm [THEN conjunct2] other_calm [THEN conjunct2] slot_quiet [THEN conjunct2]
  undo_quiet [THEN conjunct2]

lemma trx_step_state:
  assumes "trx_step op t t'" "state_ok t" "log_ok n t" "res_inv t"
  shows "state_ok t' \<and> log_ok n t'"
  using assms
proof (cases rule: trx_step.cases)
  case (start env st)
  then show ?thesis using Start_keeps [OF start(4) assms(2,3)] by (simp add: start_checked_def)
next
  case (commit env clean st)
  then show ?thesis using Commit_keeps assms(2,3) by blast
next
  case (abort env stop clean st)
  then show ?thesis using Abort_keeps assms(2,3) by blast
next
  case after_commit
  then show ?thesis using cleanup_keeps(1) assms(2-4) by (simp add: CleanUpResourceAfterCommit_def)
next
  case after_abort
  then show ?thesis using cleanup_keeps(1) assms(2-4) by (simp add: CleanUpResourceAfterAbort_def)
next
  case (restore envs isRollback st)
  then show ?thesis using restore_keeps(1) [OF _ assms(2-4)] by simp
next
  case (begin_block st)
  then show ?thesis using block_keeps(1) [OF _ assms(2,3)] by blast
next
  case (end_block st)
  then show ?thesis using block_keeps(1) [OF _ assms(2,3)] by blast
next
  case (user_abort st)
  then show ?thesis using block_keeps(1) [OF _ assms(2,3)] by blast
next
  case (rollback_to env name cnts st cnts')
  then show ?thesis using rollback_to_keeps [OF _ assms(2,3)] by blast
qed (rule quiet_keeps [OF _ assms(2,3)], erule step_quiet)+

lemma cleanup_res: "CleanupResource t = Some t' \<Longrightarrow> res_inv t \<Longrightarrow> res_inv t'"
  using CleanupResource_res [of t t'] by (simp add: fresh_resources)

lemma block_res:
  "BeginTransactionBlock t = (st, t') \<Longrightarrow> same_res t t'" "EndTransactionBlock t = (st, t') \<Longrightarrow> same_res t t'"
  "UserAbortTransactionBlock t = (st, t') \<Longrightarrow> same_res t t'"
  by (auto simp: BeginTransactionBlock_def EndTransactionBlock_def UserAbortTransactionBlock_def same_res_def split: TBlockState.splits)

lemma restore_res:
  assumes "CommitRollbackAndRestoreTrxState envs isRollback t = Some (st, t')" "res_inv t" "room (m_lockResource t)"
  shows "res_inv t'"
proof (cases "InTransaction t")
  case False
  then show ?thesis using assms by (simp add: CommitRollbackAndRestoreTrxState_def)
next
  case True
  let ?t0 = "FireCallback TRX_EVENT_PRE_STP_TRX_STATEMENT t"
  obtain s1 t1 where t1: "(if trx_block t \<noteq> TBLOCK_INPROGRESS then (DSTORE_SUCC, ?t0)
      else if isRollback then UserAbortTransactionBlock ?t0 else EndTransactionBlock ?t0) = (s1, t1)" by fastforce
  have "same_res ?t0 t1" using t1 block_res [of ?t0] by (auto simp: same_res_def split: if_splits)
  then have same: "same_res t t1" by (simp add: same_res_def)
  have run: "t' = t1 \<or> (\<exists>s2 t2. (if isRollback then Abort (envs 0) False True t1 else Commit (envs 0) True t1) = Some (s2, t2) \<and>
      (t' = t2 \<or> (\<exists>s3 t3. Start (envs 1) t2 = Some (s3, t3) \<and> same_res t3 t')))"
    using assms(1) True unfolding CommitRollbackAndRestoreTrxState_def Let_def t1
    by (auto simp: bind_eq_Some_conv same_res_def split: if_splits)
  have inv1: "res_inv t1" by (rule same_res_inv [OF same assms(2)])
  from run consider "t' = t1"
    | s2 t2 where "(if isRollback then Abort (envs 0) False True t1 else Commit (envs 0) True t1) = Some (s2, t2)"
        "t' = t2 \<or> (\<exists>s3 t3. Start (envs 1) t2 = Some (s3, t3) \<and> same_res t3 t')" by blast
  then show ?thesis
  proof cases
    case 2
    have step: "res_step t1 t2" using 2(1) Abort_res [OF _ inv1] Commit_res [OF _ inv1] by (auto split: if_splits)
    have room2: "room (m_lockResource t2)"
      using step same assms(3) by (auto simp: res_step_def same_res_def room_def LockResource_new_def FIRST_SUB_LOCK_RES_ID_def)
    show ?thesis using 2(2) Start_res [OF _ res_step_inv [OF step inv1] room2] res_step_inv [OF step inv1] same_res_inv by blast
  qed (use inv1 in simp)
qed

lemma trx_step_res:
  assumes "trx_step op t t'" and inv: "res_inv t"
  shows "res_inv t'"
  using assms
proof (cases rule: trx_step.cases)
  case (start env st)
  then show ?thesis using Start_res inv by blast
next
  case (commit env clean st)
  then show ?thesis using Commit_res res_step_inv inv by blast
next
  case (abort env stop clean st)
  then show ?thesis using Abort_res res_step_inv inv by blast
next
  case after_commit
  then show ?thesis using cleanup_res inv by (simp add: CleanUpResourceAfterCommit_def)
next
  case after_abort
  then show ?thesis using cleanup_res inv by (simp add: CleanUpResourceAfterAbort_def)
next
  case (restore envs isRollback st)
  then show ?thesis using restore_res inv by blast
next
  case (begin_block st)
  then show ?thesis using block_res same_res_inv inv by blast
next
  case (end_block st)
  then show ?thesis using block_res same_res_inv inv by blast
next
  case (user_abort st)
  then show ?thesis using block_res same_res_inv inv by blast
next
  case (remember tag env st)
  then show ?thesis using remember_res(1) inv by blast
next
  case (forget tag st)
  then show ?thesis using forget_res(1) inv by blast
next
  case (create_savepoint env name st)
  then show ?thesis using create_res(1) inv by blast
next
  case (release_savepoint name cnts st cnts')
  then show ?thesis using release_savepoint_res(1) inv by blast
next
  case (rollback_to env name cnts st cnts')
  then show ?thesis using rollback_to_res(1) inv by blast
next
  case (rollback_command env st)
  then show ?thesis using rollback_command_res(1) inv by blast
next
  case (release_after sid)
  then show ?thesis using release_after_res(1) inv by blast
next
  case (next_id sid)
  then show ?thesis using next_id_res(1) inv by blast
next
  case (extra_res name data st)
  then show ?thesis using extra_res_res(1) inv by blast
qed (rule same_res_inv [OF _ inv], erule step_same_res)+

text \<open>
  Every call the code lets a client make: besides the steps above a start while the database stops accepting
  transactions, a commit after an abort that failed half-way, and the interfaces by which the SQL engine
  sets the states directly.
\<close>

inductive trx_call :: "Transaction \<Rightarrow> Transaction \<Rightarrow> bool" where
  step: "trx_step op t t' \<Longrightarrow> trx_call t t'"
| any_start: "room (m_lockResource t) \<Longrightarrow> Start env t = Some (st, t') \<Longrightarrow> trx_call t t'"
| any_commit: "Commit env clean t = Some (st, t') \<Longrightarrow> trx_call t t'"
| any_restore: "room (m_lockResource t) \<Longrightarrow> CommitRollbackAndRestoreTrxState envs isRollback t = Some (st, t') \<Longrightarrow> trx_call t t'"
| set_block_state: "trx_call t (SetCurTxnBlockState b t)"
| set_abort_stage: "trx_call t (SetCurAbortStage g t)"
| restore_state: "RestoreCurTransactionState saved t = Some (t', saved') \<Longrightarrow> trx_call t t'"

lemma trx_call_res:
  assumes "trx_call t t'" "res_inv t"
  shows "res_inv t'"
  using assms
proof (cases rule: trx_call.cases)
  case (step op)
  then show ?thesis using trx_step_res assms(2) by blast
next
  case (any_start env st)
  then show ?thesis using Start_res assms(2) by blast
next
  case (any_commit env clean st)
  then show ?thesis using Commit_res res_step_inv assms(2) by blast
next
  case (any_restore envs isRollback st)
  then show ?thesis using restore_res assms(2) by blast
qed (use assms(2) in \<open>auto simp: SetCurTxnBlockState_def SetCurAbortStage_def RestoreCurTransactionState_def split: if_splits\<close>)


subsection \<open>Steps while a savepoint is open\<close>

text \<open>An operation keeps savepoints and holdings, or drops every savepoint.\<close>

definition keep_or_drop :: "Transaction \<Rightarrow> Transaction \<Rightarrow> bool" where
  "keep_or_drop t t' \<longleftrightarrow> marks t' = marks t \<and> held (m_lockResource t') = held (m_lockResource t) \<or> marks t' = []"

lemma keep_or_drop_simps:
  "same_res t t' \<Longrightarrow> keep_or_drop t t'" "res_step t t' \<Longrightarrow> keep_or_drop t t'"
  "keep_or_drop t t1 \<Longrightarrow> keep_or_drop t1 t2 \<Longrightarrow> keep_or_drop t t2"
  by (auto simp: keep_or_drop_def same_res_def res_step_def marks_def SavepointList_Init_def)

lemma keep_or_drop_before: "keep_or_drop t t' \<Longrightarrow> k \<in> set (marks t') \<Longrightarrow> held_before p t' = held_before p t"
  by (auto simp: keep_or_drop_def held_before_def)

lemma Start_keep:
  assumes "Start env t = Some (st, t')"
  shows "keep_or_drop t t'"
proof (cases "env_disabled_at_start env")
  case True
  then show ?thesis using assms by (simp add: Start_def keep_or_drop_def)
next
  case False
  let ?t0 = "reset_snapshot t"
  consider (idle) s1 t1 where "StartInternal env ?t0 = Some (s1, t1)" "same_res t1 t'"
    | (block) "t' = snd (create_inner_savepoint env ?t0)" | (rest) "t' = ?t0"
    using assms False by (cases "trx_block ?t0") (auto simp: Start_def Let_def bind_eq_Some_conv same_res_def split: if_splits)
  then show ?thesis
  proof cases
    case idle
    have "same_res ?t0 t1" using idle(1) by (auto simp: StartInternal_def same_res_def Let_def split: if_splits)
    then have "same_res t t'" using idle(2) by (simp add: same_res_def)
    then show ?thesis by (rule keep_or_drop_simps)
  next
    case block
    then show ?thesis
      by (auto simp: create_inner_savepoint_def Savepoint_Create_def GenerateSubLockResourceID_def keep_or_drop_def marks_def Let_def)
  qed (simp add: keep_or_drop_def marks_def)
qed

lemma restore_keep:
  assumes "CommitRollbackAndRestoreTrxState envs isRollback t = Some (st, t')" "state_ok t" "log_ok n t" "res_inv t"
  shows "keep_or_drop t t'"
proof (cases "InTransaction t")
  case False
  then show ?thesis using assms by (simp add: CommitRollbackAndRestoreTrxState_def keep_or_drop_def)
next
  case True
  obtain s2 t2 where b: "trx_block t = TBLOCK_STARTED \<or> trx_block t = TBLOCK_INPROGRESS"
    and t2: "(if isRollback then Abort (envs 0) False True (leaving isRollback t) else Commit (envs 0) True (leaving isRollback t)) = Some (s2, t2)"
    and t': "s2 = DSTORE_FAIL \<and> t' = t2 \<or> (\<exists>t3. s2 = DSTORE_SUCC \<and> (Start (envs 1) t2 = Some (DSTORE_FAIL, t3) \<and> t' = t3 \<or>
      Start (envs 1) t2 = Some (DSTORE_SUCC, t3) \<and> t' = set_block (trx_block t) (set_state (trx_low t) t3)))"
    by (rule restore_run [OF assms(1) True])
  have live: "live t" using assms(2) True b by (auto simp: state_ok_def aborting_def InTransaction_def)
  note l1 = leaving_keeps [OF live assms(3) b, of isRollback]
  have "res_inv (leaving isRollback t)" using l1(3) assms(4) by (simp add: same_res_def)
  note k2 = keep_or_drop_simps(2) [OF same_res_step [OF l1(3) leave_block_run(2) [OF t2 l1(4,1,2) this]]]
  from t' consider "t' = t2" | s3 t3 where "Start (envs 1) t2 = Some (s3, t3)" "same_res t3 t'" by (auto simp: same_res_def)
  then show ?thesis
  proof cases
    case 2
    from keep_or_drop_simps(3) [OF Start_keep [OF 2(1)] keep_or_drop_simps(1) [OF 2(2)]] k2 keep_or_drop_simps(3) show ?thesis by blast
  qed (use k2 in simp)
qed

text \<open>
  A step while a savepoint is open: the savepoint is still there afterwards, no lock of an earlier
  time is given back, and no command is rolled back that began before the savepoint.
\<close>

definition keeps_earlier :: "SubLockResourceID \<Rightarrow> trx_op \<Rightarrow> Transaction \<Rightarrow> bool" where
  "keeps_earlier p op t =
     (case op of
        Op_Forget tag \<Rightarrow> p \<le> fst (last (held (m_lockResource t) tag))
      | Op_Release_After sid \<Rightarrow> p \<le> sid
      | Op_Rollback_Command \<Rightarrow> p \<le> m_lastLockPos (m_innerSavepoint t)
      | _ \<Rightarrow> True)"

inductive open_steps :: "string option \<times> UndoRecPtr \<times> SubLockResourceID \<Rightarrow> Transaction \<Rightarrow> Transaction \<Rightarrow> bool" for k where
  none: "open_steps k t t"
| more: "open_steps k t t1 \<Longrightarrow> trx_step op t1 t2 \<Longrightarrow> keeps_earlier (snd (snd k)) op t1 \<Longrightarrow> k \<in> set (marks t2) \<Longrightarrow> open_steps k t t2"

lemma open_step_before:
  assumes "trx_step op t t'" "keeps_earlier p op t" "(a, b, p) \<in> set (marks t)" "(a, b, p) \<in> set (marks t')"
    "state_ok t" "log_ok n t" "res_inv t"
  shows "held_before p t' = held_before p t"
  using assms
proof (cases rule: trx_step.cases)
  case (start env st)
  then show ?thesis using keep_or_drop_before [OF Start_keep assms(4)] by blast
next
  case (commit env clean st)
  then show ?thesis using keep_or_drop_before [OF keep_or_drop_simps(2) [OF Commit_res] assms(4)] assms(7) by blast
next
  case (abort env stop clean st)
  then show ?thesis using keep_or_drop_before [OF keep_or_drop_simps(2) [OF Abort_res] assms(4)] assms(7) by blast
next
  case after_commit
  then show ?thesis using cleanup_keeps(3) [of t t'] assms(4-7) by (simp add: CleanUpResourceAfterCommit_def)
next
  case after_abort
  then show ?thesis using cleanup_keeps(3) [of t t'] assms(4-7) by (simp add: CleanUpResourceAfterAbort_def)
next
  case (restore envs isRollback st)
  then show ?thesis using keep_or_drop_before [OF restore_keep assms(4)] assms(5-7) by blast
next
  case (begin_block st)
  then show ?thesis using block_keeps(2) [of t st t', OF _ assms(5,6)] by (simp add: same_res_def held_before_def)
next
  case (end_block st)
  then show ?thesis using block_keeps(2) [of t st t', OF _ assms(5,6)] by (simp add: same_res_def held_before_def)
next
  case (user_abort st)
  then show ?thesis using block_keeps(2) [of t st t', OF _ assms(5,6)] by (simp add: same_res_def held_before_def)
next
  case (remember tag env st)
  then show ?thesis using remember_res(2) mark_bound [OF assms(7,3)] assms(7) by blast
next
  case (forget tag st)
  then show ?thesis using forget_res(2) [OF forget(2,3) assms(7)] assms(2) by (simp add: keeps_earlier_def)
next
  case (create_savepoint env name st)
  then show ?thesis using create_res(2) [OF _ assms(7)] by (simp add: held_before_def)
next
  case (release_savepoint name cnts st cnts')
  then show ?thesis using release_savepoint_res(2) assms(7) by (simp add: held_before_def)
next
  case (rollback_to env name cnts st cnts')
  then show ?thesis using rollback_to_res(2) [OF _ assms(7,4)] by blast
next
  case (rollback_command env st)
  then show ?thesis using rollback_command_res(3) [OF rollback_command(2) assms(7)] assms(2) by (simp add: keeps_earlier_def)
next
  case (release_after sid)
  then show ?thesis using release_after_res(2) [OF release_after(2) assms(7)] assms(2) by (simp add: keeps_earlier_def)
next
  case (next_id sid)
  then show ?thesis using next_id_res(2) assms(7) by blast
next
  case (extra_res name data st)
  then show ?thesis using extra_res_res(2) assms(7) by (simp add: held_before_def)
qed (rule keep_or_drop_before [OF keep_or_drop_simps(1) assms(4)], erule step_same_res)+

section \<open>Reachable states\<close>

inductive trx_reachable :: "uint32 \<Rightarrow> Transaction \<Rightarrow> bool" for n where
  created: "trx_reachable n (Transaction_new isTop n)"
| stepped: "trx_reachable n t \<Longrightarrow> trx_step op t t' \<Longrightarrow> trx_reachable n t'"

lemma Transaction_new_ok:
  "state_ok (Transaction_new isTop n)" "log_ok n (Transaction_new isTop n)" "res_inv (Transaction_new isTop n)"
  by (simp_all add: Transaction_new_def InitInfoForNewTrx_def state_ok_def log_ok_def fresh_resources)

lemma trx_invariant:
  assumes "trx_reachable n t"
  shows "state_ok t" "log_ok n t" "res_inv t"
proof -
  from assms have "state_ok t \<and> log_ok n t \<and> res_inv t"
  proof induction
    case (created isTop)
    show ?case using Transaction_new_ok by blast
  next
    case (stepped t op t')
    then show ?case using trx_step_state [of op t t' n] trx_step_res [of op t t'] by blast
  qed
  then show "state_ok t" "log_ok n t" "res_inv t" by auto
qed

lemma open_steps_before:
  assumes "open_steps (a, b, p) t t'" "trx_reachable n t" "(a, b, p) \<in> set (marks t)"
  shows "trx_reachable n t'" "(a, b, p) \<in> set (marks t')" "held_before p t' = held_before p t"
proof -
  from assms have "trx_reachable n t' \<and> (a, b, p) \<in> set (marks t') \<and> held_before p t' = held_before p t"
  proof induction
    case (more t t1 op t2)
    have k: "trx_reachable n t1" "(a, b, p) \<in> set (marks t1)" "held_before p t1 = held_before p t" using more by auto
    show ?case
      using trx_reachable.stepped [OF k(1) more(2)] more(4) k(3)
        open_step_before [OF more(2) _ k(2) more(4) trx_invariant [OF k(1)]] more(3) by simp
  qed simp
  then show "trx_reachable n t'" "(a, b, p) \<in> set (marks t')" "held_before p t' = held_before p t" by auto
qed

lemma create_run:
  assumes "CreateSavepoint env name t = (DSTORE_SUCC, t1)" "env_alloc_ok env" "env_name_ok env" "res_inv t" "room (m_lockResource t)"
  shows "marks t1 = (name, m_trxLastUndoPtr t1, m_subLockResId (m_lockResource t1)) # marks t"
    "m_subLockResId (m_lockResource t1) = m_subLockResId (m_lockResource t) + 1"
    "held (m_lockResource t1) = held (m_lockResource t)"
proof -
  obtain s t0 where a: "AllocTransactionSlot env t = (s, t0)" by fastforce
  have same: "same_res t t0" using slot_quiet [OF a] by simp
  have s: "s = DSTORE_SUCC" using assms(1) a by (cases s) (simp_all add: CreateSavepoint_def)
  have t1: "t1 = t0\<lparr>m_savepoints := (m_savepoints t)\<lparr>m_savepointList :=
        Savepoint_new\<lparr>m_name := name, m_lastUndoPtr := m_trxLastUndoPtr t0, m_lastLockPos := m_subLockResId (m_lockResource t) + 1\<rparr>
          # m_savepointList (m_savepoints t), m_nestLevel := m_nestLevel (m_savepoints t) + 1\<rparr>,
      m_lockResource := (m_lockResource t)\<lparr>m_subLockResId := m_subLockResId (m_lockResource t) + 1\<rparr>\<rparr>"
    using assms(1-3) a s same
    by (cases name) (auto simp: CreateSavepoint_def AddSavepoint_def Savepoint_Create_def GenerateSubLockResourceID_def Savepoint_new_def same_res_def Let_def)
  show "marks t1 = (name, m_trxLastUndoPtr t1, m_subLockResId (m_lockResource t1)) # marks t"
    "m_subLockResId (m_lockResource t1) = m_subLockResId (m_lockResource t) + 1"
    "held (m_lockResource t1) = held (m_lockResource t)"
    using t1 by (simp_all add: marks_def sp_mark_def)
qed

lemma held_before_all:
  assumes "res_ok l" "room l"
  shows "filter (\<lambda>e. \<not> m_subLockResId l + 1 \<le> fst e) (held l tag) = held l tag"
proof -
  have "\<forall>e \<in> set (held l tag). \<not> m_subLockResId l + 1 \<le> fst e"
    using held_bound [OF assms(1)] res_ok_next_id(2) [OF assms] by (meson leD le_less_trans)
  then show ?thesis by (simp add: filter_id_conv)
qed

lemma stack_cnt_split: "stack_cnt st = stack_cnt (filter P st) + stack_cnt (filter (\<lambda>e. \<not> P e) st)"
  by (induction st) auto

lemma found_first:
  assumes "find P xs = Some x"
  obtains ys zs where "xs = ys @ x # zs" "P x" "\<forall>y \<in> set ys. \<not> P y"
proof -
  from assms have "P x" by (simp add: find_Some_iff) blast
  moreover from assms have "\<exists>ys zs. xs = ys @ x # zs \<and> (\<forall>y \<in> set ys. \<not> P y)"
  proof (induction xs)
    case (Cons a xs)
    show ?case
    proof (cases "P a")
      case True
      then show ?thesis using Cons(2) by (intro exI [of _ "[]"] exI [of _ xs]) simp
    next
      case False
      then obtain ys zs where "xs = ys @ x # zs" "\<forall>y \<in> set ys. \<not> P y" using Cons by auto
      then show ?thesis using False by (intro exI [of _ "a # ys"] exI [of _ zs]) simp
    qed
  qed simp
  ultimately show ?thesis using that by blast
qed

lemma decreasing_distinct: "sorted_wrt (>) (xs :: 'a :: linorder list) \<Longrightarrow> distinct xs"
  by (induction xs) auto

lemma mark_unique:
  assumes "res_inv t" "(a, b, p) \<in> set (marks t)" "sp \<in> set (m_savepointList (m_savepoints t))" "m_lastLockPos sp = p"
  shows "m_name sp = a" "m_lastUndoPtr sp = b"
proof -
  let ?xs = "m_savepointList (m_savepoints t)"
  have "distinct (map m_lastLockPos ?xs)" using assms(1) by (intro decreasing_distinct) (simp add: sp_ok_def)
  moreover obtain sp' where "sp' \<in> set ?xs" "sp_mark sp' = (a, b, p)" using assms(2) by (auto simp: marks_def)
  ultimately show "m_name sp = a" "m_lastUndoPtr sp = b" using assms(3,4) by (auto simp: sp_mark_def distinct_map inj_on_def)
qed

section \<open>Ending a transaction\<close>

lemma CleanupResource_done:
  assumes "res_inv t"
  obtains calls t' where "CleanupResource t = Some t'" "trx_log t' = trx_log t @ [Locks_Released calls]"
    "released calls = (\<lambda>tag. stack_cnt (held (m_lockResource t) tag))" "m_currTransState t' = m_currTransState t"
    "held (m_lockResource t') = (\<lambda>_. [])" "marks t' = []" "m_cursorSnapshotList t' = []"
    "pdb_activeTransactionNum t' = pdb_activeTransactionNum t"
proof -
  obtain calls t' where c: "CleanupResource t = Some t'" "m_savepoints t' = SavepointList_Init" "m_lockResource t' = LockResource_new"
    "m_cursorSnapshotList t' = []" "trx_log t' = trx_log t @ [Locks_Released calls]"
    "released calls = (\<lambda>tag. stack_cnt (held (m_lockResource t) tag))" "m_currTransState t' = m_currTransState t"
    by (rule CleanupResource_run [OF assms])
  obtain calls' where "pdb_activeTransactionNum t' = pdb_activeTransactionNum t" by (rule CleanupResource_frame [OF c(1)])
  with c show ?thesis using that by (simp add: marks_def SavepointList_Init_def LockResource_new_def)
qed

text \<open>What the transaction manager is asked to end: the slot of a transaction that wrote something.\<close>

definition writes :: "Transaction \<Rightarrow> bool" where
  "writes t \<longleftrightarrow> \<not> readOnly (m_currTransState t) \<and> IsValid_xid t"

definition ended :: "Transaction \<Rightarrow> bool" where
  "ended t \<longleftrightarrow> trx_block t = TBLOCK_DEFAULT \<and> trx_low t = TRANS_DEFAULT \<and> held (m_lockResource t) = (\<lambda>_. []) \<and> marks t = [] \<and>
     m_cursorSnapshotList t = []"

lemma abort_record_done:
  assumes "writes t \<longrightarrow> env_rollback_slot_ok env" "trx_stage t = PreAbortDone"
  obtains t' where "abort_record env t = Some (DSTORE_SUCC, t')" "trx_stage t' = RecordAbortDone" "trx_low t' = TRANS_ABORT"
    "trx_log t' = trx_log t @ (if writes t then [Slot_Rolled_Back (xid (m_currTransState t))] else [])"
    "pdb_activeTransactionNum t' = pdb_activeTransactionNum t" "same_res t t'"
  by (rule that [of "set_stage RecordAbortDone ((if writes t then log_action (Slot_Rolled_Back (xid (m_currTransState t))) else id) (set_state TRANS_ABORT t))"])
    (use assms in \<open>auto simp: abort_record_def RecordAbort_def writes_def IsValid_xid_def trx_updates same_res_def Let_def\<close>)

lemma abort_and_leave_done:
  assumes "live t \<or> aborting t" "res_inv t" "writes t \<longrightarrow> env_rollback_slot_ok env"
  obtains calls t' where "abort_and_leave env True t = Some (DSTORE_SUCC, t')" "ended t'"
    "pdb_activeTransactionNum t' = pdb_activeTransactionNum t - 1" "released calls = (\<lambda>tag. stack_cnt (held (m_lockResource t) tag))"
    "trx_log t' = trx_log t @ abort_log t @ (if writes t then [Slot_Rolled_Back (xid (m_currTransState t))] else []) @
       [Fired TRX_EVENT_POST_ABORT, Locks_Released calls, Active_Removed, Fired TRX_EVENT_PREROLLBACK_CLEANUP]"
proof -
  obtain t1 where t1: "abort_start t = (DSTORE_SUCC, t1)" "trx_stage t1 = PreAbortDone"
    "trx_log t1 = trx_log t @ abort_log t" "pdb_activeTransactionNum t1 = pdb_activeTransactionNum t"
    by (rule abort_start_run [OF assms(1)])
  have w1: "writes t1 \<longleftrightarrow> writes t" "xid (m_currTransState t1) = xid (m_currTransState t)" "same_res t t1"
    using t1(1) by (auto simp: abort_start_def writes_def IsValid_xid_def trx_updates same_res_def split: if_splits)
  obtain t2 where t2: "abort_record env t1 = Some (DSTORE_SUCC, t2)" "trx_stage t2 = RecordAbortDone" "trx_low t2 = TRANS_ABORT"
    "trx_log t2 = trx_log t1 @ (if writes t1 then [Slot_Rolled_Back (xid (m_currTransState t1))] else [])"
    "pdb_activeTransactionNum t2 = pdb_activeTransactionNum t1" "same_res t1 t2"
    by (rule abort_record_done [of t1 env, OF _ t1(2)]) (use assms(3) w1(1) in simp)
  let ?t3 = "abort_post t2"
  have t3: "trx_stage ?t3 = PostAbortDone" "trx_low ?t3 = TRANS_ABORT" "trx_log ?t3 = trx_log t2 @ [Fired TRX_EVENT_POST_ABORT]"
    "pdb_activeTransactionNum ?t3 = pdb_activeTransactionNum t2" "same_res t ?t3"
    using t2(2,3,6) w1(3) by (simp_all add: abort_post_def trx_updates same_res_def)
  have i3: "res_inv ?t3" by (rule same_res_inv [OF t3(5) assms(2)])
  obtain calls t4 where t4: "CleanupResource ?t3 = Some t4" "trx_log t4 = trx_log ?t3 @ [Locks_Released calls]"
    "released calls = (\<lambda>tag. stack_cnt (held (m_lockResource ?t3) tag))" "m_currTransState t4 = m_currTransState ?t3"
    "held (m_lockResource t4) = (\<lambda>_. [])" "marks t4 = []" "m_cursorSnapshotList t4 = []"
    "pdb_activeTransactionNum t4 = pdb_activeTransactionNum ?t3"
    by (rule CleanupResource_done [OF i3])
  let ?t5 = "set_stage DstoreAbortCompleted (set_stage DecreasePdbTransCountDone (SubActiveTransaction (set_stage CleanUpResourceDone t4)))"
  let ?t6 = "set_block TBLOCK_DEFAULT (set_state TRANS_DEFAULT (set_xid INVALID_XID (FireCallback TRX_EVENT_PREROLLBACK_CLEANUP ?t5)))"
  have a: "AbortInternal env True t = Some (DSTORE_SUCC, ?t5)"
    using t1(1) t2(1) t3(1) t4(1,4)
    by (simp add: AbortInternal_def abort_cleanup_def abort_decrease_def abort_finish_def trx_updates)
  have "Cleanup ?t5 = (DSTORE_SUCC, set_state TRANS_DEFAULT (set_xid INVALID_XID (FireCallback TRX_EVENT_PREROLLBACK_CLEANUP ?t5)))"
    using t3(2) t4(4) by (simp add: Cleanup_def trx_updates)
  with a have r: "abort_and_leave env True t = Some (DSTORE_SUCC, ?t6)" by (simp add: abort_and_leave_def)
  have l: "m_lockResource ?t3 = m_lockResource t" using t3(5) by (simp add: same_res_def)
  show ?thesis
    by (rule that [OF r, of calls])
      (use t4 t3(3,4) t2(4,5) t1(3,4) w1 l in \<open>simp_all add: ended_def trx_updates marks_def\<close>)
qed

section \<open>Sample states\<close>

text \<open>A started transaction, and one that holds a lock, for concrete inputs of the properties below.\<close>

definition calm_env :: trx_env where
  "calm_env = \<lparr>env_disabled_at_start = False, env_disabled_inside = False, env_primary = True, env_standby = False,
     env_new_slot = (DSTORE_SUCC, 7), env_commit_ok = True, env_rollback_slot_ok = True, env_undo_ok = (\<lambda>_. True),
     env_undo_ptr = 40, env_last_undo = Some 40, env_alloc_ok = True, env_name_ok = True, env_next_csn = Some 10\<rparr>"

definition table_lock :: LockResourceTag where
  "table_lock = \<lparr>rt_lockTag = LockTag_default, rt_lockMode = DSTORE_ROW_EXCLUSIVE_LOCK, rt_lockMgrType = TABLE_LOCK_MGR\<rparr>"

definition row_lock :: LockResourceTag where
  "row_lock = \<lparr>rt_lockTag = LockTag_default, rt_lockMode = DSTORE_EXCLUSIVE_LOCK, rt_lockMgrType = LOCK_MGR\<rparr>"

definition started :: Transaction where
  "started = snd (the (Start calm_env (Transaction_new True 3)))"

definition locked :: Transaction where
  "locked = snd (Remember2PLock calm_env table_lock started)"

definition writing :: Transaction where
  "writing = snd (AllocTransactionSlot calm_env started)"

lemma started_step: "trx_step Op_Start (Transaction_new True 3) started"
proof (rule trx_step.start)
  show "Start calm_env (Transaction_new True 3) = Some (DSTORE_SUCC, started)" by code_simp
qed (simp_all add: start_checked_def calm_env_def room_def Transaction_new_def InitInfoForNewTrx_def LockResource_new_def
    FIRST_SUB_LOCK_RES_ID_def)

lemma locked_step: "trx_step (Op_Remember table_lock) started locked"
proof (rule trx_step.remember)
  show "Remember2PLock calm_env table_lock started = (DSTORE_SUCC, locked)" by code_simp
  have "held (m_lockResource started) table_lock = []" by code_simp
  then show "stack_cnt (held (m_lockResource started) table_lock) + 1 < 2 ^ 32" by simp
qed (simp add: known_mgr_def table_lock_def)

lemma started_reachable: "trx_reachable 3 started"
  by (rule trx_reachable.stepped [OF trx_reachable.created started_step])

lemma locked_reachable: "trx_reachable 3 locked" "room (m_lockResource locked)"
proof -
  show "trx_reachable 3 locked" by (rule trx_reachable.stepped [OF started_reachable locked_step])
  have "m_subLockResId (m_lockResource locked) = 1" by code_simp
  then show "room (m_lockResource locked)" by (simp add: room_def)
qed

lemma writing_reachable: "trx_reachable 3 writing"
proof -
  have "AllocTransactionSlot calm_env started = (DSTORE_SUCC, writing)" by code_simp
  then show ?thesis by (rule trx_reachable.stepped [OF started_reachable trx_step.slot])
qed

section \<open>Properties\<close>

text \<open>
  C9. Rolling back to a savepoint restores the locks held when it was created. After a savepoint was
  created, any operations of the transaction may follow that keep the savepoint, give back no earlier
  lock and roll back no command begun before it. Then \<open>RollbackToSavepoint\<close>, when no newer savepoint
  has the same name, does not panic; every lock is held exactly as often as when the savepoint was
  created; what the lock managers are asked to release is exactly what was acquired since; and the undo
  records are rolled back to the record that was the last one then, before any lock is released.
\<close>

theorem savepoint_rollback_restores_locks:
  assumes "trx_reachable n t" "room (m_lockResource t)"
    "CreateSavepoint env name t = (DSTORE_SUCC, t1)" "env_alloc_ok env" "env_name_ok env"
    "open_steps (name, m_trxLastUndoPtr t1, m_subLockResId (m_lockResource t1)) t1 t2"
    "find (HasSameName name) (m_savepointList (m_savepoints t2)) = Some sp" "m_lastLockPos sp = m_subLockResId (m_lockResource t1)"
    "IsValid_xid t2 \<longrightarrow> env_undo_ok env2 (m_trxLastUndoPtr t1)"
  shows "\<exists>st cnts' calls t3. RollbackToSavepoint env2 name cnts t2 = Some (st, cnts', t3) \<and>
    (st = DSTORE_SUCC \<longleftrightarrow> \<not> IsValid_xid t2 \<or> env_last_undo env2 \<noteq> None) \<and>
    held (m_lockResource t3) = held (m_lockResource t) \<and>
    released calls = (\<lambda>tag. stack_cnt (held (m_lockResource t2) tag) - stack_cnt (held (m_lockResource t) tag)) \<and>
    trx_log t3 = trx_log t2 @ (if IsValid_xid t2 then [Undo_Rolled_Back (m_trxLastUndoPtr t1)] else []) @ [Locks_Released calls]"
proof -
  let ?l = "m_lockResource t" and ?p = "m_subLockResId (m_lockResource t1)" and ?u = "m_trxLastUndoPtr t1"
  note inv = trx_invariant [OF assms(1)]
  have ok: "res_ok ?l" using inv(3) by (simp add: sp_ok_def)
  note c = create_run [OF assms(3,4,5) inv(3) assms(2)]
  have r1: "trx_reachable n t1"
    using trx_reachable.stepped [OF assms(1) trx_step.create_savepoint [OF assms(2,3)]] .
  have "(name, ?u, ?p) \<in> set (marks t1)" using c(1) by simp
  note o = open_steps_before [OF assms(6) r1 this]
  note inv2 = trx_invariant(3) [OF o(1)]
  have ok2: "res_ok (m_lockResource t2)" using inv2 by (simp add: sp_ok_def)
  have before: "filter (\<lambda>e. \<not> ?p \<le> fst e) (held (m_lockResource t2) tag) = held ?l tag" for tag
    using o(3) held_before_all [OF ok assms(2), of tag] c(2,3) by (simp add: held_before_def fun_eq_iff)
  obtain ys zs where f: "m_savepointList (m_savepoints t2) = ys @ sp # zs" "HasSameName name sp" "\<forall>y\<in>set ys. \<not> HasSameName name y"
    by (rule found_first [OF assms(7)])
  have u: "m_lastUndoPtr sp = ?u" using mark_unique(2) [OF inv2 o(2) _ assms(8)] f(1) by simp
  have undo: "IsValid_xid t2 \<longrightarrow> env_undo_ok env2 (m_lastUndoPtr sp)" using u assms(9) by simp
  obtain calls l' where r: "Savepoint_Rollback (IsValid_xid t2) (env_undo_ok env2) (m_lockResource t2) sp = Some (DSTORE_SUCC, calls, l')"
    "held l' = (\<lambda>tag. filter (\<lambda>e. \<not> m_lastLockPos sp \<le> fst e) (held (m_lockResource t2) tag))"
      "released calls = (\<lambda>tag. stack_cnt (filter (\<lambda>e. m_lastLockPos sp \<le> fst e) (held (m_lockResource t2) tag)))"
    using Savepoint_Rollback_run [OF ok2, of "IsValid_xid t2" "env_undo_ok env2" sp, OF undo] by blast
  have cnt: "stack_cnt (filter (\<lambda>e. ?p \<le> fst e) (held (m_lockResource t2) tag)) = stack_cnt (held (m_lockResource t2) tag) - stack_cnt (held ?l tag)" for tag
    using stack_cnt_split [of "held (m_lockResource t2) tag" "\<lambda>e. ?p \<le> fst e"] before [of tag] by simp
  have "IsSavepointExist name (m_savepoints t2)" using f by (simp add: IsSavepointExist_def)
  then show ?thesis
    using RollbackToSavepoint_list_run [OF f, of "IsValid_xid t2" "env_undo_ok env2" cnts "m_lockResource t2"] r u assms(8) before cnt
    by (auto simp: RollbackToSavepoint_def log_rollback_def trx_updates IsValid_xid_def Let_def split: option.split)
qed

theorem savepoint_rollback_restores_locks_witness:
  "\<exists>cnts t3. RollbackToSavepoint calm_env (Some ''s'') (None, None)
      (snd (Remember2PLock calm_env row_lock (snd (CreateSavepoint calm_env (Some ''s'') locked)))) = Some (DSTORE_SUCC, cnts, t3) \<and>
    held (m_lockResource t3) row_lock = [] \<and> held (m_lockResource t3) table_lock = [(1, 1)]"
proof -
  let ?t1 = "snd (CreateSavepoint calm_env (Some ''s'') locked)"
  let ?t2 = "snd (Remember2PLock calm_env row_lock ?t1)"
  let ?sp = "\<lparr>m_name = Some ''s'', m_lastUndoPtr = -1, m_lastLockPos = 2, m_extra_res = 0\<rparr>"
  have c: "CreateSavepoint calm_env (Some ''s'') locked = (DSTORE_SUCC, ?t1)" by code_simp
  have r: "Remember2PLock calm_env row_lock ?t1 = (DSTORE_SUCC, ?t2)" by code_simp
  have e: "env_alloc_ok calm_env" "env_name_ok calm_env" "IsValid_xid ?t2 \<longrightarrow> env_undo_ok calm_env (m_trxLastUndoPtr ?t1)"
    by (simp_all add: calm_env_def)
  have k: "m_trxLastUndoPtr ?t1 = -1" "m_subLockResId (m_lockResource ?t1) = 2" by code_simp+
  have "held (m_lockResource ?t1) row_lock = []" by code_simp
  then have "known_mgr row_lock" "stack_cnt (held (m_lockResource ?t1) row_lock) + 1 < 2 ^ 32" by (simp_all add: known_mgr_def row_lock_def)
  note step = trx_step.remember [OF this r]
  have m: "(Some ''s'', m_trxLastUndoPtr ?t1, m_subLockResId (m_lockResource ?t1)) \<in> set (marks ?t2)" by code_simp
  have "open_steps (Some ''s'', m_trxLastUndoPtr ?t1, m_subLockResId (m_lockResource ?t1)) ?t1 ?t2"
    by (rule open_steps.more [OF open_steps.none step _ m]) (simp add: keeps_earlier_def)
  note o = this
  have f: "find (HasSameName (Some ''s'')) (m_savepointList (m_savepoints ?t2)) = Some ?sp" by code_simp
  have p: "m_lastLockPos ?sp = m_subLockResId (m_lockResource ?t1)" using k(2) by simp
  have ends: "\<not> IsValid_xid ?t2 \<or> env_last_undo calm_env \<noteq> None" by (simp add: calm_env_def)
  have held: "held (m_lockResource locked) row_lock = []" "held (m_lockResource locked) table_lock = [(1, 1)]" by code_simp+
  from savepoint_rollback_restores_locks [OF locked_reachable c e(1,2) o f p e(3), of "(None, None)"] ends held
  show ?thesis by auto
qed

text \<open>
  C10. A terminating abort always ends a transaction. From every reachable state of a running transaction, also
  after a former abort has failed, \<open>Abort\<close> does not panic and returns success when the slot can be rolled
  back: the slot is rolled back before any lock is released, all locks are released, each as often as it
  is held, no savepoint and no cursor is left, the callbacks before an abort are not fired again, and
  the number of active transactions is the one before the transaction started.
\<close>

theorem abort_ends_transaction:
  assumes "trx_reachable n t" "trx_block t \<noteq> TBLOCK_DEFAULT" "writes t \<longrightarrow> env_rollback_slot_ok env"
  shows "\<exists>calls pre t'. Abort env True True t = Some (DSTORE_SUCC, t') \<and> ended t' \<and> pdb_activeTransactionNum t' = n \<and>
    released calls = (\<lambda>tag. stack_cnt (held (m_lockResource t) tag)) \<and>
    trx_log t' = trx_log t @ pre @ (if trx_stage t = AbortNotStart then [Fired TRX_EVENT_PRE_ABORT] else []) @
      (if writes t then [Slot_Rolled_Back (xid (m_currTransState t))] else []) @
      [Fired TRX_EVENT_POST_ABORT, Locks_Released calls, Active_Removed, Fired TRX_EVENT_PREROLLBACK_CLEANUP] \<and>
    set pre \<subseteq> {Fired TRX_EVENT_POST_TERMINATE}"
proof -
  note inv = trx_invariant [OF assms(1)]
  define b where "b \<longleftrightarrow> trx_block t \<in> {TBLOCK_STARTED, TBLOCK_INPROGRESS, TBLOCK_END, TBLOCK_ABORT_PENDING}"
  let ?t0 = "post_terminate b t"
  have a: "Abort env True True t = abort_and_leave env True ?t0"
    using assms(2) by (cases "trx_block t") (simp_all add: Abort_def b_def post_terminate_def)
  have t0: "m_currTransState ?t0 = m_currTransState t" "trx_log ?t0 = trx_log t @ (if b then [Fired TRX_EVENT_POST_TERMINATE] else [])"
    "pdb_activeTransactionNum ?t0 = pdb_activeTransactionNum t"
    by (simp_all add: post_terminate_def trx_updates)
  have st: "live t \<or> aborting t" using running_state [OF inv(1) assms(2)] .
  then have st0: "live ?t0 \<or> aborting ?t0" using t0(1) by (simp add: live_def aborting_def)
  have al: "abort_log ?t0 = (if trx_stage t = AbortNotStart then [Fired TRX_EVENT_PRE_ABORT] else [])"
    using st t0(1) by (auto simp: abort_log_def live_def aborting_def)
  have num: "pdb_activeTransactionNum t = n + 1" using inv(2) assms(2) by (simp add: log_ok_def)
  have w: "writes ?t0 = writes t" using t0(1) by (simp add: writes_def IsValid_xid_def)
  have i0: "res_inv ?t0" using inv(3) by simp
  obtain calls t' where r: "abort_and_leave env True ?t0 = Some (DSTORE_SUCC, t')" "ended t'"
    "pdb_activeTransactionNum t' = pdb_activeTransactionNum ?t0 - 1" "released calls = (\<lambda>tag. stack_cnt (held (m_lockResource ?t0) tag))"
    "trx_log t' = trx_log ?t0 @ abort_log ?t0 @ (if writes ?t0 then [Slot_Rolled_Back (xid (m_currTransState ?t0))] else []) @
       [Fired TRX_EVENT_POST_ABORT, Locks_Released calls, Active_Removed, Fired TRX_EVENT_PREROLLBACK_CLEANUP]"
    by (rule abort_and_leave_done [OF st0 i0, of env]) (use assms(3) w in simp)
  show ?thesis
    by (intro exI [of _ calls] exI [of _ "if b then [Fired TRX_EVENT_POST_TERMINATE] else []"] exI [of _ t'])
      (use a r t0 al num w in auto)
qed

theorem abort_ends_transaction_witness:
  "\<exists>calls t'. Abort calm_env True True locked = Some (DSTORE_SUCC, t') \<and> ended t' \<and> pdb_activeTransactionNum t' = 3 \<and>
    released calls table_lock = 1 \<and> Locks_Released calls \<in> set (trx_log t')"
proof -
  have "trx_block locked \<noteq> TBLOCK_DEFAULT" "writes locked \<longrightarrow> env_rollback_slot_ok calm_env" "stack_cnt (held (m_lockResource locked) table_lock) = 1"
    by code_simp+
  note h = this
  obtain calls pre t' where "Abort calm_env True True locked = Some (DSTORE_SUCC, t')" "ended t'" "pdb_activeTransactionNum t' = 3"
    "released calls = (\<lambda>tag. stack_cnt (held (m_lockResource locked) tag))" "Locks_Released calls \<in> set (trx_log t')"
    using abort_ends_transaction [OF locked_reachable(1) h(1,2)] by (elim exE conjE) simp
  with h(3) show ?thesis by (intro exI [of _ calls] exI [of _ t']) simp
qed

text \<open>
  C11. Commit ends a transaction and keeps its locks to the end. A commit of a running transaction outside a
  block, or at the end of its block, fires the callbacks, commits the slot of a transaction that wrote
  something, and only then releases the locks, all of them and each as often as it is held. The
  transaction is idle afterwards and counted out once. This is so even when committing the slot
  fails: the status is a failure, but the callbacks after a commit are fired and the locks are released.
\<close>

theorem commit_ends_transaction:
  assumes "trx_reachable n t" "trx_block t = TBLOCK_STARTED \<or> trx_block t = TBLOCK_END" "trx_stage t = AbortNotStart"
    "readOnly (m_currTransState t) \<or> IsValid_xid t"
  shows "\<exists>calls st t'. Commit env True t = Some (st, t') \<and> ended t' \<and> pdb_activeTransactionNum t' = n \<and>
    (st = DSTORE_SUCC \<longleftrightarrow> \<not> writes t \<or> env_commit_ok env) \<and>
    released calls = (\<lambda>tag. stack_cnt (held (m_lockResource t) tag)) \<and>
    trx_log t' = trx_log t @ [Fired TRX_EVENT_PRE_COMMIT] @
      (if writes t \<and> env_commit_ok env then [Slot_Committed (xid (m_currTransState t))] else []) @
      [Fired TRX_EVENT_POST_COMMIT, Locks_Released calls, Active_Removed]"
proof -
  note inv = trx_invariant [OF assms(1)]
  let ?t0 = "reset_snapshot t"
  have c: "Commit env True t = commit_and_leave env True ?t0" using assms(2) by (auto simp: Commit_def reset_snapshot_def Let_def)
  have t0: "m_currTransState ?t0 = m_currTransState t" "trx_log ?t0 = trx_log t" "pdb_activeTransactionNum ?t0 = pdb_activeTransactionNum t"
    by (simp_all add: reset_snapshot_def Let_def)
  have live: "trx_low t = TRANS_INPROGRESS" using inv(1) assms(2,3) by (auto simp: state_ok_def live_def aborting_def)
  have num: "pdb_activeTransactionNum t = n + 1" using inv(2) assms(2) by (auto simp: log_ok_def)
  let ?t1 = "set_state TRANS_COMMIT (FireCallback TRX_EVENT_PRE_COMMIT ?t0)"
  define st where "st = (if writes t \<and> \<not> env_commit_ok env then DSTORE_FAIL else DSTORE_SUCC)"
  define t2 where "t2 = (if writes t \<and> env_commit_ok env then log_action (Slot_Committed (xid (m_currTransState t))) ?t1 else ?t1)"
  have r: "RecordCommit env ?t1 = Some (st, t2)"
    using assms(4) t0(1) by (auto simp: RecordCommit_def st_def t2_def writes_def IsValid_xid_def trx_updates)
  let ?t3 = "FireCallback TRX_EVENT_POST_COMMIT (set_xid INVALID_XID ((SetThrdLocalCsn INVALID_CSN t2)\<lparr>thrd_localXid := INVALID_XID\<rparr>))"
  have same: "same_res t ?t3" by (simp add: same_res_def t2_def)
  have "res_inv ?t3" by (rule same_res_inv [OF same inv(3)])
  then obtain calls t4 where t4: "CleanupResource ?t3 = Some t4" "trx_log t4 = trx_log ?t3 @ [Locks_Released calls]"
    "released calls = (\<lambda>tag. stack_cnt (held (m_lockResource ?t3) tag))" "m_currTransState t4 = m_currTransState ?t3"
    "held (m_lockResource t4) = (\<lambda>_. [])" "marks t4 = []" "m_cursorSnapshotList t4 = []"
    "pdb_activeTransactionNum t4 = pdb_activeTransactionNum ?t3"
    by (rule CleanupResource_done)
  let ?t5 = "set_block TBLOCK_DEFAULT (SubActiveTransaction (set_state TRANS_DEFAULT t4))"
  have i: "InTransaction ?t0" using live t0(1) by (simp add: InTransaction_def)
  have run: "Commit env True t = Some (st, ?t5)"
    using c i r t4(1) by (simp add: commit_and_leave_def CommitInternal_def)
  have log: "trx_log t2 = trx_log t @ [Fired TRX_EVENT_PRE_COMMIT] @
      (if writes t \<and> env_commit_ok env then [Slot_Committed (xid (m_currTransState t))] else [])"
    "pdb_activeTransactionNum t2 = n + 1"
    using t0(2,3) num by (simp_all add: t2_def trx_updates)
  show ?thesis
    by (intro exI [of _ calls] exI [of _ st] exI [of _ ?t5])
      (use run t4 log same in \<open>auto simp: ended_def st_def marks_def same_res_def trx_updates\<close>)
qed

theorem commit_ends_transaction_witness:
  "\<exists>calls t'. Commit calm_env True locked = Some (DSTORE_SUCC, t') \<and> ended t' \<and>
    trx_log t' = trx_log locked @ [Fired TRX_EVENT_PRE_COMMIT, Fired TRX_EVENT_POST_COMMIT, Locks_Released calls, Active_Removed]"
proof -
  have h: "trx_block locked = TBLOCK_STARTED \<or> trx_block locked = TBLOCK_END" "trx_stage locked = AbortNotStart"
    "readOnly (m_currTransState locked) \<or> IsValid_xid locked" by code_simp+
  have "\<not> writes locked" by code_simp
  with commit_ends_transaction [OF locked_reachable(1) h, of calm_env] show ?thesis by auto
qed

text \<open>
  C18. The locks and savepoints of a transaction stay well-formed whatever calls are made in whatever order,
  also a start while the database stops, a commit after a failed abort, and the interfaces that set the states
  directly. The level is the number of savepoints, later savepoints have later positions, and the table of
  locks is well-formed; so the clean-up at the end never panics, and gives back every lock as often as it
  is held.
\<close>

theorem any_calls_keep_resources:
  assumes "trx_call\<^sup>*\<^sup>* (Transaction_new isTop n) t"
  shows "m_nestLevel (m_savepoints t) = word_of_nat (length (m_savepointList (m_savepoints t))) \<and>
    sorted_wrt (>) (map m_lastLockPos (m_savepointList (m_savepoints t))) \<and> res_ok (m_lockResource t) \<and>
    (\<exists>calls t'. CleanupResource t = Some t' \<and> trx_log t' = trx_log t @ [Locks_Released calls] \<and>
      released calls = (\<lambda>tag. stack_cnt (held (m_lockResource t) tag)) \<and>
      held (m_lockResource t') = (\<lambda>_. []) \<and> marks t' = [])"
proof -
  from assms have inv: "res_inv t"
    by (induction rule: rtranclp_induct) (auto intro: Transaction_new_ok(3) trx_call_res)
  obtain calls t' where "CleanupResource t = Some t'" "trx_log t' = trx_log t @ [Locks_Released calls]"
    "released calls = (\<lambda>tag. stack_cnt (held (m_lockResource t) tag))" "held (m_lockResource t') = (\<lambda>_. [])" "marks t' = []"
    by (rule CleanupResource_done [OF inv])
  then show ?thesis using inv by (auto simp: sp_ok_def)
qed

theorem any_calls_keep_resources_witness:
  "\<exists>calls t'. CleanupResource (SetCurTxnBlockState TBLOCK_ABORT_END locked) = Some t' \<and>
    Locks_Released calls \<in> set (trx_log t') \<and> released calls table_lock = 1 \<and> held (m_lockResource t') table_lock = []"
proof -
  let ?t = "SetCurTxnBlockState TBLOCK_ABORT_END locked"
  have "trx_call (Transaction_new True 3) started" "trx_call started locked"
    using started_step locked_step by (auto intro: trx_call.step)
  then have "trx_call\<^sup>*\<^sup>* (Transaction_new True 3) ?t"
    by (meson trx_call.set_block_state rtranclp.rtrancl_into_rtrancl rtranclp.rtrancl_refl)
  moreover have "stack_cnt (held (m_lockResource ?t) table_lock) = 1" by code_simp
  ultimately show ?thesis using any_calls_keep_resources [of True 3 ?t] by fastforce
qed

text \<open>
  C19. A commit after an abort that failed half-way makes the database miscount its active transactions. When the
  slot cannot be rolled back, the abort fails and the transaction stays in its block; a commit then takes
  its error path, which fails, counts the transaction out and leaves the block; the abort tried again succeeds
  and counts it out once more, so that the number of active transactions is one below what it was before the
  transaction started.
\<close>

theorem failed_abort_commit_abort_counts_twice:
  assumes "trx_reachable n t" "trx_block t = TBLOCK_STARTED" "trx_stage t = AbortNotStart" "writes t"
    "\<not> env_rollback_slot_ok env" "env_rollback_slot_ok env2"
  shows "\<exists>t1 t2 t3. Abort env False clean t = Some (DSTORE_FAIL, t1) \<and> trx_block t1 = TBLOCK_STARTED \<and>
    pdb_activeTransactionNum t1 = n + 1 \<and>
    Commit env1 clean1 t1 = Some (DSTORE_FAIL, t2) \<and> trx_block t2 = TBLOCK_DEFAULT \<and> pdb_activeTransactionNum t2 = n \<and>
    Abort env2 False True t2 = Some (DSTORE_SUCC, t3) \<and> pdb_activeTransactionNum t3 = n - 1"
proof -
  note inv = trx_invariant [OF assms(1)]
  have low: "trx_low t = TRANS_INPROGRESS" using inv(1) assms(2,3) by (auto simp: state_ok_def live_def aborting_def)
  have num: "pdb_activeTransactionNum t = n + 1" using inv(2) assms(2) by (simp add: log_ok_def)
  have w: "IsValid_xid t" "\<not> readOnly (m_currTransState t)" using assms(4) by (simp_all add: writes_def)
  let ?t1 = "set_state TRANS_ABORT (set_stage PreAbortDone (FireCallback TRX_EVENT_PRE_ABORT t))"
  have t1: "Abort env False clean t = Some (DSTORE_FAIL, ?t1)"
    using assms(2,3,5) low w
    by (simp add: Abort_def post_terminate_def abort_and_leave_def AbortInternal_def abort_start_def abort_record_def
        RecordAbort_def InTransaction_def IsValid_xid_def trx_updates Let_def)
  let ?t2 = "set_block TBLOCK_DEFAULT (SubActiveTransaction (reset_snapshot ?t1))"
  have t2: "Commit env1 clean1 ?t1 = Some (DSTORE_FAIL, ?t2)"
    using assms(2) by (simp add: Commit_def commit_and_leave_def CommitInternal_def InTransaction_def reset_snapshot_def trx_updates Let_def)
  have a2: "aborting ?t2" "res_inv ?t2" "writes ?t2 \<longrightarrow> env_rollback_slot_ok env2"
    using inv(3) assms(6) by (simp_all add: aborting_def reset_snapshot_def trx_updates Let_def)
  obtain t3 where t3: "abort_and_leave env2 True ?t2 = Some (DSTORE_SUCC, t3)"
    "pdb_activeTransactionNum t3 = pdb_activeTransactionNum ?t2 - 1"
    by (rule abort_and_leave_done [OF disjI2 [OF a2(1)] a2(2,3)])
  obtain s4 t4 t5 where t5: "AbortInternal env2 True ?t2 = Some (s4, t4)" "s4 \<noteq> DSTORE_FAIL" "Cleanup t4 = (DSTORE_SUCC, t5)"
    "t3 = set_block TBLOCK_DEFAULT t5"
    using t3(1) by (auto simp: abort_and_leave_def bind_eq_Some_conv split: if_splits prod.splits)
  have "Abort env2 False True ?t2 = Some (DSTORE_SUCC, t5)"
    using t5(1-3) by (simp add: Abort_def abort_idle_def post_terminate_def trx_updates reset_snapshot_def Let_def)
  moreover have "pdb_activeTransactionNum ?t1 = n + 1" "pdb_activeTransactionNum ?t2 = n" "pdb_activeTransactionNum t5 = n - 1"
    using num t3(2) t5(4) by (simp_all add: trx_updates reset_snapshot_def Let_def)
  ultimately show ?thesis
    using t1 t2 assms(2) by (intro exI [of _ ?t1] exI [of _ ?t2] exI [of _ t5]) (simp add: trx_updates)
qed

theorem failed_abort_commit_abort_counts_twice_witness:
  "\<exists>t1 t2 t3. Abort (calm_env\<lparr>env_rollback_slot_ok := False\<rparr>) False True writing = Some (DSTORE_FAIL, t1) \<and>
    Commit calm_env True t1 = Some (DSTORE_FAIL, t2) \<and> Abort calm_env False True t2 = Some (DSTORE_SUCC, t3) \<and>
    pdb_activeTransactionNum t3 = 2"
proof -
  have h: "trx_block writing = TBLOCK_STARTED" "trx_stage writing = AbortNotStart" "writes writing" by code_simp+
  have "\<not> env_rollback_slot_ok (calm_env\<lparr>env_rollback_slot_ok := False\<rparr>)" "env_rollback_slot_ok calm_env"
    by (simp_all add: calm_env_def)
  from failed_abort_commit_abort_counts_twice [OF writing_reachable h this, of True calm_env True] show ?thesis by auto
qed

text \<open>
  A start that is refused inside stays counted. When the database stops accepting transactions between the
  check of \<open>Start\<close> and the one of \<open>StartInternal\<close>, the start fails and no transaction runs, but it has been
  counted as active; neither a commit nor an abort nor a further refused start counts it out, so the number
  of active transactions stays too high by one for every such start.
\<close>

lemma refused_start_stays_counted:
  assumes "trx_reachable n t" "trx_block t = TBLOCK_DEFAULT" "\<not> env_disabled_at_start env" "env_disabled_inside env"
  shows "\<exists>t'. Start env t = Some (DSTORE_FAIL, t') \<and> trx_block t' = TBLOCK_DEFAULT \<and> pdb_activeTransactionNum t' = n + 1 \<and>
    map_option (pdb_activeTransactionNum \<circ> snd) (Commit env1 clean t') = Some (n + 1) \<and>
    map_option (pdb_activeTransactionNum \<circ> snd) (Abort env1 stop clean t') = Some (n + 1) \<and>
    map_option (pdb_activeTransactionNum \<circ> snd) (Start env t') = Some (n + 2)"
proof -
  note inv = trx_invariant [OF assms(1)]
  have low: "trx_low t = TRANS_DEFAULT" using inv(1) assms(2) by (simp add: state_ok_def)
  have num: "pdb_activeTransactionNum t = n" using inv(2) assms(2) by (simp add: log_ok_def)
  let ?t' = "AddActiveTransaction (reset_snapshot t)"
  have frame: "trx_block ?t' = TBLOCK_DEFAULT" "trx_low ?t' = TRANS_DEFAULT" "pdb_activeTransactionNum ?t' = n + 1"
    using assms(2) low num by (simp_all add: AddActiveTransaction_def log_action_def reset_snapshot_def Let_def)
  have "Start env t = Some (DSTORE_FAIL, ?t')"
    using assms(2-4) low
    by (simp add: Start_def StartInternal_def IsTransactionRunning_def AddActiveTransaction_def log_action_def reset_snapshot_def Let_def)
  moreover have "Commit env1 clean ?t' = Some (DSTORE_FAIL, reset_snapshot ?t')" "Abort env1 stop clean ?t' = Some (DSTORE_FAIL, post_terminate stop ?t')"
    using frame by (simp_all add: Commit_def Abort_def abort_idle_def post_terminate_def reset_snapshot_def trx_updates Let_def)
  moreover have "Start env ?t' = Some (DSTORE_FAIL, AddActiveTransaction (reset_snapshot ?t'))"
    using frame assms(3,4)
    by (simp add: Start_def StartInternal_def IsTransactionRunning_def reset_snapshot_def trx_updates Let_def)
  ultimately show ?thesis
    using frame by (intro exI [of _ ?t']) (simp add: trx_updates post_terminate_def reset_snapshot_def Let_def)
qed

lemma refused_start_stays_counted_sample:
  "\<exists>t'. Start (calm_env\<lparr>env_disabled_inside := True\<rparr>) (Transaction_new True 3) = Some (DSTORE_FAIL, t') \<and>
    trx_block t' = TBLOCK_DEFAULT \<and> pdb_activeTransactionNum t' = 4"
proof -
  have "trx_block (Transaction_new True 3) = TBLOCK_DEFAULT" by code_simp
  moreover have "\<not> env_disabled_at_start (calm_env\<lparr>env_disabled_inside := True\<rparr>)"
    "env_disabled_inside (calm_env\<lparr>env_disabled_inside := True\<rparr>)" by (simp_all add: calm_env_def)
  ultimately show ?thesis
    using refused_start_stays_counted [OF trx_reachable.created [of 3 True], of "calm_env\<lparr>env_disabled_inside := True\<rparr>" calm_env True True] by auto
qed

text \<open>
  C29. A savepoint that could not be created is reported as created. When memory for it runs out,
  \<open>CreateSavepoint\<close> returns success and no savepoint exists, so that a later \<open>RollbackToSavepoint\<close> to
  that name fails.
\<close>

theorem CreateSavepoint_hides_failure:
  assumes "AllocTransactionSlot env t = (DSTORE_SUCC, t1)" "\<not> env_alloc_ok env" "\<not> IsSavepointExist name (m_savepoints t)"
  shows "CreateSavepoint env name t = (DSTORE_SUCC, t1) \<and> RollbackToSavepoint env2 name cnts t1 = Some (DSTORE_FAIL, cnts, t1)"
proof -
  have "m_savepoints t1 = m_savepoints t" using slot_quiet [OF assms(1)] by (simp add: same_res_def)
  then show ?thesis using assms by (simp add: CreateSavepoint_def AddSavepoint_def RollbackToSavepoint_def)
qed

theorem CreateSavepoint_hides_failure_witness:
  "fst (CreateSavepoint (calm_env\<lparr>env_alloc_ok := False\<rparr>) (Some ''s'') locked) = DSTORE_SUCC \<and>
   fst (the (RollbackToSavepoint calm_env (Some ''s'') (None, None)
     (snd (CreateSavepoint (calm_env\<lparr>env_alloc_ok := False\<rparr>) (Some ''s'') locked)))) = DSTORE_FAIL"
proof -
  let ?env = "calm_env\<lparr>env_alloc_ok := False\<rparr>"
  have a: "AllocTransactionSlot ?env locked = (DSTORE_SUCC, snd (AllocTransactionSlot ?env locked))" by code_simp
  have "\<not> env_alloc_ok ?env" "\<not> IsSavepointExist (Some ''s'') (m_savepoints locked)" by code_simp+
  from CreateSavepoint_hides_failure [OF a this] show ?thesis by simp
qed

text \<open>
  C28. After a transaction slot could not be allocated, a commit panics. \<open>AllocTransactionSlot\<close> marks the
  transaction as one that writes even when the allocation fails and leaves no number, and committing
  it then panics; aborting it works.
\<close>

theorem failed_slot_panics_commit:
  assumes "trx_reachable n t" "trx_block t = TBLOCK_STARTED" "trx_stage t = AbortNotStart" "\<not> IsValid_xid t"
    "env_primary env" "env_new_slot env = (DSTORE_FAIL, INVALID_XID)"
  shows "\<exists>t'. AllocTransactionSlot env t = (DSTORE_FAIL, t') \<and> Commit env' clean t' = None \<and>
    (\<exists>t''. Abort env' False True t' = Some (DSTORE_SUCC, t'') \<and> ended t'' \<and> pdb_activeTransactionNum t'' = n)"
proof -
  note inv = trx_invariant [OF assms(1)]
  have low: "trx_low t = TRANS_INPROGRESS" using inv(1) assms(2,3) by (auto simp: state_ok_def live_def aborting_def)
  let ?t1 = "set_xid INVALID_XID (t\<lparr>m_trxLastUndoPtr := INVALID_UNDO_RECORD_PTR\<rparr>)"
  let ?t2 = "?t1\<lparr>thrd_localXid := INVALID_XID, m_currTransState := (m_currTransState ?t1)\<lparr>readOnly := False\<rparr>, m_currentCommandIdUsed := True\<rparr>"
  have a: "AllocTransactionSlot env t = (DSTORE_FAIL, ?t2)"
    using assms(4-6) low by (simp add: AllocTransactionSlot_def InTransaction_def IsValid_xid_def set_xid_def)
  have t2: "trx_block ?t2 = TBLOCK_STARTED" "live ?t2" "\<not> IsValid_xid ?t2" "\<not> readOnly (m_currTransState ?t2)" "res_inv ?t2"
    using assms(2,3) low inv(3) by (simp_all add: live_def IsValid_xid_def set_xid_def)
  have c: "Commit env' clean ?t2 = None"
    using t2(1-4) by (simp add: Commit_def commit_and_leave_def CommitInternal_def RecordCommit_def reset_snapshot_def live_def
        IsValid_xid_def trx_updates Let_def)
  have num: "pdb_activeTransactionNum ?t2 = n + 1" using inv(2) assms(2) by (simp add: log_ok_def set_xid_def)
  have "writes ?t2 \<longrightarrow> env_rollback_slot_ok env'" using t2(3) by (simp add: writes_def)
  then obtain t'' where "abort_and_leave env' True ?t2 = Some (DSTORE_SUCC, t'')" "ended t''"
    "pdb_activeTransactionNum t'' = pdb_activeTransactionNum ?t2 - 1"
    by (rule abort_and_leave_done [OF disjI1 [OF t2(2)] t2(5)])
  then have "Abort env' False True ?t2 = Some (DSTORE_SUCC, t'') \<and> ended t'' \<and> pdb_activeTransactionNum t'' = n"
    using t2(1) num by (simp add: Abort_def post_terminate_def)
  with a c show ?thesis by blast
qed

theorem failed_slot_panics_commit_witness:
  "Commit calm_env True (snd (AllocTransactionSlot (calm_env\<lparr>env_new_slot := (DSTORE_FAIL, INVALID_XID)\<rparr>) started)) = None"
proof -
  let ?env = "calm_env\<lparr>env_new_slot := (DSTORE_FAIL, INVALID_XID)\<rparr>"
  have h: "trx_block started = TBLOCK_STARTED" "trx_stage started = AbortNotStart" "\<not> IsValid_xid started" by code_simp+
  have "env_primary ?env" "env_new_slot ?env = (DSTORE_FAIL, INVALID_XID)" by (simp_all add: calm_env_def)
  from failed_slot_panics_commit [OF started_reachable h this, of calm_env True] show ?thesis by auto
qed

end
