(* ===== verification/Wait_For_Graph.thy ===== *)
theory Wait_For_Graph
  imports Prelude
begin

text \<open>
  The wait-for graph of the deadlock detector (\<open>src/lock/dstore_lock_wait_for_graph.cpp\<close>). The
  detector adds a vertex per waiting or holding transaction and an edge per wait, and then
  repeatedly deletes the vertices that cannot be part of a deadlock; what is left is reported.

  A vertex is known by its tag, the key of the hash table of vertices. The table is the list of
  its entries in the order in which the sequential scan visits them; nothing below depends on
  that order. An edge object and its reverse edge share one number: it occurs in the out-edge
  list of the start vertex and in the in-edge list of the end vertex, and \<open>m_edgeEnds\<close> gives
  the two ends, which are the peer vertices of the two objects. The delete queue is linked
  through the vertices in the source and is a list of tags here. \<open>DSTORE_FAIL\<close> always means
  that memory ran out; the arguments \<open>alloc_ok\<close> say whether the allocations succeed. The counters of a
  vertex, 32-bit signed numbers in the source, are integers: they count edge objects in memory (at most
  one for every pair of a waiter and a holder), so that they stay far below the bound.
\<close>

subsection \<open>Vertices and edges\<close>

record VertexTag =
  vt_field1 :: uint64
  vt_field2 :: uint64
  vt_field3 :: uint64
  vt_field4 :: uint32
  vt_field5 :: uint32

record Vertex =
  m_inEdgeCnt :: int
  m_outEdgeCnt :: int
  m_initOutEdgeCnt :: int
  m_checkAllEdgeInCycle :: bool
  m_inEdgeList :: "nat list"
  m_outEdgeList :: "nat list"
  m_isToBeRemoved :: bool

definition Vertex_new :: "bool \<Rightarrow> int \<Rightarrow> Vertex" where
  "Vertex_new checkAllEdgeInCycle initOutEdgeCnt =
     \<lparr>m_inEdgeCnt = 0, m_outEdgeCnt = 0, m_initOutEdgeCnt = initOutEdgeCnt,
      m_checkAllEdgeInCycle = checkAllEdgeInCycle, m_inEdgeList = [], m_outEdgeList = [],
      m_isToBeRemoved = False\<rparr>"

definition AddInEdge :: "nat \<Rightarrow> Vertex \<Rightarrow> Vertex" where
  "AddInEdge inEdge x = x\<lparr>m_inEdgeList := inEdge # m_inEdgeList x, m_inEdgeCnt := m_inEdgeCnt x + 1\<rparr>"

definition AddOutEdge :: "nat \<Rightarrow> Vertex \<Rightarrow> Vertex" where
  "AddOutEdge outEdge x = x\<lparr>m_outEdgeList := outEdge # m_outEdgeList x, m_outEdgeCnt := m_outEdgeCnt x + 1\<rparr>"

definition RemoveInEdge :: "nat \<Rightarrow> Vertex \<Rightarrow> Vertex" where
  "RemoveInEdge inEdge x = x\<lparr>m_inEdgeList := remove1 inEdge (m_inEdgeList x), m_inEdgeCnt := m_inEdgeCnt x - 1\<rparr>"

definition RemoveOutEdge :: "nat \<Rightarrow> Vertex \<Rightarrow> Vertex" where
  "RemoveOutEdge outEdge x = x\<lparr>m_outEdgeList := remove1 outEdge (m_outEdgeList x), m_outEdgeCnt := m_outEdgeCnt x - 1\<rparr>"

definition SetToBeRemoved :: "Vertex \<Rightarrow> Vertex" where
  "SetToBeRemoved x = x\<lparr>m_isToBeRemoved := True\<rparr>"

definition IsVertexInCycle :: "Vertex \<Rightarrow> bool" where
  "IsVertexInCycle x =
     (if m_inEdgeCnt x = 0 \<or> m_outEdgeCnt x = 0 \<or>
         (m_checkAllEdgeInCycle x \<and> m_outEdgeCnt x \<noteq> m_initOutEdgeCnt x)
      then False else True)"

subsection \<open>The graph\<close>

record WaitForGraph =
  m_vertexs :: "(VertexTag \<times> Vertex) list"
  m_edgeEnds :: "(VertexTag \<times> VertexTag) list"
  m_vertexQueue :: "VertexTag list"
  m_vertexQueueLength :: int

definition BuildWaitForGraph :: WaitForGraph where
  "BuildWaitForGraph =
     \<lparr>m_vertexs = [], m_edgeEnds = [], m_vertexQueue = [],
      m_vertexQueueLength = 0\<rparr>"

definition FindVertex :: "WaitForGraph \<Rightarrow> VertexTag \<Rightarrow> Vertex option" where
  "FindVertex g tag = map_of (m_vertexs g) tag"

text \<open>A call of a vertex method through the pointer the hash table stores.\<close>

definition upd_vertex :: "VertexTag \<Rightarrow> (Vertex \<Rightarrow> Vertex) \<Rightarrow> WaitForGraph \<Rightarrow> WaitForGraph" where
  "upd_vertex v f g =
     g\<lparr>m_vertexs := map (\<lambda>(k, x). if k = v then (k, f x) else (k, x)) (m_vertexs g)\<rparr>"

definition AddVertex ::
    "bool \<Rightarrow> bool \<Rightarrow> VertexTag \<Rightarrow> bool \<Rightarrow> int \<Rightarrow> WaitForGraph \<Rightarrow> RetStatus \<times> WaitForGraph" where
  "AddVertex enter_ok dup_ok tag checkAllEdgeInCycle initOutEdgeCnt g =
     (case FindVertex g tag of
        Some _ \<Rightarrow> (DSTORE_SUCC, g)
      | None \<Rightarrow>
          if \<not> enter_ok \<or> \<not> dup_ok then (DSTORE_FAIL, g)
          else (DSTORE_SUCC,
            g\<lparr>m_vertexs := (tag, Vertex_new checkAllEdgeInCycle initOutEdgeCnt) # m_vertexs g\<rparr>))"

definition GetVertexNumber :: "WaitForGraph \<Rightarrow> uint32" where
  "GetVertexNumber g = of_nat (length (m_vertexs g))"

definition AddEdge ::
    "bool \<Rightarrow> bool \<Rightarrow> VertexTag \<Rightarrow> VertexTag \<Rightarrow> WaitForGraph \<Rightarrow> RetStatus \<times> WaitForGraph" where
  "AddEdge alloc_ok alloc_rev_ok startVertex endVertex g =
     (if \<not> alloc_ok then (DSTORE_FAIL, g)
      else if \<not> alloc_rev_ok then (DSTORE_FAIL, g)
      else
        let edge = length (m_edgeEnds g);
            g1 = g\<lparr>m_edgeEnds := m_edgeEnds g @ [(startVertex, endVertex)]\<rparr> in
        (DSTORE_SUCC, upd_vertex endVertex (AddInEdge edge) (upd_vertex startVertex (AddOutEdge edge) g1)))"

subsection \<open>Deleting the vertices that are not in a cycle\<close>

definition PushIntoDeleteQueue :: "VertexTag \<Rightarrow> WaitForGraph \<Rightarrow> WaitForGraph" where
  "PushIntoDeleteQueue v g =
     (upd_vertex v SetToBeRemoved g)
       \<lparr>m_vertexQueue := v # m_vertexQueue g, m_vertexQueueLength := m_vertexQueueLength g + 1\<rparr>"

definition PopFromQueue :: "WaitForGraph \<Rightarrow> VertexTag option \<times> WaitForGraph" where
  "PopFromQueue g =
     (case m_vertexQueue g of
        [] \<Rightarrow> (None, g)
      | v # rest \<Rightarrow> (Some v, g\<lparr>m_vertexQueue := rest, m_vertexQueueLength := m_vertexQueueLength g - 1\<rparr>))"

definition IsQueueEmpty :: "WaitForGraph \<Rightarrow> bool" where
  "IsQueueEmpty g \<longleftrightarrow> m_vertexQueue g = []"

definition push_unless_in_cycle :: "VertexTag \<Rightarrow> WaitForGraph \<Rightarrow> WaitForGraph" where
  "push_unless_in_cycle v g =
     (case FindVertex g v of
        None \<Rightarrow> g
      | Some x \<Rightarrow>
          if \<not> IsVertexInCycle x \<and> \<not> m_isToBeRemoved x then PushIntoDeleteQueue v g else g)"

definition ScanVerticesNotInCycleAndPushIntoDeleteQueue :: "WaitForGraph \<Rightarrow> WaitForGraph" where
  "ScanVerticesNotInCycleAndPushIntoDeleteQueue g = fold push_unless_in_cycle (map fst (m_vertexs g)) g"

text \<open>Steps 2.1 and 2.2: the loops over the in-edges and the out-edges of the vertex.\<close>

definition remove_in_edge :: "VertexTag \<Rightarrow> nat \<Rightarrow> WaitForGraph \<Rightarrow> WaitForGraph" where
  "remove_in_edge v edge g =
     (let peerVertex = fst (m_edgeEnds g ! edge) in
      upd_vertex v (RemoveInEdge edge)
        (push_unless_in_cycle peerVertex (upd_vertex peerVertex (RemoveOutEdge edge) g)))"

definition remove_out_edge :: "VertexTag \<Rightarrow> nat \<Rightarrow> WaitForGraph \<Rightarrow> WaitForGraph" where
  "remove_out_edge v edge g =
     (let peerVertex = snd (m_edgeEnds g ! edge) in
      upd_vertex v (RemoveOutEdge edge)
        (push_unless_in_cycle peerVertex (upd_vertex peerVertex (RemoveInEdge edge) g)))"

definition in_edges :: "VertexTag \<Rightarrow> WaitForGraph \<Rightarrow> nat list" where
  "in_edges v g = (case FindVertex g v of None \<Rightarrow> [] | Some x \<Rightarrow> m_inEdgeList x)"

definition out_edges :: "VertexTag \<Rightarrow> WaitForGraph \<Rightarrow> nat list" where
  "out_edges v g = (case FindVertex g v of None \<Rightarrow> [] | Some x \<Rightarrow> m_outEdgeList x)"

definition delete_vertex :: "VertexTag \<Rightarrow> WaitForGraph \<Rightarrow> WaitForGraph" where
  "delete_vertex v g =
     (let g1 = fold (remove_in_edge v) (in_edges v g) g;
          g2 = fold (remove_out_edge v) (out_edges v g1) g1 in
      g2\<lparr>m_vertexs := filter (\<lambda>(k, x). k \<noteq> v) (m_vertexs g2)\<rparr>)"

text \<open>The loop until the queue is empty. \<open>None\<close> would mean that it does not end.\<close>

partial_function (option) delete_loop :: "WaitForGraph \<Rightarrow> WaitForGraph option" where
  "delete_loop g =
     (case PopFromQueue g of
        (None, g') \<Rightarrow> Some g'
      | (Some toBeRemoved, g') \<Rightarrow> delete_loop (delete_vertex toBeRemoved g'))"

declare delete_loop.simps [code]

definition DeleteAllVerticesNotInCycle :: "WaitForGraph \<Rightarrow> WaitForGraph option" where
  "DeleteAllVerticesNotInCycle g = (if IsQueueEmpty g then Some g else delete_loop g)"

subsection \<open>Reading the graph after an update\<close>

abbreviation edge_start :: "WaitForGraph \<Rightarrow> nat \<Rightarrow> VertexTag" where
  "edge_start g k \<equiv> fst (m_edgeEnds g ! k)"

abbreviation edge_end :: "WaitForGraph \<Rightarrow> nat \<Rightarrow> VertexTag" where
  "edge_end g k \<equiv> snd (m_edgeEnds g ! k)"

lemma FindVertex_upd [simp]:
  "FindVertex (upd_vertex v f g) u = (if u = v then map_option f (FindVertex g u) else FindVertex g u)"
proof -
  have "map_of (map (\<lambda>(k, x). if k = v then (k, f x) else (k, x)) xs) u =
      (if u = v then map_option f (map_of xs u) else map_of xs u)" for xs
    by (induction xs) auto
  then show ?thesis by (simp add: FindVertex_def upd_vertex_def)
qed

lemma upd_vertex_fields [simp]:
  "m_edgeEnds (upd_vertex v f g) = m_edgeEnds g"
  "m_vertexQueue (upd_vertex v f g) = m_vertexQueue g"
  by (simp_all add: upd_vertex_def)

lemma FindVertex_queue [simp]:
  "FindVertex (g\<lparr>m_vertexQueue := q, m_vertexQueueLength := n\<rparr>) = FindVertex g"
  by (simp add: FindVertex_def fun_eq_iff)

lemma FindVertex_filter:
  "FindVertex (g\<lparr>m_vertexs := filter (\<lambda>(k, x). k \<noteq> v) (m_vertexs g)\<rparr>) u =
     (if u = v then None else FindVertex g u)"
proof -
  have "map_of (filter (\<lambda>(k, x). k \<noteq> v) xs) u = (if u = v then None else map_of xs u)" for xs :: "(VertexTag \<times> Vertex) list"
    by (induction xs) auto
  then show ?thesis by (simp add: FindVertex_def)
qed

lemma Push_fields [simp]:
  "FindVertex (PushIntoDeleteQueue v g) u = (if u = v then map_option SetToBeRemoved (FindVertex g u) else FindVertex g u)"
  "m_edgeEnds (PushIntoDeleteQueue v g) = m_edgeEnds g"
  "m_vertexQueue (PushIntoDeleteQueue v g) = v # m_vertexQueue g"
  by (simp_all add: PushIntoDeleteQueue_def)

lemma finite_vertices: "finite (dom (FindVertex g))"
proof -
  have "FindVertex g = map_of (m_vertexs g)" by (simp add: FindVertex_def fun_eq_iff)
  then show ?thesis by (simp add: finite_dom_map_of)
qed

subsection \<open>The invariant of the deletion\<close>

text \<open>The edge lists and counters of a vertex agree with the set \<open>E\<close> of edges in the graph.\<close>

definition vertex_rep :: "WaitForGraph \<Rightarrow> nat set \<Rightarrow> VertexTag \<Rightarrow> Vertex \<Rightarrow> bool" where
  "vertex_rep g E v x \<longleftrightarrow>
     distinct (m_inEdgeList x) \<and> distinct (m_outEdgeList x) \<and>
     set (m_inEdgeList x) = {k \<in> E. edge_end g k = v} \<and>
     set (m_outEdgeList x) = {k \<in> E. edge_start g k = v} \<and>
     m_inEdgeCnt x = int (length (m_inEdgeList x)) \<and> m_outEdgeCnt x = int (length (m_outEdgeList x))"

definition graph_rep :: "WaitForGraph \<Rightarrow> nat set \<Rightarrow> bool" where
  "graph_rep g E \<longleftrightarrow>
     (\<forall>k \<in> E. k < length (m_edgeEnds g) \<and> edge_start g k \<in> dom (FindVertex g) \<and>
        edge_end g k \<in> dom (FindVertex g)) \<and>
     (\<forall>v x. FindVertex g v = Some x \<longrightarrow> vertex_rep g E v x)"

text \<open>
  A vertex is marked exactly when it is in the queue or about to be deleted (in \<open>R\<close>), and every
  other vertex still passes the test of \<open>IsVertexInCycle\<close>.
\<close>

definition queue_ok :: "VertexTag set \<Rightarrow> WaitForGraph \<Rightarrow> bool" where
  "queue_ok R g \<longleftrightarrow>
     distinct (m_vertexQueue g) \<and> R \<inter> set (m_vertexQueue g) = {} \<and>
     R \<union> set (m_vertexQueue g) \<subseteq> dom (FindVertex g) \<and>
     (\<forall>v x. FindVertex g v = Some x \<longrightarrow>
        (m_isToBeRemoved x \<longleftrightarrow> v \<in> R \<union> set (m_vertexQueue g)) \<and>
        (m_isToBeRemoved x \<or> IsVertexInCycle x))"

text \<open>What deletion never changes of a vertex; marks are never taken back.\<close>

definition same_kind :: "WaitForGraph \<Rightarrow> WaitForGraph \<Rightarrow> bool" where
  "same_kind g g' \<longleftrightarrow> m_edgeEnds g' = m_edgeEnds g \<and>
     (\<forall>v x'. FindVertex g' v = Some x' \<longrightarrow> (\<exists>x. FindVertex g v = Some x \<and>
        m_initOutEdgeCnt x' = m_initOutEdgeCnt x \<and> m_checkAllEdgeInCycle x' = m_checkAllEdgeInCycle x \<and>
        (m_isToBeRemoved x \<longrightarrow> m_isToBeRemoved x')))"

lemma same_kind_refl [simp]: "same_kind g g"
  by (auto simp: same_kind_def)

lemma same_kind_trans: "same_kind g g' \<Longrightarrow> same_kind g' g'' \<Longrightarrow> same_kind g g''"
  unfolding same_kind_def by metis

text \<open>
  The effect of one round of the edge loops on the vertices: the edge is taken off both lists,
  and the peer is queued when it fails the test.
\<close>

definition drop_edge :: "nat \<Rightarrow> Vertex \<Rightarrow> Vertex" where
  "drop_edge k x = x\<lparr>m_inEdgeList := remove1 k (m_inEdgeList x), m_outEdgeList := remove1 k (m_outEdgeList x),
     m_inEdgeCnt := int (length (remove1 k (m_inEdgeList x))), m_outEdgeCnt := int (length (remove1 k (m_outEdgeList x)))\<rparr>"

lemma vertex_rep_drop:
  assumes "vertex_rep g E v x"
  shows "vertex_rep g (E - {k}) v (drop_edge k x)"
  using assms by (auto simp: vertex_rep_def drop_edge_def)

lemma drop_edge_cases:
  assumes rep: "vertex_rep g E v x" and k: "k \<in> E"
  shows "edge_start g k \<noteq> v \<Longrightarrow> edge_end g k \<noteq> v \<Longrightarrow> drop_edge k x = x"
    and "edge_start g k = v \<Longrightarrow> edge_end g k \<noteq> v \<Longrightarrow> drop_edge k x = RemoveOutEdge k x"
    and "edge_start g k \<noteq> v \<Longrightarrow> edge_end g k = v \<Longrightarrow> drop_edge k x = RemoveInEdge k x"
    and "edge_start g k = v \<Longrightarrow> edge_end g k = v \<Longrightarrow> drop_edge k x = RemoveInEdge k (RemoveOutEdge k x)"
proof -
  have out: "k \<in> set (m_outEdgeList x) \<longleftrightarrow> edge_start g k = v" and "in": "k \<in> set (m_inEdgeList x) \<longleftrightarrow> edge_end g k = v"
    using rep k by (auto simp: vertex_rep_def)
  have cnt: "int (length (remove1 k xs)) = int (length xs) - 1" if "k \<in> set xs" for xs
    using that length_pos_if_in_set [OF that] by (simp add: length_remove1 of_nat_diff Suc_leI)
  have cnts: "m_inEdgeCnt x = int (length (m_inEdgeList x))" "m_outEdgeCnt x = int (length (m_outEdgeList x))"
    using rep by (simp_all add: vertex_rep_def)
  note defs = drop_edge_def RemoveOutEdge_def RemoveInEdge_def
  show "edge_start g k \<noteq> v \<Longrightarrow> edge_end g k \<noteq> v \<Longrightarrow> drop_edge k x = x"
    using out "in" cnts by (simp add: defs remove1_idem)
  show "edge_start g k = v \<Longrightarrow> edge_end g k \<noteq> v \<Longrightarrow> drop_edge k x = RemoveOutEdge k x"
    using out "in" cnts cnt by (simp add: defs remove1_idem)
  show "edge_start g k \<noteq> v \<Longrightarrow> edge_end g k = v \<Longrightarrow> drop_edge k x = RemoveInEdge k x"
    using out "in" cnts cnt by (simp add: defs remove1_idem)
  show "edge_start g k = v \<Longrightarrow> edge_end g k = v \<Longrightarrow> drop_edge k x = RemoveInEdge k (RemoveOutEdge k x)"
    using out "in" cnts cnt by (simp add: defs)
qed

definition fails_without :: "WaitForGraph \<Rightarrow> nat \<Rightarrow> VertexTag \<Rightarrow> bool" where
  "fails_without g k p \<longleftrightarrow>
     (\<exists>x. FindVertex g p = Some x \<and> \<not> m_isToBeRemoved x \<and> \<not> IsVertexInCycle (drop_edge k x))"

definition edge_dropped :: "nat \<Rightarrow> VertexTag \<Rightarrow> WaitForGraph \<Rightarrow> WaitForGraph \<Rightarrow> bool" where
  "edge_dropped k p g g' \<longleftrightarrow>
     m_edgeEnds g' = m_edgeEnds g \<and>
     m_vertexQueue g' = (if fails_without g k p then p # m_vertexQueue g else m_vertexQueue g) \<and>
     (\<forall>u. FindVertex g' u = map_option (\<lambda>x.
        if u = p \<and> fails_without g k p then SetToBeRemoved (drop_edge k x) else drop_edge k x) (FindVertex g u))"

lemma drop_edge_simps [simp]:
  "m_isToBeRemoved (drop_edge k x) = m_isToBeRemoved x"
  "m_initOutEdgeCnt (drop_edge k x) = m_initOutEdgeCnt x"
  "m_checkAllEdgeInCycle (drop_edge k x) = m_checkAllEdgeInCycle x"
  by (simp_all add: drop_edge_def)

lemma RemoveEdge_commute:
  "RemoveInEdge k (SetToBeRemoved x) = SetToBeRemoved (RemoveInEdge k x)"
  "RemoveOutEdge k (SetToBeRemoved x) = SetToBeRemoved (RemoveOutEdge k x)"
  "RemoveInEdge k (RemoveOutEdge k x) = RemoveOutEdge k (RemoveInEdge k x)"
  "m_isToBeRemoved (RemoveInEdge k x) = m_isToBeRemoved x"
  "m_isToBeRemoved (RemoveOutEdge k x) = m_isToBeRemoved x"
  by (simp_all add: RemoveInEdge_def RemoveOutEdge_def SetToBeRemoved_def)

lemma remove_in_edge_dropped:
  assumes rep: "graph_rep g E" and k: "k \<in> E" "edge_end g k = v"
    and mark: "FindVertex g v = Some y" "m_isToBeRemoved y"
  shows "edge_dropped k (edge_start g k) g (remove_in_edge v k g)"
proof -
  obtain z where z: "FindVertex g (edge_start g k) = Some z" using rep k(1) by (auto simp: graph_rep_def)
  have vrep: "vertex_rep g E u x" if "FindVertex g u = Some x" for u x
    using rep that by (simp add: graph_rep_def)
  note drop = drop_edge_cases [OF vrep k(1)]
  have others: "map_option (drop_edge k) (FindVertex g u) = FindVertex g u" if "u \<noteq> v" "u \<noteq> edge_start g k" for u
    using drop(1) that k(2) by (cases "FindVertex g u") auto
  show ?thesis
  proof (cases "edge_start g k = v")
    case True
    then show ?thesis
      using mark k(2) drop(4) [OF mark(1)] others
      by (auto simp: remove_in_edge_def edge_dropped_def fails_without_def push_unless_in_cycle_def
          RemoveEdge_commute split: option.splits)
  next
    case False
    then show ?thesis
      using z mark k(2) drop(2) [OF z] drop(3) [OF mark(1)] others
      by (auto simp: remove_in_edge_def edge_dropped_def fails_without_def push_unless_in_cycle_def
          RemoveEdge_commute Let_def split: option.splits)
  qed
qed

lemma remove_out_edge_dropped:
  assumes rep: "graph_rep g E" and k: "k \<in> E" "edge_start g k = v"
    and mark: "FindVertex g v = Some y" "m_isToBeRemoved y"
  shows "edge_dropped k (edge_end g k) g (remove_out_edge v k g)"
proof -
  obtain z where z: "FindVertex g (edge_end g k) = Some z" using rep k(1) by (auto simp: graph_rep_def)
  have vrep: "vertex_rep g E u x" if "FindVertex g u = Some x" for u x
    using rep that by (simp add: graph_rep_def)
  note drop = drop_edge_cases [OF vrep k(1)]
  have others: "map_option (drop_edge k) (FindVertex g u) = FindVertex g u" if "u \<noteq> v" "u \<noteq> edge_end g k" for u
    using drop(1) that k(2) by (cases "FindVertex g u") auto
  show ?thesis
  proof (cases "edge_end g k = v")
    case True
    then show ?thesis
      using mark k(2) drop(4) [OF mark(1)] others
      by (auto simp: remove_out_edge_def edge_dropped_def fails_without_def push_unless_in_cycle_def
          RemoveEdge_commute split: option.splits)
  next
    case False
    then show ?thesis
      using z mark k(2) drop(3) [OF z] drop(2) [OF mark(1)] others
      by (auto simp: remove_out_edge_def edge_dropped_def fails_without_def push_unless_in_cycle_def
          RemoveEdge_commute Let_def split: option.splits)
  qed
qed

lemma vertex_rep_mark [simp]: "vertex_rep g E v (SetToBeRemoved x) = vertex_rep g E v x"
  by (simp add: vertex_rep_def SetToBeRemoved_def)

lemma vertex_rep_ends: "m_edgeEnds g' = m_edgeEnds g \<Longrightarrow> vertex_rep g' E v x = vertex_rep g E v x"
  by (simp add: vertex_rep_def)

lemma SetToBeRemoved_simps [simp]:
  "m_isToBeRemoved (SetToBeRemoved x)"
  "m_initOutEdgeCnt (SetToBeRemoved x) = m_initOutEdgeCnt x"
  "m_checkAllEdgeInCycle (SetToBeRemoved x) = m_checkAllEdgeInCycle x"
  by (simp_all add: SetToBeRemoved_def)

lemma edge_dropped_ok:
  assumes rep: "graph_rep g E" and q: "queue_ok {v} g" and k: "k \<in> E" "{edge_start g k, edge_end g k} \<subseteq> {p, v}"
    and drop: "edge_dropped k p g g'"
  shows "graph_rep g' (E - {k}) \<and> queue_ok {v} g' \<and> same_kind g g' \<and> dom (FindVertex g') = dom (FindVertex g)"
proof -
  have ends: "m_edgeEnds g' = m_edgeEnds g" using drop by (simp add: edge_dropped_def)
  have find: "FindVertex g' u = map_option (\<lambda>x.
        if u = p \<and> fails_without g k p then SetToBeRemoved (drop_edge k x) else drop_edge k x) (FindVertex g u)" for u
    using drop unfolding edge_dropped_def by blast
  have dom: "dom (FindVertex g') = dom (FindVertex g)" by (auto simp: dom_def find)
  have "vertex_rep g' (E - {k}) u x'" if "FindVertex g' u = Some x'" for u x'
    using that rep vertex_rep_drop unfolding graph_rep_def find
    by (auto simp: vertex_rep_ends [OF ends] split: if_splits)
  then have grep: "graph_rep g' (E - {k})" using rep dom ends by (auto simp: graph_rep_def)
  have same: "drop_edge k x = x" if "FindVertex g u = Some x" "u \<noteq> p" "u \<noteq> v" for u x
    using drop_edge_cases(1) [of g E u x k] that rep k by (auto simp: graph_rep_def)
  have "queue_ok {v} g'"
  proof -
    have new: "p \<notin> {v} \<union> set (m_vertexQueue g)" "p \<in> dom (FindVertex g)" if "fails_without g k p"
      using that q by (auto simp: fails_without_def queue_ok_def)
    have "(m_isToBeRemoved x' \<longleftrightarrow> u \<in> {v} \<union> set (m_vertexQueue g')) \<and> (m_isToBeRemoved x' \<or> IsVertexInCycle x')"
      if x': "FindVertex g' u = Some x'" for u x'
    proof -
      obtain x where x: "FindVertex g u = Some x" using x' find by auto
      then have qx: "m_isToBeRemoved x \<longleftrightarrow> u \<in> {v} \<union> set (m_vertexQueue g)" "m_isToBeRemoved x \<or> IsVertexInCycle x"
        using q by (auto simp: queue_ok_def)
      show ?thesis
      proof (cases "u = p")
        case True
        then show ?thesis using x x' find [of p] qx drop by (auto simp: edge_dropped_def fails_without_def)
      next
        case False
        then show ?thesis
          using x x' find [of u] qx drop same [OF x] by (cases "u = v") (auto simp: edge_dropped_def)
      qed
    qed
    moreover have "distinct (m_vertexQueue g') \<and> {v} \<inter> set (m_vertexQueue g') = {} \<and>
        {v} \<union> set (m_vertexQueue g') \<subseteq> dom (FindVertex g')"
      using q new dom drop by (auto simp: queue_ok_def edge_dropped_def split: if_splits)
    ultimately show ?thesis unfolding queue_ok_def by blast
  qed
  moreover have "same_kind g g'" using find ends by (auto simp: same_kind_def split: if_splits)
  ultimately show ?thesis using grep dom by blast
qed

subsection \<open>Sets of vertices that survive\<close>

definition closed_set :: "WaitForGraph \<Rightarrow> nat set \<Rightarrow> VertexTag set \<Rightarrow> bool" where
  "closed_set g E S \<longleftrightarrow> S \<subseteq> dom (FindVertex g) \<and>
     (\<forall>u \<in> S. (\<exists>k \<in> E. edge_end g k = u \<and> edge_start g k \<in> S) \<and>
        (\<exists>k \<in> E. edge_start g k = u \<and> edge_end g k \<in> S) \<and>
        (\<forall>x. FindVertex g u = Some x \<longrightarrow> m_checkAllEdgeInCycle x \<longrightarrow>
           int (card {k \<in> E. edge_start g k = u}) = m_initOutEdgeCnt x \<and>
           (\<forall>k \<in> E. edge_start g k = u \<longrightarrow> edge_end g k \<in> S)))"

lemma closed_setD:
  assumes "closed_set g E S" and "u \<in> S"
  shows "\<exists>k \<in> E. edge_end g k = u \<and> edge_start g k \<in> S"
    and "\<exists>k \<in> E. edge_start g k = u \<and> edge_end g k \<in> S"
    and "FindVertex g u = Some x \<Longrightarrow> m_checkAllEdgeInCycle x \<Longrightarrow>
      int (card {k \<in> E. edge_start g k = u}) = m_initOutEdgeCnt x \<and>
      (\<forall>k \<in> E. edge_start g k = u \<longrightarrow> edge_end g k \<in> S)"
  using assms unfolding closed_set_def by simp_all

lemma closed_set_in_cycle:
  assumes "graph_rep g E" and "closed_set g E S" and u: "u \<in> S" "FindVertex g u = Some x"
  shows "IsVertexInCycle x"
proof -
  have rep: "vertex_rep g E u x" using assms(1) u by (simp add: graph_rep_def)
  then have "card {k \<in> E. edge_start g k = u} = length (m_outEdgeList x)"
    unfolding vertex_rep_def by (metis distinct_card)
  then show ?thesis
    using assms(2) u rep unfolding closed_set_def vertex_rep_def IsVertexInCycle_def by force
qed

lemma IsVertexInCycle_mark [simp]: "IsVertexInCycle (SetToBeRemoved x) = IsVertexInCycle x"
  by (simp add: IsVertexInCycle_def SetToBeRemoved_def)

lemma closed_set_drop:
  assumes closed: "closed_set g E S" and kind: "same_kind g g'" "dom (FindVertex g') = dom (FindVertex g)"
    and D: "\<And>k. k \<in> D \<Longrightarrow> \<not> (edge_start g k \<in> S \<and> edge_end g k \<in> S)"
  shows "closed_set g' (E - D) S"
proof -
  have ends: "m_edgeEnds g' = m_edgeEnds g" using kind(1) by (simp add: same_kind_def)
  show ?thesis
    unfolding closed_set_def ends
  proof (intro conjI ballI allI impI)
    show "S \<subseteq> dom (FindVertex g')" using closed kind(2) by (simp add: closed_set_def)
    fix u
    assume u: "u \<in> S"
    obtain a where a: "a \<in> E" "edge_end g a = u" "edge_start g a \<in> S"
      using closed_setD(1) [OF closed u] by auto
    moreover have "a \<notin> D" using a D u by auto
    ultimately show "\<exists>k' \<in> E - D. edge_end g k' = u \<and> edge_start g k' \<in> S"
      by (intro bexI [of _ a]) simp_all
    obtain b where b: "b \<in> E" "edge_start g b = u" "edge_end g b \<in> S"
      using closed_setD(2) [OF closed u] by auto
    moreover have "b \<notin> D" using b D u by auto
    ultimately show "\<exists>k' \<in> E - D. edge_start g k' = u \<and> edge_end g k' \<in> S"
      by (intro bexI [of _ b]) simp_all
    fix x'
    assume x': "FindVertex g' u = Some x'" "m_checkAllEdgeInCycle x'"
    then obtain x where x: "FindVertex g u = Some x" "m_checkAllEdgeInCycle x" "m_initOutEdgeCnt x' = m_initOutEdgeCnt x"
      using kind(1) by (auto simp: same_kind_def)
    then have all: "int (card {k \<in> E. edge_start g k = u}) = m_initOutEdgeCnt x"
        "\<forall>k \<in> E. edge_start g k = u \<longrightarrow> edge_end g k \<in> S"
      using closed_setD(3) [OF closed u] by simp_all
    then have "{k' \<in> E - D. edge_start g k' = u} = {k' \<in> E. edge_start g k' = u}" using u D by auto
    then show "int (card {k' \<in> E - D. edge_start g k' = u}) = m_initOutEdgeCnt x'"
      using all(1) x(3) by simp
    show "edge_end g k' \<in> S" if "k' \<in> E - D" "edge_start g k' = u" for k' using that all(2) by blast
  qed
qed

text \<open>The state of the deletion, relative to a set \<open>S\<close> of vertices that must survive it.\<close>

definition progress :: "VertexTag set \<Rightarrow> VertexTag set \<Rightarrow> WaitForGraph \<Rightarrow> nat set \<Rightarrow> bool" where
  "progress S R g E \<longleftrightarrow>
     graph_rep g E \<and> queue_ok R g \<and> closed_set g E S \<and> S \<inter> (R \<union> set (m_vertexQueue g)) = {}"

lemma progress_drop:
  assumes prog: "progress S {v} g E" and k: "k \<in> E" "{edge_start g k, edge_end g k} \<subseteq> {p, v}"
      "v \<in> {edge_start g k, edge_end g k}"
    and drop: "edge_dropped k p g g'"
  shows "progress S {v} g' (E - {k}) \<and> same_kind g g' \<and> dom (FindVertex g') = dom (FindVertex g)"
proof -
  have rep: "graph_rep g E" "queue_ok {v} g" "closed_set g E S" "v \<notin> S" "S \<inter> set (m_vertexQueue g) = {}"
    using prog by (auto simp: progress_def)
  note ok = edge_dropped_ok [OF rep(1,2) k(1,2) drop]
  have closed: "closed_set g' (E - {k}) S"
    using ok rep(4) k(3) by (intro closed_set_drop [OF rep(3)]) auto
  have "p \<notin> S" if fail: "fails_without g k p"
  proof
    assume "p \<in> S"
    obtain x where "FindVertex g p = Some x" "\<not> IsVertexInCycle (drop_edge k x)"
      using fail by (auto simp: fails_without_def)
    moreover have "FindVertex g' p = Some (SetToBeRemoved (drop_edge k x))"
      using drop fail calculation by (simp add: edge_dropped_def)
    ultimately show False using closed_set_in_cycle [OF _ closed \<open>p \<in> S\<close>] ok by fastforce
  qed
  then have "S \<inter> set (m_vertexQueue g') = {}" using rep(5) drop by (auto simp: edge_dropped_def)
  then show ?thesis using ok closed rep(4) by (auto simp: progress_def)
qed

lemma progress_marked:
  assumes "progress S {v} g E"
  obtains y where "FindVertex g v = Some y" "m_isToBeRemoved y"
  using assms by (force simp: progress_def queue_ok_def dom_def)

lemma fold_remove_in_edge:
  assumes "progress S {v} g E" and "set ks \<subseteq> {k \<in> E. edge_end g k = v}" and "distinct ks"
  shows "progress S {v} (fold (remove_in_edge v) ks g) (E - set ks) \<and>
    same_kind g (fold (remove_in_edge v) ks g) \<and>
    dom (FindVertex (fold (remove_in_edge v) ks g)) = dom (FindVertex g)"
  using assms
proof (induction ks arbitrary: g E)
  case (Cons k ks)
  obtain y where y: "FindVertex g v = Some y" "m_isToBeRemoved y" using progress_marked [OF Cons.prems(1)] .
  have k: "k \<in> E" "edge_end g k = v" and rep: "graph_rep g E"
    using Cons.prems by (auto simp: progress_def)
  note step = progress_drop [OF Cons.prems(1) k(1) _ _ remove_in_edge_dropped [OF rep k y]]
  have step: "progress S {v} (remove_in_edge v k g) (E - {k})" "same_kind g (remove_in_edge v k g)"
      "dom (FindVertex (remove_in_edge v k g)) = dom (FindVertex g)"
    using step k(2) by auto
  have "set ks \<subseteq> {k' \<in> E - {k}. edge_end (remove_in_edge v k g) k' = v}" "distinct ks"
    using Cons.prems step(2) by (auto simp: same_kind_def)
  note IH = Cons.IH [OF step(1) this]
  have "E - set (k # ks) = E - {k} - set ks" by auto
  then show ?case using IH step(2,3) same_kind_trans by (simp only: fold_simps)
qed auto

lemma fold_remove_out_edge:
  assumes "progress S {v} g E" and "set ks \<subseteq> {k \<in> E. edge_start g k = v}" and "distinct ks"
  shows "progress S {v} (fold (remove_out_edge v) ks g) (E - set ks) \<and>
    same_kind g (fold (remove_out_edge v) ks g) \<and>
    dom (FindVertex (fold (remove_out_edge v) ks g)) = dom (FindVertex g)"
  using assms
proof (induction ks arbitrary: g E)
  case (Cons k ks)
  obtain y where y: "FindVertex g v = Some y" "m_isToBeRemoved y" using progress_marked [OF Cons.prems(1)] .
  have k: "k \<in> E" "edge_start g k = v" and rep: "graph_rep g E"
    using Cons.prems by (auto simp: progress_def)
  note step = progress_drop [OF Cons.prems(1) k(1) _ _ remove_out_edge_dropped [OF rep k y]]
  have step: "progress S {v} (remove_out_edge v k g) (E - {k})" "same_kind g (remove_out_edge v k g)"
      "dom (FindVertex (remove_out_edge v k g)) = dom (FindVertex g)"
    using step k(2) by auto
  have "set ks \<subseteq> {k' \<in> E - {k}. edge_start (remove_out_edge v k g) k' = v}" "distinct ks"
    using Cons.prems step(2) by (auto simp: same_kind_def)
  note IH = Cons.IH [OF step(1) this]
  have "E - set (k # ks) = E - {k} - set ks" by auto
  then show ?case using IH step(2,3) same_kind_trans by (simp only: fold_simps)
qed auto

text \<open>Taking a vertex without edges out of the hash table.\<close>

definition unlink_vertex :: "VertexTag \<Rightarrow> WaitForGraph \<Rightarrow> WaitForGraph" where
  "unlink_vertex v g = g\<lparr>m_vertexs := filter (\<lambda>(k, x). k \<noteq> v) (m_vertexs g)\<rparr>"

lemma unlink_vertex_simps [simp]:
  "FindVertex (unlink_vertex v g) u = (if u = v then None else FindVertex g u)"
  "m_edgeEnds (unlink_vertex v g) = m_edgeEnds g"
  "m_vertexQueue (unlink_vertex v g) = m_vertexQueue g"
  unfolding unlink_vertex_def by (rule FindVertex_filter) simp_all

lemma dom_unlink_vertex [simp]: "dom (FindVertex (unlink_vertex v g)) = dom (FindVertex g) - {v}"
  by (auto simp: dom_def)

lemma same_kind_unlink: "same_kind g (unlink_vertex v g)"
  by (simp add: same_kind_def)

lemma progress_unlink:
  assumes prog: "progress S {v} g E" and isolated: "\<forall>k \<in> E. edge_start g k \<noteq> v \<and> edge_end g k \<noteq> v"
  shows "progress S {} (unlink_vertex v g) E"
proof -
  have "graph_rep (unlink_vertex v g) E"
    using prog isolated unfolding progress_def graph_rep_def
    by (simp add: vertex_rep_ends [of "unlink_vertex v g" g])
  moreover have "queue_ok {} (unlink_vertex v g)"
    using prog unfolding progress_def queue_ok_def by (auto split: if_splits)
  moreover have "closed_set (unlink_vertex v g) E S" "S \<inter> set (m_vertexQueue g) = {}"
    using prog unfolding progress_def closed_set_def by auto
  ultimately show ?thesis by (simp add: progress_def)
qed

lemma delete_vertex_progress:
  assumes prog: "progress S {v} g E"
  shows "progress S {} (delete_vertex v g) {k \<in> E. edge_start g k \<noteq> v \<and> edge_end g k \<noteq> v} \<and>
    same_kind g (delete_vertex v g) \<and> dom (FindVertex (delete_vertex v g)) = dom (FindVertex g) - {v}"
proof -
  define g1 where "g1 = fold (remove_in_edge v) (in_edges v g) g"
  define g2 where "g2 = fold (remove_out_edge v) (out_edges v g1) g1"
  define E1 where "E1 = {k \<in> E. edge_end g k \<noteq> v}"
  define E2 where "E2 = {k \<in> E. edge_start g k \<noteq> v \<and> edge_end g k \<noteq> v}"
  obtain x where x: "FindVertex g v = Some x" using progress_marked [OF prog] .
  have "vertex_rep g E v x" using prog x by (simp add: progress_def graph_rep_def)
  then have edges: "distinct (in_edges v g)" "set (in_edges v g) = {k \<in> E. edge_end g k = v}"
    using x by (auto simp: vertex_rep_def in_edges_def)
  have "E - set (in_edges v g) = E1" using edges(2) by (auto simp: E1_def)
  then have g1: "progress S {v} g1 E1" "same_kind g g1" "dom (FindVertex g1) = dom (FindVertex g)"
    using fold_remove_in_edge [OF prog _ edges(1)] edges(2) by (simp_all add: g1_def)
  have ends1: "m_edgeEnds g1 = m_edgeEnds g" using g1(2) by (simp add: same_kind_def)
  obtain x1 where x1: "FindVertex g1 v = Some x1" using progress_marked [OF g1(1)] .
  have "vertex_rep g1 E1 v x1" using g1(1) x1 by (simp add: progress_def graph_rep_def)
  then have edges: "distinct (out_edges v g1)" "set (out_edges v g1) = {k \<in> E1. edge_start g1 k = v}"
    using x1 by (auto simp: vertex_rep_def out_edges_def)
  have "E1 - set (out_edges v g1) = E2" using edges(2) by (auto simp: E1_def E2_def ends1)
  then have g2: "progress S {v} g2 E2" "same_kind g1 g2" "dom (FindVertex g2) = dom (FindVertex g1)"
    using fold_remove_out_edge [OF g1(1) _ edges(1)] edges(2) by (simp_all add: g2_def)
  have kind: "same_kind g g2" by (rule same_kind_trans [OF g1(2) g2(2)])
  have "\<forall>k \<in> E2. edge_start g2 k \<noteq> v \<and> edge_end g2 k \<noteq> v" using kind by (simp add: E2_def same_kind_def)
  note unlink = progress_unlink [OF g2(1) this]
  have "delete_vertex v g = unlink_vertex v g2"
    by (simp add: delete_vertex_def g1_def g2_def unlink_vertex_def Let_def)
  then show ?thesis
    using unlink same_kind_trans [OF kind same_kind_unlink] g1(3) g2(3) by (simp add: E2_def)
qed

lemma progress_pop:
  assumes "progress S {} g E" and "m_vertexQueue g = v # q"
  shows "progress S {v} (g\<lparr>m_vertexQueue := q, m_vertexQueueLength := n\<rparr>) E"
  using assms unfolding progress_def queue_ok_def graph_rep_def closed_set_def
  by (auto simp: vertex_rep_ends [of "g\<lparr>m_vertexQueue := q, m_vertexQueueLength := n\<rparr>" g])

lemma same_kind_pop: "same_kind g (g\<lparr>m_vertexQueue := q, m_vertexQueueLength := n\<rparr>)"
  by (simp add: same_kind_def)

lemma delete_loop_progress:
  assumes "progress S {} g E"
  shows "\<exists>g'. delete_loop g = Some g' \<and> m_vertexQueue g' = [] \<and> same_kind g g' \<and>
    dom (FindVertex g') \<subseteq> dom (FindVertex g) \<and>
    progress S {} g' {k \<in> E. edge_start g k \<in> dom (FindVertex g') \<and> edge_end g k \<in> dom (FindVertex g')}"
  using assms
proof (induction "card (dom (FindVertex g))" arbitrary: g E rule: less_induct)
  case less
  show ?case
  proof (cases "m_vertexQueue g")
    case Nil
    have "E = {k \<in> E. edge_start g k \<in> dom (FindVertex g) \<and> edge_end g k \<in> dom (FindVertex g)}"
      using less.prems by (auto simp: progress_def graph_rep_def)
    then show ?thesis
      using less.prems Nil by (subst delete_loop.simps) (simp add: PopFromQueue_def)
  next
    case (Cons v q)
    define g1 where "g1 = g\<lparr>m_vertexQueue := q, m_vertexQueueLength := m_vertexQueueLength g - 1\<rparr>"
    define g2 where "g2 = delete_vertex v g1"
    define E2 where "E2 = {k \<in> E. edge_start g k \<noteq> v \<and> edge_end g k \<noteq> v}"
    have g1: "progress S {v} g1 E" "same_kind g g1" "dom (FindVertex g1) = dom (FindVertex g)"
        "m_edgeEnds g1 = m_edgeEnds g"
      using progress_pop [OF less.prems Cons] same_kind_pop by (simp_all add: g1_def)
    note del = delete_vertex_progress [OF g1(1)]
    have g2: "progress S {} g2 E2" "same_kind g g2" "dom (FindVertex g2) = dom (FindVertex g) - {v}"
      using del g1 same_kind_trans [OF g1(2)] by (simp_all add: g2_def E2_def)
    have "v \<in> dom (FindVertex g)" using less.prems Cons by (auto simp: progress_def queue_ok_def)
    then have "card (dom (FindVertex g2)) < card (dom (FindVertex g))"
      unfolding g2(3) by (rule card_Diff1_less [OF finite_vertices])
    from less.hyps [OF this g2(1)] obtain g' where g': "delete_loop g2 = Some g'" "m_vertexQueue g' = []"
        "same_kind g2 g'" "dom (FindVertex g') \<subseteq> dom (FindVertex g2)"
        "progress S {} g' {k \<in> E2. edge_start g2 k \<in> dom (FindVertex g') \<and> edge_end g2 k \<in> dom (FindVertex g')}"
      by blast
    have ends: "m_edgeEnds g2 = m_edgeEnds g" using g2(2) by (simp add: same_kind_def)
    have sub: "dom (FindVertex g') \<subseteq> dom (FindVertex g)" and "v \<notin> dom (FindVertex g')"
      using g'(4) unfolding g2(3) by blast+
    then have "{k \<in> E2. edge_start g2 k \<in> dom (FindVertex g') \<and> edge_end g2 k \<in> dom (FindVertex g')} =
        {k \<in> E. edge_start g k \<in> dom (FindVertex g') \<and> edge_end g k \<in> dom (FindVertex g')}"
      unfolding E2_def ends by (intro Collect_cong) fast
    with g'(5) have prog: "progress S {} g' {k \<in> E. edge_start g k \<in> dom (FindVertex g') \<and>
        edge_end g k \<in> dom (FindVertex g')}" by simp
    have "PopFromQueue g = (Some v, g1)" using Cons by (simp add: PopFromQueue_def g1_def)
    then have "delete_loop g = delete_loop g2" by (subst delete_loop.simps) (simp add: g2_def)
    then show ?thesis
      using g'(1,2) sub prog same_kind_trans [OF g2(2) g'(3)] by (intro exI [of _ g'] conjI) simp_all
  qed
qed

subsection \<open>The scan\<close>

definition scan_ok :: "VertexTag set \<Rightarrow> WaitForGraph \<Rightarrow> bool" where
  "scan_ok U g \<longleftrightarrow>
     distinct (m_vertexQueue g) \<and> set (m_vertexQueue g) \<subseteq> dom (FindVertex g) \<and>
     (\<forall>v x. FindVertex g v = Some x \<longrightarrow>
        (m_isToBeRemoved x \<longleftrightarrow> v \<in> set (m_vertexQueue g)) \<and>
        (m_isToBeRemoved x \<or> IsVertexInCycle x \<or> v \<in> U))"

lemma push_unless_in_cycle_scan:
  assumes scan: "scan_ok (insert v U) g" and rep: "graph_rep g E"
  shows "scan_ok U (push_unless_in_cycle v g) \<and> graph_rep (push_unless_in_cycle v g) E \<and>
    same_kind g (push_unless_in_cycle v g) \<and>
    dom (FindVertex (push_unless_in_cycle v g)) = dom (FindVertex g) \<and>
    (closed_set g E S \<and> S \<inter> set (m_vertexQueue g) = {} \<longrightarrow>
       S \<inter> set (m_vertexQueue (push_unless_in_cycle v g)) = {})"
proof (cases "\<exists>x. FindVertex g v = Some x \<and> \<not> IsVertexInCycle x \<and> \<not> m_isToBeRemoved x")
  case True
  then obtain x where x: "FindVertex g v = Some x" "\<not> IsVertexInCycle x" "\<not> m_isToBeRemoved x" by blast
  define g' where "g' = PushIntoDeleteQueue v g"
  have push: "push_unless_in_cycle v g = g'" using x by (simp add: push_unless_in_cycle_def g'_def)
  have find: "FindVertex g' u = (if u = v then Some (SetToBeRemoved x) else FindVertex g u)" for u
    using x by (simp add: g'_def)
  have ends: "m_edgeEnds g' = m_edgeEnds g" and q: "m_vertexQueue g' = v # m_vertexQueue g"
    by (simp_all add: g'_def)
  have dom: "dom (FindVertex g') = dom (FindVertex g)" using x by (auto simp: dom_def find)
  have "v \<notin> set (m_vertexQueue g)" using scan x by (auto simp: scan_ok_def)
  then have "scan_ok U g'"
    using scan x unfolding scan_ok_def dom q by (auto simp: find split: if_splits)
  moreover have "graph_rep g' E"
    using rep x unfolding graph_rep_def dom
    by (auto simp: find vertex_rep_ends [OF ends] ends split: if_splits)
  moreover have "same_kind g g'" using x by (auto simp: same_kind_def find ends split: if_splits)
  moreover have "S \<inter> set (m_vertexQueue g') = {}" if "closed_set g E S" "S \<inter> set (m_vertexQueue g) = {}"
    using that closed_set_in_cycle [OF rep that(1) _ x(1)] x(2) by (auto simp: q)
  ultimately show ?thesis using dom by (simp add: push)
next
  case False
  then have push: "push_unless_in_cycle v g = g" by (auto simp: push_unless_in_cycle_def split: option.splits)
  moreover have "scan_ok U g" using scan False by (auto simp: scan_ok_def)
  ultimately show ?thesis using rep by simp
qed

lemma closed_set_same_kind:
  assumes "same_kind g g'" and "dom (FindVertex g') = dom (FindVertex g)" and "closed_set g E S"
  shows "closed_set g' E S"
  using closed_set_drop [OF assms(3,1,2), of "{}"] by simp

lemma scan_progress:
  assumes "scan_ok (set vs) g" and "graph_rep g E" and "closed_set g E S" and "S \<inter> set (m_vertexQueue g) = {}"
  shows "progress S {} (fold push_unless_in_cycle vs g) E \<and> same_kind g (fold push_unless_in_cycle vs g) \<and>
    dom (FindVertex (fold push_unless_in_cycle vs g)) = dom (FindVertex g)"
  using assms
proof (induction vs arbitrary: g)
  case Nil
  then show ?case by (auto simp: scan_ok_def progress_def queue_ok_def)
next
  case (Cons v vs)
  let ?g = "push_unless_in_cycle v g"
  have "scan_ok (insert v (set vs)) g" using Cons.prems(1) by simp
  note step = push_unless_in_cycle_scan [OF this Cons.prems(2), of S]
  have g: "scan_ok (set vs) ?g" "graph_rep ?g E" "same_kind g ?g" "dom (FindVertex ?g) = dom (FindVertex g)"
      "S \<inter> set (m_vertexQueue ?g) = {}"
    using step Cons.prems(3,4) by blast+
  note IH = Cons.IH [OF g(1,2) closed_set_same_kind [OF g(3,4) Cons.prems(3)] g(5)]
  show ?case
    using IH g(4) same_kind_trans [OF g(3)] by (simp only: fold_simps)
qed

subsection \<open>Graphs built by the detector\<close>

inductive built_graph :: "WaitForGraph \<Rightarrow> bool" where
  build: "built_graph BuildWaitForGraph"
| vertex: "built_graph g \<Longrightarrow> AddVertex enter_ok dup_ok tag check n g = (ret, g') \<Longrightarrow> built_graph g'"
| edge: "built_graph g \<Longrightarrow> FindVertex g u \<noteq> None \<Longrightarrow> FindVertex g v \<noteq> None \<Longrightarrow>
    AddEdge alloc_ok alloc_rev_ok u v g = (ret, g') \<Longrightarrow> built_graph g'"

definition fresh_graph :: "WaitForGraph \<Rightarrow> bool" where
  "fresh_graph g \<longleftrightarrow> graph_rep g {..<length (m_edgeEnds g)} \<and> m_vertexQueue g = [] \<and>
     (\<forall>v x. FindVertex g v = Some x \<longrightarrow> \<not> m_isToBeRemoved x)"

lemma fresh_AddVertex:
  assumes fresh: "fresh_graph g" and add: "AddVertex enter_ok dup_ok tag check n g = (ret, g')"
  shows "fresh_graph g'"
proof (cases "FindVertex g tag = None \<and> enter_ok \<and> dup_ok")
  case True
  define x where "x = Vertex_new check n"
  have g': "g' = g\<lparr>m_vertexs := (tag, x) # m_vertexs g\<rparr>"
    using add True by (simp add: AddVertex_def x_def)
  have find: "FindVertex g' u = (if u = tag then Some x else FindVertex g u)" for u
    by (simp add: g' FindVertex_def)
  have ends: "m_edgeEnds g' = m_edgeEnds g" by (simp add: g')
  have dom: "dom (FindVertex g) \<subseteq> dom (FindVertex g')" by (auto simp: find)
  have "edge_start g k \<noteq> tag \<and> edge_end g k \<noteq> tag" if "k < length (m_edgeEnds g)" for k
    using fresh True that unfolding fresh_graph_def graph_rep_def by (metis domIff lessThan_iff)
  then have "vertex_rep g {..<length (m_edgeEnds g)} tag x"
    by (auto simp: vertex_rep_def x_def Vertex_new_def)
  then have "vertex_rep g' {..<length (m_edgeEnds g)} u y" if "FindVertex g' u = Some y" for u y
    using that fresh unfolding vertex_rep_ends [OF ends] find
    by (auto simp: fresh_graph_def graph_rep_def split: if_splits)
  then have "graph_rep g' {..<length (m_edgeEnds g)}"
    using fresh dom unfolding fresh_graph_def graph_rep_def ends by blast
  moreover have "\<not> m_isToBeRemoved y" if "FindVertex g' u = Some y" for u y
    using that fresh by (auto simp: find fresh_graph_def x_def Vertex_new_def split: if_splits)
  moreover have "m_vertexQueue g' = []" using fresh by (simp add: g' fresh_graph_def)
  ultimately show ?thesis by (simp add: fresh_graph_def ends)
qed (use assms in \<open>auto simp: AddVertex_def split: option.splits if_splits\<close>)

lemma FindVertex_ends [simp]: "FindVertex (g\<lparr>m_edgeEnds := es\<rparr>) = FindVertex g"
  by (simp add: FindVertex_def fun_eq_iff)

lemma fresh_AddEdge:
  assumes fresh: "fresh_graph g" and ends: "FindVertex g u \<noteq> None" "FindVertex g v \<noteq> None"
    and add: "AddEdge alloc_ok alloc_rev_ok u v g = (ret, g')"
  shows "fresh_graph g'"
proof (cases "alloc_ok \<and> alloc_rev_ok")
  case True
  let ?n = "length (m_edgeEnds g)"
  have g': "g' = upd_vertex v (AddInEdge ?n) (upd_vertex u (AddOutEdge ?n)
      (g\<lparr>m_edgeEnds := m_edgeEnds g @ [(u, v)]\<rparr>))"
    using add True by (simp add: AddEdge_def Let_def)
  have edges: "m_edgeEnds g' = m_edgeEnds g @ [(u, v)]" "m_vertexQueue g' = []"
    using fresh by (simp_all add: g' fresh_graph_def)
  have dom: "dom (FindVertex g') = dom (FindVertex g)" by (auto simp: g' dom_def)
  have vertices: "vertex_rep g' {..<Suc ?n} w y \<and> \<not> m_isToBeRemoved y" if w: "FindVertex g' w = Some y" for w y
  proof -
    obtain x where x: "FindVertex g w = Some x"
        "y = (if w = v then AddInEdge ?n else id) ((if w = u then AddOutEdge ?n else id) x)"
      using w by (auto simp: g' split: if_splits)
    then have "vertex_rep g {..<?n} w x" "\<not> m_isToBeRemoved x"
      using fresh by (auto simp: fresh_graph_def graph_rep_def)
    moreover have "{k \<in> {..<Suc ?n}. edge_end g' k = w} = {k \<in> {..<?n}. edge_end g k = w} \<union> (if w = v then {?n} else {})"
      "{k \<in> {..<Suc ?n}. edge_start g' k = w} = {k \<in> {..<?n}. edge_start g k = w} \<union> (if w = u then {?n} else {})"
      by (auto simp: edges nth_append less_Suc_eq)
    ultimately show ?thesis
      unfolding vertex_rep_def x(2) by (auto simp: AddInEdge_def AddOutEdge_def)
  qed
  have "edge_start g' k \<in> dom (FindVertex g') \<and> edge_end g' k \<in> dom (FindVertex g')" if "k < Suc ?n" for k
    using that fresh ends unfolding dom fresh_graph_def graph_rep_def
    by (auto simp: edges nth_append less_Suc_eq)
  then have "graph_rep g' {..<Suc ?n}" using vertices by (auto simp: graph_rep_def edges(1))
  then show ?thesis using vertices by (auto simp: fresh_graph_def edges)
qed (use assms in \<open>auto simp: AddEdge_def split: if_splits\<close>)

lemma built_graph_fresh: "built_graph g \<Longrightarrow> fresh_graph g"
proof (induction rule: built_graph.induct)
  case build
  show ?case by (simp add: fresh_graph_def graph_rep_def BuildWaitForGraph_def FindVertex_def)
qed (auto intro: fresh_AddVertex fresh_AddEdge)

subsection \<open>Properties\<close>

definition waits_for :: "WaitForGraph \<Rightarrow> VertexTag \<Rightarrow> VertexTag \<Rightarrow> bool" where
  "waits_for g u v \<longleftrightarrow> (u, v) \<in> set (m_edgeEnds g)"

text \<open>
  A set of vertices is deadlocked when each of them waits for a vertex of the set and is waited
  for by one; a vertex that must have all its edges in cycles (\<open>m_checkAllEdgeInCycle\<close>) must
  moreover have all the out-edges it started with, all of them into the set.
\<close>

definition deadlocked :: "WaitForGraph \<Rightarrow> VertexTag set \<Rightarrow> bool" where
  "deadlocked g S \<longleftrightarrow>
     (\<forall>v \<in> S. \<exists>x. FindVertex g v = Some x \<and>
        (\<exists>u \<in> S. waits_for g u v) \<and> (\<exists>u \<in> S. waits_for g v u) \<and>
        (m_checkAllEdgeInCycle x \<longrightarrow>
           int (length (filter (\<lambda>e. fst e = v) (m_edgeEnds g))) = m_initOutEdgeCnt x \<and>
           (\<forall>u. waits_for g v u \<longrightarrow> u \<in> S)))"

lemma deadlocked_waits:
  assumes "deadlocked g S" and "v \<in> S"
  shows "\<exists>u \<in> S. waits_for g v u"
  using bspec [OF assms(1) [unfolded deadlocked_def] assms(2)] by blast

lemma closed_set_deadlocked: "closed_set g {..<length (m_edgeEnds g)} S \<longleftrightarrow> deadlocked g S"
proof -
  let ?E = "{..<length (m_edgeEnds g)}"
  have ends: "waits_for g u v \<longleftrightarrow> (\<exists>k \<in> ?E. edge_start g k = u \<and> edge_end g k = v)" for u v
    by (force simp: waits_for_def in_set_conv_nth)
  have parts: "(\<exists>k \<in> ?E. edge_end g k = u \<and> edge_start g k \<in> S) \<longleftrightarrow> (\<exists>w \<in> S. waits_for g w u)"
      "(\<exists>k \<in> ?E. edge_start g k = u \<and> edge_end g k \<in> S) \<longleftrightarrow> (\<exists>w \<in> S. waits_for g u w)"
      "(\<forall>k \<in> ?E. edge_start g k = u \<longrightarrow> edge_end g k \<in> S) \<longleftrightarrow> (\<forall>w. waits_for g u w \<longrightarrow> w \<in> S)"
      "card {k \<in> ?E. edge_start g k = u} = length (filter (\<lambda>e. fst e = u) (m_edgeEnds g))" for u
    by (auto simp: ends length_filter_conv_card lessThan_def)
  have "S \<subseteq> dom (FindVertex g) \<longleftrightarrow> (\<forall>u \<in> S. \<exists>x. FindVertex g u = Some x)" by auto
  then show ?thesis unfolding closed_set_def deadlocked_def parts by auto
qed

lemma DeleteAll_delete_loop: "DeleteAllVerticesNotInCycle g = delete_loop g"
  unfolding DeleteAllVerticesNotInCycle_def IsQueueEmpty_def
  by (subst (2) delete_loop.simps) (simp add: PopFromQueue_def delete_loop.simps split: list.splits)

lemma surviving_vertices_closed:
  assumes g0: "progress {} {} g0 E" and g': "m_vertexQueue g' = []" "same_kind g0 g'"
      "progress {} {} g' {k \<in> E. edge_start g0 k \<in> dom (FindVertex g') \<and> edge_end g0 k \<in> dom (FindVertex g')}"
  shows "closed_set g0 E (dom (FindVertex g'))"
proof -
  let ?S = "dom (FindVertex g')" and ?E = "{k \<in> E. edge_start g0 k \<in> dom (FindVertex g') \<and> edge_end g0 k \<in> dom (FindVertex g')}"
  have ends: "m_edgeEnds g' = m_edgeEnds g0" using g'(2) by (simp add: same_kind_def)
  show ?thesis
    unfolding closed_set_def
  proof (intro conjI ballI allI impI)
    show "?S \<subseteq> dom (FindVertex g0)" using g'(2) by (force simp: same_kind_def)
    fix u
    assume "u \<in> ?S"
    then obtain y where y: "FindVertex g' u = Some y" by blast
    obtain x0 where x0: "FindVertex g0 u = Some x0" "m_initOutEdgeCnt y = m_initOutEdgeCnt x0"
        "m_checkAllEdgeInCycle y = m_checkAllEdgeInCycle x0" "m_isToBeRemoved x0 \<longrightarrow> m_isToBeRemoved y"
      using g'(2) y unfolding same_kind_def by blast
    have rep: "vertex_rep g' ?E u y" using g'(3) y by (simp add: progress_def graph_rep_def)
    have mark: "\<not> m_isToBeRemoved y" "IsVertexInCycle y"
      using g'(1,3) y by (auto simp: progress_def queue_ok_def)
    then have nonempty: "m_inEdgeList y \<noteq> []" "m_outEdgeList y \<noteq> []"
      using rep by (auto simp: IsVertexInCycle_def vertex_rep_def split: if_splits)
    then have "{k \<in> ?E. edge_end g0 k = u} \<noteq> {}" "{k \<in> ?E. edge_start g0 k = u} \<noteq> {}"
      using rep unfolding vertex_rep_def ends by (metis set_empty)+
    then show "\<exists>k \<in> E. edge_end g0 k = u \<and> edge_start g0 k \<in> ?S"
        "\<exists>k \<in> E. edge_start g0 k = u \<and> edge_end g0 k \<in> ?S" by blast+
    fix x
    assume x: "FindVertex g0 u = Some x" "m_checkAllEdgeInCycle x"
    have rep0: "vertex_rep g0 E u x" and "IsVertexInCycle x"
      using g0 x x0 mark by (auto simp: progress_def graph_rep_def queue_ok_def)
    then have init: "m_initOutEdgeCnt x = int (length (m_outEdgeList x))"
      using x(2) by (simp add: IsVertexInCycle_def vertex_rep_def split: if_splits)
    have card0: "card {k \<in> E. edge_start g0 k = u} = length (m_outEdgeList x)"
      using rep0 unfolding vertex_rep_def by (metis distinct_card)
    then show "int (card {k \<in> E. edge_start g0 k = u}) = m_initOutEdgeCnt x" using init by simp
    have "length (m_outEdgeList y) = length (m_outEdgeList x)"
      using mark(2) rep x0 x init by (simp add: IsVertexInCycle_def vertex_rep_def split: if_splits)
    moreover have "card {k \<in> ?E. edge_start g0 k = u} = length (m_outEdgeList y)"
      using rep unfolding vertex_rep_def ends by (metis (no_types, lifting) distinct_card)
    moreover have "finite {k \<in> E. edge_start g0 k = u}"
      using rep0 unfolding vertex_rep_def by (metis List.finite_set)
    ultimately have "{k \<in> ?E. edge_start g0 k = u} = {k \<in> E. edge_start g0 k = u}"
      using card0 by (intro card_subset_eq) auto
    then show "edge_end g0 k \<in> ?S" if "k \<in> E" "edge_start g0 k = u" for k using that by blast
  qed
qed

lemma scan_fresh:
  assumes "fresh_graph g" and "closed_set g {..<length (m_edgeEnds g)} S"
  shows "progress S {} (ScanVerticesNotInCycleAndPushIntoDeleteQueue g) {..<length (m_edgeEnds g)} \<and>
    same_kind g (ScanVerticesNotInCycleAndPushIntoDeleteQueue g) \<and>
    dom (FindVertex (ScanVerticesNotInCycleAndPushIntoDeleteQueue g)) = dom (FindVertex g)"
proof -
  have "v \<in> set (map fst (m_vertexs g))" if "FindVertex g v = Some x" for v x
    using that by (force simp: FindVertex_def dest: map_of_SomeD)
  then have "scan_ok (set (map fst (m_vertexs g))) g"
    using assms(1) unfolding scan_ok_def fresh_graph_def by simp
  then show ?thesis
    unfolding ScanVerticesNotInCycleAndPushIntoDeleteQueue_def
    using assms by (intro scan_progress) (simp_all add: fresh_graph_def)
qed

lemma closed_set_transfer:
  assumes kind: "same_kind g g0" "dom (FindVertex g0) = dom (FindVertex g)" and closed: "closed_set g0 E S"
  shows "closed_set g E S"
proof -
  have ends: "m_edgeEnds g0 = m_edgeEnds g" using kind(1) by (simp add: same_kind_def)
  show ?thesis
    unfolding closed_set_def
  proof (intro conjI ballI allI impI)
    show "S \<subseteq> dom (FindVertex g)" using closed kind(2) by (simp add: closed_set_def)
    fix u
    assume u: "u \<in> S"
    show "\<exists>k \<in> E. edge_end g k = u \<and> edge_start g k \<in> S" "\<exists>k \<in> E. edge_start g k = u \<and> edge_end g k \<in> S"
      using closed_setD(1,2) [OF closed u] by (simp_all add: ends)
    fix x
    assume x: "FindVertex g u = Some x" "m_checkAllEdgeInCycle x"
    then obtain y where y: "FindVertex g0 u = Some y" using kind(2) by blast
    with x kind(1) have "m_checkAllEdgeInCycle y" "m_initOutEdgeCnt y = m_initOutEdgeCnt x"
      unfolding same_kind_def by force+
    with closed_setD(3) [OF closed u y] show "int (card {k \<in> E. edge_start g k = u}) = m_initOutEdgeCnt x"
        "\<And>k. k \<in> E \<Longrightarrow> edge_start g k = u \<Longrightarrow> edge_end g k \<in> S"
      by (simp_all add: ends)
  qed
qed

lemma deletion_result:
  assumes "built_graph g"
  shows "\<exists>g'. DeleteAllVerticesNotInCycle (ScanVerticesNotInCycleAndPushIntoDeleteQueue g) = Some g' \<and>
    deadlocked g (dom (FindVertex g')) \<and> (\<forall>S. deadlocked g S \<longrightarrow> S \<subseteq> dom (FindVertex g'))"
proof -
  let ?E = "{..<length (m_edgeEnds g)}" and ?g0 = "ScanVerticesNotInCycleAndPushIntoDeleteQueue g"
  have fresh: "fresh_graph g" by (rule built_graph_fresh [OF assms])
  have scan: "progress S {} ?g0 ?E" "same_kind g ?g0" "dom (FindVertex ?g0) = dom (FindVertex g)"
    if "deadlocked g S" for S
    using scan_fresh [OF fresh, of S] that by (simp_all add: closed_set_deadlocked)
  have empty: "deadlocked g {}" by (simp add: deadlocked_def)
  obtain g' where g': "delete_loop ?g0 = Some g'" "m_vertexQueue g' = []" "same_kind ?g0 g'"
      "progress {} {} g' {k \<in> ?E. edge_start ?g0 k \<in> dom (FindVertex g') \<and> edge_end ?g0 k \<in> dom (FindVertex g')}"
    using delete_loop_progress [OF scan(1) [OF empty]] by blast
  have dead: "closed_set g ?E (dom (FindVertex g'))"
    by (rule closed_set_transfer [OF scan(2,3) [OF empty]
          surviving_vertices_closed [OF scan(1) [OF empty] g'(2-4)]])
  have "S \<subseteq> dom (FindVertex g')" if S: "deadlocked g S" for S
  proof -
    obtain g'' E' where "delete_loop ?g0 = Some g''" "progress S {} g'' E'"
      using delete_loop_progress [OF scan(1) [OF S]] by blast
    then show ?thesis using g'(1) by (simp add: progress_def closed_set_def)
  qed
  then show ?thesis
    using g'(1) dead by (simp add: DeleteAll_delete_loop closed_set_deadlocked)
qed

lemma deletion_resultD:
  assumes "built_graph g" and "DeleteAllVerticesNotInCycle (ScanVerticesNotInCycleAndPushIntoDeleteQueue g) = Some g'"
  shows "deadlocked g (dom (FindVertex g'))" and "deadlocked g S \<Longrightarrow> S \<subseteq> dom (FindVertex g')"
  using deletion_result [OF assms(1)] assms(2) by auto

text \<open>Three vertices: 1 and 2 wait for each other, 3 waits for 1.\<close>

definition sample_tag :: "uint64 \<Rightarrow> VertexTag" where
  "sample_tag n = \<lparr>vt_field1 = n, vt_field2 = 0, vt_field3 = 0, vt_field4 = 0, vt_field5 = 0\<rparr>"

definition sample_graph :: WaitForGraph where
  "sample_graph =
     (let g1 = fold (\<lambda>n g. snd (AddVertex True True (sample_tag n) False 0 g)) [1, 2, 3] BuildWaitForGraph in
      fold (\<lambda>(m, n) g. snd (AddEdge True True (sample_tag m) (sample_tag n) g)) [(1, 2), (2, 1), (3, 1)] g1)"

lemma built_AddVertex: "built_graph g \<Longrightarrow> built_graph (snd (AddVertex a b tag check n g))"
  by (metis built_graph.vertex prod.collapse)

lemma built_AddEdge:
  "built_graph g \<Longrightarrow> FindVertex g u \<noteq> None \<Longrightarrow> FindVertex g v \<noteq> None \<Longrightarrow> built_graph (snd (AddEdge a b u v g))"
  by (metis built_graph.edge prod.collapse)

lemma built_sample_graph: "built_graph sample_graph"
  unfolding sample_graph_def Let_def fold_simps prod.case
  by (intro built_AddEdge built_AddVertex built_graph.build; code_simp)

lemma sample_graph_edges:
  "m_edgeEnds sample_graph = [(sample_tag 1, sample_tag 2), (sample_tag 2, sample_tag 1), (sample_tag 3, sample_tag 1)]"
  by code_simp

lemma sample_graph_result:
  "map_option (\<lambda>g'. map fst (m_vertexs g'))
     (DeleteAllVerticesNotInCycle (ScanVerticesNotInCycleAndPushIntoDeleteQueue sample_graph)) =
   Some [sample_tag 2, sample_tag 1]"
  by code_simp

lemma sample_graph_found:
  assumes "DeleteAllVerticesNotInCycle (ScanVerticesNotInCycleAndPushIntoDeleteQueue sample_graph) = Some g'"
  shows "\<exists>x. FindVertex g' (sample_tag 1) = Some x"
proof -
  have "sample_tag 1 \<in> fst ` set (m_vertexs g')"
    using sample_graph_result assms by (simp flip: set_map)
  then show ?thesis by (metis FindVertex_def domD dom_map_of_conv_image_fst)
qed

text \<open>
  C8. Deleting the vertices that are not in a cycle ends, and the vertices it leaves are exactly
  the deadlocked ones: the union of all sets of vertices that keep each other waiting.
\<close>

theorem DeleteAllVerticesNotInCycle_exact:
  assumes "built_graph g"
  shows "\<exists>g'. DeleteAllVerticesNotInCycle (ScanVerticesNotInCycleAndPushIntoDeleteQueue g) = Some g' \<and>
    {v. FindVertex g' v \<noteq> None} = \<Union> {S. deadlocked g S}"
proof -
  obtain g' where g': "DeleteAllVerticesNotInCycle (ScanVerticesNotInCycleAndPushIntoDeleteQueue g) = Some g'"
    using deletion_result [OF assms] by blast
  then have "dom (FindVertex g') = \<Union> {S. deadlocked g S}"
    using deletion_resultD [OF assms g'] by blast
  then show ?thesis using g' by (simp add: dom_def)
qed

theorem DeleteAllVerticesNotInCycle_exact_witness:
  "built_graph sample_graph \<and> sample_tag 1 \<in> \<Union> {S. deadlocked sample_graph S}"
proof -
  obtain g' where g': "DeleteAllVerticesNotInCycle (ScanVerticesNotInCycleAndPushIntoDeleteQueue sample_graph) = Some g'"
      "{v. FindVertex g' v \<noteq> None} = \<Union> {S. deadlocked sample_graph S}"
    using DeleteAllVerticesNotInCycle_exact [OF built_sample_graph] by blast
  have "sample_tag 1 \<in> {v. FindVertex g' v \<noteq> None}" using sample_graph_found [OF g'(1)] by auto
  then show ?thesis using built_sample_graph unfolding g'(2) by blast
qed

text \<open>
  C33. No false alarm: when vertices are left after the deletion, some of them wait for each
  other in a cycle.
\<close>

theorem remaining_vertices_have_cycle:
  assumes "built_graph g"
    and "DeleteAllVerticesNotInCycle (ScanVerticesNotInCycleAndPushIntoDeleteQueue g) = Some g'"
    and "FindVertex g' v = Some x"
  shows "\<exists>u. (u, u) \<in> {(a, b). waits_for g a b \<and> FindVertex g' a \<noteq> None \<and> FindVertex g' b \<noteq> None}\<^sup>+"
proof (rule ccontr)
  let ?r = "{(a, b). waits_for g a b \<and> FindVertex g' a \<noteq> None \<and> FindVertex g' b \<noteq> None}"
  assume "\<nexists>u. (u, u) \<in> ?r\<^sup>+"
  then have "acyclic ?r" by (simp add: acyclic_def)
  moreover have "finite ?r"
    by (rule finite_subset [of _ "dom (FindVertex g') \<times> dom (FindVertex g')"]) (auto simp: finite_vertices)
  ultimately have "wf (?r\<inverse>)" by (simp add: finite_acyclic_wf_converse)
  then obtain z where z: "z \<in> dom (FindVertex g')" "\<And>y. (y, z) \<in> ?r\<inverse> \<Longrightarrow> y \<notin> dom (FindVertex g')"
    using wfE_min [of "?r\<inverse>" v "dom (FindVertex g')"] domI [of "FindVertex g'" v, OF assms(3)] by blast
  have "deadlocked g (dom (FindVertex g'))" by (rule deletion_resultD(1) [OF assms(1,2)])
  then obtain y where "y \<in> dom (FindVertex g')" "waits_for g z y" 
    using deadlocked_waits [OF _ z(1)] by blast
  then show False using z by (auto simp: dom_def)
qed

theorem remaining_vertices_have_cycle_witness:
  "built_graph sample_graph \<and> (\<exists>g' u.
     DeleteAllVerticesNotInCycle (ScanVerticesNotInCycleAndPushIntoDeleteQueue sample_graph) = Some g' \<and>
     (u, u) \<in> {(a, b). waits_for sample_graph a b \<and> FindVertex g' a \<noteq> None \<and> FindVertex g' b \<noteq> None}\<^sup>+)"
proof -
  obtain g' where g': "DeleteAllVerticesNotInCycle (ScanVerticesNotInCycleAndPushIntoDeleteQueue sample_graph) = Some g'"
    using sample_graph_result by auto
  obtain x where "FindVertex g' (sample_tag 1) = Some x" using sample_graph_found [OF g'] by blast
  then show ?thesis
    using built_sample_graph g' remaining_vertices_have_cycle [OF built_sample_graph g'] by blast
qed

text \<open>
  C24. No deadlock is missed: the vertices of a cycle of waits stay in the graph, provided that a vertex
  which demands that all its edges lie in cycles (\<open>m_checkAllEdgeInCycle\<close>) has all of its announced
  out-edges, and they all lead to vertices of the cycle. A vertex without that flag needs nothing more.
\<close>

theorem cycle_is_reported:
  assumes "built_graph g"
    and "DeleteAllVerticesNotInCycle (ScanVerticesNotInCycleAndPushIntoDeleteQueue g) = Some g'"
    and "\<And>i. i < length vs \<Longrightarrow> waits_for g (vs ! i) (vs ! (Suc i mod length vs))"
    and "\<And>v. v \<in> set vs \<Longrightarrow> \<exists>x. FindVertex g v = Some x \<and> (m_checkAllEdgeInCycle x \<longrightarrow>
      int (length (filter (\<lambda>e. fst e = v) (m_edgeEnds g))) = m_initOutEdgeCnt x \<and>
      (\<forall>u. waits_for g v u \<longrightarrow> u \<in> set vs))"
    and "v \<in> set vs"
  shows "FindVertex g' v \<noteq> None"
proof -
  have "deadlocked g (set vs)"
    unfolding deadlocked_def
  proof
    fix w
    assume w: "w \<in> set vs"
    then obtain i where i: "i < length vs" "w = vs ! i" by (metis in_set_conv_nth)
    define j where "j = (i + length vs - 1) mod length vs"
    have n: "0 < length vs" using i by linarith
    have j: "j < length vs" using n by (simp add: j_def)
    have "Suc j mod length vs = (i + length vs) mod length vs"
      using n by (simp add: j_def mod_Suc_eq)
    then have "vs ! (Suc j mod length vs) = w" using i by simp
    moreover have "Suc i mod length vs < length vs" using n by simp
    ultimately have "\<exists>u \<in> set vs. waits_for g u w" "\<exists>u \<in> set vs. waits_for g w u"
      using assms(3) [OF j] assms(3) [OF i(1)] i(2) j by (auto intro: nth_mem)
    then show "\<exists>x. FindVertex g w = Some x \<and> (\<exists>u \<in> set vs. waits_for g u w) \<and> (\<exists>u \<in> set vs. waits_for g w u) \<and>
        (m_checkAllEdgeInCycle x \<longrightarrow> int (length (filter (\<lambda>e. fst e = w) (m_edgeEnds g))) = m_initOutEdgeCnt x \<and>
           (\<forall>u. waits_for g w u \<longrightarrow> u \<in> set vs))"
      using assms(4) [OF w] by blast
  qed
  then have "set vs \<subseteq> dom (FindVertex g')"
    by (rule deletion_resultD(2) [OF assms(1,2)])
  then show ?thesis using assms(5) by auto
qed

theorem cycle_is_reported_witness:
  "built_graph sample_graph \<and> (\<exists>g'.
     DeleteAllVerticesNotInCycle (ScanVerticesNotInCycleAndPushIntoDeleteQueue sample_graph) = Some g' \<and>
     FindVertex g' (sample_tag 2) \<noteq> None)"
proof -
  obtain g' where g': "DeleteAllVerticesNotInCycle (ScanVerticesNotInCycleAndPushIntoDeleteQueue sample_graph) = Some g'"
    using sample_graph_result by auto
  have "map_option m_checkAllEdgeInCycle (FindVertex sample_graph (sample_tag 1)) = Some False"
      "map_option m_checkAllEdgeInCycle (FindVertex sample_graph (sample_tag 2)) = Some False"
    by code_simp+
  then have "\<exists>x. FindVertex sample_graph v = Some x \<and> (m_checkAllEdgeInCycle x \<longrightarrow>
      int (length (filter (\<lambda>e. fst e = v) (m_edgeEnds sample_graph))) = m_initOutEdgeCnt x \<and>
      (\<forall>u. waits_for sample_graph v u \<longrightarrow> u \<in> set [sample_tag 1, sample_tag 2]))"
    if "v \<in> set [sample_tag 1, sample_tag 2]" for v
    using that by auto
  moreover have "waits_for sample_graph ([sample_tag 1, sample_tag 2] ! i)
      ([sample_tag 1, sample_tag 2] ! (Suc i mod length [sample_tag 1, sample_tag 2]))"
    if "i < length [sample_tag 1, sample_tag 2]" for i
    using that by (auto simp: waits_for_def sample_graph_edges less_Suc_eq)
  ultimately have "FindVertex g' (sample_tag 2) \<noteq> None"
    using cycle_is_reported [OF built_sample_graph g', of "[sample_tag 1, sample_tag 2]" "sample_tag 2"] by simp
  then show ?thesis using built_sample_graph g' by blast
qed

end
