(* ===== verification/Binary_Heap.thy ===== *)
theory Binary_Heap
  imports Prelude "HOL-Library.Multiset"
begin

text \<open>
  The binary heap (\<open>src/common/algorithm/dstore_binaryheap.cpp\<close>). The array \<open>bh_nodes\<close> is the
  list of the nodes in use, so \<open>bh_size\<close> is its length; the nodes behind it are never read. The
  offsets are natural numbers: the truncated subtraction in \<open>parent_offset\<close> agrees with the
  division of the source, which rounds towards zero, except for an empty heap in
  \<open>BinaryheapBuild\<close>, where it is written out. The size and the capacity, 32-bit numbers in the source, are
  natural numbers: a heap of \<open>2 ^ 30\<close> pointers is not reached. A failed assertion is \<open>None\<close>.

  The contract between the heap and its users is the one the header states for the comparison
  function; it is the locale \<open>heap_order\<close>, in which the heap is proved correct.
\<close>

subsection \<open>The code\<close>

record 'a binaryheap =
  bh_space :: nat
  bh_has_heap_property :: bool
  bh_compare :: "'a \<Rightarrow> 'a \<Rightarrow> int"
  bh_nodes :: "'a list"

abbreviation bh_size :: "'a binaryheap \<Rightarrow> nat" where
  "bh_size heap \<equiv> length (bh_nodes heap)"

definition binaryheap_empty :: "'a binaryheap \<Rightarrow> bool" where
  "binaryheap_empty heap \<longleftrightarrow> bh_nodes heap = []"

definition BinaryheapAllocate :: "bool \<Rightarrow> nat \<Rightarrow> ('a \<Rightarrow> 'a \<Rightarrow> int) \<Rightarrow> 'a binaryheap option" where
  "BinaryheapAllocate alloc_ok capacity compare =
     (if alloc_ok
      then Some \<lparr>bh_space = capacity, bh_has_heap_property = True, bh_compare = compare, bh_nodes = []\<rparr>
      else None)"

definition BinaryheapReset :: "'a binaryheap \<Rightarrow> 'a binaryheap" where
  "BinaryheapReset heap = heap\<lparr>bh_nodes := [], bh_has_heap_property := True\<rparr>"

definition left_offset :: "nat \<Rightarrow> nat" where "left_offset i = 2 * i + 1"
definition right_offset :: "nat \<Rightarrow> nat" where "right_offset i = 2 * i + 2"
definition parent_offset :: "nat \<Rightarrow> nat" where "parent_offset i = (i - 1) div 2"

definition swap_nodes :: "nat \<Rightarrow> nat \<Rightarrow> 'a list \<Rightarrow> 'a list" where
  "swap_nodes a b xs = xs[a := xs ! b, b := xs ! a]"

lemma parent_offset_less [termination_simp]: "0 < i \<Longrightarrow> parent_offset i < i"
  by (simp add: parent_offset_def)

lemma length_swap_nodes [simp]: "length (swap_nodes a b xs) = length xs"
  by (simp add: swap_nodes_def)

fun sift_up :: "('a \<Rightarrow> 'a \<Rightarrow> int) \<Rightarrow> nat \<Rightarrow> 'a list \<Rightarrow> 'a list" where
  "sift_up compare node_off xs =
     (if node_off = 0 then xs
      else
        let parent_off = parent_offset node_off in
        if compare (xs ! node_off) (xs ! parent_off) \<le> 0 then xs
        else sift_up compare parent_off (swap_nodes node_off parent_off xs))"

text \<open>The child to swap with in \<open>sift_down\<close>; 0 when there is none.\<close>

definition swap_offset :: "('a \<Rightarrow> 'a \<Rightarrow> int) \<Rightarrow> nat \<Rightarrow> 'a list \<Rightarrow> nat" where
  "swap_offset compare node_off xs =
     (let left_off = left_offset node_off;
          right_off = right_offset node_off;
          swap_off = (if left_off < length xs \<and> compare (xs ! node_off) (xs ! left_off) < 0 then left_off else 0) in
      if right_off < length xs \<and> compare (xs ! node_off) (xs ! right_off) < 0 \<and>
         (swap_off = 0 \<or> compare (xs ! left_off) (xs ! right_off) < 0)
      then right_off else swap_off)"

lemma swap_offset_cases:
  assumes "swap_offset compare i xs \<noteq> 0"
  shows "swap_offset compare i xs = left_offset i \<or> swap_offset compare i xs = right_offset i"
    and "swap_offset compare i xs < length xs"
    and "compare (xs ! i) (xs ! swap_offset compare i xs) < 0"
  using assms by (auto simp: swap_offset_def Let_def split: if_splits)

lemma swap_offset_greater [termination_simp]:
  "0 < swap_offset compare i xs \<Longrightarrow> i < swap_offset compare i xs \<and> swap_offset compare i xs < length xs"
  using swap_offset_cases(1,2) [of compare i xs] by (auto simp: left_offset_def right_offset_def)

function sift_down :: "('a \<Rightarrow> 'a \<Rightarrow> int) \<Rightarrow> nat \<Rightarrow> 'a list \<Rightarrow> 'a list" where
  "sift_down compare node_off xs =
     (let swap_off = swap_offset compare node_off xs in
      if swap_off = 0 then xs
      else sift_down compare swap_off (swap_nodes swap_off node_off xs))"
  by pat_completeness auto

termination
proof (relation "measure (\<lambda>(compare, i, xs). length xs - i)", goal_cases)
  case (2 compare node_off xs x)
  then show ?case using swap_offset_greater [of compare node_off xs] by (simp add: diff_less_mono2)
qed simp

declare sift_up.simps [simp del] sift_down.simps [simp del]

definition BinaryheapAddUnordered :: "'a \<Rightarrow> 'a binaryheap \<Rightarrow> 'a binaryheap option" where
  "BinaryheapAddUnordered d heap =
     (if bh_size heap \<ge> bh_space heap then None
      else Some (heap\<lparr>bh_has_heap_property := False, bh_nodes := bh_nodes heap @ [d]\<rparr>))"

text \<open>The loop runs from the parent of the last node down to 0, and not at all on an empty heap.\<close>

definition BinaryheapBuild :: "'a binaryheap \<Rightarrow> 'a binaryheap" where
  "BinaryheapBuild heap =
     (let offs = (if bh_size heap = 0 then [] else rev [0..<parent_offset (bh_size heap - 1) + 1]) in
      heap\<lparr>bh_nodes := fold (sift_down (bh_compare heap)) offs (bh_nodes heap), bh_has_heap_property := True\<rparr>)"

definition BinaryheapAdd :: "'a \<Rightarrow> 'a binaryheap \<Rightarrow> 'a binaryheap option" where
  "BinaryheapAdd d heap =
     (if bh_size heap \<ge> bh_space heap then None
      else Some (heap\<lparr>bh_nodes := sift_up (bh_compare heap) (bh_size heap) (bh_nodes heap @ [d])\<rparr>))"

definition BinaryheapFirst :: "'a binaryheap \<Rightarrow> 'a option" where
  "BinaryheapFirst heap =
     (if \<not> binaryheap_empty heap \<and> bh_has_heap_property heap then Some (bh_nodes heap ! 0) else None)"

definition BinaryheapRemoveFirst :: "'a binaryheap \<Rightarrow> 'a binaryheap option" where
  "BinaryheapRemoveFirst heap =
     (if binaryheap_empty heap \<or> \<not> bh_has_heap_property heap then None
      else if bh_size heap = 1 then Some (heap\<lparr>bh_nodes := []\<rparr>)
      else Some (heap\<lparr>bh_nodes :=
        sift_down (bh_compare heap) 0 (butlast (swap_nodes 0 (bh_size heap - 1) (bh_nodes heap)))\<rparr>))"

definition BinaryheapReplaceFirst :: "'a \<Rightarrow> 'a binaryheap \<Rightarrow> 'a binaryheap option" where
  "BinaryheapReplaceFirst d heap =
     (if binaryheap_empty heap \<or> \<not> bh_has_heap_property heap then None
      else
        let xs = (bh_nodes heap)[0 := d] in
        Some (heap\<lparr>bh_nodes := if bh_size heap > 1 then sift_down (bh_compare heap) 0 xs else xs\<rparr>))"

subsection \<open>Swapping and sifting\<close>

lemma swap_nodes_nth:
  "a < length xs \<Longrightarrow> b < length xs \<Longrightarrow> i < length xs \<Longrightarrow>
   swap_nodes a b xs ! i = (if i = b then xs ! a else if i = a then xs ! b else xs ! i)"
  by (simp add: swap_nodes_def nth_list_update)

lemma mset_swap_nodes [simp]:
  "a < length xs \<Longrightarrow> b < length xs \<Longrightarrow> mset (swap_nodes a b xs) = mset xs"
  unfolding swap_nodes_def by (simp add: mset_swap)

lemma parent_offset_le: "parent_offset i \<le> i"
  by (simp add: parent_offset_def)

lemma parent_of_child [simp]: "parent_offset (left_offset i) = i" "parent_offset (right_offset i) = i"
  by (simp_all add: parent_offset_def left_offset_def right_offset_def)

lemma child_of_parent: "0 < j \<Longrightarrow> parent_offset j = i \<Longrightarrow> j = left_offset i \<or> j = right_offset i"
  by (auto simp: parent_offset_def left_offset_def right_offset_def)

lemma mset_sift_up [simp]: "i < length xs \<Longrightarrow> mset (sift_up c i xs) = mset xs"
proof (induction c i xs rule: sift_up.induct)
  case (1 c i xs)
  then show ?case
    using parent_offset_le [of i] by (subst sift_up.simps) (simp add: Let_def)
qed

lemma mset_sift_down [simp]: "i < length xs \<Longrightarrow> mset (sift_down c i xs) = mset xs"
proof (induction c i xs rule: sift_down.induct)
  case (1 c i xs)
  then show ?case
    using swap_offset_cases(2) [of c i xs] by (subst sift_down.simps) (simp add: Let_def)
qed

lemma length_sift_down: "i < length xs \<Longrightarrow> length (sift_down c i xs) = length xs"
  using mset_sift_down [of i xs c] by (metis size_mset)

subsection \<open>The contract of the comparison function\<close>

definition heap_ordered :: "('a \<Rightarrow> 'a \<Rightarrow> int) \<Rightarrow> 'a list \<Rightarrow> bool" where
  "heap_ordered compare xs \<longleftrightarrow> (\<forall>j<length xs. 0 < j \<longrightarrow> compare (xs ! j) (xs ! parent_offset j) \<le> 0)"

definition heap_inv :: "'a binaryheap \<Rightarrow> bool" where
  "heap_inv heap \<longleftrightarrow> bh_size heap \<le> bh_space heap \<and>
     (bh_has_heap_property heap \<longrightarrow> heap_ordered (bh_compare heap) (bh_nodes heap))"

locale heap_order =
  fixes compare :: "'a \<Rightarrow> 'a \<Rightarrow> int"
  assumes compare_flip: "compare a b < 0 \<longleftrightarrow> 0 < compare b a"
    and compare_trans: "compare a b \<le> 0 \<Longrightarrow> compare b c \<le> 0 \<Longrightarrow> compare a c \<le> 0"
begin

definition ordered_at :: "'a list \<Rightarrow> nat \<Rightarrow> bool" where
  "ordered_at xs j \<longleftrightarrow> compare (xs ! j) (xs ! parent_offset j) \<le> 0"

text \<open>
  \<open>sift_up\<close> works on a heap whose order is violated at one node only; \<open>sift_down\<close> on one that is
  ordered below \<open>k\<close> except at the children of one node.
\<close>

definition up_inv :: "nat \<Rightarrow> 'a list \<Rightarrow> bool" where
  "up_inv i xs \<longleftrightarrow> (\<forall>j. 0 < j \<and> j < length xs \<and> j \<noteq> i \<longrightarrow> ordered_at xs j) \<and>
     (\<forall>j. 0 < j \<and> j < length xs \<and> parent_offset j = i \<and> 0 < i \<longrightarrow>
        compare (xs ! j) (xs ! parent_offset i) \<le> 0)"

definition down_inv :: "nat \<Rightarrow> nat \<Rightarrow> 'a list \<Rightarrow> bool" where
  "down_inv k i xs \<longleftrightarrow>
     (\<forall>j. 0 < j \<and> j < length xs \<and> k \<le> parent_offset j \<and> parent_offset j \<noteq> i \<longrightarrow> ordered_at xs j) \<and>
     (\<forall>j. 0 < j \<and> j < length xs \<and> parent_offset j = i \<and> 0 < i \<and> k \<le> parent_offset i \<longrightarrow>
        compare (xs ! j) (xs ! parent_offset i) \<le> 0)"

definition heap_from :: "nat \<Rightarrow> 'a list \<Rightarrow> bool" where
  "heap_from k xs \<longleftrightarrow> (\<forall>j. 0 < j \<and> j < length xs \<and> k \<le> parent_offset j \<longrightarrow> ordered_at xs j)"

lemma compare_refl: "compare a a \<le> 0"
  using compare_flip [of a a] by linarith

lemma compare_linear: "\<not> compare a b \<le> 0 \<Longrightarrow> compare b a \<le> 0"
  using compare_flip [of b a] by linarith

lemma up_inv_step:
  assumes inv: "up_inv i xs" and i: "0 < i" "i < length xs"
    and gt: "\<not> compare (xs ! i) (xs ! parent_offset i) \<le> 0"
  shows "up_inv (parent_offset i) (swap_nodes i (parent_offset i) xs)"
proof -
  let ?p = "parent_offset i" and ?ys = "swap_nodes i (parent_offset i) xs"
  have p: "?p < i" "?p < length xs" using parent_offset_less [OF i(1)] i(2) by simp_all
  have nth: "j < length xs \<Longrightarrow> ?ys ! j = (if j = ?p then xs ! i else if j = i then xs ! ?p else xs ! j)" for j
    using i p by (simp add: swap_nodes_nth)
  note pi = compare_linear [OF gt]
  have le: "parent_offset j < length xs" if "j < length xs" for j
    using that parent_offset_le [of j] by simp
  have ord: "ordered_at xs j" if "0 < j" "j < length xs" "j \<noteq> i" for j
    using inv that by (simp add: up_inv_def)
  have grand: "compare (xs ! j) (xs ! ?p) \<le> 0" if "0 < j" "j < length xs" "parent_offset j = i" for j
    using inv that i by (simp add: up_inv_def)
  have "ordered_at ?ys j" if j: "0 < j" "j < length xs" "j \<noteq> ?p" for j
  proof -
    consider "j = i" | "j \<noteq> i" "parent_offset j = i" | "j \<noteq> i" "parent_offset j = ?p"
      | "j \<noteq> i" "parent_offset j \<noteq> i" "parent_offset j \<noteq> ?p" by blast
    then show ?thesis
    proof cases
      case 1
      then show ?thesis using pi nth i p by (simp add: ordered_at_def)
    next
      case 2
      then show ?thesis using grand [OF j(1,2)] nth j le [OF j(2)] p by (simp add: ordered_at_def)
    next
      case 3
      then have "compare (xs ! j) (xs ! ?p) \<le> 0" using ord [OF j(1,2)] by (simp add: ordered_at_def)
      then show ?thesis using compare_trans [OF _ pi] 3 nth j p by (simp add: ordered_at_def)
    next
      case 4
      then show ?thesis using ord [OF j(1,2)] nth j le [OF j(2)] by (simp add: ordered_at_def)
    qed
  qed
  moreover have "compare (?ys ! j) (?ys ! parent_offset ?p) \<le> 0"
    if j: "0 < j" "j < length xs" "parent_offset j = ?p" "0 < ?p" for j
  proof -
    have pp: "parent_offset ?p < ?p" "parent_offset ?p < length xs"
      using parent_offset_less [OF j(4)] p by simp_all
    have up: "compare (xs ! ?p) (xs ! parent_offset ?p) \<le> 0"
      using ord [OF j(4) p(2)] p by (simp add: ordered_at_def)
    have "j \<noteq> ?p" using j parent_offset_less [of j] by auto
    have "compare (xs ! j) (xs ! ?p) \<le> 0" if "j \<noteq> i" using ord [OF j(1,2) that] j by (simp add: ordered_at_def)
    then show ?thesis using up nth [OF j(2)] nth [OF pp(2)] pp p \<open>j \<noteq> ?p\<close> compare_trans [OF _ up]
      by (cases "j = i") simp_all
  qed
  ultimately show ?thesis by (simp add: up_inv_def)
qed

lemma heap_ordered_sift_up: "up_inv i xs \<Longrightarrow> i < length xs \<Longrightarrow> heap_ordered compare (sift_up compare i xs)"
proof (induction i arbitrary: xs rule: less_induct)
  case (less i)
  show ?case
  proof (cases "i = 0 \<or> compare (xs ! i) (xs ! parent_offset i) \<le> 0")
    case True
    then have "heap_ordered compare xs" using less.prems by (auto simp: up_inv_def heap_ordered_def ordered_at_def)
    then show ?thesis using True by (subst sift_up.simps) (auto simp: Let_def)
  next
    case False
    then have "up_inv (parent_offset i) (swap_nodes i (parent_offset i) xs)"
      using less.prems by (intro up_inv_step) auto
    then show ?thesis
      using less.IH [of "parent_offset i"] less.prems False parent_offset_less [of i]
      by (subst sift_up.simps) (auto simp: Let_def)
  qed
qed

text \<open>The child that \<open>sift_down\<close> picks is not smaller than its sibling.\<close>

lemma compare_not_less: "\<not> compare a b < 0 \<Longrightarrow> compare b a \<le> 0"
  using compare_flip [of a b] by linarith

lemma swap_offset_max:
  assumes s: "swap_offset compare i xs \<noteq> 0" and j: "0 < j" "j < length xs" "parent_offset j = i"
  shows "compare (xs ! j) (xs ! swap_offset compare i xs) \<le> 0"
proof -
  let ?s = "swap_offset compare i xs" and ?l = "left_offset i" and ?r = "right_offset i"
  have isw: "compare (xs ! i) (xs ! ?s) \<le> 0" using swap_offset_cases(3) [OF s] by simp
  consider "j = ?s" | "j = ?l" "?s = ?r" | "j = ?r" "?s = ?l"
    using child_of_parent [OF j(1,3)] swap_offset_cases(1) [OF s] by auto
  then show ?thesis
  proof cases
    case 1
    then show ?thesis by (simp add: compare_refl)
  next
    case 2
    have "compare (xs ! ?l) (xs ! ?r) < 0 \<or> \<not> compare (xs ! i) (xs ! ?l) < 0"
      using 2 j(2) by (auto simp: swap_offset_def Let_def left_offset_def right_offset_def split: if_splits)
    then show ?thesis using 2 compare_not_less compare_trans [OF _ isw] by auto
  next
    case 3
    have "\<not> compare (xs ! ?l) (xs ! ?r) < 0 \<or> \<not> compare (xs ! i) (xs ! ?r) < 0"
      using 3 j(2) by (auto simp: swap_offset_def Let_def left_offset_def right_offset_def split: if_splits)
    then show ?thesis using 3 compare_not_less compare_trans [OF _ isw] by auto
  qed
qed

lemma swap_offset_none:
  assumes "swap_offset compare i xs = 0" "0 < j" "j < length xs" "parent_offset j = i"
  shows "ordered_at xs j"
  using assms child_of_parent [OF assms(2,4)] compare_flip [of "xs ! i" "xs ! j"]
  by (auto simp: swap_offset_def ordered_at_def Let_def left_offset_def right_offset_def split: if_splits)

lemma down_inv_step:
  assumes inv: "down_inv k i xs" and s: "swap_offset compare i xs = s" "s \<noteq> 0" and i: "k \<le> i"
  shows "down_inv k s (swap_nodes s i xs)"
proof -
  let ?ys = "swap_nodes s i xs"
  have sl: "i < s" "s < length xs" "parent_offset s = i"
    using swap_offset_greater [of compare i xs] swap_offset_cases(1) [of compare i xs] s by auto
  have nth: "j < length xs \<Longrightarrow> ?ys ! j = (if j = i then xs ! s else if j = s then xs ! i else xs ! j)" for j
    using sl by (simp add: swap_nodes_nth)
  have si: "compare (xs ! i) (xs ! s) \<le> 0" using swap_offset_cases(3) [of compare i xs] s by simp
  have le: "parent_offset j < length xs" if "j < length xs" for j
    using that parent_offset_le [of j] by simp
  have ord: "ordered_at xs j" if "0 < j" "j < length xs" "k \<le> parent_offset j" "parent_offset j \<noteq> i" for j
    using inv that by (simp add: down_inv_def)
  have "ordered_at ?ys j" if j: "0 < j" "j < length xs" "k \<le> parent_offset j" "parent_offset j \<noteq> s" for j
  proof -
    have jp: "parent_offset j < j" using j by (simp add: parent_offset_less)
    consider "j = s" | "j \<noteq> s" "parent_offset j = i" | "j = i" "parent_offset j \<noteq> i"
      | "j \<noteq> s" "j \<noteq> i" "parent_offset j \<noteq> i" by blast
    then show ?thesis
    proof cases
      case 1
      then show ?thesis using si nth sl by (simp add: ordered_at_def)
    next
      case 2
      then show ?thesis using swap_offset_max [of i xs j] s nth j sl jp by (simp add: ordered_at_def)
    next
      case 3
      then have "compare (xs ! s) (xs ! parent_offset i) \<le> 0"
        using inv sl j by (simp add: down_inv_def)
      then show ?thesis using 3 nth le [OF j(2)] j sl jp by (simp add: ordered_at_def)
    next
      case 4
      then show ?thesis using ord [OF j(1,2,3)] nth j le [OF j(2)] by (simp add: ordered_at_def)
    qed
  qed
  moreover have "compare (?ys ! j) (?ys ! parent_offset s) \<le> 0"
    if j: "0 < j" "j < length xs" "parent_offset j = s" for j
  proof -
    have "s < j" using parent_offset_less [OF j(1)] j(3) by simp
    moreover have "compare (xs ! j) (xs ! s) \<le> 0"
      using ord [OF j(1,2)] j sl i by (simp add: ordered_at_def)
    ultimately show ?thesis using nth j sl by simp
  qed
  ultimately show ?thesis by (simp add: down_inv_def)
qed

lemma heap_from_sift_down: "down_inv k i xs \<Longrightarrow> k \<le> i \<Longrightarrow> heap_from k (sift_down compare i xs)"
proof (induction "length xs - i" arbitrary: i xs rule: less_induct)
  case less
  show ?case
  proof (cases "swap_offset compare i xs = 0")
    case True
    then have "heap_from k xs"
      using less.prems swap_offset_none [OF True] by (auto simp: down_inv_def heap_from_def)
    then show ?thesis using True by (subst sift_down.simps) (simp add: Let_def)
  next
    case False
    let ?s = "swap_offset compare i xs"
    have s: "i < ?s" "?s < length xs" using swap_offset_greater [of compare i xs] False by auto
    have "heap_from k (sift_down compare ?s (swap_nodes ?s i xs))"
      using less.hyps [of "swap_nodes ?s i xs" ?s] down_inv_step [OF less.prems(1) refl False less.prems(2)] s
        less.prems(2) by simp
    then show ?thesis using False by (subst sift_down.simps) (simp add: Let_def)
  qed
qed

lemma heap_from_0: "heap_from 0 xs \<longleftrightarrow> heap_ordered compare xs"
  by (auto simp: heap_from_def heap_ordered_def ordered_at_def)

lemma down_inv_from: "heap_from (Suc k) xs \<Longrightarrow> down_inv k k xs"
  using parent_offset_less [of k] by (auto simp: heap_from_def down_inv_def Suc_le_eq)

lemma heap_ordered_sift_down_root:
  assumes "\<And>j. 0 < j \<Longrightarrow> j < length xs \<Longrightarrow> 0 < parent_offset j \<Longrightarrow> compare (xs ! j) (xs ! parent_offset j) \<le> 0"
  shows "heap_ordered compare (sift_down compare 0 xs)"
  using heap_from_sift_down [OF down_inv_from [of 0 xs]] assms
  by (simp add: heap_from_0) (simp add: heap_from_def ordered_at_def Suc_le_eq)

lemma heap_from_build:
  "heap_from n xs \<Longrightarrow> n \<le> length xs \<Longrightarrow> heap_from 0 (fold (sift_down compare) (rev [0..<n]) xs)"
proof (induction n arbitrary: xs)
  case (Suc n)
  have "heap_from n (sift_down compare n xs)"
    by (rule heap_from_sift_down [OF down_inv_from [OF Suc.prems(1)] order_refl])
  then show ?case using Suc length_sift_down [of n xs compare] by simp
qed simp

lemma heap_first_max:
  assumes "heap_ordered compare xs" "i < length xs"
  shows "compare (xs ! i) (xs ! 0) \<le> 0"
  using assms(2)
proof (induction i rule: less_induct)
  case (less i)
  show ?case
  proof (cases "i = 0")
    case True
    then show ?thesis by (simp add: compare_refl)
  next
    case False
    then have "compare (xs ! i) (xs ! parent_offset i) \<le> 0" using assms(1) less.prems by (simp add: heap_ordered_def)
    then show ?thesis
      using less.IH [of "parent_offset i"] less.prems False parent_offset_less [of i] compare_trans by auto
  qed
qed

end

lemma mset_build [simp]:
  "n \<le> length xs \<Longrightarrow> mset (fold (sift_down c) (rev [0..<n]) xs) = mset xs"
proof (induction n arbitrary: xs)
  case (Suc n)
  then show ?case using length_sift_down [of n xs c] by simp
qed simp

lemma BinaryheapBuild_ok:
  assumes "heap_order (bh_compare heap)"
  shows "heap_ordered (bh_compare heap) (bh_nodes (BinaryheapBuild heap)) \<and>
    bh_has_heap_property (BinaryheapBuild heap) \<and>
    mset (bh_nodes (BinaryheapBuild heap)) = mset (bh_nodes heap)"
proof (cases "bh_nodes heap = []")
  case True
  then show ?thesis by (simp add: BinaryheapBuild_def heap_ordered_def)
next
  case False
  let ?n = "parent_offset (bh_size heap - 1) + 1"
  have n: "?n \<le> bh_size heap" using False parent_offset_le [of "bh_size heap - 1"] by (cases "bh_size heap") auto
  have "heap_order.heap_from (bh_compare heap) ?n (bh_nodes heap)"
    unfolding heap_order.heap_from_def [OF assms] by (auto simp: parent_offset_def)
  from heap_order.heap_from_build [OF assms this n] mset_build [OF n, of "bh_compare heap"] show ?thesis
    using False by (simp add: BinaryheapBuild_def heap_order.heap_from_0 [OF assms] Let_def)
qed

lemma BinaryheapAdd_ok:
  assumes "heap_order (bh_compare heap)" "heap_inv heap" "bh_has_heap_property heap" "bh_size heap < bh_space heap"
  shows "\<exists>heap'. BinaryheapAdd d heap = Some heap' \<and> heap_inv heap' \<and>
    mset (bh_nodes heap') = add_mset d (mset (bh_nodes heap)) \<and>
    heap' = heap\<lparr>bh_nodes := bh_nodes heap'\<rparr>"
proof -
  let ?xs = "bh_nodes heap @ [d]" and ?n = "bh_size heap"
  have p: "parent_offset j < ?n" if "0 < j" "j < Suc ?n" for j
    using parent_offset_less [OF that(1)] that(2) by simp
  have ord: "heap_ordered (bh_compare heap) (bh_nodes heap)" using assms(2,3) by (simp add: heap_inv_def)
  have "heap_order.up_inv (bh_compare heap) ?n ?xs"
    unfolding heap_order.up_inv_def [OF assms(1)] heap_order.ordered_at_def [OF assms(1)]
  proof (intro conjI allI impI, goal_cases)
    case (1 j)
    then show ?case using ord p [of j] by (simp add: heap_ordered_def nth_append)
  next
    case (2 j)
    then show ?case using p [of j] by simp
  qed
  from heap_order.heap_ordered_sift_up [OF assms(1) this]
  have "heap_ordered (bh_compare heap) (sift_up (bh_compare heap) ?n ?xs)" by simp
  moreover have "mset (sift_up (bh_compare heap) ?n ?xs) = add_mset d (mset (bh_nodes heap))" by simp
  moreover from this have "length (sift_up (bh_compare heap) ?n ?xs) = Suc ?n" by (metis size_mset size_add_mset)
  ultimately show ?thesis using assms(4) by (simp add: BinaryheapAdd_def heap_inv_def)
qed

lemma list_first_last: "1 < length xs \<Longrightarrow> \<exists>x mid l. xs = x # mid @ [l]"
  by (cases xs; cases "tl xs" rule: rev_cases) auto

lemma butlast_swap_first_last [simp]:
  "butlast (swap_nodes 0 (Suc (length mid)) (x # mid @ [l])) = l # mid"
  by (simp add: swap_nodes_def nth_append butlast_append list_update_append)

lemma heap_ordered_replace_root:
  assumes "heap_order compare" "heap_ordered compare (x # mid @ zs)"
  shows "heap_ordered compare (sift_down compare 0 (y # mid))"
proof (rule heap_order.heap_ordered_sift_down_root [OF assms(1)])
  fix j assume j: "0 < j" "j < length (y # mid)" "0 < parent_offset j"
  have "compare ((x # mid @ zs) ! j) ((x # mid @ zs) ! parent_offset j) \<le> 0"
    by (rule assms(2) [unfolded heap_ordered_def, rule_format]) (use j in simp_all)
  moreover have "j - Suc 0 < length mid" "parent_offset j - Suc 0 < length mid"
    using j parent_offset_less [OF j(1)] by auto
  ultimately show "compare ((y # mid) ! j) ((y # mid) ! parent_offset j) \<le> 0"
    using j by (simp add: nth_Cons' nth_append)
qed

lemma BinaryheapRemoveFirst_ok:
  assumes "heap_order (bh_compare heap)" "heap_inv heap" "bh_has_heap_property heap" "\<not> binaryheap_empty heap"
  shows "\<exists>d heap'. BinaryheapFirst heap = Some d \<and> (\<forall>x\<in>set (bh_nodes heap). bh_compare heap x d \<le> 0) \<and>
    BinaryheapRemoveFirst heap = Some heap' \<and> heap_inv heap' \<and>
    add_mset d (mset (bh_nodes heap')) = mset (bh_nodes heap) \<and> heap' = heap\<lparr>bh_nodes := bh_nodes heap'\<rparr>"
proof -
  let ?xs = "bh_nodes heap"
  have ne: "?xs \<noteq> []" and ord: "heap_ordered (bh_compare heap) ?xs" and sp: "length ?xs \<le> bh_space heap"
    using assms by (simp_all add: binaryheap_empty_def heap_inv_def)
  have first: "BinaryheapFirst heap = Some (?xs ! 0)" using assms by (simp add: BinaryheapFirst_def)
  have mx: "\<forall>x\<in>set ?xs. bh_compare heap x (?xs ! 0) \<le> 0"
    using heap_order.heap_first_max [OF assms(1) ord] by (auto simp: in_set_conv_nth)
  have "\<exists>ys. BinaryheapRemoveFirst heap = Some (heap\<lparr>bh_nodes := ys\<rparr>) \<and>
    heap_ordered (bh_compare heap) ys \<and> add_mset (?xs ! 0) (mset ys) = mset ?xs"
  proof (cases "length ?xs = 1")
    case True
    then obtain x where "?xs = [x]" by (auto simp: length_Suc_conv)
    then show ?thesis using assms by (simp add: BinaryheapRemoveFirst_def heap_ordered_def)
  next
    case False
    with ne have "1 < length ?xs" by (cases ?xs) auto
    then obtain x mid l where xs: "?xs = x # mid @ [l]" using list_first_last by blast
    have "BinaryheapRemoveFirst heap = Some (heap\<lparr>bh_nodes := sift_down (bh_compare heap) 0 (l # mid)\<rparr>)"
      using assms(3,4) by (simp add: BinaryheapRemoveFirst_def xs)
    moreover have "heap_ordered (bh_compare heap) (sift_down (bh_compare heap) 0 (l # mid))"
      using heap_ordered_replace_root [OF assms(1)] ord unfolding xs by blast
    ultimately show ?thesis by (auto simp: xs)
  qed
  then obtain ys where ys: "BinaryheapRemoveFirst heap = Some (heap\<lparr>bh_nodes := ys\<rparr>)"
    "heap_ordered (bh_compare heap) ys" "add_mset (?xs ! 0) (mset ys) = mset ?xs" by blast
  have "Suc (length ys) = length ?xs" using arg_cong [OF ys(3), of size] by simp
  with ys sp first mx show ?thesis by (auto simp: heap_inv_def)
qed

lemma BinaryheapReplaceFirst_ok:
  assumes "heap_order (bh_compare heap)" "heap_inv heap" "bh_has_heap_property heap"
    "bh_nodes heap = x # xs"
  shows "\<exists>heap'. BinaryheapReplaceFirst d heap = Some heap' \<and> heap_inv heap' \<and>
    mset (bh_nodes heap') = add_mset d (mset xs) \<and> heap' = heap\<lparr>bh_nodes := bh_nodes heap'\<rparr>"
proof -
  have "heap_ordered (bh_compare heap) (sift_down (bh_compare heap) 0 (d # xs))"
    using heap_ordered_replace_root [OF assms(1), of x xs "[]" d] assms(2,3,4) by (simp add: heap_inv_def)
  moreover have "length (sift_down (bh_compare heap) 0 (d # xs)) = Suc (length xs)"
    using length_sift_down [of 0 "d # xs"] by simp
  moreover have "heap_ordered (bh_compare heap) [d]" by (simp add: heap_ordered_def)
  ultimately show ?thesis
    using assms(2,3,4) by (cases xs) (simp_all add: BinaryheapReplaceFirst_def binaryheap_empty_def heap_inv_def Let_def)
qed

text \<open>Taking the first node again and again.\<close>

fun drain :: "nat \<Rightarrow> 'a binaryheap \<Rightarrow> 'a list option" where
  "drain 0 heap = Some []"
| "drain (Suc n) heap =
     (case (BinaryheapFirst heap, BinaryheapRemoveFirst heap) of
        (Some d, Some heap') \<Rightarrow> map_option ((#) d) (drain n heap')
      | _ \<Rightarrow> None)"

lemma drain_ok:
  assumes "heap_order (bh_compare heap)" "heap_inv heap" "bh_has_heap_property heap" "n = bh_size heap"
  shows "\<exists>ys. drain n heap = Some ys \<and> sorted_wrt (\<lambda>a b. bh_compare heap b a \<le> 0) ys \<and> mset ys = mset (bh_nodes heap)"
  using assms
proof (induction n arbitrary: heap)
  case (Suc n)
  then have "\<not> binaryheap_empty heap" by (auto simp: binaryheap_empty_def)
  from BinaryheapRemoveFirst_ok [OF Suc.prems(1,2,3) this] obtain d heap' where h:
    "BinaryheapFirst heap = Some d" "\<forall>x\<in>set (bh_nodes heap). bh_compare heap x d \<le> 0"
    "BinaryheapRemoveFirst heap = Some heap'" "heap_inv heap'"
    "add_mset d (mset (bh_nodes heap')) = mset (bh_nodes heap)" "heap' = heap\<lparr>bh_nodes := bh_nodes heap'\<rparr>" by blast
  have c: "bh_compare heap' = bh_compare heap" "bh_has_heap_property heap'"
    using Suc.prems(3) by (subst h(6), simp)+
  have "n = bh_size heap'" using arg_cong [OF h(5), of size] Suc.prems(4) by simp
  with Suc.IH [of heap'] Suc.prems(1) h(4) c obtain ys where ys:
    "drain n heap' = Some ys" "sorted_wrt (\<lambda>a b. bh_compare heap b a \<le> 0) ys" "mset ys = mset (bh_nodes heap')" by auto
  have "set ys \<subseteq> set (bh_nodes heap)"
    using arg_cong [OF h(5), of set_mset] ys(3) by (metis mset_eq_setD set_mset_mset set_mset_add_mset_insert subset_insertI)
  then have "\<forall>y\<in>set ys. bh_compare heap y d \<le> 0" using h(2) by blast
  then show ?case using h ys by auto
qed simp

text \<open>
  C25. Building a heap from any nodes and taking the first node until the heap is empty yields the nodes
  from the greatest to the smallest, for every comparison function that satisfies its contract. In
  particular \<open>BinaryheapBuild\<close> and every \<open>BinaryheapRemoveFirst\<close> establish the heap property.
\<close>

theorem heap_sorts:
  assumes "heap_order (bh_compare heap)" "bh_size heap \<le> bh_space heap"
  shows "\<exists>ys. drain (bh_size heap) (BinaryheapBuild heap) = Some ys \<and>
    sorted_wrt (\<lambda>a b. bh_compare heap b a \<le> 0) ys \<and> mset ys = mset (bh_nodes heap)"
proof -
  let ?b = "BinaryheapBuild heap"
  from BinaryheapBuild_ok [OF assms(1)] have ord: "heap_ordered (bh_compare heap) (bh_nodes ?b)"
    and hp: "bh_has_heap_property ?b" and ms: "mset (bh_nodes ?b) = mset (bh_nodes heap)" by blast+
  have sel: "bh_compare ?b = bh_compare heap" "bh_space ?b = bh_space heap"
    by (simp_all add: BinaryheapBuild_def Let_def)
  have sz: "bh_size heap = bh_size ?b" using arg_cong [OF ms, of size] by simp
  have "heap_inv ?b" using ord assms(2) by (simp add: heap_inv_def sel sz [symmetric])
  from drain_ok [of ?b, OF _ this hp sz] show ?thesis using assms(1) by (simp only: sel ms)
qed

definition sample_heap :: "int binaryheap" where
  "sample_heap = \<lparr>bh_space = 8, bh_has_heap_property = False, bh_compare = (\<lambda>a b. a - b), bh_nodes = [3, 9, 4, 7, 1]\<rparr>"

lemma sample_heap_sel:
  "bh_compare sample_heap = (\<lambda>a b. a - b)" "bh_nodes sample_heap = [3, 9, 4, 7, 1]" "bh_space sample_heap = 8"
  by (simp_all add: sample_heap_def)

lemma heap_order_minus: "heap_order (\<lambda>a b :: int. a - b)"
  by unfold_locales auto

theorem heap_sorts_witness:
  "\<exists>ys. drain (bh_size sample_heap) (BinaryheapBuild sample_heap) = Some ys \<and>
    sorted_wrt (\<lambda>a b. b - a \<le> 0) ys \<and> mset ys = mset [3, 9, 4, 7, 1 :: int]"
  using heap_sorts [of sample_heap, unfolded sample_heap_sel, OF heap_order_minus] unfolding sample_heap_sel by simp

text \<open>
  \<open>BinaryheapAdd\<close> adds the node and keeps the heap property while there is room, and fails its
  assertion exactly when the heap is full.
\<close>

lemma BinaryheapAdd_keeps_heap:
  assumes "heap_order (bh_compare heap)" "heap_inv heap" "bh_has_heap_property heap"
  shows "if bh_size heap < bh_space heap
    then \<exists>heap'. BinaryheapAdd d heap = Some heap' \<and> heap_inv heap' \<and> bh_has_heap_property heap' \<and>
      mset (bh_nodes heap') = add_mset d (mset (bh_nodes heap))
    else BinaryheapAdd d heap = None"
proof (cases "bh_size heap < bh_space heap")
  case True
  from BinaryheapAdd_ok [OF assms True, of d] obtain heap' where
    "BinaryheapAdd d heap = Some heap'" "heap_inv heap'" "mset (bh_nodes heap') = add_mset d (mset (bh_nodes heap))" by blast
  moreover from this(1) have "bh_has_heap_property heap'"
    using assms(3) by (auto simp: BinaryheapAdd_def split: if_splits)
  ultimately show ?thesis using True by auto
next
  case False
  then show ?thesis by (simp add: BinaryheapAdd_def)
qed

end
