(* ===== verification/Tac_Tracker.thy ===== *)
theory Tac_Tracker
  imports Binary_Heap Csn_Mgr
begin

text \<open>
  The tracker of orphan transactions (\<open>src/transaction/dstore_tac_snapshot.cpp\<close>). When the session
  of a transaction is lost, the commit sequence number of its snapshot is kept for a grace period,
  so that the data it sees is not recycled. The tracker is a binary heap with the smallest number
  first.

  The lock \<open>m_heapLock\<close> is modelled by whether it is held: a call that has to wait for a lock
  nobody will release does not return, which is \<open>None\<close>, as is a call that stops the process. Time
  is in seconds; \<open>clock k\<close> is the \<open>k\<close>-th reading of the clock during a call and \<open>free k\<close> says
  whether the conditional acquisition of the lock succeeds. The entries are values: the only entry
  that is changed in place is the first one, which is replaced right after. Times are integers: seconds since
  an epoch and a grace period fit in the 64 bits of the source.
\<close>

subsection \<open>The code\<close>

record TacOrphanTrxEntry =
  entry_csn :: CommitSeqNo
  expiryTimestamp :: int

definition HEAP_INITIAL_CAPACITY :: nat where "HEAP_INITIAL_CAPACITY = 8"

definition TacOrphanTrxEntryComparator :: "TacOrphanTrxEntry \<Rightarrow> TacOrphanTrxEntry \<Rightarrow> int" where
  "TacOrphanTrxEntryComparator entryA entryB =
     (if entry_csn entryA < entry_csn entryB then 1
      else if entry_csn entryA = entry_csn entryB then
        (if expiryTimestamp entryA < expiryTimestamp entryB then 1
         else if expiryTimestamp entryA = expiryTimestamp entryB then 0 else -1)
      else -1)"

record TacOrphanTrxTracker =
  m_csnHeap :: "TacOrphanTrxEntry binaryheap option"
  m_heapLock :: bool

definition Init :: "bool \<Rightarrow> TacOrphanTrxTracker" where
  "Init alloc_ok =
     \<lparr>m_csnHeap = BinaryheapAllocate alloc_ok HEAP_INITIAL_CAPACITY TacOrphanTrxEntryComparator,
      m_heapLock = False\<rparr>"

text \<open>The entry is not needed when the first one has an earlier number and expires later.\<close>

definition top_covers :: "TacOrphanTrxEntry binaryheap \<Rightarrow> CommitSeqNo \<Rightarrow> int \<Rightarrow> bool" where
  "top_covers heap csn expireTime =
     (if binaryheap_empty heap then False
      else case BinaryheapFirst heap of
        None \<Rightarrow> False
      | Some topEntry \<Rightarrow> entry_csn topEntry \<le> csn \<and> expiryTimestamp topEntry \<ge> expireTime)"

text \<open>A full heap is copied to one of twice the capacity; the copy fails when memory runs out.\<close>

definition grow_heap :: "bool \<Rightarrow> 'a binaryheap \<Rightarrow> 'a binaryheap option" where
  "grow_heap grow_ok heap =
     (if bh_size heap = bh_space heap
      then if grow_ok then Some (heap\<lparr>bh_space := bh_space heap * 2\<rparr>) else None
      else Some heap)"

definition AddTacOrphanTrx ::
    "int \<Rightarrow> int \<Rightarrow> bool \<Rightarrow> bool \<Rightarrow> CommitSeqNo \<Rightarrow> TacOrphanTrxTracker \<Rightarrow> TacOrphanTrxTracker option" where
  "AddTacOrphanTrx tacGracePeriod now grow_ok entry_ok csn t =
     (if tacGracePeriod = 0 \<or> csn = INVALID_CSN then Some t
      else if m_heapLock t then None
      else case m_csnHeap t of
        None \<Rightarrow> None
      | Some heap \<Rightarrow>
          let expireTime = now + tacGracePeriod in
          if top_covers heap csn expireTime then Some t
          else case grow_heap grow_ok heap of
            None \<Rightarrow> None
          | Some heap1 \<Rightarrow>
              if \<not> entry_ok then Some (t\<lparr>m_csnHeap := Some heap1, m_heapLock := True\<rparr>)
              else case BinaryheapAdd \<lparr>entry_csn = csn, expiryTimestamp = expireTime\<rparr> heap1 of
                None \<Rightarrow> None
              | Some heap2 \<Rightarrow> Some (t\<lparr>m_csnHeap := Some heap2\<rparr>))"

lemma BinaryheapRemoveFirst_size:
  assumes "BinaryheapRemoveFirst heap = Some heap'"
  shows "bh_size heap' < bh_size heap"
proof -
  let ?xs = "butlast (swap_nodes 0 (bh_size heap - 1) (bh_nodes heap))"
  have ne: "bh_nodes heap \<noteq> []" using assms by (auto simp: BinaryheapRemoveFirst_def binaryheap_empty_def split: if_splits)
  show ?thesis
  proof (cases "bh_size heap = 1")
    case True
    then show ?thesis using assms by (auto simp: BinaryheapRemoveFirst_def split: if_splits)
  next
    case False
    with ne have "0 < length ?xs" by (cases "bh_nodes heap") auto
    then have "length (sift_down (bh_compare heap) 0 ?xs) < bh_size heap"
      using ne by (simp add: length_sift_down)
    then show ?thesis using assms False by (auto simp: BinaryheapRemoveFirst_def split: if_splits)
  qed
qed

function remove_expired :: "int \<Rightarrow> TacOrphanTrxEntry binaryheap \<Rightarrow> TacOrphanTrxEntry binaryheap" where
  "remove_expired currentTime heap =
     (if binaryheap_empty heap then heap
      else case BinaryheapFirst heap of
        None \<Rightarrow> heap
      | Some entry \<Rightarrow>
          if expiryTimestamp entry < currentTime
          then case BinaryheapRemoveFirst heap of
              None \<Rightarrow> heap
            | Some heap' \<Rightarrow> remove_expired currentTime heap'
          else heap)"
  by pat_completeness auto

termination
  by (relation "measure (\<lambda>(currentTime, heap). bh_size heap)") (simp_all add: BinaryheapRemoveFirst_size)

declare remove_expired.simps [simp del]

definition TryRemoveExpiredEntry ::
    "int \<Rightarrow> bool \<Rightarrow> TacOrphanTrxTracker \<Rightarrow> bool \<times> TacOrphanTrxTracker" where
  "TryRemoveExpiredEntry currentTime free t =
     (if \<not> free then (False, t)
      else (True, t\<lparr>m_csnHeap := map_option (remove_expired currentTime) (m_csnHeap t)\<rparr>))"

partial_function (option) GetSmallestOrphanCsn ::
    "int \<Rightarrow> (nat \<Rightarrow> int) \<Rightarrow> (nat \<Rightarrow> bool) \<Rightarrow> nat \<Rightarrow> TacOrphanTrxTracker \<Rightarrow> (CommitSeqNo \<times> TacOrphanTrxTracker) option" where
  "GetSmallestOrphanCsn tacGracePeriod clock free k t =
     (if tacGracePeriod = 0 \<or> m_csnHeap t = None then Some (INVALID_CSN, t)
      else if m_heapLock t then None
      else if binaryheap_empty (the (m_csnHeap t)) then Some (INVALID_CSN, t)
      else case BinaryheapFirst (the (m_csnHeap t)) of
        None \<Rightarrow> None
      | Some entry \<Rightarrow>
          if expiryTimestamp entry < clock k
          then case TryRemoveExpiredEntry (clock (k + 1)) (free k) t of
              (removed, t') \<Rightarrow>
                if \<not> removed then Some (entry_csn entry, t')
                else GetSmallestOrphanCsn tacGracePeriod clock free (k + 2) t'
          else Some (entry_csn entry, t))"

declare GetSmallestOrphanCsn.simps [code]

definition RefreshOrphanTrxExpiryTime :: "int \<Rightarrow> int \<Rightarrow> TacOrphanTrxTracker \<Rightarrow> TacOrphanTrxTracker option" where
  "RefreshOrphanTrxExpiryTime tacGracePeriod now t =
     (if tacGracePeriod = 0 then Some t
      else if m_heapLock t then None
      else case m_csnHeap t of
        None \<Rightarrow> None
      | Some heap \<Rightarrow>
          if binaryheap_empty heap then Some t
          else case BinaryheapFirst heap of
            None \<Rightarrow> None
          | Some oldEntry \<Rightarrow>
              case BinaryheapReplaceFirst (oldEntry\<lparr>expiryTimestamp := now + tacGracePeriod\<rparr>) heap of
                None \<Rightarrow> None
              | Some heap' \<Rightarrow> Some (t\<lparr>m_csnHeap := Some heap'\<rparr>))"

subsection \<open>The comparison function satisfies the contract of the heap\<close>

interpretation tac: heap_order TacOrphanTrxEntryComparator
  by unfold_locales (auto simp: TacOrphanTrxEntryComparator_def split: if_splits)

subsection \<open>The invariant\<close>

definition tac_heap_ok :: "TacOrphanTrxEntry binaryheap \<Rightarrow> bool" where
  "tac_heap_ok heap \<longleftrightarrow> heap_inv heap \<and> bh_has_heap_property heap \<and>
     bh_compare heap = TacOrphanTrxEntryComparator \<and> 0 < bh_space heap \<and>
     (\<forall>e\<in>set (bh_nodes heap). entry_csn e \<noteq> INVALID_CSN)"

definition tac_ok :: "TacOrphanTrxTracker \<Rightarrow> bool" where
  "tac_ok t \<longleftrightarrow> \<not> m_heapLock t \<and> (case m_csnHeap t of None \<Rightarrow> False | Some heap \<Rightarrow> tac_heap_ok heap)"

definition tac_entries :: "TacOrphanTrxTracker \<Rightarrow> TacOrphanTrxEntry set" where
  "tac_entries t = (case m_csnHeap t of None \<Rightarrow> {} | Some heap \<Rightarrow> set (bh_nodes heap))"

lemma tac_okE:
  assumes "tac_ok t"
  obtains heap where "m_csnHeap t = Some heap" "tac_heap_ok heap" "\<not> m_heapLock t" "tac_entries t = set (bh_nodes heap)"
  using assms by (auto simp: tac_ok_def tac_entries_def split: option.splits)

lemma Comparator_csn: "TacOrphanTrxEntryComparator x e \<le> 0 \<Longrightarrow> entry_csn e \<le> entry_csn x"
  by (auto simp: TacOrphanTrxEntryComparator_def split: if_splits)

lemma tac_first:
  assumes "tac_heap_ok heap" "\<not> binaryheap_empty heap"
  obtains e heap' where "BinaryheapFirst heap = Some e" "e \<in> set (bh_nodes heap)"
    "\<And>x. x \<in> set (bh_nodes heap) \<Longrightarrow> entry_csn e \<le> entry_csn x"
    "BinaryheapRemoveFirst heap = Some heap'" "tac_heap_ok heap'"
    "set (bh_nodes heap) = insert e (set (bh_nodes heap'))"
proof -
  have o: "heap_order (bh_compare heap)" using assms(1) tac.heap_order_axioms by (simp add: tac_heap_ok_def)
  from BinaryheapRemoveFirst_ok [OF o _ _ assms(2)] assms(1) obtain e heap' where
    f: "BinaryheapFirst heap = Some e" "\<forall>x\<in>set (bh_nodes heap). bh_compare heap x e \<le> 0"
    and r: "BinaryheapRemoveFirst heap = Some heap'" "heap_inv heap'"
    and m: "add_mset e (mset (bh_nodes heap')) = mset (bh_nodes heap)" and h': "heap' = heap\<lparr>bh_nodes := bh_nodes heap'\<rparr>"
    unfolding tac_heap_ok_def by blast
  have st: "set (bh_nodes heap) = insert e (set (bh_nodes heap'))"
    using arg_cong [OF m, of set_mset] by simp
  have "bh_has_heap_property heap' = bh_has_heap_property heap" "bh_compare heap' = bh_compare heap"
    "bh_space heap' = bh_space heap" by (subst h', simp)+
  then have "tac_heap_ok heap'" using assms(1) r(2) st by (simp add: tac_heap_ok_def)
  moreover have "entry_csn e \<le> entry_csn x" if "x \<in> set (bh_nodes heap)" for x
    using f(2) that assms(1) by (intro Comparator_csn) (simp add: tac_heap_ok_def)
  ultimately show ?thesis using that [of e heap'] f(1) r(1) st by simp
qed

lemma remove_expired_ok:
  assumes "tac_heap_ok heap"
  shows "tac_heap_ok (remove_expired now heap) \<and>
    set (bh_nodes (remove_expired now heap)) \<subseteq> set (bh_nodes heap) \<and>
    (\<forall>e\<in>set (bh_nodes heap). now \<le> expiryTimestamp e \<longrightarrow> e \<in> set (bh_nodes (remove_expired now heap))) \<and>
    (\<forall>f. BinaryheapFirst (remove_expired now heap) = Some f \<longrightarrow> now \<le> expiryTimestamp f)"
  using assms
proof (induction "bh_size heap" arbitrary: heap rule: less_induct)
  case less
  show ?case
  proof (cases "binaryheap_empty heap")
    case True
    then have "remove_expired now heap = heap" by (subst remove_expired.simps) simp
    then show ?thesis using less.prems True by (simp add: BinaryheapFirst_def)
  next
    case False
    obtain e heap' where e: "BinaryheapFirst heap = Some e" "BinaryheapRemoveFirst heap = Some heap'"
      "tac_heap_ok heap'" "set (bh_nodes heap) = insert e (set (bh_nodes heap'))"
      by (rule tac_first [OF less.prems False])
    show ?thesis
    proof (cases "expiryTimestamp e < now")
      case True
      then have r: "remove_expired now heap = remove_expired now heap'"
        using e False by (subst remove_expired.simps) simp
      show ?thesis
        unfolding r using less.hyps [OF BinaryheapRemoveFirst_size [OF e(2)] e(3)] e(4) True by auto
    next
      case not_expired: False
      then have "remove_expired now heap = heap" using e False by (subst remove_expired.simps) simp
      then show ?thesis using less.prems e not_expired by simp
    qed
  qed
qed

lemma Init_ok: "tac_ok (Init True)"
  by (simp add: tac_ok_def Init_def BinaryheapAllocate_def tac_heap_ok_def heap_inv_def heap_ordered_def
      HEAP_INITIAL_CAPACITY_def)

lemma BinaryheapAdd_tac:
  assumes "tac_heap_ok heap" "bh_size heap < bh_space heap" "entry_csn e \<noteq> INVALID_CSN"
  shows "\<exists>heap'. BinaryheapAdd e heap = Some heap' \<and> tac_heap_ok heap' \<and>
    set (bh_nodes heap') = insert e (set (bh_nodes heap))"
proof -
  have o: "heap_order (bh_compare heap)" using assms(1) tac.heap_order_axioms by (simp add: tac_heap_ok_def)
  from BinaryheapAdd_ok [OF o _ _ assms(2), of e] assms(1) obtain heap' where
    r: "BinaryheapAdd e heap = Some heap'" "heap_inv heap'"
    and m: "mset (bh_nodes heap') = add_mset e (mset (bh_nodes heap))" and h': "heap' = heap\<lparr>bh_nodes := bh_nodes heap'\<rparr>"
    unfolding tac_heap_ok_def by blast
  have st: "set (bh_nodes heap') = insert e (set (bh_nodes heap))"
    using arg_cong [OF m, of set_mset] by simp
  have "bh_has_heap_property heap' = bh_has_heap_property heap" "bh_compare heap' = bh_compare heap"
    "bh_space heap' = bh_space heap" by (subst h', simp)+
  then have "tac_heap_ok heap'" using assms r(2) st by (simp add: tac_heap_ok_def)
  then show ?thesis using r(1) st by blast
qed

lemma grow_heap_ok:
  assumes "tac_heap_ok heap" "grow_ok"
  shows "\<exists>heap'. grow_heap grow_ok heap = Some heap' \<and> tac_heap_ok heap' \<and>
    bh_nodes heap' = bh_nodes heap \<and> bh_size heap' < bh_space heap'"
  using assms by (auto simp: grow_heap_def tac_heap_ok_def heap_inv_def)

lemma AddTacOrphanTrx_ok:
  assumes "tac_ok t" "tacGracePeriod \<noteq> 0" "csn \<noteq> INVALID_CSN"
  shows "\<exists>t'. AddTacOrphanTrx tacGracePeriod now True True csn t = Some t' \<and> tac_ok t' \<and>
    tac_entries t \<subseteq> tac_entries t' \<and>
    tac_entries t' \<subseteq> insert \<lparr>entry_csn = csn, expiryTimestamp = now + tacGracePeriod\<rparr> (tac_entries t) \<and>
    (\<exists>e\<in>tac_entries t'. entry_csn e \<le> csn \<and> now + tacGracePeriod \<le> expiryTimestamp e)"
proof -
  from assms(1) obtain heap where heap: "m_csnHeap t = Some heap" "tac_heap_ok heap" "\<not> m_heapLock t"
    "tac_entries t = set (bh_nodes heap)" by (rule tac_okE)
  show ?thesis
  proof (cases "top_covers heap csn (now + tacGracePeriod)")
    case True
    then obtain e where "BinaryheapFirst heap = Some e" "entry_csn e \<le> csn" "now + tacGracePeriod \<le> expiryTimestamp e"
      "\<not> binaryheap_empty heap"
      by (auto simp: top_covers_def split: if_splits option.splits)
    moreover from this(1,4) have "e \<in> set (bh_nodes heap)" using tac_first [OF heap(2)] by (metis option.inject)
    ultimately show ?thesis using heap assms True by (auto simp: AddTacOrphanTrx_def Let_def)
  next
    case False
    from grow_heap_ok [OF heap(2), of True] obtain heap1 where heap1: "grow_heap True heap = Some heap1"
      "tac_heap_ok heap1" "bh_nodes heap1 = bh_nodes heap" "bh_size heap1 < bh_space heap1" by auto
    from BinaryheapAdd_tac [OF heap1(2,4), of "\<lparr>entry_csn = csn, expiryTimestamp = now + tacGracePeriod\<rparr>"] assms(3)
    obtain heap2 where heap2: "BinaryheapAdd \<lparr>entry_csn = csn, expiryTimestamp = now + tacGracePeriod\<rparr> heap1 = Some heap2"
      "tac_heap_ok heap2" "set (bh_nodes heap2) = insert \<lparr>entry_csn = csn, expiryTimestamp = now + tacGracePeriod\<rparr> (set (bh_nodes heap))"
      using heap1(3) by auto
    then show ?thesis using heap heap1(1) assms False
      by (auto simp: AddTacOrphanTrx_def Let_def tac_ok_def tac_entries_def)
  qed
qed

lemma RefreshOrphanTrxExpiryTime_ok:
  assumes "tac_ok t" "tacGracePeriod \<noteq> 0"
  shows "\<exists>t'. RefreshOrphanTrxExpiryTime tacGracePeriod now t = Some t' \<and> tac_ok t' \<and>
    (tac_entries t' = tac_entries t \<or> (\<exists>e\<in>tac_entries t.
      tac_entries t \<subseteq> insert e (tac_entries t') \<and> e\<lparr>expiryTimestamp := now + tacGracePeriod\<rparr> \<in> tac_entries t' \<and>
      tac_entries t' \<subseteq> insert (e\<lparr>expiryTimestamp := now + tacGracePeriod\<rparr>) (tac_entries t)))"
proof -
  from assms(1) obtain heap where heap: "m_csnHeap t = Some heap" "tac_heap_ok heap" "\<not> m_heapLock t"
    "tac_entries t = set (bh_nodes heap)" by (rule tac_okE)
  show ?thesis
  proof (cases "bh_nodes heap")
    case Nil
    then show ?thesis using heap assms by (auto simp: RefreshOrphanTrxExpiryTime_def binaryheap_empty_def)
  next
    case (Cons e xs)
    let ?e = "e\<lparr>expiryTimestamp := now + tacGracePeriod\<rparr>"
    have first: "BinaryheapFirst heap = Some e"
      using Cons heap(2) by (simp add: BinaryheapFirst_def binaryheap_empty_def tac_heap_ok_def)
    have o: "heap_order (bh_compare heap)" using heap(2) tac.heap_order_axioms by (simp add: tac_heap_ok_def)
    from BinaryheapReplaceFirst_ok [OF o _ _ Cons, of ?e] heap(2) obtain heap' where
      r: "BinaryheapReplaceFirst ?e heap = Some heap'" "heap_inv heap'"
      and m: "mset (bh_nodes heap') = add_mset ?e (mset xs)" and h': "heap' = heap\<lparr>bh_nodes := bh_nodes heap'\<rparr>"
      unfolding tac_heap_ok_def by blast
    have st: "set (bh_nodes heap') = insert ?e (set xs)" using arg_cong [OF m, of set_mset] by simp
    have "bh_has_heap_property heap' = bh_has_heap_property heap" "bh_compare heap' = bh_compare heap"
      "bh_space heap' = bh_space heap" by (subst h', simp)+
    then have "tac_heap_ok heap'" using heap(2) r(2) st Cons by (simp add: tac_heap_ok_def)
    then show ?thesis using heap r(1) st Cons first assms
      by (auto simp: RefreshOrphanTrxExpiryTime_def binaryheap_empty_def tac_ok_def tac_entries_def)
  qed
qed

lemma remove_expired_size: "bh_size (remove_expired now heap) \<le> bh_size heap"
proof (induction "bh_size heap" arbitrary: heap rule: less_induct)
  case less
  show ?case
    using less BinaryheapRemoveFirst_size [of heap]
    by (subst remove_expired.simps, auto split: option.splits) (meson less_imp_le order.trans)
qed

lemma remove_expired_first:
  assumes "tac_heap_ok heap" "BinaryheapFirst heap = Some e" "expiryTimestamp e < now"
  shows "bh_size (remove_expired now heap) < bh_size heap"
proof -
  have ne: "\<not> binaryheap_empty heap" using assms(2) by (auto simp: BinaryheapFirst_def split: if_splits)
  obtain e' heap' where e: "BinaryheapFirst heap = Some e'" "BinaryheapRemoveFirst heap = Some heap'"
    by (rule tac_first [OF assms(1) ne])
  then have "remove_expired now heap = remove_expired now heap'"
    using assms ne by (subst remove_expired.simps) simp
  then show ?thesis using remove_expired_size [of now heap'] BinaryheapRemoveFirst_size [OF e(2)] by simp
qed

lemma GetSmallestOrphanCsn_ok:
  assumes "tac_ok t" "tacGracePeriod \<noteq> 0" "mono clock"
  shows "\<exists>c t'. GetSmallestOrphanCsn tacGracePeriod clock free k t = Some (c, t') \<and> tac_ok t' \<and>
    tac_entries t' \<subseteq> tac_entries t \<and> (c \<noteq> INVALID_CSN \<longrightarrow> c \<in> entry_csn ` tac_entries t) \<and>
    (\<forall>e\<in>tac_entries t. (\<forall>j. clock j \<le> expiryTimestamp e) \<longrightarrow> e \<in> tac_entries t' \<and> c \<noteq> INVALID_CSN \<and> c \<le> entry_csn e)"
  using assms(1)
proof (induction "bh_size (the (m_csnHeap t))" arbitrary: t k rule: less_induct)
  case less
  from less.prems obtain heap where heap: "m_csnHeap t = Some heap" "tac_heap_ok heap" "\<not> m_heapLock t"
    "tac_entries t = set (bh_nodes heap)" by (rule tac_okE)
  show ?case
  proof (cases "binaryheap_empty heap")
    case True
    then show ?thesis
      using heap less.prems assms(2) by (subst GetSmallestOrphanCsn.simps) (simp add: binaryheap_empty_def)
  next
    case False
    obtain e where e: "BinaryheapFirst heap = Some e" "e \<in> set (bh_nodes heap)"
      "\<And>x. x \<in> set (bh_nodes heap) \<Longrightarrow> entry_csn e \<le> entry_csn x"
      by (rule tac_first [OF heap(2) False]) blast
    have valid: "entry_csn e \<noteq> INVALID_CSN" using heap(2) e(2) by (simp add: tac_heap_ok_def)
    consider "\<not> expiryTimestamp e < clock k" | "expiryTimestamp e < clock k" "\<not> free k"
      | "expiryTimestamp e < clock k" "free k" by blast
    then show ?thesis
    proof cases
      case 3
      let ?now = "clock (k + 1)" and ?t = "t\<lparr>m_csnHeap := Some (remove_expired (clock (k + 1)) heap)\<rparr>"
      have exp: "expiryTimestamp e < ?now" using 3 monoD [OF assms(3), of k "k + 1"] by simp
      have t': "tac_ok ?t" "tac_entries ?t \<subseteq> tac_entries t"
        "\<And>x. x \<in> tac_entries t \<Longrightarrow> ?now \<le> expiryTimestamp x \<Longrightarrow> x \<in> tac_entries ?t"
        using remove_expired_ok [OF heap(2), of ?now] heap by (auto simp: tac_ok_def tac_entries_def)
      have step: "GetSmallestOrphanCsn tacGracePeriod clock free k t = GetSmallestOrphanCsn tacGracePeriod clock free (k + 2) ?t"
        using heap assms(2) False e(1) 3 by (subst GetSmallestOrphanCsn.simps) (simp add: TryRemoveExpiredEntry_def)
      have "bh_size (the (m_csnHeap ?t)) < bh_size (the (m_csnHeap t))"
        using remove_expired_first [OF heap(2) e(1) exp] heap(1) by simp
      from less.hyps [OF this t'(1), of "k + 2"] obtain c t2 where r:
        "GetSmallestOrphanCsn tacGracePeriod clock free (k + 2) ?t = Some (c, t2)" "tac_ok t2"
        "tac_entries t2 \<subseteq> tac_entries ?t" "c \<noteq> INVALID_CSN \<longrightarrow> c \<in> entry_csn ` tac_entries ?t"
        "\<forall>e\<in>tac_entries ?t. (\<forall>j. clock j \<le> expiryTimestamp e) \<longrightarrow> e \<in> tac_entries t2 \<and> c \<noteq> INVALID_CSN \<and> c \<le> entry_csn e"
        by blast
      show ?thesis
        using trans [OF step r(1)] r(2-5) t'(2,3) by (intro exI [of _ c] exI [of _ t2]) auto
    next
      case 2
      then show ?thesis
        using heap assms(2) False e valid less.prems by (subst GetSmallestOrphanCsn.simps) (auto simp: TryRemoveExpiredEntry_def)
    next
      case 1
      then show ?thesis
        using heap assms(2) False e valid less.prems by (subst GetSmallestOrphanCsn.simps) auto
    qed
  qed
qed

subsection \<open>An orphan is protected for its grace period\<close>

text \<open>
  Sequences of calls, with the time in seconds. Every reading of the clock during a call lies
  between the times before and after it. \<open>GetSmallestOrphanCsn\<close> releases the lock between its sections;
  the only section that changes the heap is \<open>TryRemoveExpiredEntry\<close>, which is a step of its own with a time
  read at any moment before, so the calls of several threads interleave. Memory for the entries is
  available: without it the lock is never released again, and no further call returns.
\<close>

inductive tac_step :: "int \<Rightarrow> int \<times> TacOrphanTrxTracker \<Rightarrow> int \<times> TacOrphanTrxTracker \<Rightarrow> bool" for gp where
  tick: "now \<le> now' \<Longrightarrow> tac_step gp (now, t) (now', t)"
| add: "AddTacOrphanTrx gp now True True csn t = Some t' \<Longrightarrow> tac_step gp (now, t) (now, t')"
| smallest: "mono clock \<Longrightarrow> now \<le> clock 0 \<Longrightarrow> (\<And>k. clock k \<le> now') \<Longrightarrow>
    GetSmallestOrphanCsn gp clock free 0 t = Some (c, t') \<Longrightarrow> tac_step gp (now, t) (now', t')"
| remove: "now \<le> now' \<Longrightarrow> currentTime \<le> now' \<Longrightarrow> TryRemoveExpiredEntry currentTime free t = (removed, t') \<Longrightarrow>
    tac_step gp (now, t) (now', t')"
| refresh: "RefreshOrphanTrxExpiryTime gp now t = Some t' \<Longrightarrow> tac_step gp (now, t) (now, t')"

inductive_cases tac_stepE: "tac_step gp (now, t) (now', t')"

definition tac_timely :: "int \<Rightarrow> int \<Rightarrow> TacOrphanTrxTracker \<Rightarrow> bool" where
  "tac_timely gp now t \<longleftrightarrow> (\<forall>e\<in>tac_entries t. expiryTimestamp e \<le> now + gp)"

definition tac_covered :: "CommitSeqNo \<Rightarrow> int \<Rightarrow> TacOrphanTrxTracker \<Rightarrow> bool" where
  "tac_covered csn until t \<longleftrightarrow> (\<exists>e\<in>tac_entries t. entry_csn e \<le> csn \<and> until \<le> expiryTimestamp e)"

lemma tac_step_inv:
  assumes "tac_step gp (now, t) (now', t')" "gp \<noteq> 0" "tac_ok t" "tac_timely gp now t" "now \<le> until \<Longrightarrow> tac_covered csn until t"
  shows "tac_ok t' \<and> tac_timely gp now' t' \<and> now \<le> now' \<and> (now' \<le> until \<longrightarrow> tac_covered csn until t')"
  using assms(1)
proof (cases rule: tac_stepE [consumes 1, case_names tick add smallest remove refresh])
  case tick
  then show ?thesis using assms by (auto simp: tac_timely_def)
next
  case (add c)
  show ?thesis
  proof (cases "c = INVALID_CSN")
    case True
    then show ?thesis using add assms by (simp add: AddTacOrphanTrx_def)
  next
    case False
    from AddTacOrphanTrx_ok [OF assms(3,2) False, of now] add(2)
    have r: "tac_ok t'" "tac_entries t \<subseteq> tac_entries t'"
      "tac_entries t' \<subseteq> insert \<lparr>entry_csn = c, expiryTimestamp = now + gp\<rparr> (tac_entries t)" by auto
    have "tac_timely gp now t'" using assms(4) r(3) by (auto simp: tac_timely_def)
    moreover have "tac_covered csn until t'" if "now \<le> until"
      using assms(5) [OF that] r(2) by (auto simp: tac_covered_def)
    ultimately show ?thesis using r(1) add(1) by simp
  qed
next
  case (smallest clock free c)
  have "now \<le> now'" using smallest by (meson order.trans)
  from GetSmallestOrphanCsn_ok [OF assms(3,2) smallest(1), of free 0] smallest(4)
  have r: "tac_ok t'" "tac_entries t' \<subseteq> tac_entries t"
    "\<forall>e\<in>tac_entries t. (\<forall>j. clock j \<le> expiryTimestamp e) \<longrightarrow> e \<in> tac_entries t'" by auto
  have "tac_timely gp now' t'" using assms(4) r(2) \<open>now \<le> now'\<close> by (fastforce simp: tac_timely_def)
  moreover have "tac_covered csn until t'" if "now' \<le> until"
  proof -
    from that \<open>now \<le> now'\<close> assms(5) obtain e where e: "e \<in> tac_entries t" "entry_csn e \<le> csn" "until \<le> expiryTimestamp e"
      by (auto simp: tac_covered_def)
    have "clock j \<le> expiryTimestamp e" for j using smallest(3) [of j] that e(3) by simp
    then show ?thesis using e r(3) by (auto simp: tac_covered_def)
  qed
  ultimately show ?thesis using r(1) \<open>now \<le> now'\<close> by simp
next
  case (remove currentTime free removed)
  from assms(3) obtain heap where heap: "m_csnHeap t = Some heap" "tac_heap_ok heap" "\<not> m_heapLock t"
    "tac_entries t = set (bh_nodes heap)" by (rule tac_okE)
  have r: "tac_ok t'" "tac_entries t' \<subseteq> tac_entries t"
    "\<And>e. e \<in> tac_entries t \<Longrightarrow> currentTime \<le> expiryTimestamp e \<Longrightarrow> e \<in> tac_entries t'"
    using remove(3) remove_expired_ok [OF heap(2), of currentTime] heap assms(3)
    by (auto simp: TryRemoveExpiredEntry_def tac_ok_def tac_entries_def split: if_splits)
  have "tac_timely gp now' t'" using assms(4) r(2) remove(1) by (fastforce simp: tac_timely_def)
  moreover have "tac_covered csn until t'" if "now' \<le> until"
    using assms(5) that remove(1,2) r(3) unfolding tac_covered_def by (meson order.trans)
  ultimately show ?thesis using r(1) remove(1) by simp
next
  case refresh
  let ?upd = "\<lambda>e. e\<lparr>expiryTimestamp := now + gp\<rparr>"
  from RefreshOrphanTrxExpiryTime_ok [OF assms(3,2), of now] refresh(2)
  have r: "tac_ok t'" "tac_entries t' = tac_entries t \<or> (\<exists>e\<in>tac_entries t. tac_entries t \<subseteq> insert e (tac_entries t') \<and>
    ?upd e \<in> tac_entries t' \<and> tac_entries t' \<subseteq> insert (?upd e) (tac_entries t))" by auto
  from r(2) have "tac_timely gp now t' \<and> (now \<le> until \<longrightarrow> tac_covered csn until t')"
  proof
    assume "tac_entries t' = tac_entries t"
    then show ?thesis using assms(4,5) by (simp add: tac_timely_def tac_covered_def)
  next
    assume "\<exists>e\<in>tac_entries t. tac_entries t \<subseteq> insert e (tac_entries t') \<and>
      ?upd e \<in> tac_entries t' \<and> tac_entries t' \<subseteq> insert (?upd e) (tac_entries t)"
    then obtain e where e: "e \<in> tac_entries t" "tac_entries t \<subseteq> insert e (tac_entries t')"
      "?upd e \<in> tac_entries t'" "tac_entries t' \<subseteq> insert (?upd e) (tac_entries t)" by blast
    have "tac_timely gp now t'" using assms(4) e(4) by (auto simp: tac_timely_def)
    moreover have "tac_covered csn until t'" if "now \<le> until"
    proof -
      from assms(5) [OF that] obtain x where x: "x \<in> tac_entries t" "entry_csn x \<le> csn" "until \<le> expiryTimestamp x"
        by (auto simp: tac_covered_def)
      have "until \<le> expiryTimestamp (?upd x)" using x assms(4) by (auto simp: tac_timely_def)
      then have "\<exists>y\<in>tac_entries t'. entry_csn y \<le> csn \<and> until \<le> expiryTimestamp y"
      proof (cases "x = e")
        case True
        then show ?thesis using \<open>until \<le> expiryTimestamp (?upd x)\<close> x(2) by (intro bexI [OF _ e(3)]) simp
      next
        case False
        then show ?thesis using x e(2) by blast
      qed
      then show ?thesis by (simp add: tac_covered_def)
    qed
    ultimately show ?thesis by simp
  qed
  then show ?thesis using r(1) refresh(1) by simp
qed

lemma tac_run_inv:
  assumes "(tac_step gp)\<^sup>*\<^sup>* (now0, t0) (now, t)" "gp \<noteq> 0" "tac_ok t0" "tac_timely gp now0 t0" "tac_covered csn until t0"
  shows "tac_ok t \<and> tac_timely gp now t \<and> now0 \<le> now \<and> (now \<le> until \<longrightarrow> tac_covered csn until t)"
  using assms(1)
proof (induction "(now, t)" arbitrary: now t rule: rtranclp_induct)
  case base
  then show ?case using assms by simp
next
  case (step st)
  obtain now1 t1 where st: "st = (now1, t1)" by (cases st)
  with step.hyps(3) have h: "tac_ok t1" "tac_timely gp now1 t1" "now0 \<le> now1" "now1 \<le> until \<Longrightarrow> tac_covered csn until t1"
    by auto
  show ?case using tac_step_inv [OF step.hyps(2) [unfolded st] assms(2) h(1,2,4)] h(3) by auto
qed

lemma tac_protected:
  assumes "gp \<noteq> 0" "csn \<noteq> INVALID_CSN" "tac_ok t0" "tac_timely gp now0 t0"
    and "AddTacOrphanTrx gp now0 True True csn t0 = Some t1"
    and "(tac_step gp)\<^sup>*\<^sup>* (now0, t1) (now, t)" "mono clock" "now \<le> clock 0" "\<And>k. clock k \<le> now0 + gp"
  shows "\<exists>c t'. GetSmallestOrphanCsn gp clock free 0 t = Some (c, t') \<and> c \<noteq> INVALID_CSN \<and> c \<le> csn"
proof -
  from AddTacOrphanTrx_ok [OF assms(3,1,2), of now0] assms(5)
  have t1: "tac_ok t1" "tac_entries t1 \<subseteq> insert \<lparr>entry_csn = csn, expiryTimestamp = now0 + gp\<rparr> (tac_entries t0)"
    "tac_covered csn (now0 + gp) t1" by (auto simp: tac_covered_def)
  have "tac_timely gp now0 t1" using assms(4) t1(2) by (auto simp: tac_timely_def)
  from tac_run_inv [OF assms(6,1) t1(1) this t1(3)]
  have t: "tac_ok t" "now \<le> now0 + gp \<Longrightarrow> tac_covered csn (now0 + gp) t" by auto
  have "now \<le> now0 + gp" using assms(8) assms(9) [of 0] by simp
  with t(2) obtain e where e: "e \<in> tac_entries t" "entry_csn e \<le> csn" "now0 + gp \<le> expiryTimestamp e"
    by (auto simp: tac_covered_def)
  have "\<forall>j. clock j \<le> expiryTimestamp e" using assms(9) e(3) by (meson order.trans)
  with GetSmallestOrphanCsn_ok [OF t(1) assms(1,7), of free 0] e show ?thesis by (meson order.trans)
qed

text \<open>
  C36. \<open>GetSmallestOrphanCsn\<close> returns although it calls itself after removing expired entries, as long as
  the clock does not run backwards: every repetition has removed an entry. It only removes entries, and
  what it returns is no number or the number of an entry.
\<close>

theorem GetSmallestOrphanCsn_terminates:
  assumes "tac_ok t" "mono clock"
  shows "\<exists>c t'. GetSmallestOrphanCsn gp clock free k t = Some (c, t') \<and> tac_entries t' \<subseteq> tac_entries t \<and>
    (c = INVALID_CSN \<or> c \<in> entry_csn ` tac_entries t)"
proof (cases "gp = 0")
  case True
  then show ?thesis by (subst GetSmallestOrphanCsn.simps) simp
next
  case False
  from GetSmallestOrphanCsn_ok [OF assms(1) False assms(2), of free k] show ?thesis by blast
qed

text \<open>
  C37. When the memory for the new entry cannot be allocated, \<open>AddTacOrphanTrx\<close> returns without releasing
  the lock of the heap, so that every later call that needs the lock waits for ever.
\<close>

theorem AddTacOrphanTrx_leaks_lock:
  assumes "gp \<noteq> 0" "csn \<noteq> INVALID_CSN" "m_csnHeap t = Some heap" "\<not> m_heapLock t"
    "\<not> top_covers heap csn (now + gp)"
  shows "\<exists>t'. AddTacOrphanTrx gp now True False csn t = Some t' \<and>
    (\<forall>csn'. csn' \<noteq> INVALID_CSN \<longrightarrow> AddTacOrphanTrx gp now' grow_ok entry_ok csn' t' = None) \<and>
    GetSmallestOrphanCsn gp clock free k t' = None \<and> RefreshOrphanTrxExpiryTime gp now' t' = None"
proof -
  obtain heap1 where "grow_heap True heap = Some heap1"
    by (cases "bh_size heap = bh_space heap") (simp_all add: grow_heap_def)
  then show ?thesis
    using assms by (simp add: AddTacOrphanTrx_def Let_def RefreshOrphanTrxExpiryTime_def GetSmallestOrphanCsn.simps)
qed

theorem GetSmallestOrphanCsn_terminates_witness:
  "\<exists>c t'. GetSmallestOrphanCsn 60 (\<lambda>_. 5) (\<lambda>_. True) 0 (Init True) = Some (c, t') \<and> tac_entries t' \<subseteq> tac_entries (Init True)"
  using GetSmallestOrphanCsn_terminates [OF Init_ok, of "\<lambda>_. 5" 60 "\<lambda>_. True" 0] by (auto simp: mono_def)

theorem AddTacOrphanTrx_leaks_lock_witness:
  "\<exists>t'. AddTacOrphanTrx 60 0 True False 7 (Init True) = Some t' \<and> RefreshOrphanTrxExpiryTime 60 1 t' = None"
proof -
  obtain heap where h: "m_csnHeap (Init True) = Some heap" "bh_nodes heap = []"
    by (simp add: Init_def BinaryheapAllocate_def)
  then show ?thesis
    using AddTacOrphanTrx_leaks_lock [OF _ _ h(1), of 60 7 0 1 True True "\<lambda>_. 0" "\<lambda>_. True" 0]
    by (auto simp: top_covers_def binaryheap_empty_def INVALID_CSN_def Init_def)
qed

end
