(* ===== verification/Hash_Fn.thy ===== *)
theory Hash_Fn
  imports Prelude
begin

text \<open>
  The hash functions (\<open>src/common/algorithm/dstore_hashfn.cpp\<close>) on lists of bytes, as compiled on
  a little-endian machine. \<open>hash_any\<close> has one path for keys at an aligned address, which reads
  whole words, and one for other keys, which reads bytes. The CRC instructions of the processor are
  parameters of \<open>hashquickany\<close>.
\<close>

subsection \<open>The code\<close>

definition rot :: "uint32 \<Rightarrow> nat \<Rightarrow> uint32" where
  "rot x k = push_bit k x OR drop_bit (32 - k) x"

text \<open>Three lines of the macro \<open>mix\<close>: \<open>x -= z; x ^= rot(z, k); z += y\<close>.\<close>

definition mix_step :: "uint32 \<Rightarrow> uint32 \<Rightarrow> uint32 \<Rightarrow> nat \<Rightarrow> uint32 \<times> uint32" where
  "mix_step x y z k = ((x - z) XOR rot z k, z + y)"

definition mix :: "uint32 \<times> uint32 \<times> uint32 \<Rightarrow> uint32 \<times> uint32 \<times> uint32" where
  "mix = (\<lambda>(a, b, c).
     let (a, c) = mix_step a b c 4;
         (b, a) = mix_step b c a 6;
         (c, b) = mix_step c a b 8;
         (a, c) = mix_step a b c 16;
         (b, a) = mix_step b c a 19;
         (c, b) = mix_step c a b 4
     in (a, b, c))"

definition final_mix :: "uint32 \<times> uint32 \<times> uint32 \<Rightarrow> uint32 \<times> uint32 \<times> uint32" where
  "final_mix = (\<lambda>(a, b, c).
     let c = c XOR b; c = c - rot b 14;
         a = a XOR c; a = a - rot c 11;
         b = b XOR a; b = b - rot a 25;
         c = c XOR b; c = c - rot b 16;
         a = a XOR c; a = a - rot c 4;
         b = b XOR a; b = b - rot a 14;
         c = c XOR b; c = c - rot b 24
     in (a, b, c))"

text \<open>The byte at an offset, shifted into place, and a 32-bit load of the machine.\<close>

definition byte_at :: "uint8 list \<Rightarrow> nat \<Rightarrow> nat \<Rightarrow> uint32" where
  "byte_at k i s = push_bit s (ucast (k ! i))"

definition fetch_word :: "uint8 list \<Rightarrow> nat \<Rightarrow> uint32" where
  "fetch_word k i = byte_at k i 0 OR byte_at k (i + 1) 8 OR byte_at k (i + 2) 16 OR byte_at k (i + 3) 24"

definition sum_bytes :: "uint8 list \<Rightarrow> nat \<Rightarrow> uint32" where
  "sum_bytes k i = byte_at k i 0 + byte_at k (i + 1) 8 + byte_at k (i + 2) 16 + byte_at k (i + 3) 24"

text \<open>The loop over blocks of twelve bytes; \<open>load\<close> is how the path at hand reads four bytes.\<close>

function hash_blocks ::
    "(uint8 list \<Rightarrow> nat \<Rightarrow> uint32) \<Rightarrow> uint32 \<times> uint32 \<times> uint32 \<Rightarrow> uint8 list \<Rightarrow> (uint32 \<times> uint32 \<times> uint32) \<times> uint8 list" where
  "hash_blocks load (a, b, c) k =
     (if length k \<ge> 12
      then hash_blocks load (mix (a + load k 0, b + load k 4, c + load k 8)) (drop 12 k)
      else ((a, b, c), k))"
  by pat_completeness auto

termination
  by (relation "measure (\<lambda>(load, s, k). length k)") auto

declare hash_blocks.simps [simp del]

text \<open>The last eleven bytes; the cases of the two \<open>switch\<close> statements fall through.\<close>

definition tail_aligned :: "uint32 \<times> uint32 \<times> uint32 \<Rightarrow> uint8 list \<Rightarrow> uint32 \<times> uint32 \<times> uint32" where
  "tail_aligned = (\<lambda>(a, b, c) k.
     let len = length k;
         c = (if len \<ge> 11 then c + byte_at k 10 24 else c);
         c = (if len \<ge> 10 then c + byte_at k 9 16 else c);
         c = (if len \<ge> 9 then c + byte_at k 8 8 else c)
     in if len \<ge> 8 then (a + fetch_word k 0, b + fetch_word k 4, c)
        else
          let b = (if len \<ge> 7 then b + byte_at k 6 16 else b);
              b = (if len \<ge> 6 then b + byte_at k 5 8 else b);
              b = (if len \<ge> 5 then b + byte_at k 4 0 else b)
          in if len \<ge> 4 then (a + fetch_word k 0, b, c)
             else
               let a = (if len \<ge> 3 then a + byte_at k 2 16 else a);
                   a = (if len \<ge> 2 then a + byte_at k 1 8 else a);
                   a = (if len \<ge> 1 then a + byte_at k 0 0 else a)
               in (a, b, c))"

definition tail_unaligned :: "uint32 \<times> uint32 \<times> uint32 \<Rightarrow> uint8 list \<Rightarrow> uint32 \<times> uint32 \<times> uint32" where
  "tail_unaligned = (\<lambda>(a, b, c) k.
     let len = length k;
         c = (if len \<ge> 11 then c + byte_at k 10 24 else c);
         c = (if len \<ge> 10 then c + byte_at k 9 16 else c);
         c = (if len \<ge> 9 then c + byte_at k 8 8 else c);
         b = (if len \<ge> 8 then b + byte_at k 7 24 else b);
         b = (if len \<ge> 7 then b + byte_at k 6 16 else b);
         b = (if len \<ge> 6 then b + byte_at k 5 8 else b);
         b = (if len \<ge> 5 then b + byte_at k 4 0 else b);
         a = (if len \<ge> 4 then a + byte_at k 3 24 else a);
         a = (if len \<ge> 3 then a + byte_at k 2 16 else a);
         a = (if len \<ge> 2 then a + byte_at k 1 8 else a);
         a = (if len \<ge> 1 then a + byte_at k 0 0 else a)
     in (a, b, c))"

definition hash_seed :: "uint32 \<Rightarrow> uint32" where
  "hash_seed len = 0x9e3779b9 + len + 3923095"

definition hash_any :: "bool \<Rightarrow> uint8 list \<Rightarrow> uint32" where
  "hash_any aligned k =
     (let s = hash_seed (of_nat (length k));
          abc = (if aligned
                 then (case hash_blocks fetch_word (s, s, s) k of (st, rest) \<Rightarrow> tail_aligned st rest)
                 else (case hash_blocks sum_bytes (s, s, s) k of (st, rest) \<Rightarrow> tail_unaligned st rest))
      in snd (snd (final_mix abc)))"

definition hash_uint32 :: "uint32 \<Rightarrow> uint32" where
  "hash_uint32 k = (let s = hash_seed 4 in snd (snd (final_mix (s + k, s, s))))"

text \<open>
  \<open>hashquickany\<close>: eight bytes at a time, then at most one group of four, then single bytes.
\<close>

definition fetch_word64 :: "uint8 list \<Rightarrow> uint64" where
  "fetch_word64 k = ucast (fetch_word k 0) OR push_bit 32 (ucast (fetch_word k 4))"

function crc_loop8 :: "(uint32 \<Rightarrow> uint64 \<Rightarrow> uint32) \<Rightarrow> uint32 \<Rightarrow> uint8 list \<Rightarrow> uint32 \<times> uint8 list" where
  "crc_loop8 crc_u64 crc p =
     (if length p \<ge> 8 then crc_loop8 crc_u64 (crc_u64 crc (fetch_word64 p)) (drop 8 p) else (crc, p))"
  by pat_completeness auto

termination
  by (relation "measure (\<lambda>(crc_u64, crc, p). length p)") auto

declare crc_loop8.simps [simp del]

definition hashquickany ::
    "(uint32 \<Rightarrow> uint64 \<Rightarrow> uint32) \<Rightarrow> (uint32 \<Rightarrow> uint32 \<Rightarrow> uint32) \<Rightarrow> (uint32 \<Rightarrow> uint8 \<Rightarrow> uint32) \<Rightarrow>
     uint32 \<Rightarrow> uint8 list \<Rightarrow> uint32" where
  "hashquickany crc_u64 crc_u32 crc_u8 seed data =
     (let (crc, p) = crc_loop8 crc_u64 seed data;
          (crc, p) = (if length p \<ge> 4 then (crc_u32 crc (fetch_word p 0), drop 4 p) else (crc, p))
      in fold (\<lambda>b crc. crc_u8 crc b) p crc)"

text \<open>
  The hash functions of hash tables. \<open>crc\<close> is \<open>hashquickany\<close> with the instructions of the
  processor; a build with assertion checking uses \<open>hash_any\<close> and \<open>hash_uint32\<close> instead. A key is
  the memory it is stored in; \<open>aligned\<close> says whether it starts at an aligned address.
\<close>

definition strlen :: "uint8 list \<Rightarrow> nat" where
  "strlen key = length (takeWhile (\<lambda>b. b \<noteq> 0) key)"

definition string_hash :: "bool \<Rightarrow> (uint32 \<Rightarrow> uint8 list \<Rightarrow> uint32) \<Rightarrow> bool \<Rightarrow> uint8 list \<Rightarrow> nat \<Rightarrow> uint32" where
  "string_hash assert_checking crc aligned key keysize =
     (let s_len = (if keysize = 0 then strlen key else min (strlen key) (keysize - 1)) in
      if \<not> assert_checking then crc 0xFFFFFFFF (take s_len key) else hash_any aligned (take s_len key))"

definition tag_hash :: "bool \<Rightarrow> (uint32 \<Rightarrow> uint8 list \<Rightarrow> uint32) \<Rightarrow> bool \<Rightarrow> uint8 list \<Rightarrow> nat \<Rightarrow> uint32" where
  "tag_hash assert_checking crc aligned key keysize =
     (if \<not> assert_checking then crc 0xFFFFFFFF (take keysize key) else hash_any aligned (take keysize key))"

definition buf_hash :: "bool \<Rightarrow> (uint32 \<Rightarrow> uint8 list \<Rightarrow> uint32) \<Rightarrow> uint8 list \<Rightarrow> nat \<Rightarrow> uint32" where
  "buf_hash assert_checking crc key keysize =
     (if \<not> assert_checking then crc 0xFFFFFFFF (take keysize key) else hash_uint32 (fetch_word key 0))"

text \<open>The two functions for keys of one word assert the size of the key.\<close>

definition uint32_hash :: "uint8 list \<Rightarrow> nat \<Rightarrow> uint32 option" where
  "uint32_hash key keysize = (if keysize = 4 then Some (hash_uint32 (fetch_word key 0)) else None)"

definition oid_hash :: "uint8 list \<Rightarrow> nat \<Rightarrow> uint32 option" where
  "oid_hash key keysize = (if keysize = 4 then Some (hash_uint32 (fetch_word key 0)) else None)"

subsection \<open>Reading words and reading bytes\<close>

lemma bit_byte_at: "bit (byte_at k i s) n \<longleftrightarrow> n < 32 \<and> s \<le> n \<and> bit (k ! i) (n - s)"
  by (auto simp: byte_at_def bit_simps dest: bit_imp_le_length)

lemma bit_byte_less: "bit (b :: uint8) n \<Longrightarrow> n < 8"
  using bit_imp_le_length [of b n] by simp

lemma sum_bytes_fetch: "sum_bytes k i = fetch_word k i"
proof -
  let ?x = "\<lambda>j. byte_at k (i + j) (8 * j)"
  have or1: "byte_at k i 0 + byte_at k (i + 1) 8 = byte_at k i 0 OR byte_at k (i + 1) 8"
    by (rule disjunctive_add) (auto simp: bit_byte_at dest: bit_byte_less)
  have or2: "(byte_at k i 0 OR byte_at k (i + 1) 8) + byte_at k (i + 2) 16 =
      (byte_at k i 0 OR byte_at k (i + 1) 8) OR byte_at k (i + 2) 16"
    by (rule disjunctive_add) (auto simp: bit_byte_at bit_or_iff dest: bit_byte_less)
  have or3: "((byte_at k i 0 OR byte_at k (i + 1) 8) OR byte_at k (i + 2) 16) + byte_at k (i + 3) 24 =
      ((byte_at k i 0 OR byte_at k (i + 1) 8) OR byte_at k (i + 2) 16) OR byte_at k (i + 3) 24"
    by (rule disjunctive_add) (auto simp: bit_byte_at bit_or_iff dest: bit_byte_less)
  show ?thesis unfolding sum_bytes_def or1 or2 or3 fetch_word_def by (simp add: or.assoc)
qed

lemma fetch_word_parts:
  "fetch_word k 0 = byte_at k 0 0 + byte_at k 1 8 + byte_at k 2 16 + byte_at k 3 24"
  "fetch_word k 4 = byte_at k 4 0 + byte_at k 5 8 + byte_at k 6 16 + byte_at k 7 24"
  by (simp_all add: sum_bytes_fetch [symmetric] sum_bytes_def numeral_2_eq_2)

lemma tails_agree: "tail_aligned = tail_unaligned"
proof (intro ext)
  show "tail_aligned s k = tail_unaligned s k" for s k
    by (cases s) (simp add: tail_aligned_def tail_unaligned_def Let_def fetch_word_parts algebra_simps)
qed

lemma hash_any_paths: "hash_any True k = hash_any False k"
proof -
  have "sum_bytes = fetch_word" by (intro ext) (rule sum_bytes_fetch)
  then show ?thesis by (simp add: hash_any_def tails_agree)
qed

text \<open>
  C39. The hash value of a key does not depend on the address at which it is stored: the path that reads
  whole words and the path that reads bytes agree on every key.
\<close>

theorem hash_any_alignment: "hash_any aligned k = hash_any aligned' k"
  using hash_any_paths [of k] by (cases aligned; cases aligned') simp_all

definition bytes_of :: "uint32 \<Rightarrow> uint8 list" where
  "bytes_of w = [ucast w, ucast (drop_bit 8 w), ucast (drop_bit 16 w), ucast (drop_bit 24 w)]"

lemma fetch_bytes_of: "fetch_word (bytes_of w) 0 = w"
proof (rule bit_word_eqI)
  fix n assume "n < LENGTH(32)"
  then consider "n < 8" | "8 \<le> n" "n < 16" | "16 \<le> n" "n < 24" | "24 \<le> n" "n < 32" by fastforce
  then show "bit (fetch_word (bytes_of w) 0) n = bit w n"
    by cases (auto simp: fetch_word_def bytes_of_def bit_or_iff bit_byte_at bit_simps less_diff_conv2)
qed

text \<open>
  \<open>Hash_uint32\<close> has the same result as \<open>hash_any\<close> on the four bytes of its argument, as its comment
  says.
\<close>

lemma hash_uint32_any: "hash_uint32 w = hash_any aligned (bytes_of w)"
proof -
  have "length (bytes_of w) = 4" by (simp add: bytes_of_def)
  then have "hash_any True (bytes_of w) = hash_uint32 w"
    using fetch_bytes_of [of w]
    by (simp add: hash_any_def hash_blocks.simps tail_aligned_def hash_uint32_def Let_def)
  then show ?thesis using hash_any_paths [of "bytes_of w"] by (cases aligned) simp_all
qed

text \<open>The reverse of \<open>mix\<close>, which undoes its steps one by one.\<close>

definition unmix_step :: "uint32 \<Rightarrow> uint32 \<Rightarrow> uint32 \<Rightarrow> nat \<Rightarrow> uint32 \<times> uint32" where
  "unmix_step x y z k = (let z' = z - y in ((x XOR rot z' k) + z', z'))"

definition unmix :: "uint32 \<times> uint32 \<times> uint32 \<Rightarrow> uint32 \<times> uint32 \<times> uint32" where
  "unmix = (\<lambda>(a, b, c).
     let (c, b) = unmix_step c a b 4;
         (b, a) = unmix_step b c a 19;
         (a, c) = unmix_step a b c 16;
         (c, b) = unmix_step c a b 8;
         (b, a) = unmix_step b c a 6;
         (a, c) = unmix_step a b c 4
     in (a, b, c))"

lemma unmix_step_mix: "mix_step x y z k = (x', z') \<Longrightarrow> unmix_step x' y z' k = (x, z)"
  by (auto simp: mix_step_def unmix_step_def Let_def xor.assoc)

lemma mix_step_unmix: "unmix_step x y z k = (x', z') \<Longrightarrow> mix_step x' y z' k = (x, z)"
  by (auto simp: mix_step_def unmix_step_def Let_def xor.assoc)

lemma unmix_mix: "unmix (mix (a, b, c)) = (a, b, c)"
proof -
  obtain a1 c1 where 1: "mix_step a b c 4 = (a1, c1)" by fastforce
  obtain b1 a2 where 2: "mix_step b c1 a1 6 = (b1, a2)" by fastforce
  obtain c2 b2 where 3: "mix_step c1 a2 b1 8 = (c2, b2)" by fastforce
  obtain a3 c3 where 4: "mix_step a2 b2 c2 16 = (a3, c3)" by fastforce
  obtain b3 a4 where 5: "mix_step b2 c3 a3 19 = (b3, a4)" by fastforce
  obtain c4 b4 where 6: "mix_step c3 a4 b3 4 = (c4, b4)" by fastforce
  show ?thesis
    by (simp add: mix_def unmix_def 1 2 3 4 5 6 unmix_step_mix [OF 1] unmix_step_mix [OF 2] unmix_step_mix [OF 3]
        unmix_step_mix [OF 4] unmix_step_mix [OF 5] unmix_step_mix [OF 6])
qed

lemma mix_unmix: "mix (unmix (a, b, c)) = (a, b, c)"
proof -
  obtain c1 b1 where 1: "unmix_step c a b 4 = (c1, b1)" by fastforce
  obtain b2 a1 where 2: "unmix_step b1 c1 a 19 = (b2, a1)" by fastforce
  obtain a2 c2 where 3: "unmix_step a1 b2 c1 16 = (a2, c2)" by fastforce
  obtain c3 b3 where 4: "unmix_step c2 a2 b2 8 = (c3, b3)" by fastforce
  obtain b4 a3 where 5: "unmix_step b3 c3 a2 6 = (b4, a3)" by fastforce
  obtain a4 c4 where 6: "unmix_step a3 b4 c3 4 = (a4, c4)" by fastforce
  show ?thesis
    by (simp add: mix_def unmix_def 1 2 3 4 5 6 mix_step_unmix [OF 1] mix_step_unmix [OF 2] mix_step_unmix [OF 3]
        mix_step_unmix [OF 4] mix_step_unmix [OF 5] mix_step_unmix [OF 6])
qed

text \<open>
  \<open>Mix\<close> is reversible, as its comment says: no information in its three words is lost.
\<close>

lemma mix_reversible: "unmix (mix s) = s \<and> mix (unmix s) = s"
  using unmix_mix mix_unmix by (cases s) simp

text \<open>
  With instructions that process the bytes of a word in memory order, as those of the processors
  do, \<open>hashquickany\<close> is the CRC of the bytes one by one.
\<close>

lemma fold_take_drop: "fold f p c = fold f (drop n p) (fold f (take n p) c)"
  by (metis append_take_drop_id comp_apply fold_append)

lemma crc_loop8_bytewise:
  assumes "\<And>crc p. 8 \<le> length p \<Longrightarrow> crc_u64 crc (fetch_word64 p) = fold (\<lambda>b crc. crc_u8 crc b) (take 8 p) crc"
  shows "crc_loop8 crc_u64 crc p = (crc', p') \<Longrightarrow>
    length p' < 8 \<and> fold (\<lambda>b crc. crc_u8 crc b) p crc = fold (\<lambda>b crc. crc_u8 crc b) p' crc'"
proof (induction "length p" arbitrary: p crc rule: less_induct)
  case less
  show ?case
  proof (cases "8 \<le> length p")
    case True
    have "fold (\<lambda>b crc. crc_u8 crc b) p crc = fold (\<lambda>b crc. crc_u8 crc b) (drop 8 p) (fold (\<lambda>b crc. crc_u8 crc b) (take 8 p) crc)"
      by (rule fold_take_drop)
    moreover have "crc_loop8 crc_u64 (crc_u64 crc (fetch_word64 p)) (drop 8 p) = (crc', p')"
      using less.prems True by (simp add: crc_loop8.simps [of crc_u64 crc])
    ultimately show ?thesis using less.hyps [of "drop 8 p"] True assms [OF True] by simp
  next
    case False
    then show ?thesis using less.prems by (simp add: crc_loop8.simps [of crc_u64 crc])
  qed
qed

lemma hashquickany_bytewise:
  assumes "\<And>crc p. 8 \<le> length p \<Longrightarrow> crc_u64 crc (fetch_word64 p) = fold (\<lambda>b crc. crc_u8 crc b) (take 8 p) crc"
    and "\<And>crc p. 4 \<le> length p \<Longrightarrow> crc_u32 crc (fetch_word p 0) = fold (\<lambda>b crc. crc_u8 crc b) (take 4 p) crc"
  shows "hashquickany crc_u64 crc_u32 crc_u8 seed data = fold (\<lambda>b crc. crc_u8 crc b) data seed"
proof -
  obtain crc p where l: "crc_loop8 crc_u64 seed data = (crc, p)" by (cases "crc_loop8 crc_u64 seed data")
  have loop: "fold (\<lambda>b crc. crc_u8 crc b) data seed = fold (\<lambda>b crc. crc_u8 crc b) p crc"
    using crc_loop8_bytewise [OF assms(1) l] by blast
  show ?thesis
  proof (cases "4 \<le> length p")
    case True
    then have "hashquickany crc_u64 crc_u32 crc_u8 seed data =
        fold (\<lambda>b crc. crc_u8 crc b) (drop 4 p) (fold (\<lambda>b crc. crc_u8 crc b) (take 4 p) crc)"
      by (simp add: hashquickany_def l assms(2))
    then show ?thesis unfolding loop by (simp only: fold_take_drop [of _ p crc 4])
  next
    case False
    then show ?thesis unfolding loop by (simp add: hashquickany_def l)
  qed
qed

end
