(* ===== verification/Bitmapset.thy ===== *)
theory Bitmapset
  imports Hash_Fn
begin

text \<open>
  Sets of non-negative integers as arrays of 64-bit words
  (\<open>src/common/algorithm/dstore_bitmapset.cpp\<close>). A set is a pointer, and the null pointer is the
  empty set: the type is an option. The array is the list of its words, so \<open>nwords\<close> is its length.
  Operations that change their input return the changed set. The arguments \<open>alloc_ok\<close> say whether
  memory can be had; without it the result is the null pointer. The loops over the words are
  recursions over the list. Members are integers; the products \<open>wordnum * 64\<close> do not overflow
  for sets that were built from members of type \<open>int\<close>.
\<close>

subsection \<open>Words\<close>

type_synonym bitmapword = uint64
type_synonym Bitmapset = "bitmapword list"

definition BITS_PER_BITMAPWORD :: int where "BITS_PER_BITMAPWORD = 64"
definition WORDNUM :: "int \<Rightarrow> nat" where "WORDNUM x = nat (x div BITS_PER_BITMAPWORD)"
definition BITNUM :: "int \<Rightarrow> nat" where "BITNUM x = nat (x mod BITS_PER_BITMAPWORD)"

definition RIGHTMOST_ONE :: "bitmapword \<Rightarrow> bitmapword" where
  "RIGHTMOST_ONE x = (x AND (x - 1)) XOR x"

definition HAS_MULTIPLE_ONES :: "bitmapword \<Rightarrow> bool" where
  "HAS_MULTIPLE_ONES x \<longleftrightarrow> RIGHTMOST_ONE x \<noteq> x"

definition rightmost_one_pos :: "nat list" where
  "rightmost_one_pos = [
     0, 0, 1, 0, 2, 0, 1, 0, 3, 0, 1, 0, 2, 0, 1, 0, 4, 0, 1, 0, 2, 0, 1, 0, 3, 0, 1, 0, 2, 0, 1, 0,
     5, 0, 1, 0, 2, 0, 1, 0, 3, 0, 1, 0, 2, 0, 1, 0, 4, 0, 1, 0, 2, 0, 1, 0, 3, 0, 1, 0, 2, 0, 1, 0,
     6, 0, 1, 0, 2, 0, 1, 0, 3, 0, 1, 0, 2, 0, 1, 0, 4, 0, 1, 0, 2, 0, 1, 0, 3, 0, 1, 0, 2, 0, 1, 0,
     5, 0, 1, 0, 2, 0, 1, 0, 3, 0, 1, 0, 2, 0, 1, 0, 4, 0, 1, 0, 2, 0, 1, 0, 3, 0, 1, 0, 2, 0, 1, 0,
     7, 0, 1, 0, 2, 0, 1, 0, 3, 0, 1, 0, 2, 0, 1, 0, 4, 0, 1, 0, 2, 0, 1, 0, 3, 0, 1, 0, 2, 0, 1, 0,
     5, 0, 1, 0, 2, 0, 1, 0, 3, 0, 1, 0, 2, 0, 1, 0, 4, 0, 1, 0, 2, 0, 1, 0, 3, 0, 1, 0, 2, 0, 1, 0,
     6, 0, 1, 0, 2, 0, 1, 0, 3, 0, 1, 0, 2, 0, 1, 0, 4, 0, 1, 0, 2, 0, 1, 0, 3, 0, 1, 0, 2, 0, 1, 0,
     5, 0, 1, 0, 2, 0, 1, 0, 3, 0, 1, 0, 2, 0, 1, 0, 4, 0, 1, 0, 2, 0, 1, 0, 3, 0, 1, 0, 2, 0, 1, 0]"

definition number_of_ones :: "nat list" where
  "number_of_ones = [
     0, 1, 1, 2, 1, 2, 2, 3, 1, 2, 2, 3, 2, 3, 3, 4, 1, 2, 2, 3, 2, 3, 3, 4, 2, 3, 3, 4, 3, 4, 4, 5,
     1, 2, 2, 3, 2, 3, 3, 4, 2, 3, 3, 4, 3, 4, 4, 5, 2, 3, 3, 4, 3, 4, 4, 5, 3, 4, 4, 5, 4, 5, 5, 6,
     1, 2, 2, 3, 2, 3, 3, 4, 2, 3, 3, 4, 3, 4, 4, 5, 2, 3, 3, 4, 3, 4, 4, 5, 3, 4, 4, 5, 4, 5, 5, 6,
     2, 3, 3, 4, 3, 4, 4, 5, 3, 4, 4, 5, 4, 5, 5, 6, 3, 4, 4, 5, 4, 5, 5, 6, 4, 5, 5, 6, 5, 6, 6, 7,
     1, 2, 2, 3, 2, 3, 3, 4, 2, 3, 3, 4, 3, 4, 4, 5, 2, 3, 3, 4, 3, 4, 4, 5, 3, 4, 4, 5, 4, 5, 5, 6,
     2, 3, 3, 4, 3, 4, 4, 5, 3, 4, 4, 5, 4, 5, 5, 6, 3, 4, 4, 5, 4, 5, 5, 6, 4, 5, 5, 6, 5, 6, 6, 7,
     2, 3, 3, 4, 3, 4, 4, 5, 3, 4, 4, 5, 4, 5, 5, 6, 3, 4, 4, 5, 4, 5, 5, 6, 4, 5, 5, 6, 5, 6, 6, 7,
     3, 4, 4, 5, 4, 5, 5, 6, 4, 5, 5, 6, 5, 6, 6, 7, 4, 5, 5, 6, 5, 6, 6, 7, 5, 6, 6, 7, 6, 7, 7, 8]"

text \<open>
  The loop that skips the zero bytes of a word and the table lookup behind it; on a zero word the
  loop does not end.
\<close>

partial_function (option) skip_zero_bytes :: "bitmapword \<Rightarrow> int \<Rightarrow> (bitmapword \<times> int) option" where
  "skip_zero_bytes w result =
     (if w AND 255 = 0 then skip_zero_bytes (drop_bit 8 w) (result + 8) else Some (w, result))"

declare skip_zero_bytes.simps [code]

definition first_bit :: "nat \<Rightarrow> bitmapword \<Rightarrow> int option" where
  "first_bit wordnum w =
     (case skip_zero_bytes w (int wordnum * BITS_PER_BITMAPWORD) of
        None \<Rightarrow> None
      | Some (w', result) \<Rightarrow> Some (result + int (rightmost_one_pos ! unat (w' AND 255))))"

text \<open>The loop that counts the bits of a word byte by byte.\<close>

function count_ones :: "bitmapword \<Rightarrow> int \<Rightarrow> int" where
  "count_ones w result =
     (if w \<noteq> 0 then count_ones (drop_bit 8 w) (result + int (number_of_ones ! unat (w AND 255))) else result)"
  by pat_completeness auto

termination
proof (relation "measure (\<lambda>(w, result). unat w)", goal_cases)
  case (2 w result)
  then show ?case by (simp add: drop_bit_eq_div unat_div unat_gt_0)
qed simp

declare count_ones.simps [simp del]

subsection \<open>Tests\<close>

fun words_zero :: "bitmapword list \<Rightarrow> bool" where
  "words_zero [] = True"
| "words_zero (w # ws) = (if w \<noteq> 0 then False else words_zero ws)"

definition BmsIsEmpty :: "Bitmapset option \<Rightarrow> bool" where
  "BmsIsEmpty a = (case a of None \<Rightarrow> True | Some words \<Rightarrow> words_zero words)"

text \<open>The first argument is the longer set.\<close>

fun words_equal :: "bitmapword list \<Rightarrow> bitmapword list \<Rightarrow> bool" where
  "words_equal longer [] = words_zero longer"
| "words_equal (l # ls) (s # ss) = (if l \<noteq> s then False else words_equal ls ss)"
| "words_equal [] (s # ss) = False"

definition BmsEqual :: "Bitmapset option \<Rightarrow> Bitmapset option \<Rightarrow> bool" where
  "BmsEqual a b =
     (case (a, b) of
        (None, None) \<Rightarrow> True
      | (None, Some _) \<Rightarrow> BmsIsEmpty b
      | (Some _, None) \<Rightarrow> BmsIsEmpty a
      | (Some aw, Some bw) \<Rightarrow> if length aw \<le> length bw then words_equal bw aw else words_equal aw bw)"

fun words_subset :: "bitmapword list \<Rightarrow> bitmapword list \<Rightarrow> bool" where
  "words_subset as [] = words_zero as"
| "words_subset [] bs = True"
| "words_subset (a # as) (b # bs) = (if a AND NOT b \<noteq> 0 then False else words_subset as bs)"

definition BmsIsSubset :: "Bitmapset option \<Rightarrow> Bitmapset option \<Rightarrow> bool" where
  "BmsIsSubset a b =
     (case (a, b) of
        (None, _) \<Rightarrow> True
      | (Some _, None) \<Rightarrow> BmsIsEmpty a
      | (Some aw, Some bw) \<Rightarrow> words_subset aw bw)"

datatype BMS_Comparison = BMS_EQUAL | BMS_SUBSET1 | BMS_SUBSET2 | BMS_DIFFERENT

text \<open>One word that the first set has and the second does not, and the other way round.\<close>

definition not_subset_of_second :: "BMS_Comparison \<Rightarrow> BMS_Comparison" where
  "not_subset_of_second result = (if result = BMS_SUBSET1 then BMS_DIFFERENT else BMS_SUBSET2)"

definition not_subset_of_first :: "BMS_Comparison \<Rightarrow> BMS_Comparison" where
  "not_subset_of_first result = (if result = BMS_SUBSET2 then BMS_DIFFERENT else BMS_SUBSET1)"

text \<open>The loops; the early returns are the cases where the status is \<open>BMS_DIFFERENT\<close>.\<close>

fun compare_words :: "BMS_Comparison \<Rightarrow> bitmapword list \<Rightarrow> bitmapword list \<Rightarrow> BMS_Comparison" where
  "compare_words result [] [] = result"
| "compare_words result (a # as) [] =
     (let r = (if a \<noteq> 0 then not_subset_of_second result else result) in
      if r = BMS_DIFFERENT then BMS_DIFFERENT else compare_words r as [])"
| "compare_words result [] (b # bs) =
     (let r = (if b \<noteq> 0 then not_subset_of_first result else result) in
      if r = BMS_DIFFERENT then BMS_DIFFERENT else compare_words r [] bs)"
| "compare_words result (a # as) (b # bs) =
     (let r1 = (if a AND NOT b \<noteq> 0 then not_subset_of_second result else result) in
      if r1 = BMS_DIFFERENT then BMS_DIFFERENT
      else let r2 = (if b AND NOT a \<noteq> 0 then not_subset_of_first r1 else r1) in
        if r2 = BMS_DIFFERENT then BMS_DIFFERENT else compare_words r2 as bs)"

definition BmsSubsetCompare :: "Bitmapset option \<Rightarrow> Bitmapset option \<Rightarrow> BMS_Comparison" where
  "BmsSubsetCompare aSet bSet =
     (case (aSet, bSet) of
        (None, None) \<Rightarrow> BMS_EQUAL
      | (None, Some _) \<Rightarrow> if BmsIsEmpty bSet then BMS_EQUAL else BMS_SUBSET1
      | (Some _, None) \<Rightarrow> if BmsIsEmpty aSet then BMS_EQUAL else BMS_SUBSET2
      | (Some aw, Some bw) \<Rightarrow> compare_words BMS_EQUAL aw bw)"

definition BmsIsMember :: "int \<Rightarrow> Bitmapset option \<Rightarrow> bool" where
  "BmsIsMember x a =
     (if x < 0 then False
      else case a of
        None \<Rightarrow> False
      | Some words \<Rightarrow>
          if WORDNUM x \<ge> length words then False
          else words ! WORDNUM x AND push_bit (BITNUM x) 1 \<noteq> 0)"

fun words_overlap :: "bitmapword list \<Rightarrow> bitmapword list \<Rightarrow> bool" where
  "words_overlap (a # as) (b # bs) = (if a AND b \<noteq> 0 then True else words_overlap as bs)"
| "words_overlap _ _ = False"

definition BmsOverlap :: "Bitmapset option \<Rightarrow> Bitmapset option \<Rightarrow> bool" where
  "BmsOverlap a b =
     (case (a, b) of (Some aw, Some bw) \<Rightarrow> words_overlap aw bw | _ \<Rightarrow> False)"

fun words_difference_nonempty :: "bitmapword list \<Rightarrow> bitmapword list \<Rightarrow> bool" where
  "words_difference_nonempty as [] = (\<not> words_zero as)"
| "words_difference_nonempty [] bs = False"
| "words_difference_nonempty (a # as) (b # bs) =
     (if a AND NOT b \<noteq> 0 then True else words_difference_nonempty as bs)"

definition BmsNonemptyDifference :: "Bitmapset option \<Rightarrow> Bitmapset option \<Rightarrow> bool" where
  "BmsNonemptyDifference aSet bSet =
     (case (aSet, bSet) of
        (None, _) \<Rightarrow> False
      | (Some _, None) \<Rightarrow> \<not> BmsIsEmpty aSet
      | (Some aw, Some bw) \<Rightarrow> words_difference_nonempty aw bw)"

subsection \<open>Counting and searching\<close>

text \<open>\<open>None\<close> stands for a loop that does not end.\<close>

fun singleton_loop :: "int \<Rightarrow> nat \<Rightarrow> bitmapword list \<Rightarrow> int option" where
  "singleton_loop result wordnum [] = Some result"
| "singleton_loop result wordnum (w # ws) =
     (if w \<noteq> 0
      then if result \<ge> 0 \<or> HAS_MULTIPLE_ONES w then Some (-1)
        else (case first_bit wordnum w of None \<Rightarrow> None | Some r \<Rightarrow> singleton_loop r (wordnum + 1) ws)
      else singleton_loop result (wordnum + 1) ws)"

definition BmsSingletonMember :: "Bitmapset option \<Rightarrow> int option" where
  "BmsSingletonMember a =
     (case a of
        None \<Rightarrow> Some (-1)
      | Some words \<Rightarrow> map_option (\<lambda>result. if result < 0 then -1 else result) (singleton_loop (-1) 0 words))"

definition BmsNumMembers :: "Bitmapset option \<Rightarrow> int" where
  "BmsNumMembers aSet = (case aSet of None \<Rightarrow> 0 | Some words \<Rightarrow> fold count_ones words 0)"

datatype BMS_Membership = BMS_EMPTY_SET | BMS_SINGLETON | BMS_MULTIPLE

fun membership_loop :: "BMS_Membership \<Rightarrow> bitmapword list \<Rightarrow> BMS_Membership" where
  "membership_loop result [] = result"
| "membership_loop result (w # ws) =
     (if w \<noteq> 0
      then if result \<noteq> BMS_EMPTY_SET \<or> HAS_MULTIPLE_ONES w then BMS_MULTIPLE
        else membership_loop BMS_SINGLETON ws
      else membership_loop result ws)"

definition BmsMembership :: "Bitmapset option \<Rightarrow> BMS_Membership" where
  "BmsMembership aSet = (case aSet of None \<Rightarrow> BMS_EMPTY_SET | Some words \<Rightarrow> membership_loop BMS_EMPTY_SET words)"

subsection \<open>Operations that make a new set\<close>

definition BmsCopy :: "bool \<Rightarrow> Bitmapset option \<Rightarrow> Bitmapset option" where
  "BmsCopy alloc_ok a = (case a of None \<Rightarrow> None | Some words \<Rightarrow> if alloc_ok then Some words else None)"

definition BmsMakeSingleton :: "bool \<Rightarrow> int \<Rightarrow> Bitmapset option" where
  "BmsMakeSingleton alloc_ok x =
     (if x < 0 \<or> \<not> alloc_ok then None
      else Some ((replicate (WORDNUM x + 1) 0)[WORDNUM x := push_bit (BITNUM x) 1]))"

text \<open>The words of the shorter set are combined into those of the result.\<close>

fun or_words :: "bitmapword list \<Rightarrow> bitmapword list \<Rightarrow> bitmapword list" where
  "or_words (r # rs) (ow # os) = (r OR ow) # or_words rs os"
| "or_words rs _ = rs"

fun and_words :: "bitmapword list \<Rightarrow> bitmapword list \<Rightarrow> bitmapword list" where
  "and_words (r # rs) (ow # os) = (r AND ow) # and_words rs os"
| "and_words rs _ = rs"

fun and_not_words :: "bitmapword list \<Rightarrow> bitmapword list \<Rightarrow> bitmapword list" where
  "and_not_words (r # rs) (ow # os) = (r AND NOT ow) # and_not_words rs os"
| "and_not_words rs _ = rs"

definition BmsUnion :: "bool \<Rightarrow> Bitmapset option \<Rightarrow> Bitmapset option \<Rightarrow> Bitmapset option" where
  "BmsUnion alloc_ok a b =
     (case (a, b) of
        (None, _) \<Rightarrow> BmsCopy alloc_ok b
      | (Some _, None) \<Rightarrow> BmsCopy alloc_ok a
      | (Some aw, Some bw) \<Rightarrow>
          let (result, other) = (if length aw \<le> length bw then (BmsCopy alloc_ok b, aw) else (BmsCopy alloc_ok a, bw)) in
          map_option (\<lambda>words. or_words words other) result)"

definition BmsIntersect :: "bool \<Rightarrow> Bitmapset option \<Rightarrow> Bitmapset option \<Rightarrow> Bitmapset option" where
  "BmsIntersect alloc_ok a b =
     (case (a, b) of
        (Some aw, Some bw) \<Rightarrow>
          let (result, other) = (if length aw \<le> length bw then (BmsCopy alloc_ok a, bw) else (BmsCopy alloc_ok b, aw)) in
          map_option (\<lambda>words. and_words words other) result
      | _ \<Rightarrow> None)"

definition BmsDifference :: "bool \<Rightarrow> Bitmapset option \<Rightarrow> Bitmapset option \<Rightarrow> Bitmapset option" where
  "BmsDifference alloc_ok a b =
     (case (a, b) of
        (None, _) \<Rightarrow> None
      | (Some _, None) \<Rightarrow> BmsCopy alloc_ok a
      | (Some _, Some bw) \<Rightarrow> map_option (\<lambda>words. and_not_words words bw) (BmsCopy alloc_ok a))"

subsection \<open>Operations that change their input\<close>

definition BmsAddMember :: "bool \<Rightarrow> Bitmapset option \<Rightarrow> int \<Rightarrow> Bitmapset option" where
  "BmsAddMember alloc_ok a x =
     (if x < 0 then None
      else case a of
        None \<Rightarrow> BmsMakeSingleton alloc_ok x
      | Some words \<Rightarrow>
          if WORDNUM x \<ge> length words
          then map_option (\<lambda>result. or_words result words) (BmsMakeSingleton alloc_ok x)
          else Some (words[WORDNUM x := words ! WORDNUM x OR push_bit (BITNUM x) 1]))"

definition BmsDelMember :: "Bitmapset option \<Rightarrow> int \<Rightarrow> Bitmapset option" where
  "BmsDelMember a x =
     (if x < 0 then None
      else case a of
        None \<Rightarrow> None
      | Some words \<Rightarrow>
          Some (if WORDNUM x < length words
                then words[WORDNUM x := words ! WORDNUM x AND NOT (push_bit (BITNUM x) 1)] else words))"

definition BmsAddMembers :: "bool \<Rightarrow> Bitmapset option \<Rightarrow> Bitmapset option \<Rightarrow> Bitmapset option" where
  "BmsAddMembers alloc_ok a b =
     (case (a, b) of
        (None, _) \<Rightarrow> BmsCopy alloc_ok b
      | (Some _, None) \<Rightarrow> a
      | (Some aw, Some bw) \<Rightarrow>
          let (result, other) = (if length aw < length bw then (BmsCopy alloc_ok b, aw) else (a, bw)) in
          map_option (\<lambda>words. or_words words other) result)"

text \<open>The words behind the common ones are cleared.\<close>

definition BmsIntMembers :: "Bitmapset option \<Rightarrow> Bitmapset option \<Rightarrow> Bitmapset option" where
  "BmsIntMembers a b =
     (case (a, b) of
        (Some aw, Some bw) \<Rightarrow>
          let shortLen = min (length aw) (length bw) in
          Some (and_words (take shortLen aw) bw @ replicate (length aw - shortLen) 0)
      | _ \<Rightarrow> None)"

definition BmsDelMembers :: "Bitmapset option \<Rightarrow> Bitmapset option \<Rightarrow> Bitmapset option" where
  "BmsDelMembers a b =
     (case (a, b) of
        (None, _) \<Rightarrow> None
      | (Some _, None) \<Rightarrow> a
      | (Some aw, Some bw) \<Rightarrow> Some (and_not_words aw bw))"

definition BmsJoin :: "Bitmapset option \<Rightarrow> Bitmapset option \<Rightarrow> Bitmapset option" where
  "BmsJoin a b =
     (case (a, b) of
        (None, _) \<Rightarrow> b
      | (Some _, None) \<Rightarrow> a
      | (Some aw, Some bw) \<Rightarrow>
          let (result, other) = (if length aw < length bw then (bw, aw) else (aw, bw)) in
          Some (or_words result other))"

subsection \<open>Iteration and hashing\<close>

text \<open>The member and the words left; the number of the first word of the list is given.\<close>

fun first_member_loop :: "nat \<Rightarrow> bitmapword list \<Rightarrow> (int \<times> bitmapword list) option" where
  "first_member_loop wordnum [] = Some (-1, [])"
| "first_member_loop wordnum (w # ws) =
     (if w \<noteq> 0
      then (let word = RIGHTMOST_ONE w in
        map_option (\<lambda>result. (result, (w AND NOT word) # ws)) (first_bit wordnum word))
      else map_option (\<lambda>(result, ws'). (result, w # ws')) (first_member_loop (wordnum + 1) ws))"

definition BmsFirstMember :: "Bitmapset option \<Rightarrow> (int \<times> Bitmapset option) option" where
  "BmsFirstMember a =
     (case a of
        None \<Rightarrow> Some (-1, None)
      | Some words \<Rightarrow> map_option (\<lambda>(result, words'). (result, Some words')) (first_member_loop 0 words))"

fun next_member_loop :: "bitmapword \<Rightarrow> nat \<Rightarrow> bitmapword list \<Rightarrow> int option" where
  "next_member_loop msk wordnum [] = Some (-2)"
| "next_member_loop msk wordnum (w # ws) =
     (let word = w AND msk in
      if word \<noteq> 0 then first_bit wordnum word else next_member_loop (NOT 0) (wordnum + 1) ws)"

definition BmsNextMember :: "Bitmapset option \<Rightarrow> int \<Rightarrow> int option" where
  "BmsNextMember a prevbit =
     (if prevbit < -1 then Some (-1)
      else case a of
        None \<Rightarrow> Some (-2)
      | Some words \<Rightarrow>
          let p = prevbit + 1 in
          next_member_loop (push_bit (BITNUM p) (NOT 0)) (WORDNUM p) (drop (WORDNUM p) words))"

text \<open>
  The hash value of the words up to the last one that is not zero. \<open>hash_any\<close> sees the bytes of
  the array, which may be stored at an aligned address or not.
\<close>

definition bytes_of_bitmapword :: "bitmapword \<Rightarrow> uint8 list" where
  "bytes_of_bitmapword w = map (\<lambda>i. ucast (drop_bit (8 * i) w)) [0..<8]"

definition strip_zero_words :: "bitmapword list \<Rightarrow> bitmapword list" where
  "strip_zero_words words = rev (dropWhile (\<lambda>w. w = 0) (rev words))"

definition BmsHashValue :: "bool \<Rightarrow> Bitmapset option \<Rightarrow> uint32" where
  "BmsHashValue aligned a =
     (case a of
        None \<Rightarrow> 0
      | Some words \<Rightarrow>
          (case strip_zero_words words of
             [] \<Rightarrow> 0
           | ws \<Rightarrow> hash_any aligned (concat (map bytes_of_bitmapword ws))))"

end
