(* ===== verification/Bitmapset_Sets.thy ===== *)
theory Bitmapset_Sets
  imports Bitmapset
begin

text \<open>
  Correctness of \<open>Bitmapset\<close> against finite sets of natural numbers: \<open>bms_set\<close> gives the set a
  bitmap stands for. The first part is about single words: the isolation of the lowest bit, the two
  lookup tables, checked on all 256 bytes, and the byte-wise loops. The second part lifts this to
  lists of words by induction over the list.
\<close>

subsection \<open>Bits of a word\<close>

definition is_lowest :: "bitmapword \<Rightarrow> nat \<Rightarrow> bool" where
  "is_lowest w p \<longleftrightarrow> bit w p \<and> (\<forall>m<p. \<not> bit w m)"

lemma is_lowest_unique: "is_lowest w p \<Longrightarrow> is_lowest w q \<Longrightarrow> p = q"
  unfolding is_lowest_def by (metis nat_neq_iff)

lemma nonzero_bit: "w \<noteq> 0 \<longleftrightarrow> (\<exists>n. bit w n)" for w :: bitmapword
  by (metis bit_eqI bit_0_eq bot_apply bot_bool_def)

lemma lowest_exists: "w \<noteq> 0 \<Longrightarrow> \<exists>p. is_lowest w p"
  unfolding nonzero_bit is_lowest_def using exists_least_iff [of "bit w"] by blast

lemma bit_decrement:
  assumes "is_lowest x p"
  shows "bit (x - 1) n \<longleftrightarrow> n < p \<or> (bit x n \<and> n \<noteq> p)"
proof -
  let ?y = "drop_bit p x"
  have p: "p < 64" using assms bit_imp_le_length [of x p] by (simp add: is_lowest_def)
  have odd: "odd ?y" using assms by (simp add: is_lowest_def bit_iff_odd_drop_bit)
  have "take_bit p x = 0"
    using assms by (intro bit_eqI) (auto simp: bit_simps is_lowest_def)
  then have x: "x = push_bit p ?y" using bits_ident [of p x] by simp
  have "x - 1 = push_bit p (?y - 1) + mask p"
    by (subst x) (simp add: push_bit_eq_mult mask_eq_exp_minus_1 algebra_simps)
  also have "\<dots> = push_bit p (?y - 1) OR mask p"
    by (rule disjunctive_add) (auto simp: bit_simps)
  finally have "bit (x - 1) n \<longleftrightarrow> n < 64 \<and> (n < p \<or> p \<le> n \<and> bit (?y - 1) (n - p))"
    by (auto simp: bit_simps)
  moreover have "bit (?y - 1) (n - p) \<longleftrightarrow> bit ?y (n - p) \<and> n \<noteq> p" if "p \<le> n"
    using odd_bit_iff_bit_pred [OF odd, of "n - p"] that odd by (auto simp: bit_0)
  moreover have "n < 64" if "bit x n" using bit_imp_le_length [OF that] by simp
  ultimately show ?thesis using p by (auto simp: bit_drop_bit_eq)
qed

lemma bit_RIGHTMOST_ONE:
  assumes "is_lowest x p"
  shows "bit (RIGHTMOST_ONE x) n \<longleftrightarrow> n = p"
  using assms bit_decrement [OF assms, of n] unfolding RIGHTMOST_ONE_def is_lowest_def
  by (auto simp: bit_simps)

lemma word_eq_bits: "v = w \<longleftrightarrow> (\<forall>n. bit v n = bit w n)" for v w :: bitmapword
proof
  assume "\<forall>n. bit v n = bit w n"
  then show "v = w" by (intro bit_eqI) simp
qed simp

lemma HAS_MULTIPLE_ONES_iff: "HAS_MULTIPLE_ONES x \<longleftrightarrow> (\<exists>m n. bit x m \<and> bit x n \<and> m \<noteq> n)"
proof (cases "x = 0")
  case False
  then obtain p where p: "is_lowest x p" using lowest_exists by blast
  have "RIGHTMOST_ONE x = x \<longleftrightarrow> (\<forall>n. (n = p) = bit x n)"
    unfolding word_eq_bits bit_RIGHTMOST_ONE [OF p] ..
  moreover have "bit x p" using p by (simp add: is_lowest_def)
  moreover from this have "(\<exists>m n. bit x m \<and> bit x n \<and> m \<noteq> n) \<longleftrightarrow> \<not> (\<forall>n. (n = p) = bit x n)" by auto metis
  ultimately show ?thesis unfolding HAS_MULTIPLE_ONES_def by simp
qed (simp add: HAS_MULTIPLE_ONES_def RIGHTMOST_ONE_def)

lemma and_255: "w AND 255 = take_bit 8 (w :: bitmapword)"
  using take_bit_eq_mask [of 8 w] by (simp add: mask_eq_exp_minus_1)

lemma and_255_zero: "(w :: bitmapword) AND 255 = 0 \<longleftrightarrow> (\<forall>n<8. \<not> bit w n)"
  by (auto simp: and_255 bit_eq_iff bit_simps)

lemma skip_zero_bytes_ok:
  "is_lowest w p \<Longrightarrow> \<exists>w' p' result'. skip_zero_bytes w result = Some (w', result') \<and> is_lowest w' p' \<and> p' < 8 \<and>
     result' + int p' = result + int p"
proof (induction p arbitrary: w result rule: less_induct)
  case (less p)
  show ?case
  proof (cases "w AND 255 = 0")
    case True
    then have p: "8 \<le> p" using less.prems by (meson and_255_zero is_lowest_def not_le)
    have "is_lowest (drop_bit 8 w) (p - 8)"
      using less.prems p by (auto simp: is_lowest_def bit_drop_bit_eq)
    with less.IH [of "p - 8" "drop_bit 8 w" "result + 8"] p show ?thesis
      by (subst skip_zero_bytes.simps) (use True in auto)
  next
    case False
    then have "p < 8" using less.prems by (metis and_255_zero is_lowest_def not_le order.strict_trans2)
    then show ?thesis using less.prems False by (subst skip_zero_bytes.simps) auto
  qed
qed

lemma table_check:
  "list_all (\<lambda>x :: int. list_all (\<lambda>p. (bit x p \<and> list_all (\<lambda>m. \<not> bit x m) [0..<p]) \<longrightarrow> rightmost_one_pos ! nat x = p) [0..<8] \<and>
     number_of_ones ! nat x = sum_list (map (\<lambda>i. if bit x i then 1 else 0) [0..<8])) [0..255]"
  by code_simp

lemma byte_bits: "bit (uint (w AND 255 :: bitmapword)) n \<longleftrightarrow> n < 8 \<and> bit w n"
  by (auto simp: and_255 bit_uint_iff bit_take_bit_iff dest: bit_imp_le_length)

lemma byte_range: "0 \<le> uint (w AND 255 :: bitmapword)" "uint (w AND 255 :: bitmapword) \<le> 255"
proof -
  have "uint (w AND 255) = take_bit 8 (uint w)" by (simp only: and_255 unsigned_take_bit_eq)
  then show "0 \<le> uint (w AND 255)" "uint (w AND 255) \<le> 255" using take_bit_int_less_exp [of 8 "uint w"] by simp_all
qed

lemma byte_table:
  fixes x :: int
  assumes "0 \<le> x" "x \<le> 255"
  shows "p < 8 \<Longrightarrow> bit x p \<Longrightarrow> \<forall>m<p. \<not> bit x m \<Longrightarrow> rightmost_one_pos ! nat x = p"
    and "number_of_ones ! nat x = sum_list (map (\<lambda>i. if bit x i then 1 else 0) [0..<8])"
proof -
  have x: "x \<in> set [0..255]" using assms by (simp only: set_upto atLeastAtMost_iff)
  note c = table_check [unfolded list_all_iff, THEN bspec, OF x]
  show "p < 8 \<Longrightarrow> bit x p \<Longrightarrow> \<forall>m<p. \<not> bit x m \<Longrightarrow> rightmost_one_pos ! nat x = p"
    using c [THEN conjunct1, THEN bspec, of p] by (simp only: set_upt atLeastLessThan_iff) auto
  show "number_of_ones ! nat x = sum_list (map (\<lambda>i. if bit x i then 1 else 0) [0..<8])"
    by (rule c [THEN conjunct2])
qed

lemma rightmost_one_pos_ok:
  assumes "is_lowest w p" "p < 8"
  shows "rightmost_one_pos ! unat (w AND 255) = p"
  unfolding unat_eq_nat_uint
proof (rule byte_table(1) [OF byte_range assms(2)])
  show "bit (uint (w AND 255)) p" unfolding byte_bits using assms by (simp add: is_lowest_def)
  show "\<forall>m<p. \<not> bit (uint (w AND 255)) m" unfolding byte_bits using assms by (simp add: is_lowest_def)
qed

lemma first_bit_ok:
  assumes "is_lowest w p"
  shows "first_bit k w = Some (64 * int k + int p)"
proof -
  obtain w' p' r where "skip_zero_bytes w (int k * 64) = Some (w', r)" "is_lowest w' p'" "p' < 8"
    "r + int p' = int k * 64 + int p" using skip_zero_bytes_ok [OF assms] by blast
  then show ?thesis by (simp add: first_bit_def BITS_PER_BITMAPWORD_def rightmost_one_pos_ok)
qed

lemma finite_bits [simp]: "finite {n. bit (w :: bitmapword) n}"
proof (rule finite_subset)
  show "{n. bit w n} \<subseteq> {..<64}" using bit_imp_le_length [of w] by auto
qed simp

lemma number_of_ones_ok: "number_of_ones ! unat (w AND 255) = card {n. n < 8 \<and> bit w n}" for w :: bitmapword
proof -
  have "sum_list (map (\<lambda>i. if P i then 1 else 0) xs) = length (filter P xs)" for P and xs :: "nat list"
    by (induction xs) auto
  moreover have "length (filter (bit (uint (w AND 255))) [0..<8]) = card (set (filter (bit (uint (w AND 255))) [0..<8]))"
    by (rule distinct_card [symmetric]) simp
  moreover have "set (filter (bit (uint (w AND 255))) [0..<8]) = {n. n < 8 \<and> bit w n}"
    unfolding set_filter set_upt byte_bits by auto
  ultimately show ?thesis unfolding unat_eq_nat_uint byte_table(2) [OF byte_range, of w] by (simp only:)
qed

lemma count_ones_ok: "count_ones w r = r + int (card {n. bit w n})"
proof (induction w r rule: count_ones.induct)
  case (1 w r)
  show ?case
  proof (cases "w = 0")
    case False
    have "{n. bit w n} = {n. n < 8 \<and> bit w n} \<union> (\<lambda>n. n + 8) ` {n. bit (drop_bit 8 w) n}"
      by (auto simp: bit_drop_bit_eq image_iff add.commute) (metis add.commute le_add_diff_inverse2 not_less)
    then have "card {n. bit w n} = card {n. n < 8 \<and> bit w n} + card {n. bit (drop_bit 8 w) n}"
      by (simp only:) (subst card_Un_disjoint, auto simp: card_image)
    then show ?thesis using 1 False by (subst count_ones.simps) (simp add: number_of_ones_ok)
  qed (subst count_ones.simps, simp add: bot_set_def [symmetric])
qed

subsection \<open>The set a bitmap stands for\<close>

definition words_set :: "bitmapword list \<Rightarrow> nat set" where
  "words_set ws = {i. i div 64 < length ws \<and> bit (ws ! (i div 64)) (i mod 64)}"

definition bms_set :: "Bitmapset option \<Rightarrow> nat set" where
  "bms_set a = (case a of None \<Rightarrow> {} | Some ws \<Rightarrow> words_set ws)"

lemma bms_set_simps [simp]: "bms_set None = {}" "bms_set (Some ws) = words_set ws"
  by (simp_all add: bms_set_def)

lemma bit_less_64: "bit (w :: bitmapword) n \<Longrightarrow> n < 64"
  using bit_imp_le_length [of w n] by simp

lemma words_set_Nil [simp]: "words_set [] = {}"
  by (simp add: words_set_def)

lemma in_words_set_Cons: "i \<in> words_set (w # ws) \<longleftrightarrow> (if i < 64 then bit w i else i - 64 \<in> words_set ws)"
proof (cases "i < 64")
  case False
  then have "i div 64 = Suc ((i - 64) div 64)" "i mod 64 = (i - 64) mod 64"
    by (simp_all add: le_div_geq le_mod_geq)
  then show ?thesis using False by (simp add: words_set_def)
qed (simp add: words_set_def)

lemma words_set_Cons: "words_set (w # ws) = {n. bit w n} \<union> (\<lambda>i. i + 64) ` words_set ws"
proof (rule set_eqI)
  fix i
  have "i - 64 \<in> words_set ws \<longleftrightarrow> i \<in> (\<lambda>i. i + 64) ` words_set ws" if "\<not> i < 64"
    using that by (auto simp: image_iff) (metis le_add_diff_inverse2 not_less)
  then show "i \<in> words_set (w # ws) \<longleftrightarrow> i \<in> {n. bit w n} \<union> (\<lambda>i. i + 64) ` words_set ws"
    using bit_less_64 [of w i] by (auto simp: in_words_set_Cons)
qed

lemma words_zero_iff: "words_zero ws \<longleftrightarrow> words_set ws = {}"
  by (induction ws) (auto simp: words_set_Cons nonzero_bit)

lemma words_zero_replicate: "words_set (replicate n 0) = {}"
  by (induction n) (auto simp: words_set_Cons)

lemma words_set_finite [simp]: "finite (words_set ws)"
  by (induction ws) (simp_all add: words_set_Cons)

lemma words_equal_iff: "length ss \<le> length ls \<Longrightarrow> words_equal ls ss \<longleftrightarrow> words_set ls = words_set ss"
proof (induction ls ss rule: words_equal.induct)
  case (2 l ls s ss)
  have "words_set (l # ls) = words_set (s # ss) \<longleftrightarrow> l = s \<and> words_set ls = words_set ss"
  proof
    assume eq: "words_set (l # ls) = words_set (s # ss)"
    have "bit l i = bit s i" for i
      using eq [THEN eqset_imp_iff, of i] bit_less_64 [of l i] bit_less_64 [of s i] by (auto simp: in_words_set_Cons split: if_splits)
    moreover have "i \<in> words_set ls \<longleftrightarrow> i \<in> words_set ss" for i
      using eq [THEN eqset_imp_iff, of "i + 64"] by (simp add: in_words_set_Cons)
    ultimately show "l = s \<and> words_set ls = words_set ss" by (auto simp: word_eq_bits)
  qed (simp add: words_set_Cons)
  then show ?case using 2 by simp
qed (simp_all add: words_zero_iff)

lemma words_subset_iff: "words_subset as bs \<longleftrightarrow> words_set as \<subseteq> words_set bs"
proof (induction as bs rule: words_subset.induct)
  case (3 a as b bs)
  have "words_set (a # as) \<subseteq> words_set (b # bs) \<longleftrightarrow> (\<forall>n. bit a n \<longrightarrow> bit b n) \<and> words_set as \<subseteq> words_set bs"
  proof
    assume sub: "words_set (a # as) \<subseteq> words_set (b # bs)"
    have "bit b i" if "bit a i" for i
      using subsetD [OF sub, of i] that bit_less_64 [of a i] by (simp add: in_words_set_Cons)
    moreover have "i \<in> words_set bs" if "i \<in> words_set as" for i
      using subsetD [OF sub, of "i + 64"] that by (simp add: in_words_set_Cons)
    ultimately show "(\<forall>n. bit a n \<longrightarrow> bit b n) \<and> words_set as \<subseteq> words_set bs" by blast
  qed (auto simp: words_set_Cons)
  moreover have "a AND NOT b = 0 \<longleftrightarrow> (\<forall>n. bit a n \<longrightarrow> bit b n)"
    using bit_less_64 [of a] by (auto simp: word_eq_bits bit_simps)
  ultimately show ?case using 3 by simp
qed (auto simp: words_zero_iff)

lemma words_overlap_iff: "words_overlap as bs \<longleftrightarrow> words_set as \<inter> words_set bs \<noteq> {}"
proof (induction as bs rule: words_overlap.induct)
  case (1 a as b bs)
  have "words_set (a # as) \<inter> words_set (b # bs) = {} \<longleftrightarrow> (\<forall>n. \<not> (bit a n \<and> bit b n)) \<and> words_set as \<inter> words_set bs = {}"
    using bit_less_64 [of a] bit_less_64 [of b] by (fastforce simp: words_set_Cons)
  moreover have "a AND b = 0 \<longleftrightarrow> (\<forall>n. \<not> (bit a n \<and> bit b n))"
    by (auto simp: word_eq_bits bit_simps)
  ultimately show ?case using 1 by auto
qed auto

lemma words_difference_nonempty_iff: "words_difference_nonempty as bs \<longleftrightarrow> \<not> words_subset as bs"
  by (induction as bs rule: words_difference_nonempty.induct) auto

text \<open>A comparison as two inclusions.\<close>

definition comparison_of :: "bool \<Rightarrow> bool \<Rightarrow> BMS_Comparison" where
  "comparison_of sub12 sub21 =
     (if sub12 then if sub21 then BMS_EQUAL else BMS_SUBSET1 else if sub21 then BMS_SUBSET2 else BMS_DIFFERENT)"

lemma comparison_of_simps [simp]:
  "p \<or> q \<Longrightarrow> not_subset_of_second (comparison_of p q) = comparison_of False q"
  "p \<or> q \<Longrightarrow> not_subset_of_first (comparison_of p q) = comparison_of p False"
  "comparison_of p q = BMS_DIFFERENT \<longleftrightarrow> \<not> p \<and> \<not> q" "BMS_DIFFERENT = comparison_of p q \<longleftrightarrow> \<not> p \<and> \<not> q"
  by (auto simp: comparison_of_def not_subset_of_second_def not_subset_of_first_def)

lemma words_subset_Nil [simp]: "words_subset [] bs"
  by (cases bs) simp_all

lemma compare_words_second_shorter:
  "p \<or> q \<Longrightarrow> compare_words (comparison_of p q) as [] = comparison_of (p \<and> words_zero as) q"
  by (induction as arbitrary: p q) (auto simp: Let_def)

lemma compare_words_first_shorter:
  "p \<or> q \<Longrightarrow> compare_words (comparison_of p q) [] bs = comparison_of p (q \<and> words_zero bs)"
  by (induction bs arbitrary: p q) (auto simp: Let_def)

lemma compare_words_iff:
  "p \<or> q \<Longrightarrow> compare_words (comparison_of p q) as bs = comparison_of (p \<and> words_subset as bs) (q \<and> words_subset bs as)"
proof (induction as arbitrary: p q bs)
  case Nil
  then show ?case by (simp add: compare_words_first_shorter)
next
  case (Cons a as)
  show ?case
  proof (cases bs)
    case Nil
    then show ?thesis using compare_words_second_shorter [OF Cons.prems, of "a # as"] by simp
  next
    case (Cons b bs')
    let ?p = "p \<and> a AND NOT b = 0" and ?q = "q \<and> b AND NOT a = 0"
    have r1: "(if a AND NOT b \<noteq> 0 then not_subset_of_second (comparison_of p q) else comparison_of p q) = comparison_of ?p q"
      using Cons.prems by auto
    have r2: "?p \<or> q \<Longrightarrow> (if b AND NOT a \<noteq> 0 then not_subset_of_first (comparison_of ?p q) else comparison_of ?p q) = comparison_of ?p ?q"
      by auto
    show ?thesis
    proof (cases "?p \<or> ?q")
      case True
      then show ?thesis using Cons r1 r2 Cons.IH [OF True, of bs'] by (auto simp: Let_def)
    next
      case False
      then show ?thesis using Cons r1 r2 by (auto simp: Let_def comparison_of_def)
    qed
  qed
qed

lemma in_or_words: "length os \<le> length rs \<Longrightarrow> i \<in> words_set (or_words rs os) \<longleftrightarrow> i \<in> words_set rs \<or> i \<in> words_set os"
  by (induction rs os arbitrary: i rule: or_words.induct) (auto simp: in_words_set_Cons bit_simps)

lemma in_and_words: "length rs \<le> length os \<Longrightarrow> i \<in> words_set (and_words rs os) \<longleftrightarrow> i \<in> words_set rs \<and> i \<in> words_set os"
  by (induction rs os arbitrary: i rule: and_words.induct) (auto simp: in_words_set_Cons bit_simps)

lemma in_and_not_words: "i \<in> words_set (and_not_words rs os) \<longleftrightarrow> i \<in> words_set rs \<and> i \<notin> words_set os"
  by (induction rs os arbitrary: i rule: and_not_words.induct) (auto simp: in_words_set_Cons bit_simps dest: bit_less_64)

lemma words_set_append_zero: "words_set (ws @ replicate n 0) = words_set ws"
  by (induction ws) (simp_all add: words_set_Cons words_zero_replicate)

lemma words_set_take_and:
  "words_set (and_words (take (min (length aw) (length bw)) aw) bw) = words_set aw \<inter> words_set bw"
proof (rule set_eqI)
  fix i
  have "i \<in> words_set (take (length bw) aw) \<longleftrightarrow> i \<in> words_set aw \<and> i div 64 < length bw"
    by (auto simp: words_set_def)
  moreover have "i \<in> words_set bw \<Longrightarrow> i div 64 < length bw" by (simp add: words_set_def)
  moreover have "take (min (length aw) (length bw)) aw = take (length bw) aw" by (simp add: min_def)
  ultimately show "i \<in> words_set (and_words (take (min (length aw) (length bw)) aw) bw) \<longleftrightarrow> i \<in> words_set aw \<inter> words_set bw"
    using in_and_words [of "take (length bw) aw" bw i] by auto
qed

lemma words_set_update:
  assumes "k < length ws"
  shows "i \<in> words_set (ws[k := w]) \<longleftrightarrow> (if i div 64 = k then bit w (i mod 64) else i \<in> words_set ws)"
  using assms by (auto simp: words_set_def nth_list_update)

lemma WORDNUM_BITNUM:
  assumes "0 \<le> x"
  shows "WORDNUM x = nat x div 64" "BITNUM x = nat x mod 64"
  using assms by (simp_all add: WORDNUM_def BITNUM_def BITS_PER_BITMAPWORD_def nat_div_distrib nat_mod_distrib)

lemma div_mod_eq_iff: "i div 64 = x div 64 \<and> i mod 64 = x mod 64 \<longleftrightarrow> i = (x :: nat)"
  by (metis div_mult_mod_eq)

lemma bit_single: "b < 64 \<Longrightarrow> bit (push_bit b 1 :: bitmapword) m \<longleftrightarrow> m = b"
  using bit_push_bit_iff [of b "1 :: bitmapword" m] by (auto simp: bit_1_iff)

lemma words_set_or_single:
  assumes "0 \<le> x" "WORDNUM x < length ws"
  shows "words_set (ws[WORDNUM x := ws ! WORDNUM x OR push_bit (BITNUM x) 1]) = insert (nat x) (words_set ws)"
proof (rule set_eqI)
  fix i
  have b: "BITNUM x < 64" using assms(1) by (simp add: WORDNUM_BITNUM)
  have "i div 64 = WORDNUM x \<and> i mod 64 = BITNUM x \<longleftrightarrow> i = nat x"
    unfolding WORDNUM_BITNUM [OF assms(1)] by (rule div_mod_eq_iff)
  then show "i \<in> words_set (ws[WORDNUM x := ws ! WORDNUM x OR push_bit (BITNUM x) 1]) \<longleftrightarrow> i \<in> insert (nat x) (words_set ws)"
    using assms(2) unfolding words_set_update [OF assms(2)] bit_or_iff bit_single [OF b]
    by (auto simp: words_set_def)
qed

lemma words_set_and_not_single:
  assumes "0 \<le> x" "WORDNUM x < length ws"
  shows "words_set (ws[WORDNUM x := ws ! WORDNUM x AND NOT (push_bit (BITNUM x) 1)]) = words_set ws - {nat x}"
proof (rule set_eqI)
  fix i
  have "i div 64 = WORDNUM x \<and> i mod 64 = BITNUM x \<longleftrightarrow> i = nat x"
    unfolding WORDNUM_BITNUM [OF assms(1)] by (rule div_mod_eq_iff)
  then show "i \<in> words_set (ws[WORDNUM x := ws ! WORDNUM x AND NOT (push_bit (BITNUM x) 1)]) \<longleftrightarrow> i \<in> words_set ws - {nat x}"
    using assms(2) unfolding words_set_update [OF assms(2)] bit_and_not_single
    by (auto simp: words_set_def)
qed

lemma BmsMakeSingleton_set:
  assumes "0 \<le> x"
  obtains ws where "BmsMakeSingleton True x = Some ws" "words_set ws = {nat x}" "length ws = WORDNUM x + 1"
proof
  let ?ws = "(replicate (WORDNUM x + 1) 0)[WORDNUM x := push_bit (BITNUM x) 1] :: bitmapword list"
  show "BmsMakeSingleton True x = Some ?ws" using assms by (simp only: BmsMakeSingleton_def) simp
  have "?ws = (replicate (WORDNUM x + 1) 0)[WORDNUM x := replicate (WORDNUM x + 1) 0 ! WORDNUM x OR push_bit (BITNUM x) 1]"
    by (simp only: nth_replicate less_add_one or.left_neutral)
  then show "words_set ?ws = {nat x}"
    using words_set_or_single [OF assms, of "replicate (WORDNUM x + 1) 0"]
    by (simp only: length_replicate less_add_one words_zero_replicate)
qed (simp only: length_list_update length_replicate)

lemma words_zero_set [simp]: "words_set ws = {} \<longleftrightarrow> words_zero ws" "{} = words_set ws \<longleftrightarrow> words_zero ws"
  by (auto simp: words_zero_iff)

lemma BmsUnion_set: "bms_set (BmsUnion True a b) = bms_set a \<union> bms_set b"
  by (cases a; cases b) (auto simp: BmsUnion_def BmsCopy_def in_or_words)

lemma BmsIntersect_set: "bms_set (BmsIntersect True a b) = bms_set a \<inter> bms_set b"
  by (cases a; cases b) (auto simp: BmsIntersect_def BmsCopy_def in_and_words)

lemma BmsDifference_set: "bms_set (BmsDifference True a b) = bms_set a - bms_set b"
  by (cases a; cases b) (auto simp: BmsDifference_def BmsCopy_def in_and_not_words)

lemma BmsAddMembers_set: "bms_set (BmsAddMembers True a b) = bms_set a \<union> bms_set b"
  by (cases a; cases b) (auto simp: BmsAddMembers_def BmsCopy_def in_or_words)

lemma BmsJoin_set: "bms_set (BmsJoin a b) = bms_set a \<union> bms_set b"
  by (cases a; cases b) (auto simp: BmsJoin_def in_or_words)

lemma BmsDelMembers_set: "bms_set (BmsDelMembers a b) = bms_set a - bms_set b"
  by (cases a; cases b) (auto simp: BmsDelMembers_def in_and_not_words)

lemma BmsIntMembers_set: "bms_set (BmsIntMembers a b) = bms_set a \<inter> bms_set b"
  by (cases a; cases b) (simp_all add: BmsIntMembers_def words_set_append_zero words_set_take_and Let_def)

lemma BmsAddMember_set: "0 \<le> x \<Longrightarrow> bms_set (BmsAddMember True a x) = insert (nat x) (bms_set a)"
proof (cases a)
  case None
  assume "0 \<le> x"
  then obtain ws where "BmsMakeSingleton True x = Some ws" "words_set ws = {nat x}" by (rule BmsMakeSingleton_set)
  then show ?thesis using None \<open>0 \<le> x\<close> by (simp add: BmsAddMember_def)
next
  case (Some aw)
  assume x: "0 \<le> x"
  then obtain ws where ws: "BmsMakeSingleton True x = Some ws" "words_set ws = {nat x}" "length ws = WORDNUM x + 1"
    by (rule BmsMakeSingleton_set)
  show ?thesis
  proof (cases "WORDNUM x \<ge> length aw")
    case True
    then show ?thesis using Some x ws in_or_words [of aw ws] by (auto simp: BmsAddMember_def)
  next
    case False
    then show ?thesis using Some x words_set_or_single [OF x, of aw] by (simp add: BmsAddMember_def del: push_bit_of_1)
  qed
qed

lemma BmsDelMember_set: "0 \<le> x \<Longrightarrow> bms_set (BmsDelMember a x) = bms_set a - {nat x}"
proof (cases a)
  case (Some aw)
  assume x: "0 \<le> x"
  show ?thesis
  proof (cases "WORDNUM x < length aw")
    case True
    then show ?thesis using Some x words_set_and_not_single [OF x, of aw] by (simp add: BmsDelMember_def del: push_bit_of_1)
  next
    case False
    then have "nat x \<notin> words_set aw" using x by (simp add: words_set_def WORDNUM_BITNUM)
    then show ?thesis using Some x False by (simp add: BmsDelMember_def)
  qed
qed (simp add: BmsDelMember_def)

lemma BmsIsEmpty_iff: "BmsIsEmpty a \<longleftrightarrow> bms_set a = {}"
  by (cases a) (simp_all add: BmsIsEmpty_def)

lemma BmsIsMember_iff: "BmsIsMember x a \<longleftrightarrow> 0 \<le> x \<and> nat x \<in> bms_set a"
proof (cases "0 \<le> x")
  case True
  then show ?thesis
    by (cases a) (auto simp: BmsIsMember_def words_set_def WORDNUM_BITNUM and_single_bit_iff simp del: push_bit_of_1)
qed (simp add: BmsIsMember_def)

lemma BmsEqual_iff: "BmsEqual a b \<longleftrightarrow> bms_set a = bms_set b"
  by (cases a; cases b) (auto simp: BmsEqual_def BmsIsEmpty_iff words_equal_iff)

lemma BmsIsSubset_iff: "BmsIsSubset a b \<longleftrightarrow> bms_set a \<subseteq> bms_set b"
  by (cases a; cases b) (auto simp: BmsIsSubset_def BmsIsEmpty_iff words_subset_iff)

lemma BmsOverlap_iff: "BmsOverlap a b \<longleftrightarrow> bms_set a \<inter> bms_set b \<noteq> {}"
  by (cases a; cases b) (simp_all add: BmsOverlap_def words_overlap_iff)

lemma BmsNonemptyDifference_iff: "BmsNonemptyDifference a b \<longleftrightarrow> bms_set a - bms_set b \<noteq> {}"
  by (cases a; cases b)
    (simp_all add: BmsNonemptyDifference_def BmsIsEmpty_iff words_difference_nonempty_iff words_subset_iff)

lemma BmsSubsetCompare_eq: "BmsSubsetCompare a b = comparison_of (bms_set a \<subseteq> bms_set b) (bms_set b \<subseteq> bms_set a)"
proof -
  have e: "BMS_EQUAL = comparison_of True True" by (simp add: comparison_of_def)
  show ?thesis
    by (cases a; cases b)
      (simp_all add: BmsSubsetCompare_def BmsIsEmpty_iff e compare_words_iff words_subset_iff, simp_all add: comparison_of_def)
qed

lemma card_words_set_Cons: "card (words_set (w # ws)) = card {n. bit w n} + card (words_set ws)"
proof -
  have "{n. bit w n} \<inter> (\<lambda>i. i + 64) ` words_set ws = {}" using bit_less_64 [of w] by fastforce
  then show ?thesis by (simp add: words_set_Cons card_Un_disjoint card_image)
qed

lemma fold_count_ones: "fold count_ones ws r = r + int (card (words_set ws))"
  by (induction ws arbitrary: r) (simp_all add: card_words_set_Cons count_ones_ok)

lemma BmsNumMembers_card: "BmsNumMembers a = int (card (bms_set a))"
  by (cases a) (simp_all add: BmsNumMembers_def fold_count_ones)

definition is_least :: "nat set \<Rightarrow> nat \<Rightarrow> bool" where
  "is_least S m \<longleftrightarrow> m \<in> S \<and> (\<forall>i\<in>S. m \<le> i)"

lemma is_least_Cons_nonzero:
  assumes "is_lowest w p"
  shows "is_least (words_set (w # ws)) p"
proof -
  have "p < 64" using assms bit_less_64 [of w p] by (simp add: is_lowest_def)
  then show ?thesis using assms by (auto simp: is_least_def is_lowest_def in_words_set_Cons not_less [symmetric] split: if_splits)
qed

lemma is_least_Cons_zero: "is_least (words_set ws) m \<Longrightarrow> is_least (words_set (0 # ws)) (m + 64)"
  by (auto simp: is_least_def words_set_Cons)

lemma first_member_loop_zero: "words_zero ws \<Longrightarrow> first_member_loop k ws = Some (-1, ws)"
  by (induction ws arbitrary: k) (auto split: if_splits)

lemma words_set_clear_lowest:
  assumes "is_lowest w p"
  shows "words_set ((w AND NOT (RIGHTMOST_ONE w)) # ws) = words_set (w # ws) - {p}"
proof (rule set_eqI)
  fix i
  have "p < 64" using assms bit_less_64 [of w p] by (simp add: is_lowest_def)
  moreover have "bit (w AND NOT (RIGHTMOST_ONE w)) i \<longleftrightarrow> bit w i \<and> i \<noteq> p"
    using bit_less_64 [of w i] unfolding bit_and_iff bit_not_iff_eq bit_RIGHTMOST_ONE [OF assms] by auto
  ultimately show "i \<in> words_set ((w AND NOT (RIGHTMOST_ONE w)) # ws) \<longleftrightarrow> i \<in> words_set (w # ws) - {p}"
    by (auto simp: in_words_set_Cons)
qed

lemma first_member_step:
  assumes "is_lowest w p" "w \<noteq> 0"
  shows "first_member_loop k (w # ws) = Some (64 * int k + int p, (w AND NOT (RIGHTMOST_ONE w)) # ws)"
proof -
  have "is_lowest (RIGHTMOST_ONE w) p" unfolding is_lowest_def bit_RIGHTMOST_ONE [OF assms(1)] by simp
  from first_bit_ok [OF this, of k] show ?thesis using assms(2) by (simp add: Let_def)
qed

lemma first_member_loop_nonzero:
  "\<not> words_zero ws \<Longrightarrow> \<exists>m ws'. first_member_loop k ws = Some (64 * int k + int m, ws') \<and> is_least (words_set ws) m \<and>
     words_set ws' = words_set ws - {m}"
proof (induction ws arbitrary: k)
  case (Cons w ws)
  show ?case
  proof (cases "w = 0")
    case True
    then obtain m ws' where m: "first_member_loop (Suc k) ws = Some (64 * int (Suc k) + int m, ws')"
      "is_least (words_set ws) m" "words_set ws' = words_set ws - {m}" using Cons.IH [of "Suc k"] Cons.prems by auto
    have "words_set (0 # ws') = words_set (0 # ws) - {m + 64}"
      unfolding words_set_Cons m(3) by auto
    then show ?thesis using True m(1) is_least_Cons_zero [OF m(2)]
      by (intro exI [of _ "m + 64"] exI [of _ "0 # ws'"]) simp
  next
    case False
    then obtain p where p: "is_lowest w p" using lowest_exists by blast
    show ?thesis using first_member_step [OF p False] is_least_Cons_nonzero [OF p] words_set_clear_lowest [OF p] by blast
  qed
qed simp

lemma HAS_MULTIPLE_ONES_card: "HAS_MULTIPLE_ONES w \<longleftrightarrow> 1 < card {n. bit w n}"
proof -
  have "card {n. bit w n} \<le> Suc 0 \<longleftrightarrow> (\<forall>m n. bit w m \<longrightarrow> bit w n \<longrightarrow> m = n)"
    by (simp add: card_le_Suc0_iff_eq)
  then show ?thesis unfolding HAS_MULTIPLE_ONES_iff by auto
qed

lemma card_bits_pos: "w \<noteq> 0 \<Longrightarrow> 0 < card {n. bit w n}" for w :: bitmapword
  using nonzero_bit [of w] by (auto simp: card_gt_0_iff)

lemma card_bits_zero: "card {n. bit (0 :: bitmapword) n} = 0"
  by (simp add: bot_set_def [symmetric])

lemma card_words_zero: "card (words_set ws) = 0 \<longleftrightarrow> words_zero ws"
  by (simp add: words_zero_iff [symmetric])

lemma membership_loop_card:
  "membership_loop BMS_SINGLETON ws = (if words_zero ws then BMS_SINGLETON else BMS_MULTIPLE)"
  "membership_loop BMS_EMPTY_SET ws =
     (if card (words_set ws) = 0 then BMS_EMPTY_SET else if card (words_set ws) = 1 then BMS_SINGLETON else BMS_MULTIPLE)"
proof (induction ws)
  case (Cons w ws)
  {
    case 1
    then show ?case using Cons by simp
  next
    case 2
    show ?case
    proof (cases "w = 0")
      case True
      then show ?thesis using Cons by (simp add: card_words_set_Cons card_bits_zero)
    next
      case False
      define c d where "c = card {n. bit w n}" and "d = card (words_set ws)"
      then have cd: "0 < c" "HAS_MULTIPLE_ONES w \<longleftrightarrow> 1 < c" "words_zero ws \<longleftrightarrow> d = 0" "card (words_set (w # ws)) = c + d"
        using card_bits_pos [OF False] HAS_MULTIPLE_ONES_card card_words_zero card_words_set_Cons by metis+
      show ?thesis unfolding cd(4) using Cons(1) False cd(1) by (auto simp: cd(2,3))
    qed
  }
qed simp_all

lemma BmsMembership_card:
  "BmsMembership a =
     (if card (bms_set a) = 0 then BMS_EMPTY_SET else if card (bms_set a) = 1 then BMS_SINGLETON else BMS_MULTIPLE)"
  by (cases a) (simp_all add: BmsMembership_def membership_loop_card(2))

lemma singleton_loop_found: "0 \<le> r \<Longrightarrow> singleton_loop r k ws = Some (if words_zero ws then r else -1)"
  by (induction ws arbitrary: k) simp_all

lemma singleton_loop_ok:
  "singleton_loop (-1) k ws = Some (if card (words_set ws) = 1 then 64 * int k + int (Min (words_set ws)) else -1)"
proof (induction ws arbitrary: k)
  case (Cons w ws)
  show ?case
  proof (cases "w = 0")
    case True
    have "Min (words_set (0 # ws)) = Min (words_set ws) + 64" if "card (words_set ws) = 1"
      using that by (auto simp: words_set_Cons card_1_singleton_iff)
    then show ?thesis using True Cons.IH [of "Suc k"] by (auto simp: card_words_set_Cons card_bits_zero)
  next
    case False
    then obtain p where p: "is_lowest w p" using lowest_exists by blast
    have pos: "0 < card {n. bit w n}" using False by (rule card_bits_pos)
    show ?thesis
    proof (cases "HAS_MULTIPLE_ONES w")
      case True
      then show ?thesis using False HAS_MULTIPLE_ONES_card [of w] by (simp add: card_words_set_Cons)
    next
      case single: False
      have "Min (words_set (w # ws)) = p" if "words_zero ws"
        using is_least_Cons_nonzero [OF p, of ws] by (auto simp: is_least_def intro!: Min_eqI)
      moreover have "card {n. bit w n} = 1" using pos single HAS_MULTIPLE_ONES_card [of w] by simp
      ultimately have "card (words_set (w # ws)) = 1 \<longleftrightarrow> words_zero ws" "words_zero ws \<Longrightarrow> Min (words_set (w # ws)) = p"
        using card_words_zero [of ws] by (simp_all add: card_words_set_Cons)
      then show ?thesis
        using False single first_bit_ok [OF p, of k] by (simp add: singleton_loop_found)
    qed
  qed
qed simp

lemma BmsSingletonMember_ok:
  "BmsSingletonMember a = Some (if card (bms_set a) = 1 then int (Min (bms_set a)) else -1)"
  by (cases a) (auto simp: BmsSingletonMember_def singleton_loop_ok)

fun mask_first :: "bitmapword \<Rightarrow> bitmapword list \<Rightarrow> bitmapword list" where
  "mask_first msk [] = []"
| "mask_first msk (w # ws) = (w AND msk) # ws"

lemma next_member_loop_ok:
  "words_zero (mask_first msk ws) \<Longrightarrow> next_member_loop msk k ws = Some (-2)"
  "\<not> words_zero (mask_first msk ws) \<Longrightarrow>
     \<exists>m. next_member_loop msk k ws = Some (64 * int k + int m) \<and> is_least (words_set (mask_first msk ws)) m"
proof (induction ws arbitrary: msk k)
  case (Cons w ws)
  have rest: "mask_first (NOT 0) ws = ws" by (cases ws) simp_all
  {
    case 1
    then show ?case using Cons.IH(1) [of "NOT 0" "Suc k"] rest by (simp add: Let_def split: if_splits)
  next
    case 2
    show ?case
    proof (cases "w AND msk = 0")
      case True
      then have "\<not> words_zero ws" using 2 by simp
      then obtain m where m: "next_member_loop (NOT 0) (Suc k) ws = Some (64 * int (Suc k) + int m)" "is_least (words_set ws) m"
        using Cons.IH(2) [of "NOT 0" "Suc k"] unfolding rest by blast
      then show ?thesis using True is_least_Cons_zero [OF m(2)] by (intro exI [of _ "m + 64"]) (simp add: Let_def)
    next
      case False
      then obtain p where p: "is_lowest (w AND msk) p" using lowest_exists by blast
      then show ?thesis using False first_bit_ok [OF p, of k] is_least_Cons_nonzero [OF p, of ws]
        by (intro exI [of _ p]) (simp add: Let_def)
    qed
  }
qed simp_all

lemma in_words_set_drop: "i \<in> words_set (drop k ws) \<longleftrightarrow> i + 64 * k \<in> words_set ws"
  by (auto simp: words_set_def add.commute [of k] less_diff_conv)

lemma in_mask_first:
  assumes "b < 64"
  shows "i \<in> words_set (mask_first (push_bit b (NOT 0)) ws) \<longleftrightarrow> i \<in> words_set ws \<and> b \<le> i"
proof (cases ws)
  case (Cons w ws')
  have "bit (w AND push_bit b (NOT 0)) i \<longleftrightarrow> bit w i \<and> b \<le> i"
    using bit_less_64 [of w i] by (auto simp: bit_simps)
  then show ?thesis using Cons assms by (auto simp: in_words_set_Cons)
qed simp

lemma BmsNextMember_ok:
  assumes "-1 \<le> prevbit"
  shows "BmsNextMember a prevbit =
    Some (if \<exists>i\<in>bms_set a. prevbit < int i then int (LEAST i. i \<in> bms_set a \<and> prevbit < int i) else -2)"
proof (cases a)
  case (Some ws)
  define p where "p = nat (prevbit + 1)"
  let ?k = "p div 64" and ?b = "p mod 64"
  let ?s = "words_set (mask_first (push_bit ?b (NOT 0)) (drop ?k ws))"
  have p: "int p = prevbit + 1" using assms by (simp add: p_def)
  have wb: "WORDNUM (prevbit + 1) = ?k" "BITNUM (prevbit + 1) = ?b"
    using assms unfolding p_def by (simp_all add: WORDNUM_BITNUM)
  have loop: "BmsNextMember a prevbit = next_member_loop (push_bit ?b (NOT 0)) ?k (drop ?k ws)"
    using assms Some by (simp add: BmsNextMember_def Let_def wb)
  have pk: "64 * ?k + ?b = p" by simp
  have mem: "i \<in> ?s \<longleftrightarrow> i + 64 * ?k \<in> words_set ws \<and> prevbit < int (i + 64 * ?k)" for i
  proof -
    have "?b \<le> i \<longleftrightarrow> int p \<le> int (i + 64 * ?k)" using pk unfolding of_nat_le_iff by linarith
    then show ?thesis
      using in_mask_first [of ?b i "drop ?k ws"] in_words_set_drop [of i ?k ws] p by linarith
  qed
  have up: "\<exists>j. i = j + 64 * ?k" if "prevbit < int i" for i
    using that p pk by (intro exI [of _ "i - 64 * ?k"]) linarith
  show ?thesis
  proof (cases "words_zero (mask_first (push_bit ?b (NOT 0)) (drop ?k ws))")
    case True
    then have "?s = {}" by simp
    then have "\<not> (\<exists>i\<in>words_set ws. prevbit < int i)" using mem up by blast
    then show ?thesis using Some loop next_member_loop_ok(1) [OF True] by simp
  next
    case False
    obtain m where m: "next_member_loop (push_bit ?b (NOT 0)) ?k (drop ?k ws) = Some (64 * int ?k + int m)" "is_least ?s m"
      using next_member_loop_ok(2) [OF False] by blast
    have mem_m: "m + 64 * ?k \<in> words_set ws" "prevbit < int (m + 64 * ?k)" using m(2) mem by (auto simp: is_least_def)
    have "(LEAST i. i \<in> words_set ws \<and> prevbit < int i) = m + 64 * ?k"
    proof (rule Least_equality)
      fix i assume i: "i \<in> words_set ws \<and> prevbit < int i"
      then obtain j where "i = j + 64 * ?k" using up by blast
      then show "m + 64 * ?k \<le> i" using i mem [of j] m(2) by (auto simp: is_least_def)
    qed (use mem_m in simp)
    moreover have "\<exists>i\<in>words_set ws. prevbit < int i" using mem_m by (rule bexI [rotated])
    ultimately show ?thesis using Some loop m(1) by simp
  qed
qed (use assms in \<open>simp add: BmsNextMember_def\<close>)

text \<open>
  The loop the comment of \<open>BmsNextMember\<close> recommends for visiting all members, with the member
  visited last.
\<close>

partial_function (option) bms_iterate :: "Bitmapset option \<Rightarrow> int \<Rightarrow> int list option" where
  "bms_iterate a x =
     (case BmsNextMember a x of
        None \<Rightarrow> None
      | Some y \<Rightarrow> if y \<ge> 0 then Option.bind (bms_iterate a y) (\<lambda>ys. Some (y # ys)) else Some [])"

declare bms_iterate.simps [code]

lemma finite_bms_set [simp]: "finite (bms_set a)"
  by (cases a) simp_all

lemma bms_iterate_from:
  "-1 \<le> x \<Longrightarrow> bms_iterate a x = Some (map int (sorted_list_of_set {i \<in> bms_set a. x < int i}))"
proof (induction "card {i \<in> bms_set a. x < int i}" arbitrary: x rule: less_induct)
  case less
  let ?S = "{i \<in> bms_set a. x < int i}"
  show ?case
  proof (cases "?S = {}")
    case True
    then have "BmsNextMember a x = Some (-2)" using BmsNextMember_ok [OF less.prems, of a] by auto
    then show ?thesis using True by (subst bms_iterate.simps) (simp only: option.case if_False sorted_list_of_set_empty, simp)
  next
    case False
    define m where "m = (LEAST i. i \<in> bms_set a \<and> x < int i)"
    have ex: "\<exists>i. i \<in> bms_set a \<and> x < int i" using False by auto
    have m: "m \<in> bms_set a" "x < int m" "\<And>i. i \<in> ?S \<Longrightarrow> m \<le> i"
      using LeastI_ex [OF ex] unfolding m_def by (auto intro: Least_le)
    have nm: "BmsNextMember a x = Some (int m)"
      using BmsNextMember_ok [OF less.prems, of a] ex unfolding m_def by auto
    have S: "?S = insert m {i \<in> bms_set a. int m < int i}" using m by (auto simp: le_less)
    have "card {i \<in> bms_set a. int m < int i} < card ?S" unfolding S by simp
    from less.hyps [OF this] have ih: "bms_iterate a (int m) = Some (map int (sorted_list_of_set {i \<in> bms_set a. int m < int i}))" by simp
    have "sorted_list_of_set ?S = m # sorted_list_of_set {i \<in> bms_set a. int m < int i}"
      unfolding S by (rule sorted_list_of_set.sorted_key_list_of_set_insert_remove [THEN trans]) (simp_all add: insort_is_Cons)
    then show ?thesis using nm ih by (subst bms_iterate.simps) simp
  qed
qed

lemma strip_zero_words_simps [simp]:
  "strip_zero_words [] = []"
  "strip_zero_words (w # ws) = (if words_zero ws then if w = 0 then [] else [w] else w # strip_zero_words ws)"
proof -
  have zero: "words_zero ws \<longleftrightarrow> (\<forall>w\<in>set ws. w = 0)" for ws by (induction ws) auto
  have "dropWhile (\<lambda>w. w = 0) (rev ws @ [w]) =
      (if words_zero ws then if w = 0 then [] else [w] else dropWhile (\<lambda>w. w = 0) (rev ws) @ [w])"
    unfolding zero by (simp add: dropWhile_append)
  then show "strip_zero_words (w # ws) = (if words_zero ws then if w = 0 then [] else [w] else w # strip_zero_words ws)"
    by (auto simp: strip_zero_words_def)
qed (simp add: strip_zero_words_def)

lemma strip_zero_words_empty: "strip_zero_words ws = [] \<longleftrightarrow> words_zero ws"
  by (induction ws) auto

lemma strip_zero_words_equal: "words_equal ls ss \<Longrightarrow> strip_zero_words ls = strip_zero_words ss"
proof (induction ls ss rule: words_equal.induct)
  case (1 longer)
  then show ?case by (simp add: strip_zero_words_empty)
next
  case (2 l ls s ss)
  then show ?case by (auto split: if_splits simp: strip_zero_words_empty [symmetric])
qed simp

text \<open>
  C40. The operations on bitmaps are the operations on the sets they stand for, as long as memory can be
  allocated: union, intersection, difference, adding and removing members, in the versions that make a
  new set and in those that recycle their inputs.
\<close>

theorem bms_operations_refine:
  "bms_set (BmsUnion True a b) = bms_set a \<union> bms_set b \<and>
   bms_set (BmsAddMembers True a b) = bms_set a \<union> bms_set b \<and>
   bms_set (BmsJoin a b) = bms_set a \<union> bms_set b \<and>
   bms_set (BmsIntersect True a b) = bms_set a \<inter> bms_set b \<and>
   bms_set (BmsIntMembers a b) = bms_set a \<inter> bms_set b \<and>
   bms_set (BmsDifference True a b) = bms_set a - bms_set b \<and>
   bms_set (BmsDelMembers a b) = bms_set a - bms_set b \<and>
   bms_set (BmsAddMember True a (int x)) = insert x (bms_set a) \<and>
   bms_set (BmsDelMember a (int x)) = bms_set a - {x} \<and>
   bms_set (BmsMakeSingleton True (int x)) = {x}"
proof -
  obtain ws where "BmsMakeSingleton True (int x) = Some ws" "words_set ws = {nat (int x)}"
    using BmsMakeSingleton_set [of "int x"] by auto
  then show ?thesis
    by (simp add: BmsUnion_set BmsAddMembers_set BmsJoin_set BmsIntersect_set BmsIntMembers_set BmsDifference_set
        BmsDelMembers_set BmsAddMember_set BmsDelMember_set)
qed

text \<open>
  The tests on bitmaps are exact, whatever the lengths of the arrays and also for null pointers:
  equality, inclusion, overlap, difference, emptiness and membership. The single pass of
  \<open>BmsSubsetCompare\<close> agrees with testing \<open>BmsIsSubset\<close> in both directions.
\<close>

lemma bms_tests_exact:
  "(BmsEqual a b \<longleftrightarrow> bms_set a = bms_set b) \<and>
   (BmsIsSubset a b \<longleftrightarrow> bms_set a \<subseteq> bms_set b) \<and>
   (BmsOverlap a b \<longleftrightarrow> bms_set a \<inter> bms_set b \<noteq> {}) \<and>
   (BmsNonemptyDifference a b \<longleftrightarrow> bms_set a - bms_set b \<noteq> {}) \<and>
   (BmsIsEmpty a \<longleftrightarrow> bms_set a = {}) \<and>
   (BmsIsMember x a \<longleftrightarrow> 0 \<le> x \<and> nat x \<in> bms_set a) \<and>
   BmsSubsetCompare a b =
     (if BmsIsSubset a b then if BmsIsSubset b a then BMS_EQUAL else BMS_SUBSET1
      else if BmsIsSubset b a then BMS_SUBSET2 else BMS_DIFFERENT)"
  by (simp add: BmsEqual_iff BmsIsSubset_iff BmsOverlap_iff BmsNonemptyDifference_iff BmsIsEmpty_iff BmsIsMember_iff
      BmsSubsetCompare_eq comparison_of_def)

text \<open>
  The byte-wise count with the table \<open>number_of_ones\<close> is the number of members. \<open>BmsMembership\<close>, which
  uses the bit trick \<open>HAS_MULTIPLE_ONES\<close> instead, agrees with it. \<open>BmsSingletonMember\<close> returns the only
  member of a set with one member, and -1 otherwise; its inner loop always ends.
\<close>

lemma bms_counts_exact:
  "BmsNumMembers a = int (card (bms_set a)) \<and>
   BmsMembership a = (if BmsNumMembers a = 0 then BMS_EMPTY_SET else if BmsNumMembers a = 1 then BMS_SINGLETON else BMS_MULTIPLE) \<and>
   BmsSingletonMember a = Some (if BmsNumMembers a = 1 then int (Min (bms_set a)) else -1)"
  by (simp add: BmsNumMembers_card BmsMembership_card BmsSingletonMember_ok)

text \<open>
  \<open>BmsFirstMember\<close> returns the smallest member and removes exactly it, or returns -1 on an empty set.
\<close>

lemma bms_first_member:
  "\<exists>a'. BmsFirstMember a = Some (if BmsIsEmpty a then -1 else int (Min (bms_set a)), a') \<and>
    bms_set a' = bms_set a - {Min (bms_set a)}"
proof (cases a)
  case (Some ws)
  show ?thesis
  proof (cases "words_zero ws")
    case True
    then have "words_set ws = {}" by simp
    then have "words_set ws - X = words_set ws" for X by (metis empty_Diff)
    then show ?thesis using Some True first_member_loop_zero [OF True, of 0] by (simp add: BmsFirstMember_def BmsIsEmpty_def)
  next
    case False
    obtain m ws' where m: "first_member_loop 0 ws = Some (64 * int 0 + int m, ws')" "is_least (words_set ws) m"
      "words_set ws' = words_set ws - {m}" using first_member_loop_nonzero [OF False] by blast
    have "Min (words_set ws) = m" using m(2) by (auto simp: is_least_def intro!: Min_eqI)
    then show ?thesis using Some False m(1,3) by (simp add: BmsFirstMember_def BmsIsEmpty_def)
  qed
qed (simp add: BmsFirstMember_def BmsIsEmpty_def)

lemma bms_set_fold_add: "bms_set (fold (\<lambda>x a. BmsAddMember True a (int x)) xs a) = set xs \<union> bms_set a"
  by (induction xs arbitrary: a) (simp_all add: BmsAddMember_set)

text \<open>
  Iterating with \<open>BmsNextMember\<close> from -1 ends and visits all members once, in increasing order.
\<close>

lemma bms_iterate_members:
  "bms_iterate a (-1) = Some (map int (sorted_list_of_set (bms_set a)))"
proof -
  have "{i \<in> bms_set a. -1 < int i} = bms_set a" by auto
  then show ?thesis using bms_iterate_from [of "-1" a] by simp
qed

text \<open>
  Building a set with \<open>BmsAddMember\<close> from any sequence of members and iterating over it gives back the
  members, sorted and without repetitions.
\<close>

lemma bms_round_trip:
  "bms_iterate (fold (\<lambda>x a. BmsAddMember True a (int x)) xs None) (-1) = Some (map int (sorted_list_of_set (set xs)))"
proof -
  have "{i \<in> bms_set a. -1 < int i} = bms_set a" for a by auto
  then show ?thesis using bms_iterate_from [of "-1" "fold (\<lambda>x a. BmsAddMember True a (int x)) xs None"]
    by (simp add: bms_set_fold_add)
qed

text \<open>
  Sets that are equal for \<open>BmsEqual\<close> have the same hash value, although their arrays may have
  different lengths, for every hash function on the words.
\<close>

lemma BmsHashValue_equal:
  assumes "BmsEqual a b"
  shows "BmsHashValue aligned a = BmsHashValue aligned' b"
proof (cases a; cases b)
  fix aw bw assume a: "a = Some aw" and b: "b = Some bw"
  with assms have "strip_zero_words aw = strip_zero_words bw"
    using strip_zero_words_equal [of aw bw] strip_zero_words_equal [of bw aw] by (auto simp: BmsEqual_def split: if_splits)
  moreover have "hash_any aligned k = hash_any aligned' k" for k
    using hash_any_paths [of k] by (cases aligned; cases aligned') simp_all
  ultimately show ?thesis using a b by (simp add: BmsHashValue_def split: list.split)
qed (use assms in \<open>auto simp: BmsEqual_def BmsIsEmpty_def BmsHashValue_def strip_zero_words_empty [symmetric]\<close>)

end
