(* ===== verification/Spec2Isabelle.thy ===== *)
theory Spec2Isabelle
  imports Table_Lock_Progress Lock_Entry_Inv Transaction_Steps Wait_For_Graph Tac_Tracker Bitmapset_Sets
begin

text \<open>
  A verification library for DStore, the storage engine of \<open>open-dstore\<close>. It models the lock
  tables and the table locks, the transactions with their locks, savepoints and snapshots, the commit
  sequence numbers, and the algorithms these parts are built on, and proves that they do what
  they promise.

  \<^bold>\<open>The program and how its parts interact.\<close> A transaction (\<open>src/transaction/dstore_transaction.cpp\<close>)
  takes locks through a table of remembered locks (\<open>dstore_resowner.cpp\<close>), sets savepoints
  (\<open>dstore_savepoint.cpp\<close>) that remember a position in that table, reads through snapshots and
  cursors (\<open>dstore_cursor.cpp\<close>) that hold a commit sequence number, and at commit draws a new
  number from the CSN manager (\<open>dstore_csn_mgr.cpp\<close>). The CSN manager decides below which number
  old versions may be recycled; the tracker of orphan transactions (\<open>dstore_tac_snapshot.cpp\<close>, a
  binary heap) holds that number back while a client may still reconnect. The lock manager
  (\<open>src/lock\<close>) keeps one entry per lockable object with a skip list of granted and a list of
  waiting requests, in a hash table (\<open>dstore_lock_hash_table.cpp\<close>). Every thread has a table of its
  own (\<open>dstore_lock_thrd_local.cpp\<close>) in which it counts what it holds and takes weak table locks
  without the main table, the fast path; the table lock manager (\<open>dstore_table_lock_mgr.cpp\<close>)
  announces strong locks and moves the weak ones out of their way. The deadlock detector deletes
  from the wait-for graph what is not in a cycle. Hash functions and bitmap sets are shared algorithms (\<open>src/common/algorithm\<close>).

  \<^bold>\<open>Conventions.\<close> Definitions keep the names of the source; a name that would clash has the class
  in front (\<open>Savepoint_Rollback\<close>) or behind (\<open>Init_csn\<close>). Words have the width of the source and
  wrap around, with exceptions stated in the theories: the counters of the wait-for graph, sizes of the
  heap and times of the tracker are numbers. A failed assertion (\<open>StorageAssert\<close>,
  \<open>StorageReleasePanic\<close>) and a panic are \<open>None\<close>; the assertions of the lock entries and of the main lock
  table, whose operations are total functions, are predicates of their own (\<open>Lock_Asserts\<close>); an error code set together with \<open>DSTORE_FAIL\<close> is \<open>Inl\<close> of the code, \<open>DSTORE_SUCC\<close> is
  \<open>Inr\<close> or the constructor of \<open>RetStatus\<close>. Results of code outside a component (an allocation, a
  read of the control file, a transaction slot, the clock) are arguments, so a theorem holds for
  every behaviour of that code. Latches are not modelled: a section of code under one latch
  is one step.

  \<^bold>\<open>Theories and what they show.\<close>
  \<^item> \<open>Prelude\<close>: word types, \<open>RetStatus\<close>, shared facts about bits, lists and queues.
  \<^item> \<open>Lock_Mode\<close>, \<open>Lock_Tag\<close>, \<open>Lock_Request\<close>: modes, the conflict table, tags with their setters,
    descriptions and comparison, and requests with their order (locale \<open>request_order\<close>). Shown:
    the comparison separates exactly the lockable objects the setters describe.
  \<^item> \<open>Lock_SkipList\<close>: \<open>LockRequestSkipList\<close>, level by level; every operation refines a sorted list
    without duplicates (locale \<open>granted_queue\<close>, interpreted on the skip list).
  \<^item> \<open>Lock_Entry\<close>, \<open>Lock_Entry_Inv\<close>: \<open>LockEntry\<close>, the free list of requests and the early deadlock
    check. The states an entry can reach are an inductive relation over its operations. Shown:
    conflicting locks have one holder, the head of the queue is really blocked, masks and counters
    are exact, waiters are served in order, the early deadlock check reports only real deadlocks as
    long as the requester has no waiting request of its own, and an example of a false report when it has.
  \<^item> \<open>Local_Lock\<close>, \<open>Local_Lock_Inv\<close>, \<open>Local_Lock_Spec\<close>: \<open>LocalLock\<close> and \<open>ThreadLocalLock\<close>, with
    slots, the hash table behind them, what the thread waits for, and the counts of announced strong
    locks. Shown: the two places of an entry are one map, every operation changes the numbers of
    locks held as it says, the fast path leaves no trace, and a state of the wait for several locks
    in which a deadlock detector follows a null pointer.
  \<^item> \<open>Lock_Table\<close>, \<open>Lock_Table_Inv\<close>: \<open>LockHashTable\<close> over the lock entries; what enqueue and dequeue do
    to the sets of held and queued requests of a tag.
  \<^item> \<open>Table_Lock\<close>, \<open>Table_Lock_Inv\<close>, \<open>Lock_Asserts\<close>, \<open>Table_Lock_Safety\<close>, \<open>Table_Lock_Progress\<close>:
    \<open>TableLockMgr\<close> with \<open>LockInMainLockTable\<close> and
    \<open>UnlockInMainLockTable\<close> of \<open>LockMgr\<close>, its calls cut at the latches (\<open>tl_pc\<close> is where a thread is)
    and interleaved by the step relation \<open>tl_step\<close>. Shown, for every schedule of any number of
    threads: conflicting table locks have one owner, the main table and the strong-lock counts are
    exact, calls can begin and go on without failing an assertion, neither their own nor one of the
    lock entries, and a thread that runs alone gets an uncontended lock in a bounded number of steps.
  \<^item> \<open>Wait_For_Graph\<close>: \<open>WaitForGraph\<close>; the deletion leaves exactly the vertices that keep each
    other waiting, so every deadlock is reported and nothing else is.
  \<^item> \<open>Csn_Mgr\<close>: \<open>CsnMgr\<close> as one thread runs it and as a step relation of many threads with crashes;
    no number is issued twice, also after a crash, the minimum for recycling is safe, and a call
    returns as long as no reservation has failed; after a failed one the next call waits for ever.
  \<^item> \<open>Binary_Heap\<close>, \<open>Tac_Tracker\<close>: the heap (locale \<open>heap_order\<close>) and the tracker of orphan
    transactions, whose steps keep the heap ordered and the earliest entry on top.
  \<^item> \<open>Lock_Resource\<close>, \<open>Lock_Resource_Inv\<close>: \<open>LockResource\<close> with its records, chained blocks and
    iterator; it refines a stack of lock records per lock (locale \<open>record_remover\<close> for the two
    ways records are removed).
  \<^item> \<open>Savepoint\<close>, \<open>Snapshot\<close>: savepoint lists, cursors, snapshots and the visibility of a
    transaction identifier to a snapshot.
  \<^item> \<open>Transaction\<close>, \<open>Transaction_Inv\<close>, \<open>Transaction_Steps\<close>: the states and block states of a
    transaction, start, commit and abort by stages, callbacks, slots, undo positions, and the calls
    a client can make as a labelled step relation. Shown: rolling back to
    a savepoint restores the locks held when it was made, commit and abort end the transaction
    with every lock released, locks and savepoints stay well-formed under any calls in any order
    (\<open>trx_call\<close>), and what happens when a stage fails: a transaction counted out twice, one that stays
    counted, a slot that was never allocated.
  \<^item> \<open>Hash_Fn\<close>: the hash functions on bytes; the aligned and unaligned paths agree.
  \<^item> \<open>Bitmapset\<close>, \<open>Bitmapset_Sets\<close>: bitmap sets word by word; every operation refines the operation
    on sets of numbers.
  \<^item> This theory: a property of the CSN manager and the tracker together.

  \<^bold>\<open>Bounds and fuel.\<close> Counters are 32-bit words; an invariant that reads them as numbers carries
  the bound that keeps them from wrapping (\<open>room\<close>: fewer than 2^32 - 1 requests in one entry; \<open>room_local\<close>, \<open>grant_room\<close>, \<open>table_room\<close>,
  \<open>call_room\<close>: the same for the tables of threads, the times a thread holds a lock, the main lock
  table and the counts of strong locks). No machine has the memory to reach them.
  Loops are structural recursions or have a termination proof; the loop of
  \<open>GetSmallestOrphanCsn\<close>, which ends only if the clock advances or the heap empties, is a
  \<open>partial_function\<close> whose termination is a property, and the retry loop of \<open>GetNextCsn\<close> is
  shown to return when no reservation has failed. \<open>run_call\<close>, which runs the steps of one thread, takes
  the number of steps; \<open>8 + 3 n\<close> for \<open>n\<close> threads are shown to be enough.

  \<^bold>\<open>Not modelled.\<close> The parts of the engine whose behaviour is binary page layout, file I/O or
  atomic instructions: buffer pool, log, undo records, heap and index pages, tablespaces, control
  files other than the CSN record, instance and threads, memory contexts, light-weight locks. The
  transaction manager and the deadlock detector's collection of edges depend on them; the modelled
  components take their results as arguments. How long a thread sleeps in a wait
  (\<open>LockWaitScheduler\<close>) is left open: the steps let a wait end by a wake-up, a deadlock, a timeout or
  a cancel at any time. Promoting a standby (\<open>PromoteInitialize\<close>) and the update of the
  reserved number by redo are no steps of the relation of the CSN manager. \<open>LockMgr::Lock\<close> and \<open>Unlock\<close> are the same calls without announcement. Lazy
  locks (\<open>enableLazyLock\<close>) are off in the models: they count by atomic instructions and poll. Functions that only print or free memory are left out.
\<close>

section \<open>Properties that span components\<close>

text \<open>
  C20. The snapshot of an orphan transaction is not recycled during its grace period. After its number was
  added to the tracker, whatever calls of the tracker follow, the number below which
  \<open>CsnMgr::GetRecycleCsnMin\<close> allows data to be recycled does not exceed it when
  \<open>UpdateLocalCsnMin\<close> runs before the grace period is over.
\<close>

theorem orphan_snapshot_not_recycled:
  assumes "gp \<noteq> 0" "csn \<noteq> INVALID_CSN" "tac_ok t0" "tac_timely gp now0 t0"
    and "AddTacOrphanTrx gp now0 True True csn t0 = Some t1"
    and "(tac_step gp)\<^sup>*\<^sup>* (now0, t1) (now, t)" "mono clock" "now \<le> clock 0" "\<And>k. clock k \<le> now0 + gp"
    and "UpdateLocalCsnMin threadMin (map_option fst (GetSmallestOrphanCsn gp clock free 0 t)) m = Some m'"
  shows "GetRecycleCsnMin m' \<le> csn"
proof -
  obtain c t' where c: "GetSmallestOrphanCsn gp clock free 0 t = Some (c, t')" "c \<noteq> INVALID_CSN" "c \<le> csn"
    using tac_protected [OF assms(1-9)] by blast
  have "m_localCsnMin m' \<le> c"
    using UpdateLocalCsnMin_le(4) [OF assms(10)] c by (simp add: DstoreCsnIsValid_def)
  then show ?thesis using GetRecycleCsnMin_le(1) [of m'] c(3) by simp
qed

theorem orphan_snapshot_not_recycled_witness:
  "\<exists>t1 m'. AddTacOrphanTrx 60 0 True True 7 (Init True) = Some t1 \<and>
    UpdateLocalCsnMin 20 (map_option fst (GetSmallestOrphanCsn 60 (\<lambda>_. 10) (\<lambda>_. True) 0 t1))
      ((CsnMgr_new 10)\<lparr>m_nextCsn := 30\<rparr>) = Some m' \<and> GetRecycleCsnMin m' \<le> 7"
proof -
  obtain t1 where t1: "AddTacOrphanTrx 60 0 True True 7 (Init True) = Some t1"
    using AddTacOrphanTrx_ok [OF Init_ok, of 60 7 0] by (auto simp: INVALID_CSN_def)
  have "\<exists>m'. UpdateLocalCsnMin 20 (map_option fst (GetSmallestOrphanCsn 60 (\<lambda>_. 10) (\<lambda>_. True) 0
      (the (AddTacOrphanTrx 60 0 True True 7 (Init True))))) ((CsnMgr_new 10)\<lparr>m_nextCsn := 30\<rparr>) = Some m'"
    by (rule exI, code_simp)
  then obtain m' where m': "UpdateLocalCsnMin 20 (map_option fst (GetSmallestOrphanCsn 60 (\<lambda>_. 10) (\<lambda>_. True) 0 t1))
      ((CsnMgr_new 10)\<lparr>m_nextCsn := 30\<rparr>) = Some m'" using t1 by auto
  have "tac_timely 60 0 (Init True)" by (simp add: tac_timely_def tac_entries_def Init_def BinaryheapAllocate_def)
  from orphan_snapshot_not_recycled [OF _ _ Init_ok this t1 rtranclp.rtrancl_refl _ _ _ m']
  have "GetRecycleCsnMin m' \<le> 7" by (simp add: INVALID_CSN_def mono_def)
  then show ?thesis using t1 m' by blast
qed

end
